(* ===== verification/Prelude.thy ===== *)
theory Prelude
  imports Main "HOL-Library.Word" "HOL-Library.Multiset" "HOL-Library.Monad_Syntax"
begin

text \<open>
  Shared vocabulary of the development: the machine types of the C sources, the
  convention for undefined behaviour, and generic lemmas on options, lists and maps.

  A C operation that may read or write outside an object, or that may fail an
  \<^verbatim>\<open>assert\<close>, is modelled by a function into \<^typ>\<open>'a option\<close>: \<^const>\<open>None\<close> is the
  undefined behaviour (or the failed assertion), \<^term>\<open>Some r\<close> a normal return. A theorem
  that an operation equals \<^term>\<open>Some r\<close> is therefore also a memory-safety theorem.
\<close>

section \<open>Machine types\<close>

type_synonym byte = "8 word"
type_synonym uint = "32 word"
type_synonym ulong = "64 word"

abbreviation chr :: "char \<Rightarrow> byte" where
  "chr c \<equiv> of_char c"

section \<open>Collections of facts\<close>

named_theorems defs \<open>definitions unfolded together\<close>
named_theorems safe \<open>facts that an operation returns\<close>

section \<open>Options\<close>

lemma bind_SomeI: "m = Some x \<Longrightarrow> f x = r \<Longrightarrow> Option.bind m f = r"
  by simp

lemma bind_SomeE:
  assumes "Option.bind m f = Some r"
  obtains x where "m = Some x" "f x = Some r"
  using assms by (auto simp: bind_eq_Some_conv)

section \<open>Lists and association lists\<close>

lemma mset_insert_before: "mset (takeWhile P ys @ x # dropWhile P ys) = add_mset x (mset ys)"
proof -
  have "mset (takeWhile P ys @ x # dropWhile P ys) = add_mset x (mset (takeWhile P ys @ dropWhile P ys))"
    by (simp del: takeWhile_dropWhile_id)
  then show ?thesis by (simp only: takeWhile_dropWhile_id)
qed

lemma mset_concat_update:
  "i < length xss \<Longrightarrow> mset (concat (xss[i := ys])) + mset (xss ! i) = mset (concat xss) + mset ys"
proof (induction xss arbitrary: i)
  case Nil
  then show ?case by simp
next
  case (Cons xs xss)
  show ?case
  proof (cases i)
    case 0
    then show ?thesis by (simp add: ac_simps)
  next
    case (Suc j)
    with Cons.prems have "j < length xss" by simp
    from Cons.IH [OF this] Suc show ?thesis by (simp add: ac_simps)
  qed
qed

lemma mset_concat_replicate_Nil [simp]: "concat (replicate n []) = []"
  by (induction n) auto

lemma map_of_mset_cong:
  assumes "mset xs = mset ys" "distinct (map fst xs)"
  shows "map_of xs = map_of ys"
proof
  fix k
  have "mset (map fst xs) = mset (map fst ys)"
    using assms(1) by simp
  then have "distinct (map fst ys)"
    using assms(2) mset_eq_imp_distinct_iff by blast
  moreover have "set xs = set ys"
    using assms(1) by (rule mset_eq_setD)
  ultimately have "\<And>v. map_of xs k = Some v \<longleftrightarrow> map_of ys k = Some v"
    using assms(2) by (simp only: map_of_eq_Some_iff)
  then show "map_of xs k = map_of ys k"
    by (metis option.exhaust)
qed

lemma concat_mem_nth: "x \<in> set (concat xss) \<longleftrightarrow> (\<exists>i < length xss. x \<in> set (xss ! i))"
  by (auto simp: Bex_def in_set_conv_nth [of _ xss])

lemma length_concat_update:
  assumes "i < length xss"
  shows "length (concat (xss[i := ys])) + length (xss ! i) = length (concat xss) + length ys"
  using arg_cong [OF mset_concat_update [OF assms, of ys], of size]
  by (simp only: size_union size_mset)

section \<open>64-bit words\<close>

unbundle bit_operations_syntax

lemma unat_2p: "k < 64 \<Longrightarrow> unat (2 ^ k :: ulong) = 2 ^ k"
proof -
  assume "k < 64"
  then have "(2::nat) ^ k < 2 ^ 64" by (intro power_strict_increasing) simp_all
  moreover have "(2 ^ k :: ulong) = of_nat (2 ^ k)" by simp
  ultimately show ?thesis by (simp add: unat_of_nat take_bit_nat_eq_self del: of_nat_power)
qed

lemma unat_and_mask: "unat (h AND mask k) = unat h mod 2 ^ k"
  by (simp add: take_bit_eq_mask [symmetric] unsigned_take_bit_eq)
     (simp add: take_bit_eq_mod)

text \<open>A value computed in the type \<^verbatim>\<open>int\<close>; leaving its range is undefined.\<close>

definition int32 :: "int \<Rightarrow> int option" where
  "int32 v = (if - (2 ^ 31) \<le> v \<and> v < 2 ^ 31 then Some v else None)"

lemma int32_Some: "- (2 ^ 31) \<le> v \<Longrightarrow> v < 2 ^ 31 \<Longrightarrow> int32 v = Some v"
  by (simp add: int32_def)

lemma word_zero_iff: "w = 0 \<longleftrightarrow> (\<forall>i. \<not> bit w i)" for w :: "'a::len word"
  by (auto intro: bit_word_eqI)

lemma unat_plus_1: "unat (u::ulong) + 1 < 2 ^ 64 \<Longrightarrow> unat (u + 1) = Suc (unat u)"
  by (simp add: unat_word_ariths)

lemma unat_of_nat_64: "n < 2 ^ 64 \<Longrightarrow> unat (of_nat n :: ulong) = n"
  by (simp add: unat_of_nat take_bit_nat_eq_self)

lemma unat_lt_64: "unat (u::ulong) < 2 ^ 64"
  using unsigned_less [of u] by simp

lemma unat_minus_of_nat: "n \<le> unat (u::ulong) \<Longrightarrow> unat (u - of_nat n) = unat u - n"
proof -
  assume n: "n \<le> unat u"
  then have "unat (of_nat n :: ulong) = n"
    using unat_lt_64 [of u] by (intro unat_of_nat_64) linarith
  with n show ?thesis
    by (subst unat_sub) (simp_all add: word_le_nat_alt)
qed

lemma sint_word_of_int_64: "- (2 ^ 63) \<le> x \<Longrightarrow> x < 2 ^ 63 \<Longrightarrow> sint (word_of_int x :: ulong) = x"
  unfolding int_word_sint by simp

lemma sint_minus_unat:
  fixes v :: ulong
  shows "unat v \<le> 2 ^ 63 \<Longrightarrow> sint (- v) = - int (unat v)" "unat v < 2 ^ 63 \<Longrightarrow> sint v = int (unat v)"
proof -
  define n where "n = int (unat v)"
  have v: "- v = word_of_int (- n)" "v = word_of_int n" by (simp_all add: n_def)
  have n0: "0 \<le> n" by (simp add: n_def)
  show "sint (- v) = - int (unat v)" if "unat v \<le> 2 ^ 63"
  proof -
    have "n \<le> int (2 ^ 63)" using that unfolding n_def by (simp only: of_nat_le_iff)
    then have "n \<le> 2 ^ 63" by simp
    then show ?thesis unfolding v(1) n_def [symmetric] using n0 by (intro sint_word_of_int_64) simp_all
  qed
  show "sint v = int (unat v)" if "unat v < 2 ^ 63"
  proof -
    have "n < int (2 ^ 63)" using that unfolding n_def by (simp only: of_nat_less_iff)
    then have "n < 2 ^ 63" by simp
    then have "sint (word_of_int n :: ulong) = n" using n0 by (intro sint_word_of_int_64) simp_all
    then show ?thesis by (simp only: n_def [symmetric] v(2) [symmetric])
  qed
qed

end
