(* ===== verification/Dict.thy ===== *)
theory Dict
  imports Prelude "HOL-Library.While_Combinator"
begin

unbundle bit_operations_syntax

text \<open>
  The incrementally rehashed hash table of \<^verbatim>\<open>redis/src/dict.c\<close> and \<^verbatim>\<open>dict.h\<close>.

  A bucket (the \<^verbatim>\<open>next\<close> chain of \<^verbatim>\<open>dictEntry\<close>s) is the list of its entries, a table the
  list of its buckets, and the null table the empty list; a pointer to an entry is the
  triple of its table number, bucket index and position in the chain.
  \<^verbatim>\<open>unsigned long\<close> and \<^verbatim>\<open>uint64_t\<close> are 64-bit words. The hash function, the comparison and
  the duplication callbacks are fields of \<open>dictType\<close>, as in the code. Destructors and
  \<^verbatim>\<open>zfree\<close> only give memory back and leave no trace in the model. The file-scope
  variable \<^verbatim>\<open>dict_can_resize\<close> is the argument \<open>can_resize\<close>.
\<close>

section \<open>Data\<close>

datatype status = DICT_OK | DICT_ERR

record ('k, 'v) dictType =
  hashFunction :: "'k \<Rightarrow> ulong"
  keyDup :: "('k \<Rightarrow> 'k) option"
  valDup :: "('v \<Rightarrow> 'v) option"
  keyCompare :: "('k \<Rightarrow> 'k \<Rightarrow> bool) option"

record ('k, 'v) dictEntry =
  entry_key :: 'k
  entry_val :: "'v option" \<comment> \<open>\<^const>\<open>None\<close>: allocated, not yet set\<close>

record ('k, 'v) dictht =
  ht_table :: "('k, 'v) dictEntry list list"
  ht_size :: ulong
  ht_sizemask :: ulong
  ht_used :: ulong

record ('k, 'v) dict =
  dict_type :: "('k, 'v) dictType"
  ht0 :: "('k, 'v) dictht"
  ht1 :: "('k, 'v) dictht"
  rehashidx :: int
  iterators :: ulong

type_synonym entry_ref = "nat \<times> nat \<times> nat"

definition DICT_HT_INITIAL_SIZE :: ulong where
  "DICT_HT_INITIAL_SIZE = 4"

definition dict_force_resize_ratio :: ulong where
  "dict_force_resize_ratio = 5"

definition LONG_MAX :: ulong where
  "LONG_MAX = 2 ^ 63 - 1"

definition dictCompareKeys :: "('k, 'v) dictType \<Rightarrow> 'k \<Rightarrow> 'k \<Rightarrow> bool" where
  "dictCompareKeys t a b = (case keyCompare t of Some cmp \<Rightarrow> cmp a b | None \<Rightarrow> a = b)"

definition dictSetKey :: "('k, 'v) dictType \<Rightarrow> 'k \<Rightarrow> 'k" where
  "dictSetKey t k = (case keyDup t of Some dup \<Rightarrow> dup k | None \<Rightarrow> k)"

definition dictDupVal :: "('k, 'v) dictType \<Rightarrow> 'v \<Rightarrow> 'v" where
  "dictDupVal t v = (case valDup t of Some dup \<Rightarrow> dup v | None \<Rightarrow> v)"

definition dictHashKey :: "('k, 'v) dict \<Rightarrow> 'k \<Rightarrow> ulong" where
  "dictHashKey d k = hashFunction (dict_type d) k"

definition dictSlots :: "('k, 'v) dict \<Rightarrow> ulong" where
  "dictSlots d = ht_size (ht0 d) + ht_size (ht1 d)"

definition dictSize :: "('k, 'v) dict \<Rightarrow> ulong" where
  "dictSize d = ht_used (ht0 d) + ht_used (ht1 d)"

definition dictIsRehashing :: "('k, 'v) dict \<Rightarrow> bool" where
  "dictIsRehashing d \<longleftrightarrow> rehashidx d \<noteq> -1"

section \<open>Creation and resizing\<close>

definition dictReset :: "('k, 'v) dictht" where
  "dictReset = \<lparr>ht_table = [], ht_size = 0, ht_sizemask = 0, ht_used = 0\<rparr>"

definition dictCreate :: "('k, 'v) dictType \<Rightarrow> ('k, 'v) dict" where
  "dictCreate t = \<lparr>dict_type = t, ht0 = dictReset, ht1 = dictReset,
     rehashidx = -1, iterators = 0\<rparr>"

text \<open>The doubling loop of \<^verbatim>\<open>_dictNextPower\<close>; \<^const>\<open>None\<close> if it did not end.\<close>

definition dictNextPower :: "ulong \<Rightarrow> ulong option" where
  "dictNextPower sz =
     (if sz \<ge> LONG_MAX then Some (LONG_MAX + 1)
      else while_option (\<lambda>i. \<not> i \<ge> sz) (\<lambda>i. i * 2) DICT_HT_INITIAL_SIZE)"

text \<open>\<^verbatim>\<open>zcalloc(realsize*sizeof(dictEntry*))\<close>: the byte count wraps at 64 bits.\<close>

definition new_table :: "ulong \<Rightarrow> ('k, 'v) dictEntry list list" where
  "new_table realsize = replicate (unat (realsize * 8) div 8) []"

definition dictExpand :: "('k, 'v) dict \<Rightarrow> ulong \<Rightarrow> (status \<times> ('k, 'v) dict) option" where
  "dictExpand d sz =
     (if dictIsRehashing d \<or> ht_used (ht0 d) > sz then Some (DICT_ERR, d)
      else do {
        realsize \<leftarrow> dictNextPower sz;
        if realsize = ht_size (ht0 d) then Some (DICT_ERR, d)
        else
          let n = \<lparr>ht_table = new_table realsize, ht_size = realsize,
                   ht_sizemask = realsize - 1, ht_used = 0\<rparr>
          in if ht_table (ht0 d) = [] then Some (DICT_OK, d\<lparr>ht0 := n\<rparr>)
             else Some (DICT_OK, d\<lparr>ht1 := n, rehashidx := 0\<rparr>)
      })"

definition dictResize :: "bool \<Rightarrow> ('k, 'v) dict \<Rightarrow> (status \<times> ('k, 'v) dict) option" where
  "dictResize can_resize d =
     (if \<not> can_resize \<or> dictIsRehashing d then Some (DICT_ERR, d)
      else let minimal = ht_used (ht0 d);
               minimal = (if minimal < DICT_HT_INITIAL_SIZE then DICT_HT_INITIAL_SIZE
                          else minimal)
           in dictExpand d minimal)"

definition dictExpandIfNeeded :: "bool \<Rightarrow> ('k, 'v) dict \<Rightarrow> (status \<times> ('k, 'v) dict) option" where
  "dictExpandIfNeeded can_resize d =
     (if dictIsRehashing d then Some (DICT_OK, d)
      else if ht_size (ht0 d) = 0 then dictExpand d DICT_HT_INITIAL_SIZE
      else if ht_used (ht0 d) \<ge> ht_size (ht0 d) \<and>
              (can_resize \<or> ht_used (ht0 d) div ht_size (ht0 d) > dict_force_resize_ratio)
      then dictExpand d (ht_used (ht0 d) * 2)
      else Some (DICT_OK, d))"

section \<open>Incremental rehashing\<close>

text \<open>The search for a non-empty bucket: \<^verbatim>\<open>(rehashidx, empty_visits, gave up)\<close>. \<^verbatim>\<open>empty_visits\<close> and \<^verbatim>\<open>n\<close> below are of
  type \<^verbatim>\<open>int\<close>; a decrement of the smallest number is undefined.\<close>

function rehash_skip :: "'b list list \<Rightarrow> int \<Rightarrow> int \<Rightarrow> (int \<times> int \<times> bool) option" where
  "rehash_skip tab idx ev =
     (if idx < 0 \<or> int (length tab) \<le> idx then None
      else if tab ! nat idx \<noteq> [] then Some (idx, ev, False)
      else if ev \<le> - (2 ^ 31) then None
      else if ev - 1 = 0 then Some (idx + 1, ev - 1, True)
      else rehash_skip tab (idx + 1) (ev - 1))"
  by pat_completeness auto
termination
  by (relation "measure (\<lambda>(tab, idx, ev). nat (int (length tab) - idx))") auto

declare rehash_skip.simps [simp del]

text \<open>Moving one chain, entry by entry, to the heads of the chains of the new table.\<close>

fun rehash_bucket :: "('k, 'v) dictType \<Rightarrow> ('k, 'v) dictEntry list \<Rightarrow> ('k, 'v) dictht \<Rightarrow>
    ('k, 'v) dictht \<Rightarrow> (('k, 'v) dictht \<times> ('k, 'v) dictht) option" where
  "rehash_bucket t [] h0 h1 = Some (h0, h1)"
| "rehash_bucket t (de # nextde) h0 h1 =
     (let h = unat (hashFunction t (entry_key de) AND ht_sizemask h1) in
      if h < length (ht_table h1) then
        rehash_bucket t nextde
          (h0\<lparr>ht_used := ht_used h0 - 1\<rparr>)
          (h1\<lparr>ht_table := (ht_table h1)[h := de # ht_table h1 ! h],
              ht_used := ht_used h1 + 1\<rparr>)
      else None)"

text \<open>The outer loop of \<^verbatim>\<open>dictRehash\<close>; the flag is the early \<^verbatim>\<open>return 1\<close>.\<close>

function dictRehash_loop :: "int \<Rightarrow> int \<Rightarrow> ('k, 'v) dict \<Rightarrow> (bool \<times> ('k, 'v) dict) option" where
  "dictRehash_loop n ev d =
     (if n \<le> - (2 ^ 31) then None
      else if n = 0 \<or> ht_used (ht0 d) = 0 then Some (False, d)
      else if \<not> ht_size (ht0 d) > word_of_int (rehashidx d) then None
      else do {
        (idx, ev', stop) \<leftarrow> rehash_skip (ht_table (ht0 d)) (rehashidx d) ev;
        if stop then Some (True, d\<lparr>rehashidx := idx\<rparr>)
        else do {
          (h0, h1) \<leftarrow> rehash_bucket (dict_type d) (ht_table (ht0 d) ! nat idx) (ht0 d) (ht1 d);
          dictRehash_loop (n - 1) ev'
            (d\<lparr>ht0 := h0\<lparr>ht_table := (ht_table h0)[nat idx := []]\<rparr>, ht1 := h1,
               rehashidx := idx + 1\<rparr>)
        }
      })"
  by pat_completeness auto
termination by (relation "measure (\<lambda>(n, ev, d). nat (n + 2 ^ 31))") auto

declare dictRehash_loop.simps [simp del]

definition dictRehash :: "('k, 'v) dict \<Rightarrow> int \<Rightarrow> (bool \<times> ('k, 'v) dict) option" where
  "dictRehash d n = do {
     empty_visits \<leftarrow> int32 (n * 10);
     if \<not> dictIsRehashing d then Some (False, d)
     else do {
       (early, d') \<leftarrow> dictRehash_loop n empty_visits d;
       if early then Some (True, d')
       else if ht_used (ht0 d') = 0 then
         Some (False, d'\<lparr>ht0 := ht1 d', ht1 := dictReset, rehashidx := -1\<rparr>)
       else Some (True, d')
     }
   }"

text \<open>
  \<^verbatim>\<open>dictRehashMilliseconds\<close>: \<open>elapsed i\<close> is \<^verbatim>\<open>timeInMilliseconds()-start\<close> at its \<open>i\<close>-th
  reading, supplied by the environment.
\<close>

partial_function (option) rehash_ms_loop :: "(nat \<Rightarrow> int) \<Rightarrow> nat \<Rightarrow> int \<Rightarrow> int \<Rightarrow> ('k, 'v) dict \<Rightarrow>
    (int \<times> ('k, 'v) dict) option" where
  "rehash_ms_loop elapsed i ms rehashes d =
     Option.bind (dictRehash d 100) (\<lambda>(more, d).
       if \<not> more then Some (rehashes, d)
       else Option.bind (int32 (rehashes + 100)) (\<lambda>rehashes.
         if elapsed i > ms then Some (rehashes, d)
         else rehash_ms_loop elapsed (Suc i) ms rehashes d))"

definition dictRehashMilliseconds :: "(nat \<Rightarrow> int) \<Rightarrow> ('k, 'v) dict \<Rightarrow> int \<Rightarrow>
    (int \<times> ('k, 'v) dict) option" where
  "dictRehashMilliseconds elapsed d ms = rehash_ms_loop elapsed 0 ms 0 d"

definition dictRehashStep :: "('k, 'v) dict \<Rightarrow> ('k, 'v) dict option" where
  "dictRehashStep d =
     (if iterators d = 0 then map_option snd (dictRehash d 1) else Some d)"

section \<open>Lookup\<close>

definition dictKeyMatch :: "('k, 'v) dictType \<Rightarrow> 'k \<Rightarrow> ('k, 'v) dictEntry \<Rightarrow> bool" where
  "dictKeyMatch t k he \<longleftrightarrow> k = entry_key he \<or> dictCompareKeys t k (entry_key he)"

text \<open>Position in the chain of the first entry that matches.\<close>

fun chain_find :: "('k, 'v) dictType \<Rightarrow> 'k \<Rightarrow> ('k, 'v) dictEntry list \<Rightarrow> nat option" where
  "chain_find t k [] = None"
| "chain_find t k (he # rest) =
     (if dictKeyMatch t k he then Some 0 else map_option Suc (chain_find t k rest))"

definition bucket_of :: "('k, 'v) dictht \<Rightarrow> ulong \<Rightarrow> nat option" where
  "bucket_of ht h =
     (let idx = unat (h AND ht_sizemask ht) in
      if idx < length (ht_table ht) then Some idx else None)"

definition rehash_if_needed :: "('k, 'v) dict \<Rightarrow> ('k, 'v) dict option" where
  "rehash_if_needed d = (if dictIsRehashing d then dictRehashStep d else Some d)"

definition dictFind :: "('k, 'v) dict \<Rightarrow> 'k \<Rightarrow> (entry_ref option \<times> ('k, 'v) dict) option" where
  "dictFind d k =
     (if dictSize d = 0 then Some (None, d)
      else do {
        d \<leftarrow> rehash_if_needed d;
        let h = dictHashKey d k;
        idx \<leftarrow> bucket_of (ht0 d) h;
        (case chain_find (dict_type d) k (ht_table (ht0 d) ! idx) of
           Some p \<Rightarrow> Some (Some (0, idx, p), d)
         | None \<Rightarrow>
             if \<not> dictIsRehashing d then Some (None, d)
             else do {
               idx1 \<leftarrow> bucket_of (ht1 d) h;
               (case chain_find (dict_type d) k (ht_table (ht1 d) ! idx1) of
                  Some p \<Rightarrow> Some (Some (1, idx1, p), d)
                | None \<Rightarrow> Some (None, d))
             })
      })"

definition dict_ht :: "('k, 'v) dict \<Rightarrow> nat \<Rightarrow> ('k, 'v) dictht" where
  "dict_ht d n = (if n = 0 then ht0 d else ht1 d)"

definition deref :: "('k, 'v) dict \<Rightarrow> entry_ref \<Rightarrow> ('k, 'v) dictEntry" where
  "deref d r = (case r of (n, i, p) \<Rightarrow> ht_table (dict_ht d n) ! i ! p)"

definition dictFetchValue :: "('k, 'v) dict \<Rightarrow> 'k \<Rightarrow> ('v option option \<times> ('k, 'v) dict) option" where
  "dictFetchValue d k = do {
     (he, d) \<leftarrow> dictFind d k;
     Some (map_option (\<lambda>r. entry_val (deref d r)) he, d)
   }"

section \<open>Insertion\<close>

text \<open>\<^verbatim>\<open>_dictKeyIndex\<close>: the index (or -1), the entry stored in \<^verbatim>\<open>*existing\<close>, the dictionary.\<close>

definition dictKeyIndex :: "bool \<Rightarrow> ('k, 'v) dict \<Rightarrow> 'k \<Rightarrow> ulong \<Rightarrow>
    (int \<times> entry_ref option \<times> ('k, 'v) dict) option" where
  "dictKeyIndex can_resize d k hash = do {
     (st, d) \<leftarrow> dictExpandIfNeeded can_resize d;
     if st = DICT_ERR then Some (-1, None, d)
     else do {
       idx \<leftarrow> bucket_of (ht0 d) hash;
       (case chain_find (dict_type d) k (ht_table (ht0 d) ! idx) of
          Some p \<Rightarrow> Some (-1, Some (0, idx, p), d)
        | None \<Rightarrow>
            if \<not> dictIsRehashing d then Some (int idx, None, d)
            else do {
              idx1 \<leftarrow> bucket_of (ht1 d) hash;
              (case chain_find (dict_type d) k (ht_table (ht1 d) ! idx1) of
                 Some p \<Rightarrow> Some (-1, Some (1, idx1, p), d)
               | None \<Rightarrow> Some (int idx1, None, d))
            })
     }
   }"

definition ht_push :: "('k, 'v) dictht \<Rightarrow> nat \<Rightarrow> ('k, 'v) dictEntry \<Rightarrow> ('k, 'v) dictht" where
  "ht_push ht i e = ht\<lparr>ht_table := (ht_table ht)[i := e # ht_table ht ! i],
                        ht_used := ht_used ht + 1\<rparr>"

text \<open>\<^verbatim>\<open>dictAddRaw\<close>: the new entry (or NULL), \<^verbatim>\<open>*existing\<close>, the dictionary.\<close>

definition dictAddRaw :: "bool \<Rightarrow> ('k, 'v) dict \<Rightarrow> 'k \<Rightarrow>
    (entry_ref option \<times> entry_ref option \<times> ('k, 'v) dict) option" where
  "dictAddRaw can_resize d k = do {
     d \<leftarrow> rehash_if_needed d;
     (index, existing, d) \<leftarrow> dictKeyIndex can_resize d k (dictHashKey d k);
     if index = -1 then Some (None, existing, d)
     else
       let n = (if dictIsRehashing d then 1 else 0);
           entry = \<lparr>entry_key = dictSetKey (dict_type d) k, entry_val = None\<rparr>
       in if nat index < length (ht_table (dict_ht d n)) then
            Some (Some (n, nat index, 0), existing,
                  (if n = 1 then d\<lparr>ht1 := ht_push (ht1 d) (nat index) entry\<rparr>
                   else d\<lparr>ht0 := ht_push (ht0 d) (nat index) entry\<rparr>))
          else None
   }"

definition ht_set_val :: "('k, 'v) dictht \<Rightarrow> nat \<Rightarrow> nat \<Rightarrow> 'v \<Rightarrow> ('k, 'v) dictht" where
  "ht_set_val ht i p v =
     ht\<lparr>ht_table := (ht_table ht)
          [i := (ht_table ht ! i)[p := (ht_table ht ! i ! p)\<lparr>entry_val := Some v\<rparr>]]\<rparr>"

definition dictSetVal :: "('k, 'v) dict \<Rightarrow> entry_ref \<Rightarrow> 'v \<Rightarrow> ('k, 'v) dict" where
  "dictSetVal d r v =
     (case r of (n, i, p) \<Rightarrow>
        let v' = dictDupVal (dict_type d) v in
        if n = 0 then d\<lparr>ht0 := ht_set_val (ht0 d) i p v'\<rparr>
        else d\<lparr>ht1 := ht_set_val (ht1 d) i p v'\<rparr>)"

definition dictAdd :: "bool \<Rightarrow> ('k, 'v) dict \<Rightarrow> 'k \<Rightarrow> 'v \<Rightarrow> (status \<times> ('k, 'v) dict) option" where
  "dictAdd can_resize d k v = do {
     (entry, _, d) \<leftarrow> dictAddRaw can_resize d k;
     (case entry of
        None \<Rightarrow> Some (DICT_ERR, d)
      | Some r \<Rightarrow> Some (DICT_OK, dictSetVal d r v))
   }"

text \<open>Dereferencing the null \<^verbatim>\<open>existing\<close> pointer is undefined behaviour.\<close>

definition dictReplace :: "bool \<Rightarrow> ('k, 'v) dict \<Rightarrow> 'k \<Rightarrow> 'v \<Rightarrow> (bool \<times> ('k, 'v) dict) option" where
  "dictReplace can_resize d k v = do {
     (entry, existing, d) \<leftarrow> dictAddRaw can_resize d k;
     (case entry of
        Some r \<Rightarrow> Some (True, dictSetVal d r v)
      | None \<Rightarrow>
          (case existing of
             Some r \<Rightarrow> Some (False, dictSetVal d r v)
           | None \<Rightarrow> None))
   }"

definition dictAddOrFind :: "bool \<Rightarrow> ('k, 'v) dict \<Rightarrow> 'k \<Rightarrow> (entry_ref option \<times> ('k, 'v) dict) option" where
  "dictAddOrFind can_resize d k = do {
     (entry, existing, d) \<leftarrow> dictAddRaw can_resize d k;
     Some (case entry of Some r \<Rightarrow> Some r | None \<Rightarrow> existing, d)
   }"

section \<open>Deletion\<close>

definition ht_unlink :: "('k, 'v) dictht \<Rightarrow> nat \<Rightarrow> nat \<Rightarrow> ('k, 'v) dictht" where
  "ht_unlink ht i p =
     ht\<lparr>ht_table := (ht_table ht)[i := take p (ht_table ht ! i) @ drop (Suc p) (ht_table ht ! i)],
        ht_used := ht_used ht - 1\<rparr>"

text \<open>\<^verbatim>\<open>dictGenericDelete\<close>: the unlinked entry, or NULL.\<close>

definition dictGenericDelete :: "('k, 'v) dict \<Rightarrow> 'k \<Rightarrow>
    (('k, 'v) dictEntry option \<times> ('k, 'v) dict) option" where
  "dictGenericDelete d k =
     (if ht_used (ht0 d) = 0 \<and> ht_used (ht1 d) = 0 then Some (None, d)
      else do {
        d \<leftarrow> rehash_if_needed d;
        let h = dictHashKey d k;
        idx \<leftarrow> bucket_of (ht0 d) h;
        (case chain_find (dict_type d) k (ht_table (ht0 d) ! idx) of
           Some p \<Rightarrow> Some (Some (ht_table (ht0 d) ! idx ! p), d\<lparr>ht0 := ht_unlink (ht0 d) idx p\<rparr>)
         | None \<Rightarrow>
             if \<not> dictIsRehashing d then Some (None, d)
             else do {
               idx1 \<leftarrow> bucket_of (ht1 d) h;
               (case chain_find (dict_type d) k (ht_table (ht1 d) ! idx1) of
                  Some p \<Rightarrow> Some (Some (ht_table (ht1 d) ! idx1 ! p),
                                  d\<lparr>ht1 := ht_unlink (ht1 d) idx1 p\<rparr>)
                | None \<Rightarrow> Some (None, d))
             })
      })"

definition dictDelete :: "('k, 'v) dict \<Rightarrow> 'k \<Rightarrow> (status \<times> ('k, 'v) dict) option" where
  "dictDelete d k = do {
     (he, d) \<leftarrow> dictGenericDelete d k;
     Some (case he of Some _ \<Rightarrow> DICT_OK | None \<Rightarrow> DICT_ERR, d)
   }"

definition dictUnlink :: "('k, 'v) dict \<Rightarrow> 'k \<Rightarrow>
    (('k, 'v) dictEntry option \<times> ('k, 'v) dict) option" where
  "dictUnlink d k = dictGenericDelete d k"

text \<open>
  \<^verbatim>\<open>_dictClear\<close> walks the table while entries are left; every entry it meets goes to the
  destructors and is counted off \<^verbatim>\<open>used\<close>. The model returns the entries given to the
  destructors, in order, and the reset table.
\<close>

fun dictClear_loop :: "('k, 'v) dictEntry list list \<Rightarrow> ulong \<Rightarrow> ('k, 'v) dictEntry list" where
  "dictClear_loop [] u = []"
| "dictClear_loop (b # bs) u =
     (if u > 0 then b @ dictClear_loop bs (u - of_nat (length b)) else [])"

definition dictClear :: "('k, 'v) dictht \<Rightarrow> ('k, 'v) dictEntry list \<times> ('k, 'v) dictht" where
  "dictClear ht = (dictClear_loop (ht_table ht) (ht_used ht), dictReset)"

definition dictEmpty :: "('k, 'v) dict \<Rightarrow> ('k, 'v) dictEntry list \<times> ('k, 'v) dict" where
  "dictEmpty d =
     (let (f0, h0) = dictClear (ht0 d); (f1, h1) = dictClear (ht1 d) in
      (f0 @ f1, d\<lparr>ht0 := h0, ht1 := h1, rehashidx := -1, iterators := 0\<rparr>))"

definition dictRelease :: "('k, 'v) dict \<Rightarrow> ('k, 'v) dictEntry list" where
  "dictRelease d = fst (dictClear (ht0 d)) @ fst (dictClear (ht1 d))"

end
