(* ===== verification/Dict_Correct.thy ===== *)
theory Dict_Correct
  imports Dict
begin

unbundle bit_operations_syntax

text \<open>
  Functional correctness of the dictionary: the representation invariant, the abstraction
  of a dictionary to a finite map on key classes, and the effect of every operation on it.
\<close>

section \<open>Keys, entries, invariant\<close>

text \<open>Two keys are the same when they are identical or compare equal.\<close>

definition keq :: "('k, 'v) dictType \<Rightarrow> 'k \<Rightarrow> 'k \<Rightarrow> bool" where
  "keq t a b \<longleftrightarrow> a = b \<or> dictCompareKeys t a b"

definition wf_type :: "('k, 'v) dictType \<Rightarrow> bool" where
  "wf_type t \<longleftrightarrow>
     (\<forall>a b. keq t a b \<longrightarrow> keq t b a) \<and>
     (\<forall>a b c. keq t a b \<longrightarrow> keq t b c \<longrightarrow> keq t a c) \<and>
     (\<forall>a b. keq t a b \<longrightarrow> hashFunction t a = hashFunction t b) \<and>
     (\<forall>k. keq t (dictSetKey t k) k)"

definition kclass :: "('k, 'v) dictType \<Rightarrow> 'k \<Rightarrow> 'k set" where
  "kclass t k = {x. keq t k x}"

definition ht_entries :: "('k, 'v) dictht \<Rightarrow> ('k, 'v) dictEntry list" where
  "ht_entries ht = concat (ht_table ht)"

definition dict_entries :: "('k, 'v) dict \<Rightarrow> ('k, 'v) dictEntry list" where
  "dict_entries d = ht_entries (ht0 d) @ ht_entries (ht1 d)"

definition ht_inv :: "('k, 'v) dictType \<Rightarrow> ('k, 'v) dictht \<Rightarrow> bool" where
  "ht_inv t ht \<longleftrightarrow>
     length (ht_table ht) = unat (ht_size ht) \<and>
     (ht_size ht = 0 \<and> ht_sizemask ht = 0 \<or>
      (\<exists>k. 2 \<le> k \<and> k \<le> 60 \<and> ht_size ht = 2 ^ k \<and> ht_sizemask ht = mask k)) \<and>
     unat (ht_used ht) = length (ht_entries ht) \<and>
     (\<forall>i < length (ht_table ht). \<forall>e \<in> set (ht_table ht ! i).
        unat (hashFunction t (entry_key e) AND ht_sizemask ht) = i)"

definition key_classes :: "('k, 'v) dictType \<Rightarrow> ('k, 'v) dictEntry list \<Rightarrow> 'k set list" where
  "key_classes t es = map (\<lambda>e. kclass t (entry_key e)) es"

definition rehash_inv :: "('k, 'v) dict \<Rightarrow> bool" where
  "rehash_inv d \<longleftrightarrow>
     0 \<le> rehashidx d \<and> rehashidx d \<le> int (length (ht_table (ht0 d))) \<and>
     ht_size (ht0 d) \<noteq> 0 \<and> ht_size (ht1 d) \<noteq> 0 \<and> ht_size (ht0 d) \<noteq> ht_size (ht1 d) \<and>
     (\<forall>i < nat (rehashidx d). ht_table (ht0 d) ! i = [])"

definition dict_inv :: "('k, 'v) dict \<Rightarrow> bool" where
  "dict_inv d \<longleftrightarrow>
     wf_type (dict_type d) \<and>
     ht_inv (dict_type d) (ht0 d) \<and> ht_inv (dict_type d) (ht1 d) \<and>
     distinct (key_classes (dict_type d) (dict_entries d)) \<and>
     (if dictIsRehashing d then rehash_inv d else ht1 d = dictReset)"

text \<open>Room in the address space: fewer than \<open>2 ^ 58\<close> entries.\<close>

definition dict_small :: "('k, 'v) dict \<Rightarrow> bool" where
  "dict_small d \<longleftrightarrow> length (dict_entries d) < 2 ^ 58"

text \<open>The map a dictionary stands for, on keys up to \<open>keq\<close>.\<close>

definition entry_alist :: "('k, 'v) dictType \<Rightarrow> ('k, 'v) dictEntry list \<Rightarrow> ('k set \<times> 'v option) list" where
  "entry_alist t es = map (\<lambda>e. (kclass t (entry_key e), entry_val e)) es"

definition ents_map :: "('k, 'v) dictType \<Rightarrow> ('k, 'v) dictEntry list \<Rightarrow> 'k \<Rightarrow> 'v option option" where
  "ents_map t es k = map_of (entry_alist t es) (kclass t k)"

definition dict_map :: "('k, 'v) dict \<Rightarrow> 'k \<Rightarrow> 'v option option" where
  "dict_map d = ents_map (dict_type d) (dict_entries d)"

section \<open>Key classes\<close>

lemma keq_refl [simp]: "keq t a a"
  by (simp add: keq_def)

lemma wf_typeD:
  assumes "wf_type t"
  shows "keq t a b \<Longrightarrow> keq t b a"
    and "keq t a b \<Longrightarrow> keq t b c \<Longrightarrow> keq t a c"
    and "keq t a b \<Longrightarrow> hashFunction t a = hashFunction t b"
    and "keq t (dictSetKey t k) k"
  using assms unfolding wf_type_def by blast+

lemma kclass_eq_iff: "wf_type t \<Longrightarrow> kclass t a = kclass t b \<longleftrightarrow> keq t a b"
  unfolding kclass_def by (auto simp: set_eq_iff dest: wf_typeD intro: wf_typeD(2))

lemma dictKeyMatch_keq: "dictKeyMatch t k e \<longleftrightarrow> keq t k (entry_key e)"
  by (simp add: dictKeyMatch_def keq_def)

lemma map_fst_entry_alist [simp]: "map fst (entry_alist t es) = key_classes t es"
  by (simp add: entry_alist_def key_classes_def)

lemma ents_map_mset_cong:
  assumes "mset es = mset es'" "distinct (key_classes t es)"
  shows "ents_map t es = ents_map t es'"
proof -
  have "mset (entry_alist t es) = mset (entry_alist t es')"
    using assms(1) by (simp add: entry_alist_def)
  then have "map_of (entry_alist t es) = map_of (entry_alist t es')"
    by (rule map_of_mset_cong) (simp add: assms(2))
  then show ?thesis by (simp add: ents_map_def fun_eq_iff)
qed

lemma ents_map_Nil [simp]: "ents_map t [] k = None"
  by (simp add: ents_map_def entry_alist_def)

lemma ents_map_Cons:
  "wf_type t \<Longrightarrow> ents_map t (e # es) k =
     (if keq t k (entry_key e) then Some (entry_val e) else ents_map t es k)"
  by (auto simp: ents_map_def entry_alist_def kclass_eq_iff dest: wf_typeD(1))

lemma ents_map_None_iff:
  "wf_type t \<Longrightarrow> ents_map t es k = None \<longleftrightarrow> (\<forall>e \<in> set es. \<not> keq t k (entry_key e))"
  by (induction es) (auto simp: ents_map_Cons)

lemma distinct_key_classes_mset_cong:
  assumes "mset es = mset es'"
  shows "distinct (key_classes t es) \<longleftrightarrow> distinct (key_classes t es')"
proof -
  have "mset (key_classes t es) = mset (key_classes t es')"
    using assms by (simp add: key_classes_def)
  then show ?thesis by (rule mset_eq_imp_distinct_iff)
qed

text \<open>The same entry list with one entry in front, up to the order.\<close>

lemma key_classes_add:
  assumes wf: "wf_type t" and ms: "mset es' = add_mset e (mset es)"
  shows "distinct (key_classes t es') \<longleftrightarrow>
    distinct (key_classes t es) \<and> (\<forall>x \<in> set es. \<not> keq t (entry_key e) (entry_key x))"
proof -
  have "distinct (key_classes t es') \<longleftrightarrow> distinct (key_classes t (e # es))"
    using ms by (intro distinct_key_classes_mset_cong) simp
  also have "\<dots> \<longleftrightarrow> distinct (key_classes t es) \<and> (\<forall>x \<in> set es. \<not> keq t (entry_key e) (entry_key x))"
    by (auto simp: key_classes_def kclass_eq_iff [OF wf] image_iff)
  finally show ?thesis .
qed

lemma ents_map_add:
  assumes "wf_type t" "mset es' = add_mset e (mset es)" "distinct (key_classes t es')"
  shows "ents_map t es' k = (if keq t k (entry_key e) then Some (entry_val e) else ents_map t es k)"
proof -
  have "ents_map t es' = ents_map t (e # es)"
    using assms by (intro ents_map_mset_cong) simp_all
  then show ?thesis by (simp add: ents_map_Cons [OF assms(1)])
qed

lemma ents_map_remove:
  assumes "wf_type t" "mset es' = add_mset e (mset es)" "distinct (key_classes t es')"
  shows "ents_map t es k = (if keq t k (entry_key e) then None else ents_map t es' k)"
  using ents_map_add [OF assms, of k] key_classes_add [OF assms(1,2)] assms(1,3)
  by (auto simp: ents_map_None_iff dest: wf_typeD)

section \<open>One table\<close>

lemma ht_inv_reset [simp]: "ht_inv t dictReset"
  by (simp add: ht_inv_def dictReset_def ht_entries_def)

lemma ht_entries_reset [simp]: "ht_entries dictReset = []"
  by (simp add: dictReset_def ht_entries_def)

lemma ht_inv_index_lt:
  assumes "ht_inv t ht" "ht_size ht \<noteq> 0"
  shows "unat (h AND ht_sizemask ht) < length (ht_table ht)"
proof -
  from assms obtain k where "k \<le> 60" "ht_size ht = 2 ^ k" "ht_sizemask ht = mask k"
    and "length (ht_table ht) = unat (ht_size ht)"
    by (auto simp: ht_inv_def)
  then show ?thesis by (simp add: unat_and_mask unat_2p)
qed

lemma bucket_of_Some:
  assumes "ht_inv t ht" "ht_size ht \<noteq> 0"
  shows "bucket_of ht h = Some (unat (h AND ht_sizemask ht))"
  using ht_inv_index_lt [OF assms] by (simp add: bucket_of_def Let_def)

lemma ht_inv_length: "ht_inv t ht \<Longrightarrow> length (ht_table ht) = unat (ht_size ht)"
  and ht_inv_used: "ht_inv t ht \<Longrightarrow> unat (ht_used ht) = length (ht_entries ht)"
  by (simp_all add: ht_inv_def)

lemma ht_inv_table_Nil: "ht_inv t ht \<Longrightarrow> ht_table ht = [] \<longleftrightarrow> ht_size ht = 0"
  by (auto simp: ht_inv_def unat_eq_zero simp flip: length_0_conv)

lemma ht_entries_size_0: "ht_inv t ht \<Longrightarrow> ht_size ht = 0 \<Longrightarrow> ht_entries ht = []"
  by (simp add: ht_entries_def ht_inv_table_Nil [symmetric])

text \<open>Pushing an entry on its own chain keeps the invariant of the table.\<close>

lemma mset_ht_push:
  assumes "i < length (ht_table ht)"
  shows "mset (ht_entries (ht_push ht i e)) = add_mset e (mset (ht_entries ht))"
  using mset_concat_update [OF assms, of "e # ht_table ht ! i"]
  by (simp add: ht_entries_def ht_push_def)

lemma ht_push_sel [simp]:
  "ht_size (ht_push ht i e) = ht_size ht" "ht_sizemask (ht_push ht i e) = ht_sizemask ht"
  "length (ht_table (ht_push ht i e)) = length (ht_table ht)"
  "ht_used (ht_push ht i e) = ht_used ht + 1"
  by (simp_all add: ht_push_def)

lemma ht_inv_push:
  assumes inv: "ht_inv t ht" and i: "i < length (ht_table ht)"
    and h: "unat (hashFunction t (entry_key e) AND ht_sizemask ht) = i"
    and room: "length (ht_entries ht) + 1 < 2 ^ 64"
  shows "ht_inv t (ht_push ht i e)"
proof -
  have "length (ht_entries (ht_push ht i e)) = Suc (length (ht_entries ht))"
    using arg_cong [OF mset_ht_push [OF i], of size] by simp
  moreover have "unat (ht_used ht + 1) = Suc (length (ht_entries ht))"
    using inv room by (subst unat_plus_1) (simp_all add: ht_inv_def)
  moreover have "\<forall>j < length (ht_table ht). \<forall>x \<in> set (ht_table (ht_push ht i e) ! j).
      unat (hashFunction t (entry_key x) AND ht_sizemask ht) = j"
    using inv h i by (auto simp: ht_inv_def ht_push_def nth_list_update)
  ultimately show ?thesis
    using inv by (simp add: ht_inv_def)
qed

section \<open>Rehashing\<close>

lemma rehash_bucket_push:
  "rehash_bucket t (de # rest) h0 h1 =
     (let h = unat (hashFunction t (entry_key de) AND ht_sizemask h1) in
      if h < length (ht_table h1)
      then rehash_bucket t rest (h0\<lparr>ht_used := ht_used h0 - 1\<rparr>) (ht_push h1 h de)
      else None)"
  by (simp add: ht_push_def Let_def)

declare rehash_bucket.simps(2) [simp del]

lemma rehash_bucket_Some:
  assumes "ht_inv t h1" "ht_size h1 \<noteq> 0"
    and "length es + length (ht_entries h1) < 2 ^ 64"
  shows "\<exists>h1'. rehash_bucket t es h0 h1 =
      Some (h0\<lparr>ht_used := ht_used h0 - of_nat (length es)\<rparr>, h1') \<and>
    ht_inv t h1' \<and> ht_size h1' = ht_size h1 \<and>
    mset (ht_entries h1') = mset es + mset (ht_entries h1)"
  using assms
proof (induction es arbitrary: h0 h1)
  case Nil
  then show ?case by simp
next
  case (Cons e es)
  let ?h = "unat (hashFunction t (entry_key e) AND ht_sizemask h1)"
  let ?h1 = "ht_push h1 ?h e"
  have lt: "?h < length (ht_table h1)"
    using Cons.prems by (intro ht_inv_index_lt)
  have inv: "ht_inv t ?h1"
    using Cons.prems lt by (intro ht_inv_push) simp_all
  have ms: "mset (ht_entries ?h1) = add_mset e (mset (ht_entries h1))"
    using lt by (rule mset_ht_push)
  have "length (ht_entries ?h1) = Suc (length (ht_entries h1))"
    using arg_cong [OF ms, of size] by simp
  with Cons.prems have room: "length es + length (ht_entries ?h1) < 2 ^ 64" by simp
  have "ht_size ?h1 \<noteq> 0" using Cons.prems by simp
  from Cons.IH [OF inv this room, of "h0\<lparr>ht_used := ht_used h0 - 1\<rparr>"] lt ms
  show ?case by (auto simp: rehash_bucket_push Let_def algebra_simps)
qed

lemma rehash_skip_Some:
  assumes "0 \<le> idx" "nat idx \<le> j" "j < length tab" "tab ! j \<noteq> []" "0 < ev"
  shows "\<exists>idx' ev' stop. rehash_skip tab idx ev = Some (idx', ev', stop) \<and>
    idx \<le> idx' \<and> idx' \<le> int (length tab) \<and> (\<forall>i. nat idx \<le> i \<longrightarrow> i < nat idx' \<longrightarrow> tab ! i = []) \<and>
    (\<not> stop \<longrightarrow> idx' < int (length tab) \<and> tab ! nat idx' \<noteq> [] \<and> 0 < ev')"
  using assms
proof (induction tab idx ev rule: rehash_skip.induct)
  case (1 tab idx ev)
  have in_range: "\<not> (idx < 0 \<or> int (length tab) \<le> idx)"
    using "1.prems" by auto
  show ?case
  proof (cases "tab ! nat idx \<noteq> []")
    case True
    with in_range "1.prems"(5) show ?thesis by (auto simp: rehash_skip.simps [of tab idx ev])
  next
    case empty: False
    have ev: "\<not> ev \<le> - (2 ^ 31)" using "1.prems"(5) by simp
    show ?thesis
    proof (cases "ev - 1 = 0")
      case True
      have "\<forall>i. nat idx \<le> i \<longrightarrow> i < nat (idx + 1) \<longrightarrow> tab ! i = []"
        using empty in_range by (auto simp: nat_add_distrib less_Suc_eq_le dest: le_antisym)
      moreover have "rehash_skip tab idx ev = Some (idx + 1, ev - 1, True)"
        using True empty in_range ev by (subst rehash_skip.simps) simp
      ultimately show ?thesis using in_range by auto
    next
      case False
      have "nat idx \<noteq> j" using empty "1.prems"(4) by auto
      then have "nat (idx + 1) \<le> j" using "1.prems" by linarith
      with "1.IH" [OF in_range _ ev False] "1.prems" empty False obtain idx' ev' stop where
        r: "rehash_skip tab (idx + 1) (ev - 1) = Some (idx', ev', stop)"
          "idx + 1 \<le> idx'" "idx' \<le> int (length tab)"
          "\<forall>i. nat (idx + 1) \<le> i \<longrightarrow> i < nat idx' \<longrightarrow> tab ! i = []"
          "\<not> stop \<longrightarrow> idx' < int (length tab) \<and> tab ! nat idx' \<noteq> [] \<and> 0 < ev'"
        by auto
      have "tab ! i = []" if "nat idx \<le> i" "i < nat idx'" for i
        using that r(4) empty "1.prems"(1) by (cases "i = nat idx") (auto simp: nat_add_distrib)
      with r False empty in_range ev show ?thesis
        by (auto simp: rehash_skip.simps [of tab idx ev])
    qed
  qed
qed

text \<open>Emptying a bucket of the old table, with the count reduced accordingly.\<close>

lemma ht_inv_clear_bucket:
  assumes inv: "ht_inv t ht" and i: "i < length (ht_table ht)"
  defines "ht' \<equiv> ht\<lparr>ht_used := ht_used ht - of_nat (length (ht_table ht ! i)),
                     ht_table := (ht_table ht)[i := []]\<rparr>"
  shows "ht_inv t ht'" "mset (ht_entries ht') + mset (ht_table ht ! i) = mset (ht_entries ht)"
proof -
  show ms: "mset (ht_entries ht') + mset (ht_table ht ! i) = mset (ht_entries ht)"
    using mset_concat_update [OF i, of "[]"] by (simp add: ht_entries_def ht'_def)
  have len: "length (ht_entries ht') + length (ht_table ht ! i) = length (ht_entries ht)"
    using arg_cong [OF ms, of size] by simp
  have "unat (ht_used ht') = length (ht_entries ht')"
    using inv len by (simp add: ht'_def ht_inv_def unat_minus_of_nat)
  then show "ht_inv t ht'"
    using inv i by (auto simp: ht_inv_def ht'_def nth_list_update)
qed

definition rehash_state :: "('k, 'v) dict \<Rightarrow> bool" where
  "rehash_state d \<longleftrightarrow> ht_inv (dict_type d) (ht0 d) \<and> ht_inv (dict_type d) (ht1 d) \<and> rehash_inv d"

lemma used_nonzero_bucket:
  assumes "ht_inv t ht" "ht_used ht \<noteq> 0" "\<forall>i < n. ht_table ht ! i = []"
  shows "\<exists>j. n \<le> j \<and> j < length (ht_table ht) \<and> ht_table ht ! j \<noteq> []"
proof (rule ccontr)
  assume "\<not> ?thesis"
  with assms(3) have "\<forall>j < length (ht_table ht). ht_table ht ! j = []"
    by (metis not_le)
  then have "ht_entries ht = []"
    by (auto simp: ht_entries_def in_set_conv_nth)
  with assms(1,2) show False
    by (simp add: ht_inv_def unat_eq_zero)
qed

lemma rehash_assert:
  assumes "ht_inv t ht" "0 \<le> i" "i < int (length (ht_table ht))"
  shows "word_of_int i < ht_size ht"
proof -
  have lt: "nat i < unat (ht_size ht)"
    using assms(3) nat_less_iff [OF assms(2), of "length (ht_table ht)"]
      ht_inv_length [OF assms(1)] by presburger
  then have "nat i < 2 ^ 64"
    using unat_lt_64 [of "ht_size ht"] by (rule less_trans)
  moreover have "(word_of_int i :: ulong) = of_nat (nat i)"
    using assms(2) by simp
  ultimately have "unat (word_of_int i :: ulong) = nat i"
    by (simp only: unat_of_nat_64)
  with lt show ?thesis
    by (simp only: word_less_nat_alt)
qed

text \<open>What a rehashing step never changes: the entries, the type, the iterator count.\<close>

definition same_content :: "('k, 'v) dict \<Rightarrow> ('k, 'v) dict \<Rightarrow> bool" where
  "same_content d d' \<longleftrightarrow> dict_type d' = dict_type d \<and> iterators d' = iterators d \<and>
     mset (dict_entries d') = mset (dict_entries d)"

lemma same_content_refl [simp]: "same_content d d"
  by (simp add: same_content_def)

lemma same_content_trans: "same_content a b \<Longrightarrow> same_content b c \<Longrightarrow> same_content a c"
  by (simp add: same_content_def)

lemma same_content_length: "same_content d d' \<Longrightarrow> length (dict_entries d') = length (dict_entries d)"
  unfolding same_content_def by (metis size_mset)

text \<open>One iteration of the outer loop that finds a bucket to move.\<close>

lemma rehash_move:
  assumes st: "rehash_state d" and small: "length (dict_entries d) < 2 ^ 64"
    and idx: "rehashidx d \<le> idx" "idx < int (length (ht_table (ht0 d)))"
    and empty: "\<forall>i. nat (rehashidx d) \<le> i \<longrightarrow> i < nat idx \<longrightarrow> ht_table (ht0 d) ! i = []"
  shows "\<exists>h0 h1. rehash_bucket (dict_type d) (ht_table (ht0 d) ! nat idx) (ht0 d) (ht1 d) = Some (h0, h1)
    \<and> (let d' = d\<lparr>ht0 := h0\<lparr>ht_table := (ht_table h0)[nat idx := []]\<rparr>, ht1 := h1,
                     rehashidx := idx + 1\<rparr>
       in rehash_state d' \<and> same_content d d')"
proof -
  let ?es = "ht_table (ht0 d) ! nat idx"
  have inv: "ht_inv (dict_type d) (ht0 d)" "ht_inv (dict_type d) (ht1 d)" "rehash_inv d"
    using st by (simp_all add: rehash_state_def)
  have i: "nat idx < length (ht_table (ht0 d))"
    using idx inv(3) by (auto simp: rehash_inv_def)
  note clear = ht_inv_clear_bucket [OF inv(1) i]
  have "length ?es + length (ht_entries (ht1 d)) < 2 ^ 64"
    using small arg_cong [OF clear(2), of size] by (simp add: dict_entries_def)
  moreover have "ht_size (ht1 d) \<noteq> 0"
    using inv(3) by (simp add: rehash_inv_def)
  ultimately obtain h1 where h1:
    "rehash_bucket (dict_type d) ?es (ht0 d) (ht1 d) =
       Some ((ht0 d)\<lparr>ht_used := ht_used (ht0 d) - of_nat (length ?es)\<rparr>, h1)"
    "ht_inv (dict_type d) h1" "ht_size h1 = ht_size (ht1 d)"
    "mset (ht_entries h1) = mset ?es + mset (ht_entries (ht1 d))"
    using rehash_bucket_Some [OF inv(2)] by blast
  let ?h0 = "(ht0 d)\<lparr>ht_used := ht_used (ht0 d) - of_nat (length ?es),
                     ht_table := (ht_table (ht0 d))[nat idx := []]\<rparr>"
  let ?d = "d\<lparr>ht0 := ?h0, ht1 := h1, rehashidx := idx + 1\<rparr>"
  have "(ht_table (ht0 d))[nat idx := []] ! j = []" if "j < nat (idx + 1)" for j
  proof (cases "j = nat idx")
    case True
    then show ?thesis using i by simp
  next
    case False
    with that have "j < nat idx" by linarith
    then have "ht_table (ht0 d) ! j = []"
      using empty inv(3) by (cases "nat (rehashidx d) \<le> j") (auto simp: rehash_inv_def)
    with False show ?thesis by simp
  qed
  then have "rehash_inv ?d"
    using inv(3) idx h1(3) by (auto simp: rehash_inv_def)
  then have "rehash_state ?d"
    using clear(1) h1(2) by (simp add: rehash_state_def)
  moreover have "same_content d ?d"
    using clear(2) h1(4) by (simp add: same_content_def dict_entries_def algebra_simps)
  ultimately show ?thesis using h1(1) by (simp add: Let_def)
qed

lemma dictRehash_loop_0: "dictRehash_loop 0 ev d = Some (False, d)"
  by (subst dictRehash_loop.simps) simp

lemma dictRehash_loop_Suc:
  "dictRehash_loop (int (Suc n)) ev d =
     (if ht_used (ht0 d) = 0 then Some (False, d)
      else if \<not> ht_size (ht0 d) > word_of_int (rehashidx d) then None
      else do {
        (idx, ev', stop) \<leftarrow> rehash_skip (ht_table (ht0 d)) (rehashidx d) ev;
        if stop then Some (True, d\<lparr>rehashidx := idx\<rparr>)
        else do {
          (h0, h1) \<leftarrow> rehash_bucket (dict_type d) (ht_table (ht0 d) ! nat idx) (ht0 d) (ht1 d);
          dictRehash_loop (int n) ev'
            (d\<lparr>ht0 := h0\<lparr>ht_table := (ht_table h0)[nat idx := []]\<rparr>, ht1 := h1,
               rehashidx := idx + 1\<rparr>)
        }
      })"
proof -
  have "int (Suc n) - 1 = int n" "(int (Suc n) \<le> - (2 ^ 31)) = False" "(int (Suc n) = 0) = False" by simp_all
  then show ?thesis by (subst dictRehash_loop.simps) (simp only: if_False simp_thms)
qed

lemma dictRehash_loop_Some:
  assumes "rehash_state d" "length (dict_entries d) < 2 ^ 64" "0 < n \<Longrightarrow> 0 < ev"
  shows "\<exists>early d'. dictRehash_loop (int n) ev d = Some (early, d') \<and> rehash_state d' \<and> same_content d d'"
  using assms
proof (induction n arbitrary: ev d)
  case 0
  then show ?case by (auto simp: dictRehash_loop_0)
next
  case (Suc n)
  note inv = Suc.prems(1) [unfolded rehash_state_def]
  show ?case
  proof (cases "ht_used (ht0 d) = 0")
    case True
    with Suc.prems show ?thesis unfolding dictRehash_loop_Suc by auto
  next
    case False
    have r0: "0 \<le> rehashidx d" and low: "\<forall>i < nat (rehashidx d). ht_table (ht0 d) ! i = []"
      using inv by (simp_all add: rehash_inv_def)
    obtain j where j: "nat (rehashidx d) \<le> j" "j < length (ht_table (ht0 d))" "ht_table (ht0 d) ! j \<noteq> []"
      using used_nonzero_bucket [OF _ False low] inv by blast
    have assertion: "word_of_int (rehashidx d) < ht_size (ht0 d)"
      using inv j r0 by (intro rehash_assert) auto
    obtain idx ev' stop where skip:
      "rehash_skip (ht_table (ht0 d)) (rehashidx d) ev = Some (idx, ev', stop)"
      "rehashidx d \<le> idx" "idx \<le> int (length (ht_table (ht0 d)))"
      "\<forall>i. nat (rehashidx d) \<le> i \<longrightarrow> i < nat idx \<longrightarrow> ht_table (ht0 d) ! i = []"
      "\<not> stop \<longrightarrow> idx < int (length (ht_table (ht0 d))) \<and> 0 < ev'"
      using rehash_skip_Some [OF r0 j, of ev] Suc.prems(3) by blast
    show ?thesis
    proof (cases stop)
      case True
      have "rehash_inv (d\<lparr>rehashidx := idx\<rparr>)"
        using inv skip(2-4) low by (auto simp: rehash_inv_def) (metis not_le)
      with True inv skip(1) False assertion show ?thesis unfolding dictRehash_loop_Suc
        by (auto simp: rehash_state_def same_content_def dict_entries_def)
    next
      case nostop: False
      from rehash_move [OF Suc.prems(1,2) skip(2) _ skip(4)] skip(5) nostop
      obtain h0 h1 where mv:
        "rehash_bucket (dict_type d) (ht_table (ht0 d) ! nat idx) (ht0 d) (ht1 d) = Some (h0, h1)"
        "rehash_state (d\<lparr>ht0 := h0\<lparr>ht_table := (ht_table h0)[nat idx := []]\<rparr>, ht1 := h1,
                     rehashidx := idx + 1\<rparr>)"
        "same_content d (d\<lparr>ht0 := h0\<lparr>ht_table := (ht_table h0)[nat idx := []]\<rparr>, ht1 := h1,
                     rehashidx := idx + 1\<rparr>)"
        by (auto simp: Let_def)
      from Suc.IH [OF mv(2), of ev'] same_content_length [OF mv(3)] Suc.prems(2) skip(5) nostop
      obtain early d' where "dictRehash_loop (int n) ev'
          (d\<lparr>ht0 := h0\<lparr>ht_table := (ht_table h0)[nat idx := []]\<rparr>, ht1 := h1,
                     rehashidx := idx + 1\<rparr>) = Some (early, d')"
        "rehash_state d'" "same_content (d\<lparr>ht0 := h0\<lparr>ht_table := (ht_table h0)[nat idx := []]\<rparr>, ht1 := h1,
                     rehashidx := idx + 1\<rparr>) d'"
        by auto
      with mv skip(1) nostop False assertion same_content_trans [OF mv(3)] show ?thesis
        unfolding dictRehash_loop_Suc by simp
    qed
  qed
qed

lemma dict_inv_rehash_state: "dict_inv d \<Longrightarrow> dictIsRehashing d \<Longrightarrow> rehash_state d"
  by (simp add: dict_inv_def rehash_state_def)

lemma dict_invI_rehash_state:
  assumes "rehash_state d'" "dict_inv d" "same_content d d'"
  shows "dict_inv d'"
  using assms distinct_key_classes_mset_cong [of "dict_entries d'" "dict_entries d"]
  by (auto simp: dict_inv_def rehash_state_def same_content_def dictIsRehashing_def rehash_inv_def)

lemma dict_inv_finish_rehash:
  assumes "rehash_state d'" "dict_inv d" "same_content d d'" "ht_used (ht0 d') = 0"
  defines "d'' \<equiv> d'\<lparr>ht0 := ht1 d', ht1 := dictReset, rehashidx := -1\<rparr>"
  shows "dict_inv d''" "same_content d d''"
proof -
  have "ht_entries (ht0 d') = []"
    using assms(1,4) by (auto simp: rehash_state_def ht_inv_def)
  then have "dict_entries d'' = dict_entries d'"
    by (simp add: dict_entries_def d''_def)
  then show same: "same_content d d''"
    using assms(3) by (simp add: same_content_def d''_def)
  then show "dict_inv d''"
    using assms(1,2) distinct_key_classes_mset_cong [of "dict_entries d''" "dict_entries d"]
    by (auto simp: dict_inv_def rehash_state_def same_content_def dictIsRehashing_def d''_def)
qed

lemma dictRehash_Some:
  assumes inv: "dict_inv d" and small: "length (dict_entries d) < 2 ^ 64" and n: "0 \<le> n" "n * 10 < 2 ^ 31"
  shows "\<exists>more d'. dictRehash d n = Some (more, d') \<and> dict_inv d' \<and> same_content d d' \<and>
    more = dictIsRehashing d'"
proof (cases "dictIsRehashing d")
  case False
  with inv n show ?thesis by (auto simp: dictRehash_def int32_Some)
next
  case True
  have ev: "int32 (n * 10) = Some (n * 10)" using n by (simp add: int32_Some)
  obtain early d' where l: "dictRehash_loop n (n * 10) d = Some (early, d')"
    "rehash_state d'" "same_content d d'"
    using dictRehash_loop_Some [OF dict_inv_rehash_state [OF inv True] small, of "nat n" "n * 10"] n(1) by auto
  have re: "dictIsRehashing d'"
    using l(2) by (simp add: rehash_state_def rehash_inv_def dictIsRehashing_def)
  show ?thesis
  proof (cases "\<not> early \<and> ht_used (ht0 d') = 0")
    case fin: True
    with True ev l(1) dict_inv_finish_rehash [OF l(2) inv l(3)] show ?thesis
      by (auto simp: dictRehash_def dictIsRehashing_def)
  next
    case False
    with True ev l(1,3) re dict_invI_rehash_state [OF l(2) inv l(3)] show ?thesis
      by (auto simp: dictRehash_def)
  qed
qed

lemma rehash_if_needed_Some:
  assumes "dict_inv d" "dict_small d"
  shows "\<exists>d'. rehash_if_needed d = Some d' \<and> dict_inv d' \<and> same_content d d' \<and> dict_small d'"
proof -
  have "length (dict_entries d) < 2 ^ 64"
    using assms(2) by (simp add: dict_small_def)
  from dictRehash_Some [OF assms(1) this, of 1] assms show ?thesis
    by (auto simp: rehash_if_needed_def dictRehashStep_def dict_small_def same_content_length)
qed

lemma same_content_map:
  assumes "dict_inv d" "same_content d d'"
  shows "dict_map d' = dict_map d"
  using assms ents_map_mset_cong [of "dict_entries d" "dict_entries d'" "dict_type d"]
  by (simp add: same_content_def dict_inv_def dict_map_def)

section \<open>Searching\<close>

lemma chain_find_Some: "chain_find t k c = Some p \<Longrightarrow> p < length c \<and> keq t k (entry_key (c ! p))"
  by (induction c arbitrary: p) (auto simp: dictKeyMatch_keq split: if_splits)

lemma chain_find_None: "chain_find t k c = None \<longleftrightarrow> (\<forall>e \<in> set c. \<not> keq t k (entry_key e))"
  by (induction c) (auto simp: dictKeyMatch_keq)

text \<open>The search in both tables that lookup, insertion and deletion share.\<close>

definition dict_search :: "('k, 'v) dict \<Rightarrow> 'k \<Rightarrow> entry_ref option option" where
  "dict_search d k = do {
     idx \<leftarrow> bucket_of (ht0 d) (dictHashKey d k);
     (case chain_find (dict_type d) k (ht_table (ht0 d) ! idx) of
        Some p \<Rightarrow> Some (Some (0, idx, p))
      | None \<Rightarrow>
          if \<not> dictIsRehashing d then Some None
          else do {
            idx1 \<leftarrow> bucket_of (ht1 d) (dictHashKey d k);
            (case chain_find (dict_type d) k (ht_table (ht1 d) ! idx1) of
               Some p \<Rightarrow> Some (Some (1, idx1, p))
             | None \<Rightarrow> Some None)
          })
   }"

definition ref_ok :: "('k, 'v) dict \<Rightarrow> entry_ref \<Rightarrow> bool" where
  "ref_ok d r \<longleftrightarrow> (case r of (n, i, p) \<Rightarrow>
     n \<le> 1 \<and> i < length (ht_table (dict_ht d n)) \<and> p < length (ht_table (dict_ht d n) ! i))"

lemma dict_inv_ht:
  assumes "dict_inv d"
  shows "ht_inv (dict_type d) (ht0 d)" "ht_inv (dict_type d) (ht1 d)" "wf_type (dict_type d)"
    "distinct (key_classes (dict_type d) (dict_entries d))"
    "dictIsRehashing d \<Longrightarrow> ht_size (ht0 d) \<noteq> 0 \<and> ht_size (ht1 d) \<noteq> 0"
    "\<not> dictIsRehashing d \<Longrightarrow> ht1 d = dictReset"
  using assms by (auto simp: dict_inv_def rehash_inv_def)

lemma ht_member_bucket:
  assumes "ht_inv t ht" "wf_type t" "e \<in> set (ht_entries ht)" "keq t k (entry_key e)"
  shows "e \<in> set (ht_table ht ! unat (hashFunction t k AND ht_sizemask ht))"
proof -
  obtain i where "i < length (ht_table ht)" "e \<in> set (ht_table ht ! i)"
    using assms(3) unfolding ht_entries_def concat_mem_nth by blast
  moreover from this have "unat (hashFunction t (entry_key e) AND ht_sizemask ht) = i"
    using assms(1) by (simp add: ht_inv_def)
  ultimately show ?thesis
    using wf_typeD(3) [OF assms(2,4)] by simp
qed

lemma chain_find_bucket_None:
  assumes "ht_inv t ht" "wf_type t"
    and "chain_find t k (ht_table ht ! unat (hashFunction t k AND ht_sizemask ht)) = None"
  shows "\<forall>e \<in> set (ht_entries ht). \<not> keq t k (entry_key e)"
  using ht_member_bucket [OF assms(1,2)] assms(3) by (auto simp: chain_find_None)

lemma dict_search_cases:
  assumes inv: "dict_inv d" and size: "ht_size (ht0 d) \<noteq> 0"
  obtains (found) n i p where "dict_search d k = Some (Some (n, i, p))" "ref_ok d (n, i, p)"
      "keq (dict_type d) k (entry_key (deref d (n, i, p)))"
  | (absent) "dict_search d k = Some None" "\<forall>e \<in> set (dict_entries d). \<not> keq (dict_type d) k (entry_key e)"
proof -
  note ht = dict_inv_ht [OF inv]
  let ?i0 = "unat (dictHashKey d k AND ht_sizemask (ht0 d))"
  let ?i1 = "unat (dictHashKey d k AND ht_sizemask (ht1 d))"
  note b0 = bucket_of_Some [OF ht(1) size] ht_inv_index_lt [OF ht(1) size, of "dictHashKey d k"]
  show thesis
  proof (cases "chain_find (dict_type d) k (ht_table (ht0 d) ! ?i0)")
    case (Some p)
    with b0 chain_find_Some [OF Some] show thesis
      by (intro found [of 0 ?i0 p]) (simp_all add: dict_search_def ref_ok_def deref_def dict_ht_def)
  next
    case none0: None
    note abs0 = chain_find_bucket_None [OF ht(1,3) none0 [unfolded dictHashKey_def]]
    show thesis
    proof (cases "dictIsRehashing d")
      case False
      with abs0 none0 b0 ht(6) show thesis
        by (intro absent) (simp_all add: dict_search_def dict_entries_def)
    next
      case True
      note b1 = bucket_of_Some [OF ht(2)] ht_inv_index_lt [OF ht(2), of "dictHashKey d k"]
      show thesis
      proof (cases "chain_find (dict_type d) k (ht_table (ht1 d) ! ?i1)")
        case (Some p)
        with True none0 b0 b1 ht(5) chain_find_Some [OF Some] show thesis
          by (intro found [of 1 ?i1 p]) (simp_all add: dict_search_def ref_ok_def deref_def dict_ht_def)
      next
        case None
        with True none0 b0 b1 ht(5) abs0
          chain_find_bucket_None [OF ht(2,3) None [unfolded dictHashKey_def]] show thesis
          by (intro absent) (auto simp: dict_search_def dict_entries_def)
      qed
    qed
  qed
qed

lemma dictFind_search:
  "dictFind d k = (if dictSize d = 0 then Some (None, d)
     else do { d \<leftarrow> rehash_if_needed d; r \<leftarrow> dict_search d k; Some (r, d) })"
  unfolding dictFind_def dict_search_def Let_def
  by (auto split: option.splits Option.bind_splits)

section \<open>Resizing\<close>

lemma dictNextPower_loop:
  assumes "unat sz < 2 ^ 63"
  shows "\<exists>k. 2 \<le> k \<and> k \<le> 63 \<and> unat sz \<le> 2 ^ k \<and> (k = 2 \<or> 2 ^ (k - 1) < unat sz) \<and>
    while_option (\<lambda>i. \<not> i \<ge> sz) (\<lambda>i. i * 2) (4::ulong) = Some (2 ^ k)"
proof -
  let ?I = "\<lambda>i::ulong. \<exists>k. 2 \<le> k \<and> k \<le> 63 \<and> i = 2 ^ k \<and> (k = 2 \<or> 2 ^ (k - 1) < unat sz)"
  have init: "?I 4" by (rule exI [of _ 2]) simp
  have step: "?I (i * 2) \<and> 2 ^ 64 - unat (i * 2) < 2 ^ 64 - unat i" if I: "?I i" and c: "\<not> i \<ge> sz" for i
  proof -
    from I obtain k where k: "2 \<le> k" "k \<le> 63" "i = 2 ^ k" by blast
    then have lt: "2 ^ k < unat sz" using c by (simp add: word_le_nat_alt unat_2p)
    with assms have "(2::nat) ^ k < 2 ^ 63" by linarith
    then have "k < 63" by (rule power_less_imp_less_exp [rotated]) simp
    moreover have "i * 2 = 2 ^ Suc k" using k(3) by simp
    moreover have "(2::nat) ^ k < 2 ^ 64" using \<open>(2::nat) ^ k < 2 ^ 63\<close> by simp
    ultimately show ?thesis
      using k lt by (auto simp: unat_2p simp del: power_Suc intro!: exI [of _ "Suc k"] diff_less_mono2)
  qed
  obtain i where i: "while_option (\<lambda>i. \<not> i \<ge> sz) (\<lambda>i. i * 2) (4::ulong) = Some i"
    using measure_while_option_Some [of ?I "\<lambda>i. \<not> i \<ge> sz" "\<lambda>i. i * 2" "\<lambda>i. 2 ^ 64 - unat i" 4]
      step init by blast
  have "?I i"
    using while_option_rule [of ?I, OF _ i init] step by blast
  moreover have "i \<ge> sz"
    using while_option_stop [OF i] by simp
  ultimately show ?thesis
    using i by (auto simp: word_le_nat_alt unat_2p)
qed

lemma dictNextPower_Some:
  "\<exists>k. 2 \<le> k \<and> k \<le> 63 \<and> dictNextPower sz = Some (2 ^ k) \<and>
    (unat sz \<le> 2 ^ k \<or> 2 ^ 63 - 1 \<le> unat sz) \<and> (k = 2 \<or> 2 ^ (k - 1) < unat sz)"
proof (cases "sz \<ge> LONG_MAX")
  case True
  then show ?thesis
    by (intro exI [of _ 63]) (simp add: dictNextPower_def LONG_MAX_def word_le_nat_alt)
next
  case False
  then have "unat sz < 2 ^ 63" by (simp add: LONG_MAX_def word_le_nat_alt)
  from dictNextPower_loop [OF this] False show ?thesis
    by (auto simp: dictNextPower_def DICT_HT_INITIAL_SIZE_def)
qed

lemma dictNextPower_small:
  assumes "unat sz \<le> 2 ^ 60"
  obtains k where "2 \<le> k" "k \<le> 60" "dictNextPower sz = Some (2 ^ k)" "unat sz \<le> 2 ^ k"
proof -
  from dictNextPower_Some [of sz] obtain k where k: "2 \<le> k" "dictNextPower sz = Some (2 ^ k)"
    "unat sz \<le> 2 ^ k \<or> 2 ^ 63 - 1 \<le> unat sz" "k = 2 \<or> 2 ^ (k - 1) < unat sz" by blast
  have "k \<le> 60"
  proof (rule ccontr)
    assume "\<not> k \<le> 60"
    then have "(2::nat) ^ 60 \<le> 2 ^ (k - 1)" by (intro power_increasing) simp_all
    with k(4) assms \<open>\<not> k \<le> 60\<close> show False by simp
  qed
  with k assms show thesis by (intro that) auto
qed

lemma two_power_nonzero:
  assumes "k < 64"
  shows "(2 ^ k :: ulong) \<noteq> 0"
proof
  assume "(2 ^ k :: ulong) = 0"
  then have "unat (2 ^ k :: ulong) = 0" by (simp only: unsigned_0)
  with unat_2p [OF assms] show False by simp
qed

lemma ht_inv_new_table:
  assumes "2 \<le> k" "k \<le> 60"
  shows "ht_inv t \<lparr>ht_table = new_table (2 ^ k), ht_size = 2 ^ k,
    ht_sizemask = 2 ^ k - 1, ht_used = 0\<rparr>"
proof -
  have "unat (2 ^ k * 8 :: ulong) = 2 ^ (k + 3)"
    using unat_2p [of "k + 3"] assms by (simp add: power_add)
  then have "unat (2 ^ k * 8 :: ulong) div 8 = 2 ^ k"
    by (simp add: power_add)
  then show ?thesis
    using assms by (auto simp: ht_inv_def ht_entries_def new_table_def unat_2p mask_eq_exp_minus_1)
qed

lemma dictExpand_Some:
  assumes inv: "dict_inv d" and sz: "unat sz \<le> 2 ^ 60"
  shows "\<exists>st d'. dictExpand d sz = Some (st, d') \<and> dict_inv d' \<and> same_content d d' \<and>
    (st = DICT_OK \<longrightarrow> ht_size (ht0 d') \<noteq> 0)"
proof (cases "dictIsRehashing d \<or> ht_used (ht0 d) > sz")
  case True
  with inv show ?thesis by (auto simp: dictExpand_def)
next
  case False
  obtain k where k: "2 \<le> k" "k \<le> 60" "dictNextPower sz = Some (2 ^ k)"
    using sz by (rule dictNextPower_small)
  note new = ht_inv_new_table [OF k(1,2)]
  have nz: "(2 ^ k :: ulong) \<noteq> 0"
    using k(2) by (intro two_power_nonzero) simp
  note ht = dict_inv_ht [OF inv]
  from False ht(6) have ht1: "ht1 d = dictReset" by simp
  show ?thesis
  proof (cases "2 ^ k = ht_size (ht0 d)")
    case True
    with False k(3) inv show ?thesis by (auto simp: dictExpand_def)
  next
    case ne: False
    show ?thesis
    proof (cases "ht_table (ht0 d) = []")
      case True
      then have "ht_entries (ht0 d) = []" by (simp add: ht_entries_def)
      with True False ne k(3) new inv nz ht1 show ?thesis
        by (auto simp: dictExpand_def Let_def dict_inv_def same_content_def dict_entries_def
              dictIsRehashing_def ht_entries_def new_table_def)
    next
      case tab: False
      then have "ht_size (ht0 d) \<noteq> 0" using ht_inv_table_Nil [OF ht(1)] by simp
      with tab False ne k(3) new inv nz ht1 show ?thesis
        by (auto simp: dictExpand_def Let_def dict_inv_def same_content_def dict_entries_def
              dictIsRehashing_def rehash_inv_def ht_entries_def new_table_def dictReset_def)
    qed
  qed
qed

lemma dictExpand_OK:
  assumes "\<not> dictIsRehashing d" "ht_used (ht0 d) \<le> sz"
    and "dictNextPower sz = Some r" "r \<noteq> ht_size (ht0 d)" "dictExpand d sz = Some (st, d')"
  shows "st = DICT_OK"
  using assms by (auto simp: dictExpand_def Let_def not_less split: if_splits)

text \<open>With room for the entries, the expansion check never fails.\<close>

lemma dictExpandIfNeeded_Some:
  assumes inv: "dict_inv d" and small: "dict_small d"
  shows "\<exists>d'. dictExpandIfNeeded c d = Some (DICT_OK, d') \<and> dict_inv d' \<and> same_content d d' \<and>
    ht_size (ht0 d') \<noteq> 0"
proof -
  note ht = dict_inv_ht [OF inv]
  let ?u = "ht_used (ht0 d)"
  have u: "unat ?u < 2 ^ 58"
    using small ht_inv_used [OF ht(1)] by (simp add: dict_small_def dict_entries_def)
  consider (re) "dictIsRehashing d" | (zero) "\<not> dictIsRehashing d" "ht_size (ht0 d) = 0"
    | (grow) "\<not> dictIsRehashing d" "ht_size (ht0 d) \<noteq> 0" "?u \<ge> ht_size (ht0 d)"
        "c \<or> ?u div ht_size (ht0 d) > dict_force_resize_ratio"
    | (keep) "\<not> dictIsRehashing d" "ht_size (ht0 d) \<noteq> 0"
        "\<not> (?u \<ge> ht_size (ht0 d) \<and> (c \<or> ?u div ht_size (ht0 d) > dict_force_resize_ratio))"
    by blast
  then show ?thesis
  proof cases
    case re
    with inv ht(5) show ?thesis by (auto simp: dictExpandIfNeeded_def)
  next
    case zero
    have u0: "?u = 0"
      using ht_entries_size_0 [OF ht(1) zero(2)] ht_inv_used [OF ht(1)] by (simp add: unat_eq_zero)
    obtain k where k: "2 \<le> k" "k \<le> 60" "dictNextPower DICT_HT_INITIAL_SIZE = Some (2 ^ k)"
      by (rule dictNextPower_small [of DICT_HT_INITIAL_SIZE]) (simp_all add: DICT_HT_INITIAL_SIZE_def)
    obtain st d' where e: "dictExpand d DICT_HT_INITIAL_SIZE = Some (st, d')" "dict_inv d'"
      "same_content d d'" "st = DICT_OK \<longrightarrow> ht_size (ht0 d') \<noteq> 0"
      using dictExpand_Some [OF inv, of DICT_HT_INITIAL_SIZE] by (auto simp: DICT_HT_INITIAL_SIZE_def)
    have "(2 ^ k :: ulong) \<noteq> ht_size (ht0 d)"
      using zero(2) two_power_nonzero [of k] k(2) by simp
    then have "st = DICT_OK"
      using dictExpand_OK [OF zero(1) _ k(3) _ e(1)] u0 by simp
    with e zero show ?thesis by (simp add: dictExpandIfNeeded_def)
  next
    case grow
    have u2: "unat (?u * 2) = unat ?u * 2"
      using u by (simp add: unat_word_ariths)
    then have le: "unat (?u * 2) \<le> 2 ^ 60" using u by simp
    obtain k where k: "k \<le> 60" "dictNextPower (?u * 2) = Some (2 ^ k)" "unat (?u * 2) \<le> 2 ^ k"
      using le by (rule dictNextPower_small)
    obtain st d' where e: "dictExpand d (?u * 2) = Some (st, d')" "dict_inv d'"
      "same_content d d'" "st = DICT_OK \<longrightarrow> ht_size (ht0 d') \<noteq> 0"
      using dictExpand_Some [OF inv le] by blast
    have "unat ?u \<noteq> 0" "unat (ht_size (ht0 d)) \<le> unat ?u"
      using grow(2,3) by (auto simp: word_le_nat_alt unat_eq_zero)
    then have "unat (ht_size (ht0 d)) < unat (2 ^ k :: ulong)"
      using k u2 by (simp add: unat_2p)
    then have "(2 ^ k :: ulong) \<noteq> ht_size (ht0 d)" by auto
    moreover have "?u \<le> ?u * 2" using u2 by (simp add: word_le_nat_alt)
    ultimately have "st = DICT_OK"
      using dictExpand_OK [OF grow(1) _ k(2) _ e(1)] by simp
    with e grow show ?thesis by (simp add: dictExpandIfNeeded_def)
  next
    case keep
    with inv show ?thesis by (auto simp: dictExpandIfNeeded_def)
  qed
qed

section \<open>Insertion\<close>

lemma dictKeyIndex_search:
  assumes "dictExpandIfNeeded c d = Some (DICT_OK, d')" "dict_type d' = dict_type d"
  shows "dictKeyIndex c d k (dictHashKey d k) = do {
    r \<leftarrow> dict_search d' k;
    Some (case r of
       Some ref \<Rightarrow> (-1, Some ref, d')
     | None \<Rightarrow> (int (unat (dictHashKey d' k AND
                ht_sizemask (dict_ht d' (if dictIsRehashing d' then 1 else 0)))), None, d'))
  }"
  using assms
  by (auto simp: dictKeyIndex_def dict_search_def dictHashKey_def dict_ht_def bucket_of_def Let_def
      split: option.splits Option.bind_splits if_splits)

definition dict_push :: "('k, 'v) dict \<Rightarrow> nat \<Rightarrow> nat \<Rightarrow> ('k, 'v) dictEntry \<Rightarrow> ('k, 'v) dict" where
  "dict_push d n i e = (if n = 1 then d\<lparr>ht1 := ht_push (ht1 d) i e\<rparr> else d\<lparr>ht0 := ht_push (ht0 d) i e\<rparr>)"

lemma dict_push_sel [simp]:
  "dict_type (dict_push d n i e) = dict_type d" "iterators (dict_push d n i e) = iterators d"
  "rehashidx (dict_push d n i e) = rehashidx d"
  "dictIsRehashing (dict_push d n i e) = dictIsRehashing d"
  by (simp_all add: dict_push_def dictIsRehashing_def)

lemma mset_dict_push:
  assumes "i < length (ht_table (dict_ht d n))" "n \<le> 1"
  shows "mset (dict_entries (dict_push d n i e)) = add_mset e (mset (dict_entries d))"
  using assms by (auto simp: dict_push_def dict_entries_def dict_ht_def mset_ht_push split: if_splits)

lemma dict_inv_push:
  assumes inv: "dict_inv d" and small: "dict_small d"
    and n: "n = (if dictIsRehashing d then 1 else 0)" and nz: "ht_size (ht0 d) \<noteq> 0"
    and i: "i = unat (dictHashKey d (entry_key e) AND ht_sizemask (dict_ht d n))"
    and fresh: "\<forall>x \<in> set (dict_entries d). \<not> keq (dict_type d) (entry_key e) (entry_key x)"
  shows "dict_inv (dict_push d n i e)" "i < length (ht_table (dict_ht d n))"
proof -
  note ht = dict_inv_ht [OF inv]
  have "ht_inv (dict_type d) (dict_ht d n)" "ht_size (dict_ht d n) \<noteq> 0"
    using ht nz n by (simp_all add: dict_ht_def)
  then show lt: "i < length (ht_table (dict_ht d n))"
    unfolding i by (rule ht_inv_index_lt)
  have room: "length (ht_entries (dict_ht d n)) + 1 < 2 ^ 64"
    using small by (auto simp: dict_small_def dict_entries_def dict_ht_def)
  have hinv: "ht_inv (dict_type d) (ht_push (dict_ht d n) i e)"
    using \<open>ht_inv (dict_type d) (dict_ht d n)\<close> lt room i
    by (intro ht_inv_push) (simp_all add: dictHashKey_def)
  have "n \<le> 1" using n by simp
  have "distinct (key_classes (dict_type d) (dict_entries (dict_push d n i e)))"
    using key_classes_add [OF ht(3) mset_dict_push [OF lt \<open>n \<le> 1\<close>]] ht(4) fresh by simp
  moreover have "rehash_inv (dict_push d n i e)" if "dictIsRehashing d"
    using inv that n by (simp add: dict_inv_def rehash_inv_def dict_push_def)
  moreover have "ht1 (dict_push d n i e) = dictReset" if "\<not> dictIsRehashing d"
    using ht(6) that n by (simp add: dict_push_def)
  moreover have "ht_inv (dict_type d) (ht0 (dict_push d n i e))"
    "ht_inv (dict_type d) (ht1 (dict_push d n i e))"
    using ht(1,2) hinv n by (simp_all add: dict_push_def dict_ht_def split: if_splits)
  ultimately show "dict_inv (dict_push d n i e)"
    using ht(3) by (simp add: dict_inv_def)
qed

lemma dict_map_absent:
  "dict_inv d \<Longrightarrow> dict_map d k = None \<longleftrightarrow> (\<forall>e \<in> set (dict_entries d). \<not> keq (dict_type d) k (entry_key e))"
  by (simp add: dict_map_def ents_map_None_iff dict_inv_ht)

lemma ht_inv_hash:
  "ht_inv t ht \<Longrightarrow> i < length (ht_table ht) \<Longrightarrow> e \<in> set (ht_table ht ! i) \<Longrightarrow>
     unat (hashFunction t (entry_key e) AND ht_sizemask ht) = i"
  by (simp add: ht_inv_def)

lemma uint_not_minus1: "uint (w::ulong) \<noteq> -1"
proof -
  have "0 \<le> uint w" by simp
  then show ?thesis by linarith
qed

lemma dictAddRaw_cases:
  assumes inv: "dict_inv d" and small: "dict_small d"
  obtains (added) n i d' where
      "dictAddRaw c d k = Some (Some (n, i, 0), None, d')" "dict_inv d'" "ref_ok d' (n, i, 0)"
      "dict_type d' = dict_type d" "iterators d' = iterators d"
      "deref d' (n, i, 0) = \<lparr>entry_key = dictSetKey (dict_type d) k, entry_val = None\<rparr>"
      "mset (dict_entries d') = add_mset (deref d' (n, i, 0)) (mset (dict_entries d))"
      "\<forall>e \<in> set (dict_entries d). \<not> keq (dict_type d) k (entry_key e)"
  | (present) r d' where
      "dictAddRaw c d k = Some (None, Some r, d')" "dict_inv d'" "same_content d d'"
      "ref_ok d' r" "keq (dict_type d) k (entry_key (deref d' r))"
proof -
  obtain d1 where d1: "rehash_if_needed d = Some d1" "dict_inv d1" "same_content d d1" "dict_small d1"
    using rehash_if_needed_Some [OF inv small] by blast
  obtain d2 where d2: "dictExpandIfNeeded c d1 = Some (DICT_OK, d2)" "dict_inv d2"
    "same_content d1 d2" "ht_size (ht0 d2) \<noteq> 0"
    using dictExpandIfNeeded_Some [OF d1(2,4)] by blast
  have same: "same_content d d2" using d1(3) d2(3) by (rule same_content_trans)
  then have ty: "dict_type d2 = dict_type d" and ms: "mset (dict_entries d2) = mset (dict_entries d)"
    and it: "iterators d2 = iterators d"
    by (simp_all add: same_content_def)
  have small2: "dict_small d2"
    using small same_content_length [OF same] by (simp add: dict_small_def)
  note ki = dictKeyIndex_search [OF d2(1)]
  have ty12: "dict_type d2 = dict_type d1" using d2(3) by (simp add: same_content_def)
  from d2(2,4) show thesis
  proof (cases rule: dict_search_cases [of d2 k])
    case (found n i p)
    with d1(1) ki [OF ty12] have "dictAddRaw c d k = Some (None, Some (n, i, p), d2)"
      by (simp add: dictAddRaw_def)
    with found d2(2) same ty show thesis by (intro present) simp_all
  next
    case absent
    define n where "n = (if dictIsRehashing d2 then 1 else (0::nat))"
    define e :: "('a, 'b) dictEntry" where "e = \<lparr>entry_key = dictSetKey (dict_type d) k, entry_val = None\<rparr>"
    define i where "i = unat (dictHashKey d2 k AND ht_sizemask (dict_ht d2 n))"
    note wf = dict_inv_ht(3) [OF d2(2)]
    have key: "entry_key e = dictSetKey (dict_type d) k" by (simp add: e_def)
    have hk: "dictHashKey d2 (entry_key e) = dictHashKey d2 k"
      using wf_typeD(3) [OF wf wf_typeD(4) [OF wf, of k]] ty by (simp add: dictHashKey_def key)
    have fresh: "\<forall>x \<in> set (dict_entries d2). \<not> keq (dict_type d2) (entry_key e) (entry_key x)"
      using absent(2) wf_typeD(2) [OF wf wf_typeD(1) [OF wf wf_typeD(4) [OF wf, of k]]] ty
      by (auto simp: key)
    have pushed: "dict_inv (dict_push d2 n i e)" and lt: "i < length (ht_table (dict_ht d2 n))"
      using dict_inv_push [OF d2(2) small2 n_def d2(4) _ fresh] by (simp_all add: hk i_def)
    have n1: "n \<le> 1" by (simp add: n_def)
    have ref: "ref_ok (dict_push d2 n i e) (n, i, 0)" "deref (dict_push d2 n i e) (n, i, 0) = e"
      using lt n1 by (auto simp: ref_ok_def deref_def dict_push_def dict_ht_def ht_push_def split: if_splits)
    have run: "dictAddRaw c d k = Some (Some (n, i, 0), None, dict_push d2 n i e)"
      using d1(1) ki [OF ty12] absent(1) lt ty
      by (simp add: dictAddRaw_def Let_def dict_push_def uint_not_minus1 n_def [symmetric]
          i_def [symmetric] e_def [symmetric] del: of_nat_unat)
    have "mset (dict_entries (dict_push d2 n i e)) = add_mset e (mset (dict_entries d))"
      using mset_dict_push [OF lt n1, of e] ms by simp
    moreover have "set (dict_entries d) = set (dict_entries d2)"
      using mset_eq_setD [OF ms] by simp
    ultimately show thesis
      using ty it absent(2)
      by (intro added [OF run pushed ref(1)]) (simp_all add: ref(2) e_def [symmetric])
  qed
qed

section \<open>Setting a value\<close>

lemma dict_ht_simps [simp]: "dict_ht d 0 = ht0 d" "dict_ht d (Suc 0) = ht1 d"
  by (simp_all add: dict_ht_def)

lemma mset_ht_set_val:
  assumes "i < length (ht_table ht)" "p < length (ht_table ht ! i)"
  shows "add_mset (ht_table ht ! i ! p) (mset (ht_entries (ht_set_val ht i p v))) =
    add_mset ((ht_table ht ! i ! p)\<lparr>entry_val := Some v\<rparr>) (mset (ht_entries ht))"
proof -
  let ?c = "ht_table ht ! i" and ?e = "(ht_table ht ! i ! p)\<lparr>entry_val := Some v\<rparr>"
  have "mset (?c[p := ?e]) + {#?c ! p#} = mset ?c + {#?e#}"
    using assms(2) nth_mem_mset [OF assms(2)] by (simp add: mset_update)
  moreover have "mset (concat ((ht_table ht)[i := ?c[p := ?e]])) + mset ?c =
      mset (concat (ht_table ht)) + mset (?c[p := ?e])"
    using assms(1) by (rule mset_concat_update)
  ultimately have "mset (concat ((ht_table ht)[i := ?c[p := ?e]])) + mset ?c + {#?c ! p#} =
      mset (concat (ht_table ht)) + {#?e#} + mset ?c"
    by (simp add: algebra_simps)
  then show ?thesis
    by (simp add: ht_entries_def ht_set_val_def)
qed

lemma ht_inv_set_val:
  assumes inv: "ht_inv t ht" and ip: "i < length (ht_table ht)" "p < length (ht_table ht ! i)"
  shows "ht_inv t (ht_set_val ht i p v)"
proof -
  have len: "length (ht_entries (ht_set_val ht i p v)) = length (ht_entries ht)"
    using arg_cong [OF mset_ht_set_val [OF ip, of v], of size] by simp
  have ep: "ht_table ht ! i ! p \<in> set (ht_table ht ! i)" using ip(2) by simp
  have "\<forall>j < length (ht_table ht). \<forall>e \<in> set (ht_table (ht_set_val ht i p v) ! j).
      unat (hashFunction t (entry_key e) AND ht_sizemask ht) = j"
  proof (intro allI impI ballI)
    fix j e assume j: "j < length (ht_table ht)" and e: "e \<in> set (ht_table (ht_set_val ht i p v) ! j)"
    have "\<exists>x \<in> set (ht_table ht ! j). entry_key x = entry_key e"
    proof (cases "j = i")
      case True
      with e ip have "e \<in> insert ((ht_table ht ! i ! p)\<lparr>entry_val := Some v\<rparr>) (set (ht_table ht ! i))"
        using set_update_subset_insert by (fastforce simp: ht_set_val_def)
      with True ep show ?thesis by auto
    next
      case False
      with e show ?thesis by (auto simp: ht_set_val_def)
    qed
    with ht_inv_hash [OF inv j] show "unat (hashFunction t (entry_key e) AND ht_sizemask ht) = j"
      by metis
  qed
  with inv len show ?thesis
    by (simp add: ht_inv_def) (simp add: ht_set_val_def)
qed

lemma dict_entries_ref:
  assumes "ref_ok d r" "dict_inv d"
  shows "deref d r \<in> set (dict_entries d)"
proof -
  obtain n i p where r: "r = (n, i, p)" by (metis prod_cases3)
  have "n = 0 \<or> n = 1" using assms(1) r by (auto simp: ref_ok_def)
  then show ?thesis
    using assms(1) r
    by (auto simp: ref_ok_def deref_def dict_entries_def ht_entries_def intro!: nth_mem bexI)
qed

lemma dictSetVal_correct:
  assumes inv: "dict_inv d" and r: "ref_ok d r"
  shows "dict_inv (dictSetVal d r v)" "dict_type (dictSetVal d r v) = dict_type d"
    "iterators (dictSetVal d r v) = iterators d"
    "add_mset (deref d r) (mset (dict_entries (dictSetVal d r v))) =
       add_mset ((deref d r)\<lparr>entry_val := Some (dictDupVal (dict_type d) v)\<rparr>) (mset (dict_entries d))"
    "dict_map (dictSetVal d r v) k =
       (if keq (dict_type d) k (entry_key (deref d r)) then Some (Some (dictDupVal (dict_type d) v))
        else dict_map d k)"
proof -
  obtain n i p where rr: "r = (n, i, p)" by (metis prod_cases3)
  let ?d = "dictSetVal d r v" and ?v = "dictDupVal (dict_type d) v" and ?t = "dict_type d"
  let ?e = "(deref d r)\<lparr>entry_val := Some ?v\<rparr>"
  note ht = dict_inv_ht [OF inv]
  have n: "n = 0 \<or> n = 1" using r rr by (auto simp: ref_ok_def)
  show sel: "dict_type ?d = ?t" "iterators ?d = iterators d"
    using rr by (simp_all add: dictSetVal_def Let_def)
  show ms: "add_mset (deref d r) (mset (dict_entries ?d)) = add_mset ?e (mset (dict_entries d))"
  proof (cases "n = 0")
    case True
    with r rr mset_ht_set_val [of i "ht0 d" p ?v] show ?thesis
      by (simp add: dictSetVal_def Let_def ref_ok_def deref_def dict_entries_def
          union_mset_add_mset_left [symmetric] del: union_mset_add_mset_left)
  next
    case False
    with n r rr mset_ht_set_val [of i "ht1 d" p ?v] show ?thesis
      by (simp add: dictSetVal_def Let_def ref_ok_def deref_def dict_entries_def
          union_mset_add_mset_right [symmetric] del: union_mset_add_mset_right)
  qed
  obtain M where M: "mset (dict_entries d) = add_mset (deref d r) (mset M)"
    using dict_entries_ref [OF r inv] by (metis ex_mset in_multiset_in_set insert_DiffM)
  with ms have M': "mset (dict_entries ?d) = add_mset ?e (mset M)" by simp
  have dist: "distinct (key_classes ?t (dict_entries ?d))"
    using key_classes_add [OF ht(3) M] key_classes_add [OF ht(3) M'] ht(4) by simp
  have hts: "ht_inv ?t (ht0 ?d)" "ht_inv ?t (ht1 ?d)"
    using n r rr ht(1,2) by (auto simp: dictSetVal_def Let_def ref_ok_def ht_inv_set_val)
  show "dict_inv ?d"
  proof (cases "dictIsRehashing d")
    case True
    have "rehash_inv ?d"
      using inv True n r rr
      by (auto simp: dict_inv_def rehash_inv_def dictSetVal_def Let_def ht_set_val_def ref_ok_def nth_list_update)
    with True hts dist sel(1) ht(3) rr show ?thesis
      by (simp add: dict_inv_def) (simp add: dictIsRehashing_def dictSetVal_def Let_def)
  next
    case False
    with ht(6) have "ht1 d = dictReset" by simp
    with r rr n have "n = 0" by (auto simp: ref_ok_def dictReset_def)
    with False hts dist sel(1) ht(3) ht(6) rr show ?thesis
      by (simp add: dict_inv_def) (simp add: dictIsRehashing_def dictSetVal_def Let_def)
  qed
  show "dict_map ?d k = (if keq ?t k (entry_key (deref d r)) then Some (Some ?v) else dict_map d k)"
    using ents_map_add [OF ht(3) M ht(4), of k] ents_map_add [OF ht(3) M' dist, of k] sel(1)
    by (simp add: dict_map_def)
qed

section \<open>Lookup, insertion, replacement, deletion\<close>

lemma dict_entries_size:
  assumes "dict_inv d" "dict_small d"
  shows "dictSize d = 0 \<longleftrightarrow> dict_entries d = []"
    "ht_used (ht0 d) = 0 \<and> ht_used (ht1 d) = 0 \<longleftrightarrow> dict_entries d = []"
proof -
  have u: "unat (ht_used (ht0 d)) = length (ht_entries (ht0 d))"
    "unat (ht_used (ht1 d)) = length (ht_entries (ht1 d))"
    using dict_inv_ht [OF assms(1)] by (simp_all add: ht_inv_used)
  show "ht_used (ht0 d) = 0 \<and> ht_used (ht1 d) = 0 \<longleftrightarrow> dict_entries d = []"
    using u by (auto simp: dict_entries_def simp flip: unat_eq_zero)
  have "unat (dictSize d) = length (dict_entries d)"
    using assms(2) u by (simp add: dictSize_def unat_word_ariths dict_small_def dict_entries_def)
  then show "dictSize d = 0 \<longleftrightarrow> dict_entries d = []"
    by (simp flip: unat_eq_zero)
qed

lemma dict_nonempty_size: "dict_inv d \<Longrightarrow> dict_entries d \<noteq> [] \<Longrightarrow> ht_size (ht0 d) \<noteq> 0"
  by (metis append_Nil dict_entries_def dict_inv_ht(1,5,6) ht_entries_reset ht_entries_size_0)

lemma dict_map_ref:
  assumes "dict_inv d" "ref_ok d r" "keq (dict_type d) k (entry_key (deref d r))"
  shows "dict_map d k = Some (entry_val (deref d r))"
proof -
  note ht = dict_inv_ht [OF assms(1)]
  obtain M where "mset (dict_entries d) = add_mset (deref d r) (mset M)"
    using dict_entries_ref [OF assms(2,1)] by (metis ex_mset in_multiset_in_set insert_DiffM)
  from ents_map_add [OF ht(3) this ht(4), of k] assms(3) show ?thesis
    by (simp add: dict_map_def)
qed

lemma dictFind_correct:
  assumes inv: "dict_inv d" and small: "dict_small d"
  shows "\<exists>r d'. dictFind d k = Some (r, d') \<and> dict_inv d' \<and> same_content d d' \<and>
    (case r of None \<Rightarrow> dict_map d k = None
     | Some ref \<Rightarrow> ref_ok d' ref \<and> keq (dict_type d) k (entry_key (deref d' ref)) \<and>
         dict_map d k = Some (entry_val (deref d' ref)))"
proof (cases "dict_entries d = []")
  case True
  with inv show ?thesis
    by (auto simp: dictFind_search dict_entries_size [OF inv small] dict_map_absent)
next
  case False
  obtain d1 where d1: "rehash_if_needed d = Some d1" "dict_inv d1" "same_content d d1"
    using rehash_if_needed_Some [OF inv small] by blast
  have "dict_entries d1 \<noteq> []"
    using False same_content_length [OF d1(3)] by (metis length_0_conv)
  then have nz: "ht_size (ht0 d1) \<noteq> 0" using dict_nonempty_size [OF d1(2)] by simp
  note maps = same_content_map [OF inv d1(3)]
  have ty: "dict_type d1 = dict_type d" using d1(3) by (simp add: same_content_def)
  have run: "dictFind d k = do { r \<leftarrow> dict_search d1 k; Some (r, d1) }"
    using False d1(1) by (simp add: dictFind_search dict_entries_size [OF inv small])
  from d1(2) nz show ?thesis
  proof (cases rule: dict_search_cases [of d1 k])
    case (found n i p)
    with run d1 ty dict_map_ref [OF d1(2) found(2)] maps show ?thesis by simp
  next
    case absent
    then have "dict_map d1 k = None" using dict_map_absent [OF d1(2)] by simp
    with absent run d1 maps show ?thesis by simp
  qed
qed

text \<open>The map after \<^verbatim>\<open>dictAddRaw\<close> has made a fresh entry whose value is not yet set.\<close>

lemma new_entry_map:
  assumes inv: "dict_inv d" "dict_inv d'" "dict_type d' = dict_type d"
    and e: "deref d' r = \<lparr>entry_key = dictSetKey (dict_type d) k, entry_val = None\<rparr>"
    and ms: "mset (dict_entries d') = add_mset (deref d' r) (mset (dict_entries d))"
  shows "keq (dict_type d) k' (entry_key (deref d' r)) \<longleftrightarrow> keq (dict_type d) k' k"
    "dict_map d' k' = (if keq (dict_type d) k' k then Some None else dict_map d k')"
proof -
  note wf = dict_inv_ht(3) [OF inv(1)]
  show eqk: "keq (dict_type d) k' (entry_key (deref d' r)) \<longleftrightarrow> keq (dict_type d) k' k"
    using wf_typeD(4) [OF wf, of k] wf_typeD(1,2) [OF wf] e by (metis dictEntry.select_convs(1))
  show "dict_map d' k' = (if keq (dict_type d) k' k then Some None else dict_map d k')"
    using ents_map_add [OF wf ms, of k'] dict_inv_ht(4) [OF inv(2)] inv(3) e eqk
    by (simp add: dict_map_def)
qed

lemma dictAdd_correct:
  assumes inv: "dict_inv d" and small: "dict_small d"
  shows "\<exists>st d'. dictAdd c d k v = Some (st, d') \<and> dict_inv d' \<and> dict_type d' = dict_type d \<and>
    (if dict_map d k = None
     then st = DICT_OK \<and> length (dict_entries d') = Suc (length (dict_entries d)) \<and>
       (\<forall>k'. dict_map d' k' = (if keq (dict_type d) k' k then Some (Some (dictDupVal (dict_type d) v))
                              else dict_map d k'))
     else st = DICT_ERR \<and> dict_map d' = dict_map d)"
  using inv small
proof (cases rule: dictAddRaw_cases [of d c k])
  case (added n i d')
  note sv = dictSetVal_correct [OF added(2,3), of v]
  note nw = new_entry_map [OF inv added(2,4,6,7)]
  have "length (dict_entries (dictSetVal d' (n, i, 0) v)) = Suc (length (dict_entries d))"
    using arg_cong [OF sv(4), of size] arg_cong [OF added(7), of size] by simp
  moreover have "dict_map d k = None" using added(8) dict_map_absent [OF inv] by simp
  ultimately show ?thesis
    using added(1,4) sv(1,2,5) nw by (simp add: dictAdd_def)
next
  case (present r d')
  have "dict_map d k \<noteq> None"
    using dict_map_ref [OF present(2,4)] present(3,5) same_content_map [OF inv present(3)]
    by (simp add: same_content_def)
  with present same_content_map [OF inv present(3)] show ?thesis
    by (simp add: dictAdd_def same_content_def)
qed

lemma dictReplace_correct:
  assumes inv: "dict_inv d" and small: "dict_small d"
  shows "\<exists>d'. dictReplace c d k v = Some (dict_map d k = None, d') \<and> dict_inv d' \<and>
    dict_type d' = dict_type d \<and>
    (\<forall>k'. dict_map d' k' = (if keq (dict_type d) k' k then Some (Some (dictDupVal (dict_type d) v))
                           else dict_map d k'))"
  using inv small
proof (cases rule: dictAddRaw_cases [of d c k])
  case (added n i d')
  note sv = dictSetVal_correct [OF added(2,3), of v]
  note nw = new_entry_map [OF inv added(2,4,6,7)]
  have "dict_map d k = None" using added(8) dict_map_absent [OF inv] by simp
  then show ?thesis
    using added(1,4) sv(1,2,5) nw by (simp add: dictReplace_def)
next
  case (present r d')
  note wf = dict_inv_ht(3) [OF inv]
  have ty: "dict_type d' = dict_type d" using present(3) by (simp add: same_content_def)
  note sv = dictSetVal_correct [OF present(2,4), of v]
  have eqk: "keq (dict_type d) k' (entry_key (deref d' r)) \<longleftrightarrow> keq (dict_type d) k' k" for k'
    using present(5) wf_typeD(1,2) [OF wf] by metis
  have "dict_map d k \<noteq> None"
    using dict_map_ref [OF present(2,4)] present(3,5) same_content_map [OF inv present(3)]
    by (simp add: same_content_def)
  with present(1) sv(1,2,5) ty eqk same_content_map [OF inv present(3)] show ?thesis
    by (simp add: dictReplace_def)
qed

definition dict_unlink :: "('k, 'v) dict \<Rightarrow> entry_ref \<Rightarrow> ('k, 'v) dict" where
  "dict_unlink d r = (case r of (n, i, p) \<Rightarrow>
     if n = 0 then d\<lparr>ht0 := ht_unlink (ht0 d) i p\<rparr> else d\<lparr>ht1 := ht_unlink (ht1 d) i p\<rparr>)"

lemma dictGenericDelete_search:
  "dictGenericDelete d k =
     (if ht_used (ht0 d) = 0 \<and> ht_used (ht1 d) = 0 then Some (None, d)
      else do {
        d \<leftarrow> rehash_if_needed d;
        r \<leftarrow> dict_search d k;
        Some (case r of None \<Rightarrow> (None, d) | Some r \<Rightarrow> (Some (deref d r), dict_unlink d r))
      })"
  unfolding dictGenericDelete_def dict_search_def Let_def
  by (auto simp: deref_def dict_unlink_def split: option.splits Option.bind_splits)

lemma ht_unlink_correct:
  assumes inv: "ht_inv t ht" and ip: "i < length (ht_table ht)" "p < length (ht_table ht ! i)"
  shows "mset (ht_entries ht) = add_mset (ht_table ht ! i ! p) (mset (ht_entries (ht_unlink ht i p)))"
    "ht_inv t (ht_unlink ht i p)"
proof -
  let ?c = "ht_table ht ! i"
  let ?c' = "take p ?c @ drop (Suc p) ?c"
  have c: "mset ?c = add_mset (?c ! p) (mset ?c')"
    using arg_cong [OF id_take_nth_drop [OF ip(2)], of mset] by simp
  have "mset (concat ((ht_table ht)[i := ?c'])) + mset ?c = mset (concat (ht_table ht)) + mset ?c'"
    using ip(1) by (rule mset_concat_update)
  then have "mset (concat (ht_table ht)) + mset ?c' =
      add_mset (?c ! p) (mset (concat ((ht_table ht)[i := ?c']))) + mset ?c'"
    by (simp add: c)
  then show ms: "mset (ht_entries ht) = add_mset (?c ! p) (mset (ht_entries (ht_unlink ht i p)))"
    by (simp only: add_right_cancel) (simp add: ht_entries_def ht_unlink_def)
  have len: "length (ht_entries ht) = Suc (length (ht_entries (ht_unlink ht i p)))"
    using arg_cong [OF ms, of size] by simp
  have "unat (ht_used ht - 1) = unat (ht_used ht) - 1"
    using unat_minus_of_nat [of 1 "ht_used ht"] len ht_inv_used [OF inv] by simp
  then have "unat (ht_used (ht_unlink ht i p)) = length (ht_entries (ht_unlink ht i p))"
    using len ht_inv_used [OF inv] by (simp add: ht_unlink_def)
  moreover have "\<forall>j < length (ht_table ht). \<forall>e \<in> set (ht_table (ht_unlink ht i p) ! j).
      unat (hashFunction t (entry_key e) AND ht_sizemask ht) = j"
    using ht_inv_hash [OF inv] ip
    by (auto simp: ht_unlink_def nth_list_update dest: in_set_takeD in_set_dropD split: if_splits)
  ultimately show "ht_inv t (ht_unlink ht i p)"
    using inv by (simp add: ht_inv_def) (simp add: ht_unlink_def)
qed

lemma dict_unlink_correct:
  assumes inv: "dict_inv d" and r: "ref_ok d r"
  shows "dict_inv (dict_unlink d r)" "dict_type (dict_unlink d r) = dict_type d"
    "mset (dict_entries d) = add_mset (deref d r) (mset (dict_entries (dict_unlink d r)))"
proof -
  obtain n i p where rr: "r = (n, i, p)" by (metis prod_cases3)
  let ?d = "dict_unlink d r"
  note ht = dict_inv_ht [OF inv]
  have n: "n = 0 \<or> n = 1" using r rr by (auto simp: ref_ok_def)
  show ty: "dict_type ?d = dict_type d" using rr by (simp add: dict_unlink_def)
  show ms: "mset (dict_entries d) = add_mset (deref d r) (mset (dict_entries ?d))"
    using n r rr ht_unlink_correct(1) [OF ht(1), of i p] ht_unlink_correct(1) [OF ht(2), of i p]
    by (auto simp: dict_unlink_def ref_ok_def deref_def dict_entries_def)
  have dist: "distinct (key_classes (dict_type d) (dict_entries ?d))"
    using key_classes_add [OF ht(3) ms] ht(4) by simp
  have hts: "ht_inv (dict_type d) (ht0 ?d)" "ht_inv (dict_type d) (ht1 ?d)"
    using n r rr ht(1,2) by (auto simp: dict_unlink_def ref_ok_def ht_unlink_correct(2))
  have re: "dictIsRehashing ?d = dictIsRehashing d"
    using rr by (simp add: dict_unlink_def dictIsRehashing_def)
  show "dict_inv ?d"
  proof (cases "dictIsRehashing d")
    case True
    have "rehash_inv ?d"
      using inv True n r rr
      by (auto simp: dict_inv_def rehash_inv_def dict_unlink_def ht_unlink_def ref_ok_def nth_list_update)
    with True hts dist ty ht(3) re show ?thesis by (simp add: dict_inv_def)
  next
    case False
    with ht(6) have reset: "ht1 d = dictReset" by simp
    with r rr n have "n = 0" by (auto simp: ref_ok_def dictReset_def)
    with rr reset have "ht1 ?d = dictReset" by (simp add: dict_unlink_def)
    with False hts dist ty ht(3) re show ?thesis by (simp add: dict_inv_def)
  qed
qed

lemma dictGenericDelete_correct:
  assumes inv: "dict_inv d" and small: "dict_small d"
  shows "\<exists>he d'. dictGenericDelete d k = Some (he, d') \<and> dict_inv d' \<and> dict_type d' = dict_type d \<and>
    map_option entry_val he = dict_map d k \<and>
    (\<forall>e. he = Some e \<longrightarrow> keq (dict_type d) k (entry_key e)) \<and>
    (\<forall>k'. dict_map d' k' = (if keq (dict_type d) k' k then None else dict_map d k'))"
proof (cases "dict_entries d = []")
  case True
  then have "dict_map d k' = None" for k' using dict_map_absent [OF inv] by simp
  with True inv show ?thesis
    by (auto simp: dictGenericDelete_search dict_entries_size [OF inv small])
next
  case False
  note wf = dict_inv_ht(3) [OF inv]
  obtain d1 where d1: "rehash_if_needed d = Some d1" "dict_inv d1" "same_content d d1"
    using rehash_if_needed_Some [OF inv small] by blast
  have "dict_entries d1 \<noteq> []"
    using False same_content_length [OF d1(3)] by (metis length_0_conv)
  then have nz: "ht_size (ht0 d1) \<noteq> 0" using dict_nonempty_size [OF d1(2)] by simp
  note maps = same_content_map [OF inv d1(3)]
  have ty: "dict_type d1 = dict_type d" using d1(3) by (simp add: same_content_def)
  have run: "dictGenericDelete d k = do {
      r \<leftarrow> dict_search d1 k;
      Some (case r of None \<Rightarrow> (None, d1) | Some r \<Rightarrow> (Some (deref d1 r), dict_unlink d1 r)) }"
    using False d1(1) by (simp add: dictGenericDelete_search dict_entries_size [OF inv small])
  from d1(2) nz show ?thesis
  proof (cases rule: dict_search_cases [of d1 k])
    case (found n i p)
    note ul = dict_unlink_correct [OF d1(2) found(2)]
    have eqk: "keq (dict_type d) k' (entry_key (deref d1 (n, i, p))) \<longleftrightarrow> keq (dict_type d) k' k" for k'
      using found(3) ty wf_typeD(1,2) [OF wf] by metis
    have "dict_map (dict_unlink d1 (n, i, p)) k' = (if keq (dict_type d) k' k then None else dict_map d k')" for k'
      using ents_map_remove [OF _ ul(3), of "dict_type d" k'] dict_inv_ht [OF d1(2)] ty ul(2) eqk maps
      by (simp add: dict_map_def)
    with run found ul ty dict_map_ref [OF d1(2) found(2,3)] maps show ?thesis by simp
  next
    case absent
    then have none: "dict_map d k = None" using dict_map_absent [OF d1(2)] maps by simp
    have "dict_map d k' = None" if "keq (dict_type d) k' k" for k'
      using none that dict_map_absent [OF inv] wf_typeD(1,2) [OF wf] by metis
    with absent run d1 ty maps none show ?thesis by auto
  qed
qed

section \<open>Clearing\<close>

lemma dictClear_loop_all:
  "unat u = length (concat bs) \<Longrightarrow> dictClear_loop bs u = concat bs"
proof (induction bs arbitrary: u)
  case Nil
  then show ?case by simp
next
  case (Cons b bs)
  show ?case
  proof (cases "u > 0")
    case True
    have "unat (u - of_nat (length b)) = length (concat bs)"
      using Cons.prems by (subst unat_minus_of_nat) simp_all
    with True Cons.IH show ?thesis by simp
  next
    case False
    then have "u = 0" by (simp add: word_less_nat_alt unat_eq_zero)
    with Cons.prems have "length (concat (b # bs)) = 0" by simp
    then have "concat (b # bs) = []" by (simp only: length_0_conv)
    with \<open>u = 0\<close> show ?thesis by simp
  qed
qed

lemma dictEmpty_correct:
  assumes "dict_inv d"
  shows "fst (dictEmpty d) = dict_entries d" "dict_inv (snd (dictEmpty d))"
    "dict_entries (snd (dictEmpty d)) = []" "dictRelease d = dict_entries d"
  using dict_inv_ht [OF assms]
  by (simp_all add: dictEmpty_def dictRelease_def dictClear_def dict_entries_def ht_entries_def
      dictClear_loop_all ht_inv_def dict_inv_def dictIsRehashing_def key_classes_def dictReset_def)

section \<open>Rehashing makes progress\<close>

lemma rehash_skip_mono:
  "rehash_skip tab idx ev = Some (idx', ev', stop) \<Longrightarrow> idx \<le> idx' \<and> (stop \<longrightarrow> idx < idx')"
proof (induction tab idx ev rule: rehash_skip.induct)
  case (1 tab idx ev)
  show ?case
    using "1.prems" "1.IH" unfolding rehash_skip.simps [of tab idx ev]
    by (auto split: if_splits)
qed

lemma rehash_bucket_old_table:
  "rehash_bucket t es h0 h1 = Some (h0', h1') \<Longrightarrow> ht_table h0' = ht_table h0"
  by (induction es arbitrary: h0 h1) (auto simp: rehash_bucket_push Let_def split: if_splits)

lemma dictRehash_loop_progress:
  assumes "dictRehash_loop (int n) ev d = Some (early, d')"
  shows "rehashidx d \<le> rehashidx d' \<and> length (ht_table (ht0 d')) = length (ht_table (ht0 d)) \<and>
    (0 < n \<longrightarrow> ht_used (ht0 d) \<noteq> 0 \<longrightarrow> rehashidx d < rehashidx d')"
  using assms
proof (induction n arbitrary: ev d)
  case 0
  then show ?case by (simp add: dictRehash_loop_0)
next
  case (Suc n)
  note prems = Suc.prems [unfolded dictRehash_loop_Suc]
  show ?case
  proof (cases "ht_used (ht0 d) = 0")
    case True
    with prems show ?thesis by simp
  next
    case False
    with prems obtain idx ev' stop where
      skip: "rehash_skip (ht_table (ht0 d)) (rehashidx d) ev = Some (idx, ev', stop)"
      by (auto simp: bind_eq_Some_conv split: if_splits)
    note mono = rehash_skip_mono [OF skip]
    show ?thesis
    proof (cases stop)
      case True
      with prems False skip mono show ?thesis by (auto split: if_splits)
    next
      case nostop: False
      with prems False skip obtain h0 h1 where
        b: "rehash_bucket (dict_type d) (ht_table (ht0 d) ! nat idx) (ht0 d) (ht1 d) = Some (h0, h1)" and
        l: "dictRehash_loop (int n) ev' (d\<lparr>ht0 := h0\<lparr>ht_table := (ht_table h0)[nat idx := []]\<rparr>, ht1 := h1,
               rehashidx := idx + 1\<rparr>) = Some (early, d')"
        by (auto simp: bind_eq_Some_conv split: if_splits)
      from Suc.IH [OF l] mono rehash_bucket_old_table [OF b] show ?thesis by simp
    qed
  qed
qed

lemma dictRehash_progress:
  assumes inv: "dict_inv d" and r: "dictRehash d n = Some (True, d')" and n: "0 < n"
  shows "rehashidx d < rehashidx d'" "length (ht_table (ht0 d')) = length (ht_table (ht0 d))"
proof -
  have re: "dictIsRehashing d"
    using r by (auto simp: dictRehash_def bind_eq_Some_conv split: if_splits)
  obtain early d1 where l: "dictRehash_loop n (n * 10) d = Some (early, d1)"
    and d1: "d1 = d'" "early \<or> ht_used (ht0 d') \<noteq> 0"
    using r re by (auto simp: dictRehash_def int32_def bind_eq_Some_conv split: if_splits)
  have l': "dictRehash_loop (int (nat n)) (n * 10) d = Some (early, d1)" using l n by simp
  note p = dictRehash_loop_progress [OF l']
  have "ht_used (ht0 d) \<noteq> 0"
  proof
    assume "ht_used (ht0 d) = 0"
    with l n have "\<not> early" "d1 = d" by (simp_all add: dictRehash_loop.simps [of n])
    with d1 \<open>ht_used (ht0 d) = 0\<close> show False by simp
  qed
  with p n d1(1) show "rehashidx d < rehashidx d'" "length (ht_table (ht0 d')) = length (ht_table (ht0 d))"
    by simp_all
qed

lemma rehash_ms_loop_Some:
  assumes "dict_inv d" "length (dict_entries d) < 2 ^ 64"
    and "0 \<le> rehashes" "rehashes + 100 * (int (length (ht_table (ht0 d))) - rehashidx d) < 2 ^ 31"
  shows "\<exists>r d'. rehash_ms_loop elapsed i ms rehashes d = Some (r, d') \<and> dict_inv d' \<and> same_content d d' \<and>
    ((\<forall>j. elapsed j \<le> ms) \<longrightarrow> \<not> dictIsRehashing d')"
  using assms
proof (induction "nat (int (length (ht_table (ht0 d))) - rehashidx d)" arbitrary: d i rehashes rule: less_induct)
  case less
  obtain more d1 where d1: "dictRehash d 100 = Some (more, d1)" "dict_inv d1" "same_content d d1"
    "more = dictIsRehashing d1"
    using dictRehash_Some [OF less.prems(1,2), of 100] by auto
  show ?case
  proof (cases more)
    case False
    with d1 show ?thesis by (subst rehash_ms_loop.simps) auto
  next
    case True
    then have r: "dictRehash d 100 = Some (True, d1)" using d1(1) by simp
    note p = dictRehash_progress [OF less.prems(1) r]
    have le: "rehashidx d1 \<le> int (length (ht_table (ht0 d1)))"
      using d1(2,4) True by (simp add: dict_inv_def rehash_inv_def)
    then have dec: "nat (int (length (ht_table (ht0 d1))) - rehashidx d1) <
        nat (int (length (ht_table (ht0 d))) - rehashidx d)"
      using p by simp
    have i32: "int32 (rehashes + 100) = Some (rehashes + 100)"
      using le p less.prems(3,4) by (intro int32_Some) auto
    show ?thesis
    proof (cases "elapsed i > ms")
      case late: True
      with d1 r i32 show ?thesis by (subst rehash_ms_loop.simps) (auto simp: not_le [symmetric])
    next
      case False
      have room: "rehashes + 100 + 100 * (int (length (ht_table (ht0 d1))) - rehashidx d1) < 2 ^ 31"
        using p less.prems(4) by simp
      from less.hyps [OF dec d1(2), of "rehashes + 100" "Suc i"] same_content_length [OF d1(3)] less.prems(2,3) room
      obtain r' d' where "rehash_ms_loop elapsed (Suc i) ms (rehashes + 100) d1 = Some (r', d')"
        "dict_inv d'" "same_content d1 d'" "(\<forall>j. elapsed j \<le> ms) \<longrightarrow> \<not> dictIsRehashing d'"
        by auto
      with r False i32 same_content_trans [OF d1(3)] show ?thesis
        by (subst rehash_ms_loop.simps) auto
    qed
  qed
qed

section \<open>A concrete dictionary\<close>

text \<open>Two chained keys and a third one, at the start of a rehash from 4 to 8 buckets.\<close>

definition ex_type :: "(nat, nat) dictType" where
  "ex_type = \<lparr>hashFunction = of_nat, keyDup = None, valDup = None, keyCompare = None\<rparr>"

definition ex_dict :: "(nat, nat) dict" where
  "ex_dict = \<lparr>dict_type = ex_type,
     ht0 = \<lparr>ht_table = [[], [\<lparr>entry_key = 5, entry_val = Some 50\<rparr>, \<lparr>entry_key = 1, entry_val = Some 10\<rparr>],
                        [\<lparr>entry_key = 2, entry_val = Some 20\<rparr>], []],
            ht_size = 4, ht_sizemask = 3, ht_used = 3\<rparr>,
     ht1 = \<lparr>ht_table = replicate 8 [], ht_size = 8, ht_sizemask = 7, ht_used = 0\<rparr>,
     rehashidx = 0, iterators = 0\<rparr>"

lemma keq_ex_type: "keq ex_type a b \<longleftrightarrow> a = b"
  by (simp add: keq_def ex_type_def dictCompareKeys_def)

lemma ex_type_wf: "wf_type ex_type"
  by (simp add: wf_type_def keq_ex_type) (simp add: ex_type_def dictSetKey_def)

lemma all_buckets: "(\<forall>i < length tab. \<forall>e \<in> set (tab ! i). P i e) \<longleftrightarrow>
    list_all (\<lambda>i. list_all (P i) (tab ! i)) [0..<length tab]"
  by (auto simp: list_all_iff)

lemma ex_dict_inv: "dict_inv ex_dict"
proof -
  have "\<exists>k. 2 \<le> k \<and> k \<le> 60 \<and> (4::ulong) = 2 ^ k \<and> (3::ulong) = mask k"
    "\<exists>k. 2 \<le> k \<and> k \<le> 60 \<and> (8::ulong) = 2 ^ k \<and> (7::ulong) = mask k"
    by (rule exI [of _ 2], simp add: mask_eq_exp_minus_1) (rule exI [of _ 3], simp add: mask_eq_exp_minus_1)
  note pow = this
  have "list_all (\<lambda>i. list_all (\<lambda>e. unat (hashFunction ex_type (entry_key e) AND ht_sizemask (ht0 ex_dict)) = i)
      (ht_table (ht0 ex_dict) ! i)) [0..<length (ht_table (ht0 ex_dict))]" by code_simp
  then have "ht_inv ex_type (ht0 ex_dict)"
    unfolding ht_inv_def all_buckets using pow(1) by (simp add: ex_dict_def ht_entries_def)
  moreover have "list_all (\<lambda>i. list_all (\<lambda>e. unat (hashFunction ex_type (entry_key e) AND ht_sizemask (ht1 ex_dict)) = i)
      (ht_table (ht1 ex_dict) ! i)) [0..<length (ht_table (ht1 ex_dict))]" by code_simp
  then have "ht_inv ex_type (ht1 ex_dict)"
    unfolding ht_inv_def all_buckets using pow(2) by (simp add: ex_dict_def ht_entries_def)
  moreover have "distinct (key_classes ex_type (dict_entries ex_dict))"
    by (simp add: ex_dict_def key_classes_def dict_entries_def ht_entries_def kclass_eq_iff [OF ex_type_wf] keq_ex_type)
  moreover have "rehash_inv ex_dict"
    by (simp add: ex_dict_def rehash_inv_def)
  ultimately show ?thesis
    using ex_type_wf by (simp add: dict_inv_def) (simp add: ex_dict_def dictIsRehashing_def)
qed
lemma ex_dict_small: "dict_small ex_dict"
  by (simp add: dict_small_def dict_entries_def ht_entries_def ex_dict_def)

lemma ex_dict_map: "dict_map ex_dict k =
    (if k = 5 then Some (Some 50) else if k = 1 then Some (Some 10) else if k = 2 then Some (Some 20) else None)"
proof -
  have "dict_entries ex_dict = [\<lparr>entry_key = 5, entry_val = Some 50\<rparr>, \<lparr>entry_key = 1, entry_val = Some 10\<rparr>,
      \<lparr>entry_key = 2, entry_val = Some 20\<rparr>]" "dict_type ex_dict = ex_type"
    by (simp_all add: ex_dict_def dict_entries_def ht_entries_def)
  then show ?thesis
    by (simp add: dict_map_def ents_map_Cons [OF ex_type_wf] keq_ex_type)
qed

lemma ex_dict_type: "dict_type ex_dict = ex_type" "dictDupVal ex_type v = v"
  by (simp_all add: ex_dict_def ex_type_def dictDupVal_def)

section \<open>Properties\<close>

text \<open>
  C3. \<^verbatim>\<open>dictAdd\<close> implements insertion into a map: it returns, keeps the invariant, adds the
  binding and reports success when the key was absent, and otherwise reports an error and
  leaves the map as it was. The incremental rehash step and the growth of the table it may
  perform on the way are invisible.
\<close>

theorem dictAdd_refines:
  assumes "dict_inv d" "dict_small d"
  shows "\<exists>st d'. dictAdd c d k v = Some (st, d') \<and> dict_inv d' \<and> dict_type d' = dict_type d \<and>
    (if dict_map d k = None
     then st = DICT_OK \<and> length (dict_entries d') = Suc (length (dict_entries d)) \<and>
       (\<forall>k'. dict_map d' k' = (if keq (dict_type d) k' k then Some (Some (dictDupVal (dict_type d) v))
                              else dict_map d k'))
     else st = DICT_ERR \<and> dict_map d' = dict_map d)"
  using assms by (rule dictAdd_correct)

theorem dictAdd_refines_witness:
  "dict_inv ex_dict \<and> dict_small ex_dict \<and>
   (\<exists>d'. dictAdd True ex_dict 9 90 = Some (DICT_OK, d') \<and> dict_inv d' \<and>
      dict_map d' 9 = Some (Some 90) \<and> dict_map d' 1 = Some (Some 10)) \<and>
   (\<exists>d'. dictAdd True ex_dict 5 90 = Some (DICT_ERR, d') \<and> dict_map d' 5 = Some (Some 50))"
  using dictAdd_refines [OF ex_dict_inv ex_dict_small, of True 9 90]
    dictAdd_refines [OF ex_dict_inv ex_dict_small, of True 5 90] ex_dict_inv ex_dict_small
  by (auto simp: ex_dict_map ex_dict_type keq_ex_type)

text \<open>\<^verbatim>\<open>dictReplace\<close> implements map update: whatever was bound before, the key is bound to the
  new value afterwards, every other key is unaffected, the return value says whether the key
  is new, and the null pointer \<^verbatim>\<open>existing\<close> is never dereferenced.
\<close>

theorem dictReplace_refines:
  assumes "dict_inv d" "dict_small d"
  shows "\<exists>d'. dictReplace c d k v = Some (dict_map d k = None, d') \<and> dict_inv d' \<and>
    dict_type d' = dict_type d \<and>
    (\<forall>k'. dict_map d' k' = (if keq (dict_type d) k' k then Some (Some (dictDupVal (dict_type d) v))
                           else dict_map d k'))"
  using assms by (rule dictReplace_correct)

theorem dictReplace_refines_witness:
  "dict_inv ex_dict \<and> dict_small ex_dict \<and>
   (\<exists>d'. dictReplace True ex_dict 5 90 = Some (False, d') \<and>
      dict_map d' 5 = Some (Some 90) \<and> dict_map d' 1 = Some (Some 10))"
  using dictReplace_refines [OF ex_dict_inv ex_dict_small, of True 5 90] ex_dict_inv ex_dict_small
  by (auto simp: ex_dict_map ex_dict_type keq_ex_type)

text \<open>
  C6. \<^verbatim>\<open>dictDelete\<close> implements map deletion: the key is unbound afterwards, the other keys are
  unaffected, and the status tells whether the key was present.
\<close>

theorem dictDelete_refines:
  assumes "dict_inv d" "dict_small d"
  shows "\<exists>d'. dictDelete d k = Some (if dict_map d k = None then DICT_ERR else DICT_OK, d') \<and>
    dict_inv d' \<and> dict_type d' = dict_type d \<and>
    (\<forall>k'. dict_map d' k' = (if keq (dict_type d) k' k then None else dict_map d k'))"
  using dictGenericDelete_correct [OF assms, of k]
  by (auto simp: dictDelete_def split: option.splits)

theorem dictDelete_refines_witness:
  "dict_inv ex_dict \<and> dict_small ex_dict \<and>
   (\<exists>d'. dictDelete ex_dict 5 = Some (DICT_OK, d') \<and> dict_map d' 5 = None \<and> dict_map d' 1 = Some (Some 10))"
  using dictDelete_refines [OF ex_dict_inv ex_dict_small, of 5] ex_dict_inv ex_dict_small
  by (auto simp: ex_dict_map ex_dict_type keq_ex_type)

text \<open>
  C30. \<^verbatim>\<open>dictFetchValue\<close>, and with it \<^verbatim>\<open>dictFind\<close>, returns the binding of the key in the map,
  or nothing when there is none, and the rehash step it performs does not change the map.
\<close>

theorem dictFetchValue_lookup:
  assumes "dict_inv d" "dict_small d"
  shows "\<exists>d'. dictFetchValue d k = Some (dict_map d k, d') \<and> dict_inv d' \<and> dict_map d' = dict_map d"
proof -
  obtain r d' where f: "dictFind d k = Some (r, d')" "dict_inv d'" "same_content d d'"
    "case r of None \<Rightarrow> dict_map d k = None
     | Some ref \<Rightarrow> ref_ok d' ref \<and> keq (dict_type d) k (entry_key (deref d' ref)) \<and>
         dict_map d k = Some (entry_val (deref d' ref))"
    using dictFind_correct [OF assms, of k] by blast
  then have "map_option (\<lambda>r. entry_val (deref d' r)) r = dict_map d k"
    by (cases r) simp_all
  with f same_content_map [OF assms(1) f(3)] show ?thesis
    by (simp add: dictFetchValue_def)
qed

theorem dictFetchValue_lookup_witness:
  "dict_inv ex_dict \<and> dict_small ex_dict \<and>
   (\<exists>d'. dictFetchValue ex_dict 1 = Some (Some (Some 10), d')) \<and> (\<exists>d'. dictFetchValue ex_dict 3 = Some (None, d'))"
proof -
  obtain d1 d3 where "dictFetchValue ex_dict 1 = Some (dict_map ex_dict 1, d1)"
    "dictFetchValue ex_dict 3 = Some (dict_map ex_dict 3, d3)"
    using dictFetchValue_lookup [OF ex_dict_inv ex_dict_small] by blast
  then show ?thesis using ex_dict_inv ex_dict_small by (simp add: ex_dict_map)
qed

text \<open>
  C31. For a number of steps from 0 on whose tenfold fits an \<^verbatim>\<open>int\<close>, \<^verbatim>\<open>dictRehash\<close> never reads outside a table nor
  fails its assertion, moves entries without losing, duplicating or changing any, keeps the invariant, and returns
  0 exactly when the rehashing is over.
\<close>

theorem dictRehash_preserves:
  assumes "dict_inv d" "length (dict_entries d) < 2 ^ 64" "0 \<le> n" "n * 10 < 2 ^ 31"
  shows "\<exists>more d'. dictRehash d n = Some (more, d') \<and> dict_inv d' \<and> more = dictIsRehashing d' \<and>
    mset (dict_entries d') = mset (dict_entries d) \<and> dict_map d' = dict_map d"
proof -
  obtain more d' where "dictRehash d n = Some (more, d')" "dict_inv d'" "same_content d d'"
    "more = dictIsRehashing d'"
    using dictRehash_Some [OF assms] by blast
  then show ?thesis
    using same_content_map [OF assms(1) \<open>same_content d d'\<close>] by (simp add: same_content_def)
qed

theorem dictRehash_preserves_witness:
  "dict_inv ex_dict \<and> length (dict_entries ex_dict) < 2 ^ 64 \<and>
   (\<exists>more d'. dictRehash ex_dict 1 = Some (more, d') \<and> dict_map d' 1 = Some (Some 10))"
proof -
  have s: "length (dict_entries ex_dict) < 2 ^ 64"
    using ex_dict_small by (simp add: dict_small_def)
  obtain more d' where "dictRehash ex_dict 1 = Some (more, d')" "dict_map d' = dict_map ex_dict"
    using dictRehash_preserves [OF ex_dict_inv s, of 1] by fastforce
  then show ?thesis using s ex_dict_inv by (simp add: ex_dict_map)
qed

text \<open>Rehashing terminates: on a table small enough for its counter \<^verbatim>\<open>dictRehashMilliseconds\<close> returns for every behaviour of the clock,
  without changing the map, and if the clock does not stop it first the rehashing is complete
  when it returns.
\<close>

theorem dictRehashMilliseconds_completes:
  assumes "dict_inv d" "length (dict_entries d) < 2 ^ 64" "100 * (int (length (ht_table (ht0 d))) - rehashidx d) < 2 ^ 31"
  shows "\<exists>r d'. dictRehashMilliseconds elapsed d ms = Some (r, d') \<and> dict_inv d' \<and>
    dict_map d' = dict_map d \<and> ((\<forall>j. elapsed j \<le> ms) \<longrightarrow> \<not> dictIsRehashing d')"
  unfolding dictRehashMilliseconds_def
  using rehash_ms_loop_Some [OF assms(1,2) order.refl, unfolded add_0_left, OF assms(3), of elapsed 0 ms] same_content_map [OF assms(1)]
  by blast

theorem dictRehashMilliseconds_completes_witness:
  "dict_inv ex_dict \<and> length (dict_entries ex_dict) < 2 ^ 64 \<and>
   (\<exists>r d'. dictRehashMilliseconds (\<lambda>_. 0) ex_dict 1 = Some (r, d') \<and> \<not> dictIsRehashing d' \<and>
      dict_map d' 5 = Some (Some 50))"
proof -
  have s: "length (dict_entries ex_dict) < 2 ^ 64"
    using ex_dict_small by (simp add: dict_small_def)
  have t: "100 * (int (length (ht_table (ht0 ex_dict))) - rehashidx ex_dict) < 2 ^ 31" by (simp add: ex_dict_def)
  obtain r d' where "dictRehashMilliseconds (\<lambda>_. 0) ex_dict 1 = Some (r, d')" "dict_map d' = dict_map ex_dict"
    "(\<forall>j. (\<lambda>_. 0) j \<le> (1::int)) \<longrightarrow> \<not> dictIsRehashing d'"
    using dictRehashMilliseconds_completes [OF ex_dict_inv s t, of "\<lambda>_. 0" 1] by blast
  then show ?thesis using s ex_dict_inv by (simp add: ex_dict_map)
qed

text \<open>\<^verbatim>\<open>_dictNextPower\<close> ends for every argument, and returns the least power of two that is at
  least 4 and at least the argument (\<open>2 ^ 63\<close> when the argument is too large for that).
\<close>

theorem dictNextPower_least:
  "\<exists>k. 2 \<le> k \<and> k \<le> 63 \<and> dictNextPower sz = Some (2 ^ k) \<and>
    (unat sz \<le> 2 ^ k \<or> 2 ^ 63 - 1 \<le> unat sz) \<and> (k = 2 \<or> 2 ^ (k - 1) < unat sz)"
  by (rule dictNextPower_Some)

text \<open>\<^verbatim>\<open>dictEmpty\<close> and \<^verbatim>\<open>dictRelease\<close> hand every entry of the dictionary to the destructors
  exactly once, although the loop stops early when the count reaches zero, and \<^verbatim>\<open>dictEmpty\<close>
  leaves an empty, well-formed dictionary.
\<close>

theorem dictEmpty_frees_all:
  assumes "dict_inv d"
  shows "fst (dictEmpty d) = dict_entries d \<and> dictRelease d = dict_entries d \<and>
    dict_inv (snd (dictEmpty d)) \<and> (\<forall>k. dict_map (snd (dictEmpty d)) k = None)"
  using dictEmpty_correct [OF assms] by (simp add: dict_map_def)

theorem dictEmpty_frees_all_witness:
  "dict_inv ex_dict \<and> length (fst (dictEmpty ex_dict)) = 3"
  using dictEmpty_frees_all [OF ex_dict_inv] ex_dict_inv
  by (simp add: dict_entries_def ht_entries_def ex_dict_def)

end
