(* ===== verification/Dict_Scan.thy ===== *)
theory Dict_Scan
  imports Dict_Correct
begin

unbundle bit_operations_syntax

text \<open>
  The stateless cursor iteration \<^verbatim>\<open>dictScan\<close> of \<^verbatim>\<open>redis/src/dict.c\<close>: the bit-reversal
  \<^verbatim>\<open>rev\<close>, the step function, and the guarantee stated in its comment, that every
  element present from the start to the end of an iteration is returned, whatever
  resizing and rehashing happens between the calls.
\<close>

section \<open>Model\<close>

text \<open>One round of the loop of \<^verbatim>\<open>rev\<close>, and the loop (\<^verbatim>\<open>s\<close> starts at 64).\<close>

definition rev_step :: "nat \<Rightarrow> ulong \<Rightarrow> ulong \<Rightarrow> ulong" where
  "rev_step s msk v = (drop_bit s v AND msk) OR (push_bit s v AND NOT msk)"

function rev_loop :: "nat \<Rightarrow> ulong \<Rightarrow> ulong \<Rightarrow> ulong" where
  "rev_loop s msk v =
     (let s' = s div 2 in
      if s' > 0 then let msk' = msk XOR push_bit s' msk in rev_loop s' msk' (rev_step s' msk' v)
      else v)"
  by pat_completeness auto
termination by (relation "measure (\<lambda>(s, msk, v). s)") auto
declare rev_loop.simps [simp del]
definition dict_rev :: "ulong \<Rightarrow> ulong" where
  "dict_rev v = rev_loop 64 (NOT 0) v"

text \<open>\<^verbatim>\<open>v |= ~m; v = rev(v); v++; v = rev(v);\<close>\<close>

definition scan_next :: "ulong \<Rightarrow> ulong \<Rightarrow> ulong" where
  "scan_next m v = dict_rev (dict_rev (v OR NOT m) + 1)"

text \<open>The chain at the cursor: the entries given to the callback.\<close>

definition scan_bucket :: "('k, 'v) dictht \<Rightarrow> ulong \<Rightarrow> ('k, 'v) dictEntry list option" where
  "scan_bucket t v =
     (let i = unat (v AND ht_sizemask t) in
      if i < length (ht_table t) then Some (ht_table t ! i) else None)"

text \<open>The \<^verbatim>\<open>do .. while\<close> over the expansions of the cursor in the larger table.\<close>

partial_function (option) scan_expansions :: "('k, 'v) dictht \<Rightarrow> ulong \<Rightarrow> ulong \<Rightarrow>
    ('k, 'v) dictEntry list \<Rightarrow> (ulong \<times> ('k, 'v) dictEntry list) option" where
  "scan_expansions t1 m0 v acc =
     Option.bind (scan_bucket t1 v) (\<lambda>es.
       if scan_next (ht_sizemask t1) v AND (m0 XOR ht_sizemask t1) \<noteq> 0
       then scan_expansions t1 m0 (scan_next (ht_sizemask t1) v) (acc @ es)
       else Some (scan_next (ht_sizemask t1) v, acc @ es))"

text \<open>
  \<^verbatim>\<open>dictScan\<close>: the new cursor and the entries passed to \<^verbatim>\<open>fn\<close>, in order. The iterator
  count is raised during the call and lowered again, so the dictionary is unchanged.
\<close>

definition dictScan :: "('k, 'v) dict \<Rightarrow> ulong \<Rightarrow> (ulong \<times> ('k, 'v) dictEntry list) option" where
  "dictScan d v =
     (if dictSize d = 0 then Some (0, [])
      else if \<not> dictIsRehashing d then
        do { es \<leftarrow> scan_bucket (ht0 d) v; Some (scan_next (ht_sizemask (ht0 d)) v, es) }
      else
        let (t0, t1) = (if ht_size (ht0 d) > ht_size (ht1 d) then (ht1 d, ht0 d)
                        else (ht0 d, ht1 d))
        in do { es \<leftarrow> scan_bucket t0 v; scan_expansions t1 (ht_sizemask t0) v es })"

section \<open>Bit reversal\<close>

lemma bit_rev_step:
  assumes "\<forall>i < 64. bit msk i \<longleftrightarrow> \<not> bit i j" "i < 64"
  shows "bit (rev_step (2 ^ j) msk v) i \<longleftrightarrow> bit v (if bit i j then i - 2 ^ j else i + 2 ^ j)"
proof -
  have "2 ^ j \<le> i" if "bit i j"
    using that by (metis bit_nat_iff bit_iff_odd div_less even_zero not_le)
  then show ?thesis
    using assms by (auto simp: rev_step_def bit_simps add.commute)
qed

lemma div_halves: "(64::nat) div 2 = 32" "(32::nat) div 2 = 16" "(16::nat) div 2 = 8"
  "(8::nat) div 2 = 4" "(4::nat) div 2 = 2" "(2::nat) div 2 = 1"
  by simp_all

lemma rev_mask_steps:
  "NOT 0 XOR push_bit 32 (NOT 0) = (0x00000000FFFFFFFF :: ulong)"
  "0x00000000FFFFFFFF XOR push_bit 16 0x00000000FFFFFFFF = (0x0000FFFF0000FFFF :: ulong)"
  "0x0000FFFF0000FFFF XOR push_bit 8 0x0000FFFF0000FFFF = (0x00FF00FF00FF00FF :: ulong)"
  "0x00FF00FF00FF00FF XOR push_bit 4 0x00FF00FF00FF00FF = (0x0F0F0F0F0F0F0F0F :: ulong)"
  "0x0F0F0F0F0F0F0F0F XOR push_bit 2 0x0F0F0F0F0F0F0F0F = (0x3333333333333333 :: ulong)"
  "0x3333333333333333 XOR push_bit 1 0x3333333333333333 = (0x5555555555555555 :: ulong)"
  by code_simp+

lemma rev_loop_step:
  "s div 2 = s' \<Longrightarrow> 0 < s' \<Longrightarrow> msk XOR push_bit s' msk = msk' \<Longrightarrow>
     rev_loop s msk v = rev_loop s' msk' (rev_step s' msk' v)"
  by (subst rev_loop.simps) simp

lemma dict_rev_unfold:
  "dict_rev v = rev_step 1 0x5555555555555555 (rev_step 2 0x3333333333333333
     (rev_step 4 0x0F0F0F0F0F0F0F0F (rev_step 8 0x00FF00FF00FF00FF
     (rev_step 16 0x0000FFFF0000FFFF (rev_step 32 0x00000000FFFFFFFF v)))))"
proof -
  have "rev_loop 1 m w = w" for m w by (subst rev_loop.simps) simp
  then show ?thesis
    unfolding dict_rev_def
    by (simp only: rev_loop_step [OF _ _ rev_mask_steps(1)] rev_loop_step [OF _ _ rev_mask_steps(2)]
        rev_loop_step [OF _ _ rev_mask_steps(3)] rev_loop_step [OF _ _ rev_mask_steps(4)]
        rev_loop_step [OF _ _ rev_mask_steps(5)] rev_loop_step [OF _ _ rev_mask_steps(6)]
        div_halves zero_less_numeral zero_less_one)
qed

lemma all_lt_64: "(\<forall>i < 64. P i) \<longleftrightarrow> list_all P [0..<64]"
  by (auto simp: list_all_iff)

lemma rev_masks:
  "\<forall>i < 64. bit (0x00000000FFFFFFFF :: ulong) i \<longleftrightarrow> \<not> bit i 5"
  "\<forall>i < 64. bit (0x0000FFFF0000FFFF :: ulong) i \<longleftrightarrow> \<not> bit i 4"
  "\<forall>i < 64. bit (0x00FF00FF00FF00FF :: ulong) i \<longleftrightarrow> \<not> bit i 3"
  "\<forall>i < 64. bit (0x0F0F0F0F0F0F0F0F :: ulong) i \<longleftrightarrow> \<not> bit i 2"
  "\<forall>i < 64. bit (0x3333333333333333 :: ulong) i \<longleftrightarrow> \<not> bit i 1"
  "\<forall>i < 64. bit (0x5555555555555555 :: ulong) i \<longleftrightarrow> \<not> bit i 0"
  unfolding all_lt_64 by code_simp+

definition flip :: "nat \<Rightarrow> nat \<Rightarrow> nat" where
  "flip j i = (if bit i j then i - 2 ^ j else i + 2 ^ j)"

lemma flips: "\<forall>i < 64. flip 0 i < 64 \<and> flip 1 (flip 0 i) < 64 \<and> flip 2 (flip 1 (flip 0 i)) < 64 \<and>
    flip 3 (flip 2 (flip 1 (flip 0 i))) < 64 \<and> flip 4 (flip 3 (flip 2 (flip 1 (flip 0 i)))) < 64 \<and>
    flip 5 (flip 4 (flip 3 (flip 2 (flip 1 (flip 0 i))))) = 63 - i"
  unfolding all_lt_64 by code_simp

lemma dict_rev_word_reverse: "dict_rev v = word_reverse v"
proof (rule bit_word_eqI)
  fix i assume "i < LENGTH(64)"
  then have i: "i < 64" by simp
  note st = bit_rev_step [OF rev_masks(1), folded flip_def, simplified]
    bit_rev_step [OF rev_masks(2), folded flip_def, simplified]
    bit_rev_step [OF rev_masks(3), folded flip_def, simplified]
    bit_rev_step [OF rev_masks(4), folded flip_def, simplified]
    bit_rev_step [OF rev_masks(5), folded flip_def, simplified]
    bit_rev_step [OF rev_masks(6), folded flip_def, simplified]
  show "bit (dict_rev v) i \<longleftrightarrow> bit (word_reverse v) i"
    using i flips by (simp add: dict_rev_unfold st bit_word_reverse_iff)
qed

section \<open>The cursor read from its reversed end\<close>

definition rv :: "ulong \<Rightarrow> nat" where
  "rv v = unat (word_reverse v)"

lemma rv_lt: "rv v < 2 ^ 64"
  unfolding rv_def by (rule unat_lt_64)

lemma rv_inj: "rv v = rv w \<longleftrightarrow> v = w"
  unfolding rv_def by (metis word_eq_reverseI unsigned_word_eqI)

lemma reverse_or_not_mask:
  assumes "k \<le> 64"
  shows "word_reverse (v OR NOT (mask k)) = (word_reverse v :: ulong) OR mask (64 - k)"
proof (rule bit_word_eqI)
  fix i assume "i < LENGTH(64)"
  then show "bit (word_reverse (v OR NOT (mask k))) i = bit ((word_reverse v :: ulong) OR mask (64 - k)) i"
    using assms by (auto simp: bit_word_reverse_iff bit_or_iff bit_not_iff bit_mask_iff)
qed

lemma unat_drop_bit: "unat (drop_bit m (w::ulong)) = unat w div 2 ^ m"
  unfolding unsigned_drop_bit_eq using unat_lt_64 [of w]
  by (simp add: drop_bit_eq_div take_bit_nat_eq_self)

lemma unat_push_drop: "unat (push_bit m (drop_bit m (w::ulong))) = unat w div 2 ^ m * 2 ^ m"
proof -
  have "unat w div 2 ^ m * 2 ^ m \<le> unat w" by simp
  also have "\<dots> < 2 ^ 64" by (rule unat_lt_64)
  finally show ?thesis
    unfolding unsigned_push_bit_eq unat_drop_bit by (simp add: push_bit_eq_mult take_bit_nat_eq_self)
qed

lemma or_mask_eq: "(w::ulong) OR mask m = push_bit m (drop_bit m w) + mask m"
proof -
  have "push_bit m (drop_bit m w) + mask m = push_bit m (drop_bit m w) OR (mask m :: ulong)"
    by (rule disjunctive_add_eq_or) (auto simp: bit_eq_iff bit_simps)
  also have "\<dots> = w OR mask m"
    by (auto simp: bit_eq_iff bit_simps)
  finally show ?thesis by simp
qed

lemma rv_scan_next:
  assumes "k \<le> 64"
  shows "rv (scan_next (mask k) v) = (rv v div 2 ^ (64 - k) + 1) * 2 ^ (64 - k) mod 2 ^ 64"
proof -
  let ?m = "64 - k" and ?w = "word_reverse v :: ulong"
  have "rv (scan_next (mask k) v) = unat (word_reverse (v OR NOT (mask k)) + 1)"
    by (simp add: rv_def scan_next_def dict_rev_word_reverse word_rev_rev)
  also have "\<dots> = unat ((?w OR mask ?m) + 1)"
    using assms by (simp add: reverse_or_not_mask)
  also have "(?w OR mask ?m) + 1 = push_bit ?m (drop_bit ?m ?w) + 2 ^ ?m"
  proof -
    have "mask ?m + 1 = (2 ^ ?m :: ulong)" by (simp only: mask_eq_exp_minus_1 diff_add_cancel)
    then show ?thesis unfolding or_mask_eq [of ?w ?m] by (simp only: add.assoc)
  qed
  also have "unat (push_bit ?m (drop_bit ?m ?w) + 2 ^ ?m) = (unat ?w div 2 ^ ?m * 2 ^ ?m + 2 ^ ?m) mod 2 ^ 64"
  proof -
    have "unat (2 ^ ?m :: ulong) = 2 ^ ?m mod 2 ^ 64"
      using unat_of_nat [of "2 ^ ?m", where ?'a = 64] by (simp add: take_bit_eq_mod)
    then show ?thesis by (simp add: unat_word_ariths unat_push_drop mod_add_right_eq)
  qed
  finally show ?thesis by (simp add: rv_def algebra_simps)
qed

lemma all_less_mirror: "(\<forall>i < k. P (k - Suc i)) \<longleftrightarrow> (\<forall>j < k. P (j::nat))"
proof (intro iffI allI impI)
  fix j assume a: "\<forall>i < k. P (k - Suc i)" and j: "j < k"
  then have "P (k - Suc (k - Suc j))" by (intro a [rule_format]) simp
  then show "P j" using j by simp
qed simp

lemma and_mask_eq_iff_rv:
  assumes "k \<le> 64"
  shows "h AND mask k = v AND mask k \<longleftrightarrow> rv h div 2 ^ (64 - k) = rv v div 2 ^ (64 - k)"
proof -
  have rev: "bit (drop_bit (64 - k) (word_reverse w :: ulong)) i \<longleftrightarrow> i < k \<and> bit w (k - Suc i)" for w i
    using assms by (auto simp: bit_simps bit_word_reverse_iff)
  have "rv h div 2 ^ (64 - k) = rv v div 2 ^ (64 - k) \<longleftrightarrow>
      drop_bit (64 - k) (word_reverse h) = drop_bit (64 - k) (word_reverse v :: ulong)"
    by (simp only: rv_def unat_drop_bit [symmetric] word_unat_eq_iff)
  also have "\<dots> \<longleftrightarrow> (\<forall>i < k. bit h (k - Suc i) = bit v (k - Suc i))"
  proof -
    have "a = b \<longleftrightarrow> (\<forall>i < k. bit a i = bit b i)" if "\<And>i. bit a i \<longrightarrow> i < k" "\<And>i. bit b i \<longrightarrow> i < k"
      for a b :: ulong
      using that by (metis bit_word_eqI)
    note * = this [of "drop_bit (64 - k) (word_reverse h)" "drop_bit (64 - k) (word_reverse v)"]
    show ?thesis by (subst *) (auto simp: rev)
  qed
  also have "\<dots> \<longleftrightarrow> (\<forall>j < k. bit h j = bit v j)"
    by (rule all_less_mirror)
  also have "\<dots> \<longleftrightarrow> h AND mask k = v AND mask k"
  proof
    assume "\<forall>j < k. bit h j = bit v j"
    then show "h AND mask k = v AND mask k" by (intro bit_word_eqI) (auto simp: bit_simps)
  next
    assume eq: "h AND mask k = v AND mask k"
    show "\<forall>j < k. bit h j = bit v j"
    proof (intro allI impI)
      fix j assume "j < k"
      with arg_cong [OF eq, of "\<lambda>w. bit w j"] assms show "bit h j = bit v j" by (simp add: bit_simps)
    qed
  qed
  finally show ?thesis by blast
qed

text \<open>The masked difference of the cursor is zero exactly at the multiples of the larger step.\<close>

lemma and_mask_xor_rv:
  assumes "k0 \<le> k1" "k1 \<le> 64" "2 ^ (64 - k1) dvd rv v"
  shows "v AND (mask k0 XOR mask k1) = 0 \<longleftrightarrow> 2 ^ (64 - k0) dvd rv v"
proof -
  have dv: "2 ^ m dvd rv v \<longleftrightarrow> (\<forall>i < m. i < 64 \<longrightarrow> \<not> bit v (63 - i))" for m
  proof -
    have "2 ^ m dvd rv v \<longleftrightarrow> take_bit m (rv v) = 0"
      by (simp add: take_bit_eq_0_iff)
    also have "\<dots> \<longleftrightarrow> (\<forall>i < m. \<not> bit (rv v) i)"
      by (auto simp: bit_eq_iff bit_take_bit_iff)
    also have "\<dots> \<longleftrightarrow> (\<forall>i < m. i < 64 \<longrightarrow> \<not> bit v (63 - i))"
      by (auto simp: rv_def bit_simps bit_word_reverse_iff)
    finally show ?thesis .
  qed
  have "v AND (mask k0 XOR mask k1) = 0 \<longleftrightarrow> (\<forall>j. k0 \<le> j \<and> j < k1 \<longrightarrow> \<not> bit v j)"
  proof -
    have "bit (v AND (mask k0 XOR mask k1)) j \<longleftrightarrow> k0 \<le> j \<and> j < k1 \<and> bit v j" for j
      using assms(1,2) by (auto simp: bit_simps dest: bit_imp_le_length)
    moreover have "w = 0 \<longleftrightarrow> (\<forall>j. \<not> bit w j)" for w :: ulong
      by (metis bit_0_eq bot_apply bot_bool_def bit_word_eqI)
    ultimately show ?thesis by auto
  qed
  also have "\<dots> \<longleftrightarrow> (\<forall>i. 64 - k1 \<le> i \<and> i < 64 - k0 \<longrightarrow> \<not> bit v (63 - i))"
  proof (intro iffI allI impI)
    fix i assume "\<forall>j. k0 \<le> j \<and> j < k1 \<longrightarrow> \<not> bit v j" "64 - k1 \<le> i \<and> i < 64 - k0"
    moreover from this have "k0 \<le> 63 - i \<and> 63 - i < k1" using assms(2) by arith
    ultimately show "\<not> bit v (63 - i)" by blast
  next
    fix j assume a: "\<forall>i. 64 - k1 \<le> i \<and> i < 64 - k0 \<longrightarrow> \<not> bit v (63 - i)" "k0 \<le> j \<and> j < k1"
    then have "\<not> bit v (63 - (63 - j))" using assms(2) by (intro a(1) [rule_format]) auto
    then show "\<not> bit v j" using a(2) assms(2) by simp
  qed
  also have "\<dots> \<longleftrightarrow> 2 ^ (64 - k0) dvd rv v"
  proof -
    have "\<forall>i < 64 - k1. i < 64 \<longrightarrow> \<not> bit v (63 - i)" using assms(3) unfolding dv .
    then have "\<not> bit v (63 - i)" if "\<forall>i. 64 - k1 \<le> i \<and> i < 64 - k0 \<longrightarrow> \<not> bit v (63 - i)" "i < 64 - k0" for i
      using that by (cases "i < 64 - k1") auto
    then show ?thesis unfolding dv by auto
  qed
  finally show ?thesis .
qed

section \<open>One call\<close>

lemma ht_inv_mask:
  assumes "ht_inv t ht" "ht_size ht \<noteq> 0"
  obtains k where "2 \<le> k" "k \<le> 60" "ht_size ht = 2 ^ k" "ht_sizemask ht = mask k"
  using assms by (auto simp: ht_inv_def)

lemma scan_bucket_Some:
  assumes "ht_inv t ht" "ht_size ht \<noteq> 0"
  shows "scan_bucket ht v = Some (ht_table ht ! unat (v AND ht_sizemask ht))"
  using ht_inv_index_lt [OF assms] by (simp add: scan_bucket_def)

lemma bucket_subset: "i < length (ht_table ht) \<Longrightarrow> set (ht_table ht ! i) \<subseteq> set (ht_entries ht)"
  using nth_mem by (fastforce simp: ht_entries_def)

lemma scan_bucket_mem:
  assumes inv: "ht_inv t ht" and e: "e \<in> set (ht_entries ht)" and mk: "ht_sizemask ht = mask k" "k \<le> 64"
    and r: "rv (hashFunction t (entry_key e)) div 2 ^ (64 - k) = rv v div 2 ^ (64 - k)"
  shows "e \<in> set (ht_table ht ! unat (v AND ht_sizemask ht))"
proof -
  obtain i where i: "i < length (ht_table ht)" "e \<in> set (ht_table ht ! i)"
    using e unfolding ht_entries_def concat_mem_nth by blast
  have "unat (hashFunction t (entry_key e) AND ht_sizemask ht) = i"
    using ht_inv_hash [OF inv i] .
  moreover have "hashFunction t (entry_key e) AND mask k = v AND mask k"
    using and_mask_eq_iff_rv [OF mk(2)] r by simp
  ultimately show ?thesis using i(2) mk(1) by simp
qed

text \<open>Arithmetic of a step of width \<open>w\<close> inside a step of width \<open>w * c\<close>.\<close>

lemma next_multiple:
  fixes r w c :: nat
  assumes "0 < w" "0 < c"
  defines "n \<equiv> (r div w + 1) * w" and "u \<equiv> (r div (w * c) + 1) * (w * c)"
  shows "r < n" "n \<le> u"
    and "n < u \<Longrightarrow> n div (w * c) = r div (w * c)" "n < u \<Longrightarrow> \<not> w * c dvd n"
    and "\<lbrakk>r \<le> x; x < n\<rbrakk> \<Longrightarrow> x div w = r div w"
proof -
  show rn: "r < n"
    using assms(1) by (simp add: n_def dividend_less_times_div algebra_simps)
  have "r < u"
    using assms(1,2) dividend_less_times_div [of "w * c" r] by (simp add: u_def algebra_simps)
  then have "r div w < (r div (w * c) + 1) * c"
    using assms(1) by (simp add: u_def less_mult_imp_div_less algebra_simps)
  then have "(r div w + 1) * w \<le> ((r div (w * c) + 1) * c) * w"
    by (intro mult_le_mono1) simp
  then show "n \<le> u" by (simp add: n_def u_def algebra_simps)
  show nd: "n div (w * c) = r div (w * c)" if "n < u"
  proof (rule antisym)
    have "n div (w * c) < r div (w * c) + 1"
      using that by (simp only: u_def less_mult_imp_div_less)
    then show "n div (w * c) \<le> r div (w * c)" by simp
    show "r div (w * c) \<le> n div (w * c)" using rn by (intro div_le_mono) simp
  qed
  show "\<not> w * c dvd n" if "n < u"
  proof
    assume "w * c dvd n"
    then have "n = (r div (w * c)) * (w * c)" using nd [OF that] by (metis dvd_div_mult_self)
    also have "\<dots> \<le> r" by simp
    finally show False using rn by simp
  qed
  show "x div w = r div w" if "r \<le> x" "x < n"
  proof (rule antisym)
    have "x div w < r div w + 1"
      using that(2) by (simp only: n_def less_mult_imp_div_less)
    then show "x div w \<le> r div w" by simp
    show "r div w \<le> x div w" using that(1) by (rule div_le_mono)
  qed
qed

lemma next_multiple_div:
  "r \<le> x \<Longrightarrow> x < (r div 2 ^ m + 1) * 2 ^ m \<Longrightarrow> x div 2 ^ m = r div (2::nat) ^ m"
  by (rule next_multiple(5) [of "2 ^ m" 1]) simp_all

lemma next_multiple_le:
  assumes "r < 2 ^ 64" "k \<le> 64"
  shows "(r div 2 ^ (64 - k) + 1) * 2 ^ (64 - k) \<le> (2::nat) ^ 64"
proof -
  have eq: "(2::nat) ^ 64 = 2 ^ k * 2 ^ (64 - k)" using assms(2) by (simp flip: power_add)
  have "r div 2 ^ (64 - k) < 2 ^ k"
    using assms(1) unfolding eq by (rule less_mult_imp_div_less)
  then show ?thesis unfolding eq by (intro mult_le_mono1) simp
qed

lemma power_dvd_64: "(2::nat) ^ (64 - k) dvd 2 ^ 64"
  by (rule le_imp_power_dvd) simp

lemma rv_scan_next_width:
  fixes v :: ulong
  assumes "k \<le> 64"
  defines "n \<equiv> (rv v div 2 ^ (64 - k) + 1) * 2 ^ (64 - k)"
  shows "rv v < n" "n \<le> 2 ^ 64" "rv (scan_next (mask k) v) = n mod 2 ^ 64"
  using next_multiple(1) [of "2 ^ (64 - k)" 1 "rv v"] next_multiple_le [OF rv_lt assms(1)]
    rv_scan_next [OF assms(1)]
  by (simp_all add: n_def)

text \<open>The loop over the expansions covers the rest of the small table's step.\<close>

lemma scan_expansions_Some:
  assumes inv: "ht_inv t t1" and t1: "ht_size t1 \<noteq> 0" "ht_sizemask t1 = mask k1" "k0 \<le> k1" "k1 \<le> 64"
  defines "U \<equiv> \<lambda>v. (rv v div 2 ^ (64 - k0) + 1) * 2 ^ (64 - k0)"
  shows "\<exists>v' es. scan_expansions t1 (mask k0) v acc = Some (v', acc @ es) \<and> rv v' = U v mod 2 ^ 64 \<and>
    set es \<subseteq> set (ht_entries t1) \<and>
    (\<forall>e \<in> set (ht_entries t1). rv v \<le> rv (hashFunction t (entry_key e)) \<longrightarrow>
       rv (hashFunction t (entry_key e)) < U v \<longrightarrow> e \<in> set es)"
proof (induction "U v - rv v" arbitrary: v acc rule: less_induct)
  case less
  let ?w = "2 ^ (64 - k1) :: nat" and ?c = "2 ^ (k1 - k0) :: nat"
  let ?n = "(rv v div ?w + 1) * ?w" and ?v = "scan_next (mask k1) v"
  let ?es = "ht_table t1 ! unat (v AND ht_sizemask t1)"
  have wc: "(2::nat) ^ (64 - k0) = ?w * ?c"
    using t1(3,4) by (simp flip: power_add)
  note nm = next_multiple [of ?w ?c "rv v", folded wc]
  have U: "U v = (rv v div 2 ^ (64 - k0) + 1) * 2 ^ (64 - k0)" by (simp add: U_def)
  note nx = rv_scan_next_width [OF t1(4), of v]
  have U64: "U v \<le> 2 ^ 64" using next_multiple_le [OF rv_lt, of k0 v] t1(3,4) by (simp add: U_def)
  have sb: "scan_bucket t1 v = Some ?es" using scan_bucket_Some [OF inv t1(1)] .
  have sub: "set ?es \<subseteq> set (ht_entries t1)"
    using ht_inv_index_lt [OF inv t1(1), of v] by (rule bucket_subset)
  have cov: "e \<in> set ?es" if "e \<in> set (ht_entries t1)" "rv v \<le> rv (hashFunction t (entry_key e))"
      "rv (hashFunction t (entry_key e)) < ?n" for e
    using scan_bucket_mem [OF inv that(1) t1(2,4)] nm(5) [OF _ _ that(2,3)] by simp
  have dvd1: "?w dvd rv ?v"
    unfolding nx(3) by (rule dvd_mod [OF dvd_triv_right power_dvd_64])
  show ?case
  proof (cases "?n < U v")
    case True
    then have eq: "rv ?v = ?n" using nx(3) U64 by simp
    have "\<not> 2 ^ (64 - k0) dvd rv ?v" using nm(4) True eq U by simp
    then have go: "?v AND (mask k0 XOR mask k1) \<noteq> 0"
      using and_mask_xor_rv [OF t1(3,4) dvd1] by blast
    have UU: "U ?v = U v" using nm(3) True eq U by (simp add: U_def)
    then have "U ?v - rv ?v < U v - rv v" using True eq nx(1) by (metis diff_less_mono2 less_trans)
    from less.hyps [OF this, of "acc @ ?es"] obtain v' es where ih:
      "scan_expansions t1 (mask k0) ?v (acc @ ?es) = Some (v', (acc @ ?es) @ es)"
      "rv v' = U ?v mod 2 ^ 64" "set es \<subseteq> set (ht_entries t1)"
      "\<forall>e \<in> set (ht_entries t1). rv ?v \<le> rv (hashFunction t (entry_key e)) \<longrightarrow>
         rv (hashFunction t (entry_key e)) < U ?v \<longrightarrow> e \<in> set es"
      by blast
    have run: "scan_expansions t1 (mask k0) v acc = Some (v', acc @ (?es @ es))"
      using ih(1) sb go t1(2) by (subst scan_expansions.simps) simp
    have "e \<in> set (?es @ es)" if "e \<in> set (ht_entries t1)" "rv v \<le> rv (hashFunction t (entry_key e))"
        "rv (hashFunction t (entry_key e)) < U v" for e
      using that cov ih(4) eq UU by (cases "rv (hashFunction t (entry_key e)) < ?n") auto
    with run ih(2,3) UU sub show ?thesis by (intro exI [of _ v'] exI [of _ "?es @ es"]) auto
  next
    case False
    then have eq: "U v = ?n" using nm(2) U by simp
    have "2 ^ (64 - k0) dvd rv ?v"
      unfolding nx(3) eq [symmetric] U by (rule dvd_mod [OF dvd_triv_right power_dvd_64])
    then have stop: "?v AND (mask k0 XOR mask k1) = 0"
      using and_mask_xor_rv [OF t1(3,4) dvd1] by blast
    have "scan_expansions t1 (mask k0) v acc = Some (?v, acc @ ?es)"
      using sb stop t1(2) by (subst scan_expansions.simps) simp
    with sub cov eq nx(3) show ?thesis by (intro exI [of _ ?v] exI [of _ ?es]) auto
  qed
qed

text \<open>The end of the interval of reversed hashes a call has dealt with: 0 stands for the top.\<close>

definition scan_end :: "ulong \<Rightarrow> nat" where
  "scan_end v = (if v = 0 then 2 ^ 64 else rv v)"

lemma rv_0: "rv v = 0 \<longleftrightarrow> v = 0"
proof -
  have "word_reverse 0 = (0 :: ulong)"
    by (rule bit_word_eqI) (simp add: bit_word_reverse_iff)
  then have "rv 0 = 0" by (simp add: rv_def)
  then show ?thesis by (metis rv_inj)
qed

lemma scan_end_mod: "rv v = n mod 2 ^ 64 \<Longrightarrow> 0 < n \<Longrightarrow> n \<le> 2 ^ 64 \<Longrightarrow> scan_end v = n"
  by (cases "n = 2 ^ 64") (auto simp: scan_end_def simp flip: rv_0)

definition covers :: "('k, 'v) dict \<Rightarrow> ulong \<Rightarrow> ulong \<Rightarrow> ('k, 'v) dictEntry list \<Rightarrow> bool" where
  "covers d v v' es \<longleftrightarrow> (\<forall>e \<in> set (dict_entries d).
     rv v \<le> rv (dictHashKey d (entry_key e)) \<longrightarrow>
     rv (dictHashKey d (entry_key e)) < scan_end v' \<longrightarrow> e \<in> set es)"

text \<open>The number of buckets that an iteration visits one by one: those of the smaller table.\<close>

definition scan_width :: "('k, 'v) dict \<Rightarrow> nat" where
  "scan_width d = unat (if dictIsRehashing d \<and> ht_size (ht0 d) > ht_size (ht1 d) then ht_size (ht1 d) else ht_size (ht0 d))"

definition advances :: "('k, 'v) dict \<Rightarrow> ulong \<Rightarrow> ulong \<Rightarrow> bool" where
  "advances d v v' \<longleftrightarrow> (\<forall>k. scan_width d = 2 ^ k \<longrightarrow> scan_end v' = (rv v div 2 ^ (64 - k) + 1) * 2 ^ (64 - k))"

lemma dictScan_single:
  assumes inv: "dict_inv d" and re: "\<not> dictIsRehashing d" and sz: "dictSize d \<noteq> 0" "ht_size (ht0 d) \<noteq> 0"
  shows "\<exists>v' es. dictScan d v = Some (v', es) \<and> set es \<subseteq> set (dict_entries d) \<and> rv v < scan_end v' \<and>
    covers d v v' es \<and> advances d v v'"
proof -
  note ht = dict_inv_ht [OF inv]
  obtain k where k: "k \<le> 60" "ht_sizemask (ht0 d) = mask k" "ht_size (ht0 d) = 2 ^ k"
    using ht_inv_mask [OF ht(1) sz(2)] by blast
  then have k64: "k \<le> 64" by simp
  let ?es = "ht_table (ht0 d) ! unat (v AND ht_sizemask (ht0 d))"
  let ?n = "(rv v div 2 ^ (64 - k) + 1) * 2 ^ (64 - k)" and ?v = "scan_next (mask k) v"
  note nx = rv_scan_next_width [OF k64, of v]
  have fin: "scan_end ?v = ?n" using nx by (intro scan_end_mod) simp_all
  have run: "dictScan d v = Some (?v, ?es)"
    using re sz scan_bucket_Some [OF ht(1) sz(2), of v] k(2) by (simp add: dictScan_def)
  have es: "dict_entries d = ht_entries (ht0 d)" using ht(6) [OF re] by (simp add: dict_entries_def)
  have "set ?es \<subseteq> set (dict_entries d)"
    unfolding es using ht_inv_index_lt [OF ht(1) sz(2), of v] by (rule bucket_subset)
  moreover have "covers d v ?v ?es"
    unfolding covers_def es fin dictHashKey_def
    by (intro ballI impI scan_bucket_mem [OF ht(1) _ k(2) k64] next_multiple_div) simp_all
  moreover have "advances d v ?v" using re k(1,3) fin by (auto simp: advances_def scan_width_def unat_2p)
  ultimately show ?thesis using run nx(1) fin by auto
qed

lemma dictScan_double:
  assumes inv: "dict_inv d" and re: "dictIsRehashing d" and sz: "dictSize d \<noteq> 0"
  shows "\<exists>v' es. dictScan d v = Some (v', es) \<and> set es \<subseteq> set (dict_entries d) \<and> rv v < scan_end v' \<and>
    covers d v v' es \<and> advances d v v'"
proof -
  let ?t = "dict_type d"
  note ht = dict_inv_ht [OF inv]
  obtain t0 t1 where t: "(t0, t1) = (if ht_size (ht0 d) > ht_size (ht1 d) then (ht1 d, ht0 d) else (ht0 d, ht1 d))"
    by (metis prod.collapse)
  then have t01: "ht_inv ?t t0" "ht_inv ?t t1" "ht_size t0 \<noteq> 0" "ht_size t1 \<noteq> 0" "ht_size t0 \<le> ht_size t1"
    "set (dict_entries d) = set (ht_entries t0) \<union> set (ht_entries t1)"
    using ht(1,2,5) re by (auto simp: dict_entries_def split: if_splits)
  obtain k0 where k0: "k0 \<le> 60" "ht_size t0 = 2 ^ k0" "ht_sizemask t0 = mask k0"
    using ht_inv_mask [OF t01(1,3)] by blast
  obtain k1 where k1: "k1 \<le> 60" "ht_size t1 = 2 ^ k1" "ht_sizemask t1 = mask k1"
    using ht_inv_mask [OF t01(2,4)] by blast
  have "(2::nat) ^ k0 \<le> 2 ^ k1" using t01(5) k0 k1 by (simp add: word_le_nat_alt unat_2p)
  then have le: "k0 \<le> k1" by (rule power_le_imp_le_exp [rotated]) simp
  have k64: "k0 \<le> 64" "k1 \<le> 64" using k0(1) k1(1) by simp_all
  let ?es0 = "ht_table t0 ! unat (v AND ht_sizemask t0)"
  let ?n = "(rv v div 2 ^ (64 - k0) + 1) * 2 ^ (64 - k0)"
  obtain v' es where x: "scan_expansions t1 (mask k0) v ?es0 = Some (v', ?es0 @ es)"
    "rv v' = ?n mod 2 ^ 64" "set es \<subseteq> set (ht_entries t1)"
    "\<forall>e \<in> set (ht_entries t1). rv v \<le> rv (hashFunction ?t (entry_key e)) \<longrightarrow>
       rv (hashFunction ?t (entry_key e)) < ?n \<longrightarrow> e \<in> set es"
    using scan_expansions_Some [OF t01(2,4) k1(3) le k64(2)] by blast
  note nx = rv_scan_next_width [OF k64(1), of v]
  have fin: "scan_end v' = ?n" using nx(1,2) x(2) by (intro scan_end_mod) simp_all
  have run: "dictScan d v = Some (v', ?es0 @ es)"
    using re sz x(1) scan_bucket_Some [OF t01(1,3), of v] k0(3)
    by (simp add: dictScan_def Let_def t [symmetric])
  have "set ?es0 \<subseteq> set (ht_entries t0)"
    using ht_inv_index_lt [OF t01(1,3), of v] by (rule bucket_subset)
  moreover have "e \<in> set ?es0" if "e \<in> set (ht_entries t0)" "rv v \<le> rv (hashFunction ?t (entry_key e))"
      "rv (hashFunction ?t (entry_key e)) < ?n" for e
    using that by (intro scan_bucket_mem [OF t01(1) _ k0(3) k64(1)] next_multiple_div) simp_all
  ultimately have "set (?es0 @ es) \<subseteq> set (dict_entries d)" "covers d v v' (?es0 @ es)"
    using x(3,4) t01(6) by (auto simp: covers_def fin dictHashKey_def)
  moreover have "scan_width d = 2 ^ k0" using re t k0(1,2) by (auto simp: scan_width_def unat_2p split: if_splits)
  then have "advances d v v'" using fin by (auto simp: advances_def)
  ultimately show ?thesis using run nx(1) fin by auto
qed

lemma dictScan_step:
  assumes inv: "dict_inv d" and small: "dict_small d"
  shows "\<exists>v' es. dictScan d v = Some (v', es) \<and> set es \<subseteq> set (dict_entries d) \<and> rv v < scan_end v' \<and>
    covers d v v' es \<and> (v' = 0 \<or> 0 < scan_width d \<and> advances d v v')"
proof (cases "dictSize d = 0")
  case True
  then have "dict_entries d = []" using dict_entries_size [OF inv small] by simp
  with True rv_lt [of v] show ?thesis by (simp add: dictScan_def covers_def scan_end_def)
next
  case False
  then have "ht_size (ht0 d) \<noteq> 0"
    using dict_entries_size [OF inv small] dict_nonempty_size [OF inv] by simp
  moreover have "0 < scan_width d" using calculation dict_inv_ht(5) [OF inv] by (auto simp: scan_width_def unat_gt_0)
  ultimately show ?thesis using False dictScan_single [OF inv, of v] dictScan_double [OF inv, of v] by blast
qed

section \<open>A whole iteration\<close>

text \<open>One call on each of the dictionaries \<open>ds\<close>, the states it has when the calls are made.\<close>

fun scan_calls :: "('k, 'v) dict list \<Rightarrow> ulong \<Rightarrow> (ulong \<times> ('k, 'v) dictEntry list) option" where
  "scan_calls [] v = Some (v, [])"
| "scan_calls (d # ds) v = do {
     (v', es) \<leftarrow> dictScan d v;
     (v'', es') \<leftarrow> scan_calls ds v';
     Some (v'', es @ es')
   }"

lemma scan_calls_covers:
  assumes "\<forall>d \<in> set ds. dict_inv d \<and> dict_small d \<and> dict_type d = t \<and> dict_map d k \<noteq> None"
    and "scan_calls ds v = Some (0, es)" "ds \<noteq> []" "rv v \<le> rv (hashFunction t k)"
  shows "\<exists>e \<in> set es. keq t k (entry_key e)"
  using assms
proof (induction ds arbitrary: v es)
  case Nil
  then show ?case by simp
next
  case (Cons d ds)
  then have d: "dict_inv d" "dict_small d" "dict_type d = t" "dict_map d k \<noteq> None" by simp_all
  obtain v' es1 where st: "dictScan d v = Some (v', es1)" "covers d v v' es1"
    using dictScan_step [OF d(1,2)] by blast
  with Cons.prems(2) obtain es2 where rest: "scan_calls ds v' = Some (0, es2)" "es = es1 @ es2"
    by (auto simp: bind_eq_Some_conv)
  obtain e where e: "e \<in> set (dict_entries d)" "keq t k (entry_key e)"
    using d(3,4) dict_map_absent [OF d(1)] by auto
  have h: "dictHashKey d (entry_key e) = hashFunction t k"
    using wf_typeD(3) [OF dict_inv_ht(3) [OF d(1)]] e(2) d(3) by (simp add: dictHashKey_def)
  show ?case
  proof (cases "rv (hashFunction t k) < scan_end v'")
    case True
    then have "e \<in> set es1" using st(2) e(1) h Cons.prems(4) by (simp add: covers_def)
    with e(2) rest(2) show ?thesis by auto
  next
    case False
    then have "v' \<noteq> 0" "rv v' \<le> rv (hashFunction t k)"
      using rv_lt [of "hashFunction t k"] by (auto simp: scan_end_def split: if_splits)
    moreover from this rest(1) have "ds \<noteq> []" by auto
    ultimately show ?thesis using Cons.IH [OF _ rest(1)] Cons.prems(1) rest(2) by auto
  qed
qed

text \<open>The sizes of tables are powers of two.\<close>

lemma scan_width_power:
  assumes "dict_inv d" "0 < scan_width d"
  obtains k where "k \<le> 60" "scan_width d = 2 ^ k"
proof -
  define t where "t = (if dictIsRehashing d \<and> ht_size (ht0 d) > ht_size (ht1 d) then ht1 d else ht0 d)"
  have w: "scan_width d = unat (ht_size t)" by (simp add: scan_width_def t_def)
  have "ht_inv (dict_type d) t" using dict_inv_ht(1,2) [OF assms(1)] by (simp add: t_def)
  moreover have "ht_size t \<noteq> 0" using assms(2) w by auto
  ultimately obtain k where "k \<le> 60" "ht_size t = 2 ^ k" using ht_inv_mask by blast
  then show ?thesis using that [of k] w by (simp add: unat_2p)
qed

lemma scan_calls_finish_width:
  assumes "\<forall>i. dict_inv (f i) \<and> dict_small (f i) \<and> scan_width (f i) = 2 ^ k" "k \<le> 60"
  shows "\<exists>n es. 0 < n \<and> n \<le> 2 ^ k - rv v div 2 ^ (64 - k) \<and> scan_calls (map f [0..<n]) v = Some (0, es) \<and>
    set es \<subseteq> (\<Union>i < n. set (dict_entries (f i)))"
  using assms(1)
proof (induction "2 ^ k - rv v div 2 ^ (64 - k)" arbitrary: v f rule: less_induct)
  case less
  let ?q = "rv v div 2 ^ (64 - k)"
  have "(2 :: nat) ^ 64 = 2 ^ k * 2 ^ (64 - k)" using assms(2) by (simp flip: power_add)
  then have q: "?q < 2 ^ k" using rv_lt [of v] by (simp add: less_mult_imp_div_less)
  obtain v' es where st: "dictScan (f 0) v = Some (v', es)" "set es \<subseteq> set (dict_entries (f 0))" "v' = 0 \<or> advances (f 0) v v'"
    using dictScan_step [of "f 0" v] less.prems by blast
  show ?case
  proof (cases "v' = 0")
    case True
    with st q show ?thesis by (intro exI [of _ 1] exI [of _ es]) auto
  next
    case False
    then have "rv v' = (?q + 1) * 2 ^ (64 - k)" using st(3) less.prems by (auto simp: advances_def scan_end_def)
    then have q': "rv v' div 2 ^ (64 - k) = ?q + 1" by simp
    have "2 ^ k - rv v' div 2 ^ (64 - k) < 2 ^ k - ?q" using q q' by simp
    from less.hyps [OF this, of "\<lambda>i. f (Suc i)"] less.prems obtain n es' where n: "0 < n" "n \<le> 2 ^ k - rv v' div 2 ^ (64 - k)"
      "scan_calls (map (\<lambda>i. f (Suc i)) [0..<n]) v' = Some (0, es')" "set es' \<subseteq> (\<Union>i < n. set (dict_entries (f (Suc i))))"
      by auto
    have "map f [0..<Suc n] = f 0 # map (\<lambda>i. f (Suc i)) [0..<n]" by (simp add: upt_conv_Cons map_Suc_upt [symmetric] del: upt_Suc map_Suc_upt)
    moreover have "set (es @ es') \<subseteq> (\<Union>i < Suc n. set (dict_entries (f i)))"
      using st(2) n(4) by (auto simp: lessThan_Suc_eq_insert_0)
    ultimately show ?thesis using st(1) n q q' by (intro exI [of _ "Suc n"] exI [of _ "es @ es'"]) auto
  qed
qed

lemma scan_calls_bound:
  assumes "\<forall>i. dict_inv (f i) \<and> dict_small (f i) \<and> scan_width (f i) = w"
  shows "\<exists>n es. 0 < n \<and> n \<le> max 1 w \<and> scan_calls (map f [0..<n]) v = Some (0, es) \<and> set es \<subseteq> (\<Union>i < n. set (dict_entries (f i)))"
proof (cases "0 < w")
  case True
  with assms obtain k where k: "k \<le> 60" "w = 2 ^ k" using scan_width_power [of "f 0"] by metis
  from scan_calls_finish_width [of f k v] assms k obtain n es where "0 < n" "n \<le> w - rv v div 2 ^ (64 - k)"
    "scan_calls (map f [0..<n]) v = Some (0, es)" "set es \<subseteq> (\<Union>i < n. set (dict_entries (f i)))" by blast
  then show ?thesis by (intro exI [of _ n] exI [of _ es]) auto
next
  case False
  with assms dictScan_step [of "f 0" v] obtain es where "dictScan (f 0) v = Some (0, es)" "set es \<subseteq> set (dict_entries (f 0))" by auto
  then show ?thesis by (intro exI [of _ 1] exI [of _ es]) auto
qed

lemma scan_calls_finish:
  assumes "dict_inv d" "dict_small d"
  shows "\<exists>n es. 0 < n \<and> scan_calls (replicate n d) v = Some (0, es) \<and> set es \<subseteq> set (dict_entries d)"
proof -
  obtain n es where "0 < n" "scan_calls (map (\<lambda>_. d) [0..<n]) v = Some (0, es)" "set es \<subseteq> (\<Union>i < n. set (dict_entries d))"
    using scan_calls_bound [of "\<lambda>_. d" "scan_width d" v] assms by blast
  then show ?thesis by (intro exI [of _ n] exI [of _ es]) (auto simp: map_replicate_const split: if_splits)
qed

section \<open>Properties\<close>

text \<open>
  C1. The guarantee of \<^verbatim>\<open>dictScan\<close>: when an iteration that started with cursor 0 comes back to
  cursor 0, every key that was present at each of the calls has been passed to the callback,
  however the dictionary was resized, rehashed or otherwise modified between the calls.
\<close>

theorem dictScan_complete:
  assumes "ds \<noteq> []"
    and "\<forall>d \<in> set ds. dict_inv d \<and> dict_small d \<and> dict_type d = t \<and> dict_map d k \<noteq> None"
    and "scan_calls ds 0 = Some (0, es)"
  shows "\<exists>e \<in> set es. keq t k (entry_key e)"
  using scan_calls_covers [OF assms(2,3,1)] rv_0 [of 0] by simp

theorem dictScan_complete_witness:
  "\<exists>n es. 0 < n \<and> scan_calls (replicate n ex_dict) 0 = Some (0, es) \<and>
     (\<exists>e \<in> set es. entry_key e = 1) \<and> (\<exists>e \<in> set es. entry_key e = 5)"
proof -
  obtain n es where n: "0 < n" "scan_calls (replicate n ex_dict) 0 = Some (0, es)"
    using scan_calls_finish [OF ex_dict_inv ex_dict_small] by blast
  have "\<exists>e \<in> set es. keq ex_type k (entry_key e)" if "k = 1 \<or> k = 5" for k
    using n that
    by (intro dictScan_complete [OF _ _ n(2)])
       (auto simp: ex_dict_inv ex_dict_small ex_dict_type ex_dict_map)
  then have "\<exists>e \<in> set es. entry_key e = 1" "\<exists>e \<in> set es. entry_key e = 5"
    unfolding keq_ex_type by fastforce+
  with n show ?thesis by blast
qed

text \<open>
  C40. An iteration ends while the smaller table keeps its size, whatever else happens to the dictionary between the
  calls: from any cursor at most as many calls as that table has buckets lead back to cursor 0, none of them reads
  outside a table, and only entries that the dictionary has at one of the calls are returned.
\<close>

theorem dictScan_terminates:
  assumes "\<forall>i. dict_inv (f i) \<and> dict_small (f i) \<and> scan_width (f i) = w"
  shows "\<exists>n es. 0 < n \<and> n \<le> max 1 w \<and> scan_calls (map f [0..<n]) v = Some (0, es) \<and>
    set es \<subseteq> (\<Union>i < n. set (dict_entries (f i)))"
  using assms by (rule scan_calls_bound)

theorem dictScan_terminates_witness:
  "\<exists>n es. 0 < n \<and> n \<le> 4 \<and> scan_calls (map (\<lambda>_. ex_dict) [0..<n]) 3 = Some (0, es) \<and> set es \<subseteq> set (dict_entries ex_dict)"
proof -
  have "scan_width ex_dict = 4" by (simp add: scan_width_def ex_dict_def dictIsRehashing_def)
  then obtain n es where "0 < n" "n \<le> max 1 4" "scan_calls (map (\<lambda>_. ex_dict) [0..<n]) 3 = Some (0, es)"
    "set es \<subseteq> (\<Union>i < n. set (dict_entries ex_dict))"
    using dictScan_terminates [of "\<lambda>_. ex_dict" 4 3] ex_dict_inv ex_dict_small by blast
  then show ?thesis by (intro exI [of _ n] exI [of _ es]) (auto split: if_splits)
qed

text \<open>The swap loop of \<^verbatim>\<open>rev\<close> reverses the 64 bits of its argument.
\<close>

theorem dict_rev_reverses: "dict_rev v = word_reverse v"
  by (rule dict_rev_word_reverse)

end
