(* ===== verification/Dict_Iter.thy ===== *)
theory Dict_Iter
  imports Dict_Correct
begin

unbundle bit_operations_syntax

text \<open>
  Iterators over the hash table: \<^verbatim>\<open>dictFingerprint\<close>, \<^verbatim>\<open>dictGetIterator\<close>, \<^verbatim>\<open>dictGetSafeIterator\<close>,
  \<^verbatim>\<open>dictNext\<close> and \<^verbatim>\<open>dictReleaseIterator\<close> of \<^verbatim>\<open>redis/src/dict.c\<close>. The dictionary the iterator points
  to is passed along; \<open>addr\<close> gives the addresses of the two tables, which only the
  fingerprint looks at. A failed assertion is \<^const>\<open>None\<close>.
\<close>

section \<open>Model\<close>

record dictIterator =
  it_index :: int
  it_table :: nat
  it_safe :: bool
  it_entry :: "entry_ref option"
  it_nextEntry :: "entry_ref option"
  it_fingerprint :: ulong

text \<open>Thomas Wang's hash; \<^verbatim>\<open>>>\<close> on \<^verbatim>\<open>long long\<close> keeps the sign.\<close>

definition wang_hash :: "ulong \<Rightarrow> ulong" where
  "wang_hash hash =
     (let hash = NOT hash + push_bit 21 hash;
          hash = hash XOR signed_drop_bit 24 hash;
          hash = (hash + push_bit 3 hash) + push_bit 8 hash;
          hash = hash XOR signed_drop_bit 14 hash;
          hash = (hash + push_bit 2 hash) + push_bit 4 hash;
          hash = hash XOR signed_drop_bit 28 hash;
          hash = hash + push_bit 31 hash
      in hash)"

definition dictFingerprint :: "ulong \<times> ulong \<Rightarrow> ('k, 'v) dict \<Rightarrow> ulong" where
  "dictFingerprint addr d =
     foldl (\<lambda>hash i. wang_hash (hash + i)) 0
       [fst addr, ht_size (ht0 d), ht_used (ht0 d), snd addr, ht_size (ht1 d), ht_used (ht1 d)]"

definition dictGetIterator :: dictIterator where
  "dictGetIterator = \<lparr>it_index = -1, it_table = 0, it_safe = False, it_entry = None, it_nextEntry = None,
                      it_fingerprint = 0\<rparr>"

definition dictGetSafeIterator :: dictIterator where
  "dictGetSafeIterator = dictGetIterator\<lparr>it_safe := True\<rparr>"

text \<open>\<^verbatim>\<open>ht->table[i]\<close> and \<^verbatim>\<open>he->next\<close>.\<close>

definition bucket_head :: "('k, 'v) dict \<Rightarrow> nat \<Rightarrow> nat \<Rightarrow> entry_ref option option" where
  "bucket_head d t i =
     (if i < length (ht_table (dict_ht d t))
      then Some (if ht_table (dict_ht d t) ! i = [] then None else Some (t, i, 0)) else None)"

fun entry_next :: "('k, 'v) dict \<Rightarrow> entry_ref \<Rightarrow> entry_ref option" where
  "entry_next d (t, b, p) = (if Suc p < length (ht_table (dict_ht d t) ! b) then Some (t, b, Suc p) else None)"

text \<open>The first call of \<^verbatim>\<open>dictNext\<close> registers a safe iterator or takes the fingerprint.\<close>

definition iter_first :: "ulong \<times> ulong \<Rightarrow> ('k, 'v) dict \<Rightarrow> dictIterator \<Rightarrow> ('k, 'v) dict \<times> dictIterator" where
  "iter_first addr d it =
     (if it_index it = -1 \<and> it_table it = 0 then
        (if it_safe it then (d\<lparr>iterators := iterators d + 1\<rparr>, it)
         else (d, it\<lparr>it_fingerprint := dictFingerprint addr d\<rparr>))
      else (d, it))"

text \<open>The part of the loop body for \<^verbatim>\<open>iter->entry == NULL\<close>: \<^const>\<open>None\<close> as the inner result is the
  \<^verbatim>\<open>break\<close>.\<close>

definition iter_advance :: "ulong \<times> ulong \<Rightarrow> ('k, 'v) dict \<Rightarrow> dictIterator \<Rightarrow>
    (entry_ref option option \<times> ('k, 'v) dict \<times> dictIterator) option" where
  "iter_advance addr d it =
     (let (d, it) = iter_first addr d it;
          it = it\<lparr>it_index := it_index it + 1\<rparr>
      in if it_index it \<ge> sint (ht_size (dict_ht d (it_table it))) then
           (if dictIsRehashing d \<and> it_table it = 0 then do {
              let it = it\<lparr>it_table := 1, it_index := 0\<rparr>;
              e \<leftarrow> bucket_head d 1 0;
              Some (Some e, d, it)
            }
            else Some (None, d, it))
         else do {
           e \<leftarrow> bucket_head d (it_table it) (nat (it_index it));
           Some (Some e, d, it)
         })"

partial_function (option) dictNext :: "ulong \<times> ulong \<Rightarrow> ('k, 'v) dict \<Rightarrow> dictIterator \<Rightarrow>
    (entry_ref option \<times> ('k, 'v) dict \<times> dictIterator) option" where
  "dictNext addr d it =
     Option.bind
       (case it_entry it of
          None \<Rightarrow> iter_advance addr d it
        | Some _ \<Rightarrow> Some (Some (it_nextEntry it), d, it))
       (\<lambda>(e, d, it).
          case e of
            None \<Rightarrow> Some (None, d, it)
          | Some None \<Rightarrow> dictNext addr d (it\<lparr>it_entry := None\<rparr>)
          | Some (Some r) \<Rightarrow> Some (Some r, d, it\<lparr>it_entry := Some r, it_nextEntry := entry_next d r\<rparr>))"

definition dictReleaseIterator :: "ulong \<times> ulong \<Rightarrow> ('k, 'v) dict \<Rightarrow> dictIterator \<Rightarrow> ('k, 'v) dict option" where
  "dictReleaseIterator addr d it =
     (if \<not> (it_index it = -1 \<and> it_table it = 0) then
        (if it_safe it then Some (d\<lparr>iterators := iterators d - 1\<rparr>)
         else if it_fingerprint it = dictFingerprint addr d then Some d else None)
      else Some d)"

text \<open>The loop \<^verbatim>\<open>while((de = dictNext(di)) != NULL)\<close> of the callers, collecting the entries.\<close>

partial_function (option) dictDrain :: "ulong \<times> ulong \<Rightarrow> ('k, 'v) dict \<Rightarrow> dictIterator \<Rightarrow>
    (('k, 'v) dictEntry list \<times> ('k, 'v) dict \<times> dictIterator) option" where
  "dictDrain addr d it =
     Option.bind (dictNext addr d it) (\<lambda>(e, d, it).
       case e of
         None \<Rightarrow> Some ([], d, it)
       | Some r \<Rightarrow> Option.bind (dictDrain addr d it) (\<lambda>(es, d', it'). Some (deref d r # es, d', it')))"

section \<open>What is left to visit\<close>

definition buckets_from :: "('k, 'v) dict \<Rightarrow> nat \<Rightarrow> nat \<Rightarrow> ('k, 'v) dictEntry list" where
  "buckets_from d t i = concat (drop i (ht_table (dict_ht d t))) @ (if t = 0 \<and> dictIsRehashing d then ht_entries (ht1 d) else [])"

definition iter_rest :: "('k, 'v) dict \<Rightarrow> dictIterator \<Rightarrow> ('k, 'v) dictEntry list" where
  "iter_rest d it = (case it_entry it of
       None \<Rightarrow> buckets_from d (it_table it) (nat (it_index it + 1))
     | Some (t, b, p) \<Rightarrow> drop (Suc p) (ht_table (dict_ht d t) ! b) @ buckets_from d t (Suc b))"

definition tables_ok :: "('k, 'v) dict \<Rightarrow> bool" where
  "tables_ok d \<longleftrightarrow> (\<forall>t \<in> {0, 1}. sint (ht_size (dict_ht d t)) = int (length (ht_table (dict_ht d t)))) \<and>
     (dictIsRehashing d \<longrightarrow> ht_table (ht1 d) \<noteq> [])"

definition iter_ok :: "('k, 'v) dict \<Rightarrow> dictIterator \<Rightarrow> bool" where
  "iter_ok d it \<longleftrightarrow> it_table it \<in> {0, 1} \<and> (it_table it = 1 \<longrightarrow> dictIsRehashing d \<and> 0 \<le> it_index it) \<and> -1 \<le> it_index it \<and>
     (case it_entry it of None \<Rightarrow> True
      | Some (t, b, p) \<Rightarrow> t = it_table it \<and> int b = it_index it \<and> b < length (ht_table (dict_ht d t)) \<and>
          p < length (ht_table (dict_ht d t) ! b) \<and> it_nextEntry it = entry_next d (t, b, p))"

definition iter_measure :: "('k, 'v) dict \<Rightarrow> dictIterator \<Rightarrow> nat" where
  "iter_measure d it = (case it_entry it of None \<Rightarrow> 0 | Some _ \<Rightarrow> 1) +
     2 * (length (ht_table (dict_ht d (it_table it))) - nat (it_index it + 1) + (if it_table it = 0 then length (ht_table (ht1 d)) + 1 else 0))"

lemma iterators_sel [simp]:
  "dict_ht (d\<lparr>iterators := n\<rparr>) t = dict_ht d t" "dictIsRehashing (d\<lparr>iterators := n\<rparr>) = dictIsRehashing d"
  "entry_next (d\<lparr>iterators := n\<rparr>) r = entry_next d r" "deref (d\<lparr>iterators := n\<rparr>) r = deref d r"
  "bucket_head (d\<lparr>iterators := n\<rparr>) t i = bucket_head d t i"
  by (cases r; simp_all add: dict_ht_def dictIsRehashing_def deref_def bucket_head_def)+

lemma iterators_inv [simp]:
  "buckets_from (d\<lparr>iterators := n\<rparr>) = buckets_from d" "iter_rest (d\<lparr>iterators := n\<rparr>) = iter_rest d"
  "tables_ok (d\<lparr>iterators := n\<rparr>) = tables_ok d" "iter_ok (d\<lparr>iterators := n\<rparr>) = iter_ok d"
  "iter_measure (d\<lparr>iterators := n\<rparr>) = iter_measure d"
  by (simp_all add: iter_measure_def buckets_from_def iter_rest_def tables_ok_def iter_ok_def fun_eq_iff split: option.splits)

lemma buckets_from_Cons:
  assumes "i < length (ht_table (dict_ht d t))"
  shows "buckets_from d t i = ht_table (dict_ht d t) ! i @ buckets_from d t (Suc i)"
  using assms by (simp add: buckets_from_def Cons_nth_drop_Suc [symmetric])

lemma iter_first_later: "0 \<le> it_index it \<Longrightarrow> iter_first addr d it = (d, it)"
  by (simp add: iter_first_def)

lemma iter_first_sel:
  "it_index (snd (iter_first addr d it)) = it_index it" "it_table (snd (iter_first addr d it)) = it_table it"
  "it_safe (snd (iter_first addr d it)) = it_safe it" "it_entry (snd (iter_first addr d it)) = it_entry it"
  "\<exists>n. fst (iter_first addr d it) = d\<lparr>iterators := n\<rparr>"
  by (auto simp: iter_first_def intro: exI [of _ "iterators d"])

text \<open>Advancing to the next bucket.\<close>

lemma iter_advance_cases:
  fixes addr and d :: "('k, 'v) dict" and it
  assumes ok: "iter_ok d it" "tables_ok d" "it_entry it = None"
  defines "d1 \<equiv> fst (iter_first addr d it)" and "it1 \<equiv> snd (iter_first addr d it)"
  obtains (fin) it' where "iter_advance addr d it = Some (None, d1, it')" "iter_rest d it = []" "0 \<le> it_index it'"
      "it_safe it' = it_safe it" "it_fingerprint it' = it_fingerprint it1"
  | (bucket) it' t b where "iter_advance addr d it = Some (Some (if ht_table (dict_ht d t) ! b = [] then None else Some (t, b, 0)), d1, it')"
      "t = it_table it'" "int b = it_index it'" "b < length (ht_table (dict_ht d t))" "t \<in> {0, 1}" "t = 1 \<longrightarrow> dictIsRehashing d"
      "iter_rest d it = ht_table (dict_ht d t) ! b @ buckets_from d t (Suc b)"
      "it_entry it' = None" "it_safe it' = it_safe it" "it_fingerprint it' = it_fingerprint it1"
      "iter_measure d it' < iter_measure d it"
proof -
  let ?i = "it_index it + 1" and ?t = "it_table it"
  obtain n where d1: "d1 = d\<lparr>iterators := n\<rparr>" using iter_first_sel(5) unfolding d1_def by blast
  have it1: "it_index it1 = it_index it" "it_table it1 = ?t" "it_safe it1 = it_safe it" "it_entry it1 = None"
    using ok(3) by (simp_all add: it1_def iter_first_sel)
  have i0: "0 \<le> ?i" and t: "?t \<in> {0, 1}" "?t = 1 \<longrightarrow> dictIsRehashing d" using ok(1) by (auto simp: iter_ok_def)
  have size: "sint (ht_size (dict_ht d t)) = int (length (ht_table (dict_ht d t)))" if "t \<in> {0, 1}" for t
    using ok(2) that by (auto simp: tables_ok_def)
  have run: "iter_advance addr d it =
      (if ?i \<ge> int (length (ht_table (dict_ht d ?t))) then
         (if dictIsRehashing d \<and> ?t = 0
          then Option.bind (bucket_head d 1 0) (\<lambda>e. Some (Some e, d1, it1\<lparr>it_table := 1, it_index := 0\<rparr>))
          else Some (None, d1, it1\<lparr>it_index := ?i\<rparr>))
       else Option.bind (bucket_head d ?t (nat ?i)) (\<lambda>e. Some (Some e, d1, it1\<lparr>it_index := ?i\<rparr>)))"
  proof -
    have fi: "iter_first addr d it = (d1, it1)" by (simp add: d1_def it1_def)
    show ?thesis
      using size [OF t(1)] it1 unfolding iter_advance_def fi Let_def prod.case by (simp add: d1)
  qed
  have rest: "iter_rest d it = buckets_from d ?t (nat ?i)" using ok(3) by (simp add: iter_rest_def)
  consider (inside) "?i < int (length (ht_table (dict_ht d ?t)))"
    | (second) "?i \<ge> int (length (ht_table (dict_ht d ?t)))" "dictIsRehashing d" "?t = 0"
    | (over) "?i \<ge> int (length (ht_table (dict_ht d ?t)))" "\<not> (dictIsRehashing d \<and> ?t = 0)" by linarith
  then show thesis
  proof cases
    case inside
    then have b: "nat ?i < length (ht_table (dict_ht d ?t))" using i0 by simp
    show thesis
    proof (rule bucket [of ?t "nat ?i" "it1\<lparr>it_index := ?i\<rparr>"])
      show "iter_measure d (it1\<lparr>it_index := ?i\<rparr>) < iter_measure d it"
        using b i0 ok(3) it1 by (simp add: iter_measure_def nat_add_distrib)
    qed (use b i0 t it1 ok(3) run inside rest buckets_from_Cons [OF b] in \<open>simp_all add: bucket_head_def\<close>)
  next
    case second
    have ne: "ht_table (dict_ht d 1) \<noteq> []" using ok(2) second(2) by (simp add: tables_ok_def)
    have rest': "iter_rest d it = concat (ht_table (dict_ht d 1))"
      using rest second by (simp add: buckets_from_def ht_entries_def)
    have cons: "concat (ht_table (dict_ht d 1)) = ht_table (dict_ht d 1) ! 0 @ buckets_from d 1 (Suc 0)"
      using ne by (cases "ht_table (dict_ht d 1)") (simp_all add: buckets_from_def)
    show thesis
    proof (rule bucket [of 1 0 "it1\<lparr>it_table := 1, it_index := 0\<rparr>"])
      show "iter_measure d (it1\<lparr>it_table := 1, it_index := 0\<rparr>) < iter_measure d it"
        using second ok(3) it1 by (simp add: iter_measure_def)
    qed (use ne second it1 ok(3) run rest' cons in \<open>simp_all add: bucket_head_def\<close>)
  next
    case over
    then have "iter_rest d it = []" using rest by (auto simp: buckets_from_def)
    with over run it1 i0 show thesis by (intro fin [of "it1\<lparr>it_index := ?i\<rparr>"]) auto
  qed
qed

section \<open>One step and the whole iteration\<close>

text \<open>A call of \<^verbatim>\<open>dictNext\<close> gives the first entry left, or NULL when there is none.\<close>

definition next_result :: "ulong \<times> ulong \<Rightarrow> ('k, 'v) dict \<Rightarrow> dictIterator \<Rightarrow>
    (entry_ref option \<times> ('k, 'v) dict \<times> dictIterator) option \<Rightarrow> bool" where
  "next_result addr d it res \<longleftrightarrow> (\<exists>r it'. res = Some (r, fst (iter_first addr d it), it') \<and>
     it_safe it' = it_safe it \<and> it_fingerprint it' = it_fingerprint (snd (iter_first addr d it)) \<and> 0 \<le> it_index it' \<and>
     (case r of None \<Rightarrow> iter_rest d it = []
      | Some e \<Rightarrow> iter_ok d it' \<and> iter_rest d it = deref d e # iter_rest d it'))"

lemma deref_nth: "deref d (t, b, p) = ht_table (dict_ht d t) ! b ! p"
  by (simp add: deref_def)

lemma entry_step:
  assumes "t \<in> {0, 1}" "t = 1 \<longrightarrow> dictIsRehashing d" "b < length (ht_table (dict_ht d t))" "p < length (ht_table (dict_ht d t) ! b)"
    "it_table it = t" "it_index it = int b"
  defines "it' \<equiv> it\<lparr>it_entry := Some (t, b, p), it_nextEntry := entry_next d (t, b, p)\<rparr>"
  shows "iter_ok d it'" "drop p (ht_table (dict_ht d t) ! b) @ buckets_from d t (Suc b) = deref d (t, b, p) # iter_rest d it'"
  using assms by (auto simp: iter_ok_def iter_rest_def deref_nth Cons_nth_drop_Suc [symmetric])

lemma dictNext_result:
  assumes "iter_ok d it" "tables_ok d"
  shows "next_result addr d it (dictNext addr d it)"
  using assms
proof (induction "iter_measure d it" arbitrary: d it rule: less_induct)
  case less
  show ?case
  proof (cases "it_entry it")
    case None
    from less.prems(1,2) None show ?thesis
    proof (cases rule: iter_advance_cases [where addr = addr])
      case (fin it')
      with None show ?thesis by (subst dictNext.simps) (auto simp: next_result_def)
    next
      case (bucket it' t b)
      obtain n where d1: "fst (iter_first addr d it) = d\<lparr>iterators := n\<rparr>" using iter_first_sel(5) by blast
      show ?thesis
      proof (cases "ht_table (dict_ht d t) ! b = []")
        case True
        have id: "it'\<lparr>it_entry := None\<rparr> = it'" using bucket(8) by simp
        have run: "dictNext addr d it = dictNext addr (d\<lparr>iterators := n\<rparr>) it'"
          using None bucket(1) True d1 id by (subst dictNext.simps) simp
        have fi: "iter_first addr (d\<lparr>iterators := n\<rparr>) it' = (d\<lparr>iterators := n\<rparr>, it')"
          using bucket(3) by (intro iter_first_later) simp
        have "next_result addr (d\<lparr>iterators := n\<rparr>) it' (dictNext addr (d\<lparr>iterators := n\<rparr>) it')"
          using bucket less.prems(2) by (intro less.hyps) (auto simp: iter_ok_def)
        moreover have "iter_rest d it' = iter_rest d it"
          using bucket True by (simp add: iter_rest_def nat_add_distrib flip: bucket(3))
        ultimately show ?thesis
          using fi bucket(9,10) d1 unfolding run next_result_def by (simp cong: option.case_cong)
      next
        case False
        let ?it = "it'\<lparr>it_entry := Some (t, b, 0), it_nextEntry := entry_next d (t, b, 0)\<rparr>"
        have "dictNext addr d it = Some (Some (t, b, 0), d\<lparr>iterators := n\<rparr>, ?it)"
          using None bucket(1) False d1 by (subst dictNext.simps) simp
        moreover have p: "0 < length (ht_table (dict_ht d t) ! b)" using False by simp
        note es = entry_step [OF bucket(5,6,4) p bucket(2) [symmetric] bucket(3) [symmetric]]
        have "iter_ok d ?it" by (rule es(1))
        moreover have "iter_rest d it = deref d (t, b, 0) # iter_rest d ?it"
          using es(2) unfolding bucket(7) by simp
        ultimately show ?thesis
          using bucket(3,9,10) d1 by (simp add: next_result_def)
      qed
    qed
  next
    case (Some r)
    obtain t b p where r: "r = (t, b, p)" by (cases r)
    note ok = less.prems(1) [unfolded iter_ok_def Some r option.case prod.case]
    have i0: "0 \<le> it_index it" using ok by linarith
    have fi: "iter_first addr d it = (d, it)" by (rule iter_first_later [OF i0])
    show ?thesis
    proof (cases "Suc p < length (ht_table (dict_ht d t) ! b)")
      case True
      then have nx: "it_nextEntry it = Some (t, b, Suc p)" using ok by simp
      let ?it = "it\<lparr>it_entry := Some (t, b, Suc p), it_nextEntry := entry_next d (t, b, Suc p)\<rparr>"
      have "dictNext addr d it = Some (Some (t, b, Suc p), d, ?it)"
        using Some nx by (subst dictNext.simps) simp
      moreover have pre: "t \<in> {0, 1}" "t = 1 \<longrightarrow> dictIsRehashing d" "b < length (ht_table (dict_ht d t))"
        "it_table it = t" "it_index it = int b" using ok by auto
      note es = entry_step [OF pre(1-3) True pre(4,5)]
      have "iter_ok d ?it" by (rule es(1))
      moreover have "iter_rest d it = deref d (t, b, Suc p) # iter_rest d ?it"
        unfolding es(2) [symmetric] by (simp add: iter_rest_def Some r)
      ultimately show ?thesis using fi i0 by (simp add: next_result_def)
    next
      case False
      let ?it = "it\<lparr>it_entry := None\<rparr>"
      have nx: "it_nextEntry it = None" using False ok by simp
      have run: "dictNext addr d it = dictNext addr d ?it"
        using Some nx by (subst dictNext.simps) simp
      have fi': "iter_first addr d ?it = (d, ?it)" using i0 by (intro iter_first_later) simp
      have "next_result addr d ?it (dictNext addr d ?it)"
        using ok Some less.prems(2) by (intro less.hyps) (auto simp: iter_measure_def iter_ok_def)
      moreover have "iter_rest d ?it = iter_rest d it"
      proof -
        have "it_table it = t" "it_index it = int b" "length (ht_table (dict_ht d t) ! b) \<le> Suc p" using ok False by auto
        then show ?thesis by (simp add: iter_rest_def Some r nat_add_distrib)
      qed
      ultimately show ?thesis using fi fi' unfolding run next_result_def by (simp cong: option.case_cong)
    qed
  qed
qed

lemma dictDrain_rest:
  assumes "tables_ok d" "iter_ok d it"
  shows "\<exists>it'. dictDrain addr d it = Some (iter_rest d it, fst (iter_first addr d it), it') \<and>
    it_safe it' = it_safe it \<and> it_fingerprint it' = it_fingerprint (snd (iter_first addr d it)) \<and> 0 \<le> it_index it'"
  using assms
proof (induction "length (iter_rest d it)" arbitrary: d it)
  case 0
  from dictNext_result [OF 0(3,2), of addr] 0(1) show ?case
    by (subst dictDrain.simps) (auto simp: next_result_def split: option.splits)
next
  case (Suc k)
  obtain n where d1: "fst (iter_first addr d it) = d\<lparr>iterators := n\<rparr>" using iter_first_sel(5) by blast
  from dictNext_result [OF Suc.prems(2,1), of addr] Suc.hyps(2) obtain r it' where
    nx: "dictNext addr d it = Some (Some r, d\<lparr>iterators := n\<rparr>, it')" "it_safe it' = it_safe it"
      "it_fingerprint it' = it_fingerprint (snd (iter_first addr d it))" "0 \<le> it_index it'"
      "iter_ok d it'" "iter_rest d it = deref d r # iter_rest d it'"
    unfolding next_result_def d1 by (auto split: option.splits)
  have fi: "iter_first addr (d\<lparr>iterators := n\<rparr>) it' = (d\<lparr>iterators := n\<rparr>, it')" by (rule iter_first_later [OF nx(4)])
  have "\<exists>it''. dictDrain addr (d\<lparr>iterators := n\<rparr>) it' = Some (iter_rest (d\<lparr>iterators := n\<rparr>) it', fst (iter_first addr (d\<lparr>iterators := n\<rparr>) it'), it'') \<and>
    it_safe it'' = it_safe it' \<and> it_fingerprint it'' = it_fingerprint (snd (iter_first addr (d\<lparr>iterators := n\<rparr>) it')) \<and> 0 \<le> it_index it''"
    using Suc.hyps(2) nx Suc.prems(1) by (intro Suc.hyps(1)) simp_all
  then obtain it'' where "dictDrain addr (d\<lparr>iterators := n\<rparr>) it' = Some (iter_rest d it', d\<lparr>iterators := n\<rparr>, it'')"
    "it_safe it'' = it_safe it'" "it_fingerprint it'' = it_fingerprint it'" "0 \<le> it_index it''"
    unfolding fi by auto
  with nx d1 show ?case by (subst dictDrain.simps) auto
qed

lemma tables_ok_dict: 
  assumes "dict_inv d"
  shows "tables_ok d"
proof -
  have "sint (ht_size ht) = int (length (ht_table ht))" if "ht_inv (dict_type d) ht" for ht
  proof -
    have l: "length (ht_table ht) = unat (ht_size ht)" using that by (simp add: ht_inv_def)
    from that consider "ht_size ht = 0" | k where "k \<le> 60" "ht_size ht = 2 ^ k" unfolding ht_inv_def by blast
    then show ?thesis
    proof cases
      case 1
      then show ?thesis using l by simp
    next
      case 2
      then have "unat (ht_size ht) = 2 ^ k" by (simp add: unat_2p)
      moreover have "(2 :: nat) ^ k < 2 ^ 63" using 2(1) by (intro power_strict_increasing) simp_all
      ultimately have "sint (ht_size ht) = int (unat (ht_size ht))" by (intro sint_minus_unat(2)) simp
      with l show ?thesis by simp
    qed
  qed
  moreover have "dictIsRehashing d \<longrightarrow> ht_table (ht1 d) \<noteq> []"
    using assms by (auto simp: dict_inv_def rehash_inv_def ht_inv_def unat_eq_0)
  ultimately show ?thesis using assms by (auto simp: tables_ok_def dict_inv_def)
qed

lemma iter_start:
  assumes "dict_inv d" "it \<in> {dictGetIterator, dictGetSafeIterator}"
  shows "iter_ok d it" "iter_rest d it = dict_entries d"
  using assms by (auto simp: dictGetIterator_def dictGetSafeIterator_def iter_ok_def iter_rest_def buckets_from_def
      dict_entries_def ht_entries_def dict_inv_def dictReset_def)

lemma drain_release:
  assumes "dict_inv d" "it \<in> {dictGetIterator, dictGetSafeIterator}"
  shows "\<exists>d' it'. dictDrain addr d it = Some (dict_entries d, d', it') \<and> dictReleaseIterator addr d' it' = Some d"
proof -
  note st = iter_start [OF assms]
  obtain it' where r: "dictDrain addr d it = Some (dict_entries d, fst (iter_first addr d it), it')"
    "it_safe it' = it_safe it" "it_fingerprint it' = it_fingerprint (snd (iter_first addr d it))" "0 \<le> it_index it'"
    using dictDrain_rest [OF tables_ok_dict [OF assms(1)] st(1), of addr] unfolding st(2) by blast
  have "it_index it = -1" "it_table it = 0" using assms(2) by (auto simp: dictGetIterator_def dictGetSafeIterator_def)
  then have "dictReleaseIterator addr (fst (iter_first addr d it)) it' = Some d"
    using r(2-) by (auto simp: dictReleaseIterator_def iter_first_def)
  with r(1) show ?thesis by blast
qed

section \<open>Properties\<close>

text \<open>Iterating over a hash table, also in the middle of a rehash, visits every entry of both
  tables exactly once, and releasing the iterator restores the dictionary: the count of safe
  iterators is back, or the fingerprint check of an unsafe iterator succeeds.\<close>

theorem dictIterator_visits_all:
  assumes "dict_inv d" "it \<in> {dictGetIterator, dictGetSafeIterator}"
  shows "\<exists>es d' it'. dictDrain addr d it = Some (es, d', it') \<and> mset es = mset (dict_entries d) \<and>
    distinct (key_classes (dict_type d) es) \<and> dictReleaseIterator addr d' it' = Some d"
  using drain_release [OF assms, of addr] assms(1) unfolding dict_inv_def by blast

theorem dictIterator_visits_all_witness:
  "\<exists>es d' it'. dictDrain (1, 2) ex_dict dictGetSafeIterator = Some (es, d', it') \<and> mset es = mset (dict_entries ex_dict) \<and>
    dictReleaseIterator (1, 2) d' it' = Some ex_dict"
  using dictIterator_visits_all [OF ex_dict_inv, of dictGetSafeIterator "(1, 2)"] by blast

end
