(* ===== verification/Bytes.thy ===== *)
theory Bytes
  imports Prelude
begin

text \<open>
  Raw memory as a list of bytes: bounded reads and writes, \<^verbatim>\<open>memmove\<close>, \<^verbatim>\<open>zrealloc\<close> of
  \<^verbatim>\<open>zmalloc.c\<close>, and little-endian integers. Redis stores its serialised integers in
  little-endian order on every host (\<^verbatim>\<open>memrev*ifbe\<close> of \<^verbatim>\<open>endianconv.c\<close> swaps on big-endian
  hosts), so the byte lists below are the same on every machine.
\<close>

section \<open>Buffers\<close>

definition read_bytes :: "nat \<Rightarrow> nat \<Rightarrow> byte list \<Rightarrow> byte list option" where
  "read_bytes off n buf = (if off + n \<le> length buf then Some (take n (drop off buf)) else None)"

definition write_bytes :: "nat \<Rightarrow> byte list \<Rightarrow> byte list \<Rightarrow> byte list option" where
  "write_bytes off bs buf =
     (if off + length bs \<le> length buf
      then Some (take off buf @ bs @ drop (off + length bs) buf) else None)"

definition memmove :: "nat \<Rightarrow> nat \<Rightarrow> nat \<Rightarrow> byte list \<Rightarrow> byte list option" where
  "memmove dst src n buf = do { bs \<leftarrow> read_bytes src n buf; write_bytes dst bs buf }"

text \<open>Bytes past the old size are unspecified: \<open>junk\<close> gives their contents.\<close>

definition zrealloc :: "(nat \<Rightarrow> byte) \<Rightarrow> nat \<Rightarrow> byte list \<Rightarrow> byte list" where
  "zrealloc junk n buf = take n buf @ map junk [length buf..<n]"

section \<open>Little-endian integers\<close>

fun le_bytes :: "nat \<Rightarrow> int \<Rightarrow> byte list" where
  "le_bytes 0 v = []"
| "le_bytes (Suc n) v = word_of_int v # le_bytes n (v div 256)"

fun le_uint :: "byte list \<Rightarrow> int" where
  "le_uint [] = 0"
| "le_uint (b # bs) = uint b + 256 * le_uint bs"

definition le_sint :: "byte list \<Rightarrow> int" where
  "le_sint bs = signed_take_bit (8 * length bs - 1) (le_uint bs)"

definition fits :: "nat \<Rightarrow> int \<Rightarrow> bool" where
  "fits n v \<longleftrightarrow> - (2 ^ (8 * n - 1)) \<le> v \<and> v < 2 ^ (8 * n - 1)"

lemma length_le_bytes [simp]: "length (le_bytes n v) = n"
  by (induction n arbitrary: v) simp_all

lemma le_uint_le_bytes: "le_uint (le_bytes n v) = v mod 256 ^ n"
proof (induction n arbitrary: v)
  case 0
  then show ?case by simp
next
  case (Suc n)
  have "uint (word_of_int v :: byte) = v mod 256"
    by (simp add: uint_word_of_int)
  with Suc show ?case
    by (simp add: zmod_zmult2_eq)
qed

lemma le_sint_le_bytes:
  assumes "0 < n" "fits n v"
  shows "le_sint (le_bytes n v) = v"
proof -
  have "(256::int) ^ n = 2 ^ (8 * n)" by (simp add: power_mult)
  then have "le_uint (le_bytes n v) = take_bit (8 * n) v"
    by (simp add: le_uint_le_bytes take_bit_eq_mod)
  then have "le_sint (le_bytes n v) = signed_take_bit (8 * n - 1) (take_bit (8 * n) v)"
    by (simp add: le_sint_def)
  also have "\<dots> = signed_take_bit (8 * n - 1) v"
    using assms(1) by (subst signed_take_bit_take_bit) auto
  also have "\<dots> = v"
    using assms(2) by (intro signed_take_bit_int_eq_self) (simp_all add: fits_def)
  finally show ?thesis .
qed

lemma fits_mono: "fits m v \<Longrightarrow> 0 < m \<Longrightarrow> m \<le> n \<Longrightarrow> fits n v"
proof -
  assume a: "fits m v" "0 < m" "m \<le> n"
  then have "(2::int) ^ (8 * m - 1) \<le> 2 ^ (8 * n - 1)" by (intro power_increasing) simp_all
  with a(1) show ?thesis unfolding fits_def by linarith
qed

section \<open>Arrays of fixed-width integers\<close>

definition enc_array :: "nat \<Rightarrow> int list \<Rightarrow> byte list" where
  "enc_array e vs = concat (map (le_bytes e) vs)"

lemma enc_array_simps [simp]:
  "enc_array e [] = []" "enc_array e (v # vs) = le_bytes e v @ enc_array e vs"
  "enc_array e (us @ vs) = enc_array e us @ enc_array e vs"
  by (simp_all add: enc_array_def)

lemma length_enc_array [simp]: "length (enc_array e vs) = length vs * e"
  by (induction vs) simp_all

lemma take_enc_array: "take (n * e) (enc_array e vs) = enc_array e (take n vs)"
proof (induction vs arbitrary: n)
  case (Cons v vs)
  then show ?case by (cases n) simp_all
qed simp

lemma drop_enc_array: "drop (n * e) (enc_array e vs) = enc_array e (drop n vs)"
proof (induction vs arbitrary: n)
  case (Cons v vs)
  then show ?case by (cases n) simp_all
qed simp

lemma read_bytes_enc_array:
  assumes "i < length vs" "take (length vs * e) buf = enc_array e vs" "length vs * e \<le> length buf"
  shows "read_bytes (i * e) e buf = Some (le_bytes e (vs ! i))"
proof -
  have le: "i * e + e \<le> length vs * e"
    using assms(1) mult_le_mono1 [of "Suc i" "length vs" e] by simp
  have "take e (drop (i * e) buf) = take e (drop (i * e) (take (length vs * e) buf))"
    using le by (simp add: drop_take min_def)
  also have "\<dots> = take e (enc_array e (drop i vs))"
    by (simp add: assms(2) drop_enc_array)
  also have "\<dots> = le_bytes e (vs ! i)"
    using assms(1) by (simp flip: Cons_nth_drop_Suc)
  finally show ?thesis using le assms(3) by (simp add: read_bytes_def)
qed

end
