(* ===== verification/Intset.thy ===== *)
theory Intset
  imports Bytes
begin

text \<open>
  The sorted integer set of \<^verbatim>\<open>redis/src/intset.c\<close>. The \<^verbatim>\<open>contents\<close> are the raw bytes of the
  allocation, so that the encodings, the in-place upgrade and the moves of the tail are
  modelled on memory; \<^verbatim>\<open>uint32_t\<close> arithmetic wraps explicitly, and \<^verbatim>\<open>int64_t\<close> values are
  integers. Newly allocated bytes are arbitrary (\<open>junk\<close>).
\<close>

section \<open>Model\<close>

record intset =
  encoding :: nat
  is_length :: nat
  contents :: "byte list"

definition INTSET_ENC_INT16 :: nat where "INTSET_ENC_INT16 = 2"
definition INTSET_ENC_INT32 :: nat where "INTSET_ENC_INT32 = 4"
definition INTSET_ENC_INT64 :: nat where "INTSET_ENC_INT64 = 8"

lemmas intset_enc_defs = INTSET_ENC_INT16_def INTSET_ENC_INT32_def INTSET_ENC_INT64_def

definition intsetValueEncoding :: "int \<Rightarrow> nat" where
  "intsetValueEncoding v =
     (if v < - (2 ^ 31) \<or> v > 2 ^ 31 - 1 then INTSET_ENC_INT64
      else if v < - (2 ^ 15) \<or> v > 2 ^ 15 - 1 then INTSET_ENC_INT32
      else INTSET_ENC_INT16)"

definition intsetGetEncoded :: "intset \<Rightarrow> int \<Rightarrow> nat \<Rightarrow> int option" where
  "intsetGetEncoded is pos enc =
     (if pos < 0 then None
      else if enc = INTSET_ENC_INT64 then map_option le_sint (read_bytes (nat pos * 8) 8 (contents is))
      else if enc = INTSET_ENC_INT32 then map_option le_sint (read_bytes (nat pos * 4) 4 (contents is))
      else map_option le_sint (read_bytes (nat pos * 2) 2 (contents is)))"

definition intsetGetAt :: "intset \<Rightarrow> int \<Rightarrow> int option" where
  "intsetGetAt is pos = intsetGetEncoded is pos (encoding is)"

definition intsetSet :: "intset \<Rightarrow> int \<Rightarrow> int \<Rightarrow> intset option" where
  "intsetSet is pos value =
     (if pos < 0 then None
      else
        let w = (if encoding is = INTSET_ENC_INT64 then 8
                 else if encoding is = INTSET_ENC_INT32 then 4 else 2)
        in map_option (\<lambda>c. is\<lparr>contents := c\<rparr>)
             (write_bytes (nat pos * w) (le_bytes w value) (contents is)))"

definition intsetNew :: intset where
  "intsetNew = \<lparr>encoding = INTSET_ENC_INT16, is_length = 0, contents = []\<rparr>"

definition intsetResize :: "(nat \<Rightarrow> byte) \<Rightarrow> intset \<Rightarrow> nat \<Rightarrow> intset" where
  "intsetResize junk is len =
     (let sz = (len * encoding is) mod 2 ^ 32 in is\<lparr>contents := zrealloc junk sz (contents is)\<rparr>)"

text \<open>The binary search: \<^verbatim>\<open>(min, mid, cur)\<close> when the loop is left.\<close>

partial_function (option) intsetSearch_loop :: "intset \<Rightarrow> int \<Rightarrow> int \<Rightarrow> int \<Rightarrow> int \<Rightarrow> int \<Rightarrow>
    (int \<times> int \<times> int) option" where
  "intsetSearch_loop is value mn mx mid cur =
     (if mx \<ge> mn then
        Option.bind (intsetGetAt is ((mn + mx) mod 2 ^ 32 div 2)) (\<lambda>cur'.
          if value > cur' then
            intsetSearch_loop is value ((mn + mx) mod 2 ^ 32 div 2 + 1) mx ((mn + mx) mod 2 ^ 32 div 2) cur'
          else if value < cur' then
            intsetSearch_loop is value mn ((mn + mx) mod 2 ^ 32 div 2 - 1) ((mn + mx) mod 2 ^ 32 div 2) cur'
          else Some (mn, (mn + mx) mod 2 ^ 32 div 2, cur'))
      else Some (mn, mid, cur))"

text \<open>\<^verbatim>\<open>intsetSearch\<close>: found or not, and \<^verbatim>\<open>*pos\<close>.\<close>

definition intsetSearch :: "intset \<Rightarrow> int \<Rightarrow> (bool \<times> nat) option" where
  "intsetSearch is value =
     (let mx = signed_take_bit 31 (int (is_length is) - 1) in
      if is_length is = 0 then Some (False, 0)
      else do {
        last \<leftarrow> intsetGetAt is mx;
        if value > last then Some (False, is_length is)
        else do {
          first \<leftarrow> intsetGetAt is 0;
          if value < first then Some (False, 0)
          else do {
            (mn, mid, cur) \<leftarrow> intsetSearch_loop is value 0 mx (-1) (-1);
            if value = cur then Some (True, nat mid) else Some (False, nat mn)
          }
        }
      })"

text \<open>The back-to-front copy of \<^verbatim>\<open>intsetUpgradeAndAdd\<close>.\<close>

fun upgrade_loop :: "nat \<Rightarrow> int \<Rightarrow> nat \<Rightarrow> intset \<Rightarrow> intset option" where
  "upgrade_loop 0 prepend curenc is = Some is"
| "upgrade_loop (Suc len) prepend curenc is = do {
     v \<leftarrow> intsetGetEncoded is (int len) curenc;
     is \<leftarrow> intsetSet is (int len + prepend) v;
     upgrade_loop len prepend curenc is
   }"

definition intsetUpgradeAndAdd :: "(nat \<Rightarrow> byte) \<Rightarrow> intset \<Rightarrow> int \<Rightarrow> intset option" where
  "intsetUpgradeAndAdd junk is value =
     (let curenc = encoding is;
          newenc = intsetValueEncoding value;
          len = is_length is;
          prepend = (if value < 0 then 1 else 0);
          is = is\<lparr>encoding := newenc\<rparr>;
          is = intsetResize junk is ((is_length is + 1) mod 2 ^ 32)
      in do {
        is \<leftarrow> upgrade_loop len prepend curenc is;
        is \<leftarrow> (if prepend \<noteq> 0 then intsetSet is 0 value else intsetSet is (int (is_length is)) value);
        Some (is\<lparr>is_length := (is_length is + 1) mod 2 ^ 32\<rparr>)
      })"

definition intsetMoveTail :: "intset \<Rightarrow> nat \<Rightarrow> nat \<Rightarrow> intset option" where
  "intsetMoveTail is from to =
     (let n = nat ((int (is_length is) - int from) mod 2 ^ 32);
          w = (if encoding is = INTSET_ENC_INT64 then 8
               else if encoding is = INTSET_ENC_INT32 then 4 else 2)
      in map_option (\<lambda>c. is\<lparr>contents := c\<rparr>)
           (memmove (to * w) (from * w) ((n * w) mod 2 ^ 32) (contents is)))"

text \<open>\<^verbatim>\<open>intsetAdd\<close>: \<^verbatim>\<open>*success\<close> and the set.\<close>

definition intsetAdd :: "(nat \<Rightarrow> byte) \<Rightarrow> intset \<Rightarrow> int \<Rightarrow> (bool \<times> intset) option" where
  "intsetAdd junk is value =
     (if intsetValueEncoding value > encoding is
      then map_option (\<lambda>is. (True, is)) (intsetUpgradeAndAdd junk is value)
      else do {
        (found, pos) \<leftarrow> intsetSearch is value;
        if found then Some (False, is)
        else do {
          let is = intsetResize junk is ((is_length is + 1) mod 2 ^ 32);
          is \<leftarrow> (if pos < is_length is then intsetMoveTail is pos (pos + 1) else Some is);
          is \<leftarrow> intsetSet is (int pos) value;
          Some (True, is\<lparr>is_length := (is_length is + 1) mod 2 ^ 32\<rparr>)
        }
      })"

definition intsetRemove :: "(nat \<Rightarrow> byte) \<Rightarrow> intset \<Rightarrow> int \<Rightarrow> (bool \<times> intset) option" where
  "intsetRemove junk is value =
     (if intsetValueEncoding value \<le> encoding is then do {
        (found, pos) \<leftarrow> intsetSearch is value;
        if found then do {
          let len = is_length is;
          is \<leftarrow> (if pos < len - 1 then intsetMoveTail is (pos + 1) pos else Some is);
          Some (True, (intsetResize junk is (len - 1))\<lparr>is_length := len - 1\<rparr>)
        }
        else Some (False, is)
      }
      else Some (False, is))"

definition intsetFind :: "intset \<Rightarrow> int \<Rightarrow> bool option" where
  "intsetFind is value =
     (if intsetValueEncoding value \<le> encoding is then map_option fst (intsetSearch is value)
      else Some False)"

text \<open>\<open>rnd\<close> is the value of \<^verbatim>\<open>rand()\<close>; the remainder by zero is undefined.\<close>

definition intsetRandom :: "nat \<Rightarrow> intset \<Rightarrow> int option" where
  "intsetRandom rnd is =
     (if is_length is = 0 then None else intsetGetAt is (int (rnd mod is_length is)))"

definition intsetGet :: "intset \<Rightarrow> nat \<Rightarrow> int option option" where
  "intsetGet is pos =
     (if pos < is_length is then map_option Some (intsetGetAt is (int pos)) else Some None)"

definition intsetLen :: "intset \<Rightarrow> nat" where
  "intsetLen is = is_length is"

definition intsetBlobLen :: "intset \<Rightarrow> nat" where
  "intsetBlobLen is = 8 + (is_length is * encoding is) mod 2 ^ 32"

end
