(* ===== verification/Intset_Correct.thy ===== *)
theory Intset_Correct
  imports Intset
begin

text \<open>
  Correctness of the intset operations against finite sets of integers: the bytes of an
  intset are the little-endian array of a strictly sorted list (\<open>rep\<close>, \<open>is_inv\<close>), the binary
  search finds a value or its insertion point, and insertion and removal, with or without an
  upgrade of the encoding, act on the set as they should.
\<close>

section \<open>Representation\<close>

definition rep :: "intset \<Rightarrow> int list \<Rightarrow> bool" where
  "rep is vs \<longleftrightarrow> encoding is \<in> {2, 4, 8} \<and> is_length is = length vs \<and>
     contents is = enc_array (encoding is) vs \<and> (\<forall>v \<in> set vs. fits (encoding is) v)"

text \<open>The values of an intset, read back from its bytes.\<close>

definition is_vals :: "intset \<Rightarrow> int list" where
  "is_vals is = map (\<lambda>i. le_sint (take (encoding is) (drop (i * encoding is) (contents is))))
     [0..<is_length is]"

definition is_inv :: "intset \<Rightarrow> bool" where
  "is_inv is \<longleftrightarrow> rep is (is_vals is) \<and> sorted_wrt (<) (is_vals is)"

definition is_set :: "intset \<Rightarrow> int set" where
  "is_set is = set (is_vals is)"

text \<open>Room for one more element: below \<open>2 ^ 28\<close> the 32-bit byte counts do not wrap.\<close>

definition is_room :: "intset \<Rightarrow> bool" where
  "is_room is \<longleftrightarrow> is_length is + 1 < 2 ^ 28"

lemma rep_is_vals:
  assumes "rep is vs"
  shows "is_vals is = vs"
proof (rule nth_equalityI)
  show "length (is_vals is) = length vs"
    using assms by (simp add: rep_def is_vals_def)
  fix i assume "i < length (is_vals is)"
  then have i: "i < length vs" using assms by (simp add: rep_def is_vals_def)
  let ?e = "encoding is"
  have e: "0 < ?e" and f: "fits ?e (vs ! i)" using assms i by (auto simp: rep_def)
  have "read_bytes (i * ?e) ?e (contents is) = Some (le_bytes ?e (vs ! i))"
    using assms i by (intro read_bytes_enc_array) (simp_all add: rep_def)
  then have "take ?e (drop (i * ?e) (contents is)) = le_bytes ?e (vs ! i)"
    by (simp add: read_bytes_def split: if_splits)
  with e f le_sint_le_bytes have "le_sint (take ?e (drop (i * ?e) (contents is))) = vs ! i" by simp
  then show "is_vals is ! i = vs ! i" using assms i by (simp add: rep_def is_vals_def)
qed

lemma is_invI: "rep is vs \<Longrightarrow> sorted_wrt (<) vs \<Longrightarrow> is_inv is"
  by (simp add: is_inv_def rep_is_vals)

lemma is_invE:
  assumes "is_inv is"
  obtains vs where "rep is vs" "sorted_wrt (<) vs" "is_set is = set vs" "is_vals is = vs"
  using assms by (auto simp: is_inv_def is_set_def)

lemma rep_set: "rep is vs \<Longrightarrow> is_set is = set vs"
  by (simp add: is_set_def rep_is_vals)

section \<open>Encodings\<close>

lemma intsetValueEncoding_cases: "intsetValueEncoding v \<in> {2, 4, 8}"
  by (simp add: intsetValueEncoding_def intset_enc_defs)

lemma intsetValueEncoding_fits:
  assumes "fits 8 v" "e \<in> {2, 4, 8}"
  shows "intsetValueEncoding v \<le> e \<longleftrightarrow> fits e v"
  using assms by (auto simp: intsetValueEncoding_def intset_enc_defs fits_def)

lemma intsetValueEncoding_self: "fits 8 v \<Longrightarrow> fits (intsetValueEncoding v) v"
  using intsetValueEncoding_fits [OF _ intsetValueEncoding_cases] by blast

section \<open>Access\<close>

lemma intsetGetEncoded_read:
  "e \<in> {2, 4, 8} \<Longrightarrow>
     intsetGetEncoded is (int i) e = map_option le_sint (read_bytes (i * e) e (contents is))"
  by (auto simp: intsetGetEncoded_def intset_enc_defs)

lemma intsetSet_write:
  "encoding is \<in> {2, 4, 8} \<Longrightarrow> intsetSet is (int i) v =
     map_option (\<lambda>c. is\<lparr>contents := c\<rparr>)
       (write_bytes (i * encoding is) (le_bytes (encoding is) v) (contents is))"
  by (auto simp: intsetSet_def intset_enc_defs)

lemma intsetGetAt_rep:
  assumes "rep is vs" "i < length vs"
  shows "intsetGetAt is (int i) = Some (vs ! i)"
proof -
  have "read_bytes (i * encoding is) (encoding is) (contents is) = Some (le_bytes (encoding is) (vs ! i))"
    using assms by (intro read_bytes_enc_array) (simp_all add: rep_def)
  moreover have "fits (encoding is) (vs ! i)" "encoding is \<in> {2, 4, 8}"
    using assms by (simp_all add: rep_def)
  moreover from this have "0 < encoding is" by auto
  ultimately show ?thesis
    by (simp add: intsetGetAt_def intsetGetEncoded_read le_sint_le_bytes)
qed

section \<open>Search\<close>

lemma sorted_lt_nth: "sorted_wrt (<) (vs :: int list) \<Longrightarrow> i < j \<Longrightarrow> j < length vs \<Longrightarrow> vs ! i < vs ! j"
  by (simp add: sorted_wrt_nth_less)

text \<open>\<open>p\<close> is where \<open>x\<close> belongs in \<open>vs\<close>.\<close>

definition ins_point :: "int list \<Rightarrow> int \<Rightarrow> nat \<Rightarrow> bool" where
  "ins_point vs x p \<longleftrightarrow> p \<le> length vs \<and> (\<forall>i < p. vs ! i < x) \<and> (\<forall>i. p \<le> i \<longrightarrow> i < length vs \<longrightarrow> x < vs ! i)"

lemma intsetSearch_loop_step:
  assumes "mx \<ge> mn" "intsetGetAt is md = Some c" "md = (mn + mx) mod 2 ^ 32 div 2"
  shows "intsetSearch_loop is x mn mx mid cur =
    (if x > c then intsetSearch_loop is x (md + 1) mx md c
     else if x < c then intsetSearch_loop is x mn (md - 1) md c
     else Some (mn, md, c))"
  using assms by (subst intsetSearch_loop.simps) simp

lemma intsetSearch_loop_Some:
  assumes rep: "rep is vs" and sorted: "sorted_wrt (<) vs" and len: "length vs < 2 ^ 31"
    and "0 \<le> mn" "mn \<le> mx + 1" "mx < int (length vs)"
    and "\<forall>i. int i < mn \<longrightarrow> vs ! i < x" "\<forall>i. mx < int i \<longrightarrow> i < length vs \<longrightarrow> x < vs ! i"
    and "cur \<noteq> x \<or> mn \<le> mx"
  shows "\<exists>mn' mid' cur'. intsetSearch_loop is x mn mx mid cur = Some (mn', mid', cur') \<and>
    (if cur' = x then 0 \<le> mid' \<and> nat mid' < length vs \<and> vs ! nat mid' = x
     else 0 \<le> mn' \<and> ins_point vs x (nat mn'))"
  using assms(4-)
proof (induction "nat (mx - mn + 1)" arbitrary: mn mx mid cur rule: less_induct)
  case less
  show ?case
  proof (cases "mx \<ge> mn")
    case False
    then have "mn = mx + 1" using less.prems(2) by simp
    have "i < nat mn \<Longrightarrow> int i < mn" "nat mn \<le> i \<Longrightarrow> mx < int i" for i
      using \<open>mn = mx + 1\<close> by linarith+
    moreover have "nat mn \<le> length vs" using \<open>mn = mx + 1\<close> less.prems(3) by linarith
    ultimately have "ins_point vs x (nat mn)"
      using less.prems(4,5) unfolding ins_point_def by blast
    with False less.prems show ?thesis by (subst intsetSearch_loop.simps) auto
  next
    case True
    define m where "m = nat ((mn + mx) div 2)"
    have "int (length vs) < 2147483648" using len by simp
    then have "mn + mx < 2 ^ 32" using less.prems(2,3) by simp
    then have md: "int m = (mn + mx) mod 2 ^ 32 div 2" using less.prems(1) True by (simp add: m_def)
    have bounds: "mn \<le> int m" "int m \<le> mx" using less.prems(1) True by (auto simp: m_def)
    then have m: "m < length vs" using less.prems(3) by linarith
    note step = intsetSearch_loop_step [OF True intsetGetAt_rep [OF rep m] md, of x mid cur]
    consider (gt) "x > vs ! m" | (lt) "x < vs ! m" | (eq) "x = vs ! m" by linarith
    then show ?thesis
    proof cases
      case gt
      have "vs ! i < x" if "int i < int m + 1" for i
        using sorted_lt_nth [OF sorted _ m, of i] gt that by (cases "i = m") auto
      moreover have "intsetSearch_loop is x mn mx mid cur =
          intsetSearch_loop is x (int m + 1) mx (int m) (vs ! m)" using step gt by simp
      ultimately show ?thesis
        using less.hyps [of mx "int m + 1" "vs ! m" "int m"] less.prems bounds gt by simp
    next
      case lt
      have "x < vs ! i" if "int m - 1 < int i" "i < length vs" for i
        using sorted_lt_nth [OF sorted, of m i] lt that by (cases "i = m") auto
      moreover have "intsetSearch_loop is x mn mx mid cur =
          intsetSearch_loop is x mn (int m - 1) (int m) (vs ! m)" using step lt by simp
      ultimately show ?thesis
        using less.hyps [of "int m - 1" mn "vs ! m" "int m"] less.prems bounds lt by simp
    next
      case eq
      with step m show ?thesis by simp
    qed
  qed
qed

lemma intsetSearch_cases:
  assumes rep: "rep is vs" and sorted: "sorted_wrt (<) vs" and len: "length vs < 2 ^ 31"
  obtains (found) p where "intsetSearch is x = Some (True, p)" "p < length vs" "vs ! p = x"
  | (absent) p where "intsetSearch is x = Some (False, p)" "ins_point vs x p"
proof -
  have n: "is_length is = length vs" using rep by (simp add: rep_def)
  show thesis
  proof (cases "vs = []")
    case True
    with n show thesis by (intro absent [of 0]) (simp_all add: intsetSearch_def ins_point_def)
  next
    case False
    then have l: "length vs - 1 < length vs" "0 < length vs" by simp_all
    have mx: "signed_take_bit 31 (int (length vs) - 1) = int (length vs - 1)"
    proof -
      have "int (length vs) - 1 = int (length vs - 1)" using l(2) by linarith
      moreover have "- (2 ^ 31) \<le> int (length vs - 1)" "int (length vs - 1) < 2 ^ 31"
        using len by simp_all
      ultimately show ?thesis by (simp only: signed_take_bit_int_eq_self)
    qed
    note get = intsetGetAt_rep [OF rep l(1)] intsetGetAt_rep [OF rep l(2)]
    consider (big) "x > vs ! (length vs - 1)" | (small) "\<not> x > vs ! (length vs - 1)" "x < vs ! 0"
      | (mid) "\<not> x > vs ! (length vs - 1)" "\<not> x < vs ! 0" by blast
    then show thesis
    proof cases
      case big
      have "vs ! i < x" if "i < length vs" for i
      proof (cases "i = length vs - 1")
        case True
        with big show ?thesis by simp
      next
        case False
        with that have "i < length vs - 1" by linarith
        from sorted_lt_nth [OF sorted this l(1)] big show ?thesis by simp
      qed
      with big n False get mx show thesis
        by (intro absent [of "length vs"]) (simp_all add: intsetSearch_def ins_point_def)
    next
      case small
      have "x < vs ! i" if "i < length vs" for i
        using sorted_lt_nth [OF sorted, of 0 i] small that by (cases "i = 0") auto
      with small n False get mx show thesis
        by (intro absent [of 0]) (simp_all add: intsetSearch_def ins_point_def)
    next
      case mid
      obtain mn' mid' cur' where r:
        "intsetSearch_loop is x 0 (int (length vs - 1)) (-1) (-1) = Some (mn', mid', cur')"
        "if cur' = x then 0 \<le> mid' \<and> nat mid' < length vs \<and> vs ! nat mid' = x
         else 0 \<le> mn' \<and> ins_point vs x (nat mn')"
        using intsetSearch_loop_Some [OF rep sorted len, of 0 "int (length vs - 1)" x "-1" "-1"] l
        by auto
      have run: "intsetSearch is x = (if x = cur' then Some (True, nat mid') else Some (False, nat mn'))"
        using mid n False get mx r(1) by (simp add: intsetSearch_def)
      show thesis
      proof (cases "cur' = x")
        case True
        with run r(2) show thesis by (intro found [of "nat mid'"]) simp_all
      next
        case False
        with run r(2) show thesis by (intro absent [of "nat mn'"]) simp_all
      qed
    qed
  qed
qed

lemma ins_point_absent: "ins_point vs x p \<Longrightarrow> x \<notin> set vs"
  unfolding ins_point_def in_set_conv_nth by (metis less_irrefl not_le)

lemma intsetFind_correct:
  assumes rep: "rep is vs" and sorted: "sorted_wrt (<) vs" and len: "length vs < 2 ^ 31" and x: "fits 8 x"
  shows "intsetFind is x = Some (x \<in> set vs)"
proof (cases "intsetValueEncoding x \<le> encoding is")
  case True
  from rep sorted len show ?thesis
  proof (cases rule: intsetSearch_cases [of "is" vs x])
    case (found p)
    with True show ?thesis by (auto simp: intsetFind_def)
  next
    case (absent p)
    with True ins_point_absent show ?thesis by (simp add: intsetFind_def)
  qed
next
  case False
  then have "\<not> fits (encoding is) x"
    using rep intsetValueEncoding_fits [OF x] by (simp add: rep_def)
  with rep False show ?thesis by (auto simp: intsetFind_def rep_def)
qed

section \<open>Insertion at a position\<close>

lemma ins_point_sorted:
  assumes "sorted_wrt (<) vs" "ins_point vs x p"
  shows "sorted_wrt (<) (take p vs @ x # drop p vs)"
proof -
  have "\<forall>a \<in> set (take p vs). a < x" "\<forall>b \<in> set (drop p vs). x < b"
    using assms(2) by (auto simp: ins_point_def in_set_conv_nth)
  moreover have "sorted_wrt (<) (take p vs @ drop p vs)" using assms(1) by simp
  ultimately show ?thesis
    by (auto simp: sorted_wrt_append simp del: append_take_drop_id)
qed

lemma set_insert_at: "set (take p vs @ x # drop p vs) = insert x (set vs)"
  by (metis Un_insert_right append_take_drop_id list.simps(15) set_append)

lemma write_insert:
  assumes "length buf = (length vs + 1) * e" "p \<le> length vs"
    "take (p * e) buf = enc_array e (take p vs)" "drop ((p + 1) * e) buf = enc_array e (drop p vs)"
  shows "write_bytes (p * e) (le_bytes e x) buf = Some (enc_array e (take p vs @ x # drop p vs))"
proof -
  have "(p + 1) * e \<le> (length vs + 1) * e" using assms(2) by (intro mult_le_mono1) simp
  then have "p * e + e \<le> length buf" using assms(1) by simp
  with assms(3,4) show ?thesis by (simp add: write_bytes_def add.commute)
qed

lemma intsetResize_rep:
  assumes "rep is vs" "n < 2 ^ 28"
  shows "intsetResize junk is n = is\<lparr>contents := zrealloc junk (n * encoding is) (enc_array (encoding is) vs)\<rparr>"
proof -
  have "n * encoding is < 2 ^ 32" using assms by (auto simp: rep_def)
  with assms(1) show ?thesis by (simp add: intsetResize_def Let_def rep_def)
qed

lemma zrealloc_grow: "length buf \<le> n \<Longrightarrow> \<exists>J. zrealloc junk n buf = buf @ J \<and> length J = n - length buf"
  by (simp add: zrealloc_def)

lemma zrealloc_shrink: "n \<le> length buf \<Longrightarrow> zrealloc junk n buf = take n buf"
  by (simp add: zrealloc_def)

lemma intsetMoveTail_memmove:
  assumes "encoding is \<in> {2, 4, 8}" "from \<le> is_length is" "is_length is < 2 ^ 28"
  shows "intsetMoveTail is from to = map_option (\<lambda>c. is\<lparr>contents := c\<rparr>)
    (memmove (to * encoding is) (from * encoding is) ((is_length is - from) * encoding is) (contents is))"
proof -
  have n: "nat ((int (is_length is) - int from) mod 2 ^ 32) = is_length is - from"
    using assms(2,3) by (simp add: nat_mod_distrib flip: of_nat_diff)
  have "(is_length is - from) * encoding is < 2 ^ 32"
    using assms(1,3) by auto
  with n assms(1) show ?thesis
    by (auto simp: intsetMoveTail_def Let_def intset_enc_defs)
qed

lemma memmove_up:
  assumes "length J = e" "p < length vs"
  shows "\<exists>buf. memmove ((p + 1) * e) (p * e) ((length vs - p) * e) (enc_array e vs @ J) = Some buf \<and>
    length buf = (length vs + 1) * e \<and> take (p * e) buf = enc_array e (take p vs) \<and>
    drop ((p + 1) * e) buf = enc_array e (drop p vs)"
proof -
  let ?B = "enc_array e vs @ J"
  have le: "p * e \<le> length vs * e" and sum: "p * e + (length vs - p) * e = length vs * e"
    using assms(2) by (simp_all flip: add_mult_distrib)
  have rd: "read_bytes (p * e) ((length vs - p) * e) ?B = Some (enc_array e (drop p vs))"
    using le sum by (simp add: read_bytes_def drop_enc_array)
  have len: "(p + 1) * e + length (enc_array e (drop p vs)) = length ?B"
    using sum assms(1) by simp
  let ?buf = "take ((p + 1) * e) ?B @ enc_array e (drop p vs)"
  have wr: "write_bytes ((p + 1) * e) (enc_array e (drop p vs)) ?B = Some ?buf"
    using len unfolding write_bytes_def by simp
  have "take (p * e) ?buf = take (p * e) ?B" using le by (simp add: min_def)
  also have "\<dots> = enc_array e (take p vs)" using le by (simp add: take_enc_array)
  finally have tk: "take (p * e) ?buf = enc_array e (take p vs)" .
  have l1: "length (take ((p + 1) * e) ?B) = (p + 1) * e"
    using len by simp
  then have "drop ((p + 1) * e) ?buf = enc_array e (drop p vs)" by simp
  moreover have "length ?buf = (length vs + 1) * e"
    using l1 sum by simp
  ultimately show ?thesis using rd wr tk by (simp add: memmove_def)
qed

lemma rep_contents: "rep is vs \<Longrightarrow> contents is = enc_array (encoding is) vs"
  "rep is vs \<Longrightarrow> is_length is = length vs" "rep is vs \<Longrightarrow> encoding is \<in> {2, 4, 8}"
  by (simp_all add: rep_def)

lemma rep_insert:
  assumes "rep is vs" "fits (encoding is) x" "length vs + 1 < 2 ^ 28"
  shows "rep (is\<lparr>contents := enc_array (encoding is) (take p vs @ x # drop p vs), is_length := (length vs + 1) mod 2 ^ 32\<rparr>)
    (take p vs @ x # drop p vs)"
  using assms set_insert_at [of p vs x] by (auto simp: rep_def dest: in_set_takeD in_set_dropD)

lemma intsetAdd_inplace:
  assumes rep: "rep is vs" and srch: "intsetSearch is x = Some (False, p)" and p: "p \<le> length vs"
    and room: "length vs + 1 < 2 ^ 28" and x: "fits (encoding is) x" "intsetValueEncoding x \<le> encoding is"
  shows "\<exists>is'. intsetAdd junk is x = Some (True, is') \<and> rep is' (take p vs @ x # drop p vs)"
proof -
  let ?e = "encoding is"
  let ?new = "enc_array ?e (take p vs @ x # drop p vs)"
  obtain J where J: "zrealloc junk ((length vs + 1) * ?e) (enc_array ?e vs) = enc_array ?e vs @ J" "length J = ?e"
    using zrealloc_grow [of "enc_array ?e vs" "(length vs + 1) * ?e" junk] by auto
  define is1 where "is1 = is\<lparr>contents := enc_array ?e vs @ J\<rparr>"
  have sz: "intsetResize junk is ((is_length is + 1) mod 2 ^ 32) = is1"
    using intsetResize_rep [OF rep, of "length vs + 1" junk] room J(1) rep_contents(2) [OF rep]
    by (simp add: is1_def)
  have "\<exists>is2. (if p < is_length is1 then intsetMoveTail is1 p (p + 1) else Some is1) = Some is2 \<and>
      intsetSet is2 (int p) x = Some (is\<lparr>contents := ?new\<rparr>) "
  proof (cases "p < length vs")
    case True
    obtain buf where b: "memmove ((p + 1) * ?e) (p * ?e) ((length vs - p) * ?e) (enc_array ?e vs @ J) = Some buf"
      "length buf = (length vs + 1) * ?e" "take (p * ?e) buf = enc_array ?e (take p vs)"
      "drop ((p + 1) * ?e) buf = enc_array ?e (drop p vs)"
      using memmove_up [OF J(2) True] by blast
    have "intsetMoveTail is1 p (p + 1) = Some (is\<lparr>contents := buf\<rparr>)"
      using intsetMoveTail_memmove [of is1 p "p + 1"] b(1) rep_contents [OF rep] True room
      by (simp add: is1_def)
    moreover have "intsetSet (is\<lparr>contents := buf\<rparr>) (int p) x = Some (is\<lparr>contents := ?new\<rparr>)"
      using intsetSet_write [of "is\<lparr>contents := buf\<rparr>" p x] write_insert [OF b(2) p b(3,4), of x] rep_contents [OF rep]
      by simp
    ultimately show ?thesis using True rep_contents(2) [OF rep] by (simp add: is1_def)
  next
    case False
    with p have "p = length vs" by simp
    then have "write_bytes (p * ?e) (le_bytes ?e x) (enc_array ?e vs @ J) = Some ?new"
      using J(2) by (intro write_insert) simp_all
    then show ?thesis
      using False intsetSet_write [of is1 p x] rep_contents [OF rep] by (simp add: is1_def)
  qed
  then show ?thesis
    using srch x(2) sz rep_insert [OF rep x(1) room, of p] rep_contents(2) [OF rep]
    by (auto simp: intsetAdd_def Let_def)
qed

section \<open>Upgrade\<close>

lemma slice_write:
  assumes "off + length bs \<le> length buf"
  shows "write_bytes off bs buf = Some (take off buf @ bs @ drop (off + length bs) buf)"
    "m \<le> off \<Longrightarrow> take m (take off buf @ bs @ drop (off + length bs) buf) = take m buf"
    "drop off (take off buf @ bs @ drop (off + length bs) buf) = bs @ drop (off + length bs) buf"
  using assms by (simp_all add: write_bytes_def min_def)

lemma upgrade_loop_Some:
  fixes L :: nat
  assumes enc: "e \<in> {2, 4, 8}" "encoding is = e'" "e' \<in> {2, 4, 8}" "e \<le> e'"
    and vs: "\<forall>v \<in> set vs. fits e v" "length vs = L" and p: "p \<le> 1"
    and "n \<le> L" "length buf = (L + 1) * e'" "take (n * e) buf = enc_array e (take n vs)"
    and "take ((L - n) * e') (drop ((n + p) * e') buf) = enc_array e' (drop n vs)"
  shows "\<exists>buf'. upgrade_loop n (int p) e (is\<lparr>contents := buf\<rparr>) = Some (is\<lparr>contents := buf'\<rparr>) \<and>
    length buf' = (L + 1) * e' \<and> take (L * e') (drop (p * e') buf') = enc_array e' vs"
  using assms(8-)
proof (induction n arbitrary: buf)
  case 0
  then show ?case by auto
next
  case (Suc n)
  let ?v = "vs ! n"
  have n: "n < length vs" using Suc.prems(1) vs(2) by simp
  have e0: "0 < e" "0 < e'" using enc by auto
  have le: "Suc n * e \<le> (L + 1) * e'"
    using Suc.prems(1) enc(4) by (intro mult_le_mono) simp_all
  have "read_bytes (n * e) e buf = Some (le_bytes e (take (Suc n) vs ! n))"
    using Suc.prems(2,3) le n by (intro read_bytes_enc_array) (simp_all add: min_absorb2)
  then have get: "intsetGetEncoded (is\<lparr>contents := buf\<rparr>) (int n) e = Some ?v"
    using intsetGetEncoded_read [OF enc(1)] vs(1) n e0(1) by (simp add: le_sint_le_bytes)
  let ?off = "(n + p) * e'"
  have off: "?off + length (le_bytes e' ?v) \<le> length buf"
  proof -
    have "(n + p + 1) * e' \<le> (L + 1) * e'" using Suc.prems(1) p by (intro mult_le_mono1) simp
    then show ?thesis using Suc.prems(2) by simp
  qed
  note sl = slice_write [OF off]
  let ?buf = "take ?off buf @ le_bytes e' ?v @ drop (?off + length (le_bytes e' ?v)) buf"
  have pos: "int n + int p = int (n + p)" by simp
  have set: "intsetSet (is\<lparr>contents := buf\<rparr>) (int n + int p) ?v = Some (is\<lparr>contents := ?buf\<rparr>)"
    unfolding pos using intsetSet_write [of "is\<lparr>contents := buf\<rparr>" "n + p" ?v] sl(1) enc(2,3) by simp
  have "length ?buf = (L + 1) * e'"
    using off Suc.prems(2) by simp
  moreover have "take (n * e) ?buf = enc_array e (take n vs)"
  proof -
    have "n * e \<le> ?off" using enc(4) by (intro mult_le_mono) simp_all
    then have "take (n * e) ?buf = take (n * e) (take (Suc n * e) buf)"
      by (simp only: sl(2) take_take min_def) simp
    also have "\<dots> = enc_array e (take n vs)"
      unfolding Suc.prems(3) by (simp add: take_enc_array min_def)
    finally show ?thesis .
  qed
  moreover have "take ((L - n) * e') (drop ?off ?buf) = enc_array e' (drop n vs)"
  proof -
    have "(L - n) * e' = e' + (L - Suc n) * e'"
      using Suc.prems(1) by (metis Suc_diff_le diff_Suc_Suc mult_Suc)
    then have "take ((L - n) * e') (drop ?off ?buf) =
        le_bytes e' ?v @ take ((L - Suc n) * e') (drop ((Suc n + p) * e') buf)"
      unfolding sl(3) by (simp add: add.commute)
    also have "\<dots> = enc_array e' (drop n vs)"
      unfolding Suc.prems(4) using n by (simp flip: Cons_nth_drop_Suc)
    finally show ?thesis .
  qed
  ultimately have "\<exists>buf'. upgrade_loop n (int p) e (is\<lparr>contents := ?buf\<rparr>) = Some (is\<lparr>contents := buf'\<rparr>) \<and>
      length buf' = (L + 1) * e' \<and> take (L * e') (drop (p * e') buf') = enc_array e' vs"
    using Suc.prems(1) by (intro Suc.IH) simp_all
  then show ?case by (simp add: get set)
qed

lemma out_of_range:
  assumes rep: "rep is vs" and x: "fits 8 x" and up: "intsetValueEncoding x > encoding is"
  shows "x < 0 \<Longrightarrow> ins_point vs x 0" "\<not> x < 0 \<Longrightarrow> ins_point vs x (length vs)"
proof -
  have e: "encoding is \<in> {2, 4, 8}" using rep by (simp add: rep_def)
  have nf: "\<not> fits (encoding is) x"
    using intsetValueEncoding_fits [OF x e] up by simp
  define M :: int where "M = 2 ^ (8 * encoding is - 1)"
  have M: "M > 0" by (simp add: M_def)
  have nf': "x < - M \<or> M \<le> x" using nf unfolding fits_def M_def by linarith
  have v: "- M \<le> vs ! i \<and> vs ! i < M" if "i < length vs" for i
    using rep that unfolding rep_def fits_def M_def by simp
  show "ins_point vs x 0" if "x < 0"
    using v nf' M that unfolding ins_point_def by (metis less_le_not_le linorder_not_less not_less_zero order_less_le_trans zero_le)
  show "ins_point vs x (length vs)" if "\<not> x < 0"
    using v nf' M that unfolding ins_point_def by force
qed

lemma intsetUpgradeAndAdd_correct:
  assumes rep: "rep is vs" and room: "length vs + 1 < 2 ^ 28"
    and x: "fits 8 x" and up: "intsetValueEncoding x > encoding is"
  defines "p \<equiv> if x < 0 then 0 else length vs"
  shows "\<exists>is'. intsetUpgradeAndAdd junk is x = Some is' \<and> rep is' (take p vs @ x # drop p vs)"
proof -
  let ?L = "length vs" and ?e = "encoding is" and ?e' = "intsetValueEncoding x"
  let ?q = "if x < 0 then 1 else (0::nat)"
  note rc = rep_contents [OF rep]
  define is1 where "is1 = is\<lparr>encoding := ?e'\<rparr>"
  have e': "?e' \<in> {2, 4, 8}" by (rule intsetValueEncoding_cases)
  have "(?L + 1) * ?e' < 2 ^ 32" using room e' by auto
  then have sz: "intsetResize junk is1 ((is_length is1 + 1) mod 2 ^ 32) =
      is1\<lparr>contents := zrealloc junk ((?L + 1) * ?e') (enc_array ?e vs)\<rparr>"
    using rc room by (simp add: intsetResize_def is1_def Let_def)
  have le: "?L * ?e \<le> (?L + 1) * ?e'" using up by (intro mult_le_mono) simp_all
  obtain J where J: "zrealloc junk ((?L + 1) * ?e') (enc_array ?e vs) = enc_array ?e vs @ J"
    "length J = (?L + 1) * ?e' - ?L * ?e"
    using zrealloc_grow [of "enc_array ?e vs" "(?L + 1) * ?e'" junk] le by auto
  have "\<exists>buf'. upgrade_loop ?L (int ?q) ?e (is1\<lparr>contents := enc_array ?e vs @ J\<rparr>) = Some (is1\<lparr>contents := buf'\<rparr>) \<and>
      length buf' = (?L + 1) * ?e' \<and> take (?L * ?e') (drop (?q * ?e') buf') = enc_array ?e' vs"
    using rc(3) e' up rep J(2) le
    by (intro upgrade_loop_Some) (simp_all add: is1_def rep_def)
  then obtain buf where up_run: "upgrade_loop ?L (int ?q) ?e (is1\<lparr>contents := enc_array ?e vs @ J\<rparr>) = Some (is1\<lparr>contents := buf\<rparr>)"
    and buf: "length buf = (?L + 1) * ?e'" "take (?L * ?e') (drop (?q * ?e') buf) = enc_array ?e' vs"
    by blast
  let ?new = "enc_array ?e' (take p vs @ x # drop p vs)"
  have wr: "write_bytes (p * ?e') (le_bytes ?e' x) buf = Some ?new"
  proof (cases "x < 0")
    case True
    with buf show ?thesis by (intro write_insert) (simp_all add: p_def)
  next
    case False
    with buf show ?thesis by (intro write_insert) (simp_all add: p_def)
  qed
  let ?is2 = "is1\<lparr>contents := buf\<rparr>"
  have st: "(if int ?q \<noteq> 0 then intsetSet ?is2 0 x else intsetSet ?is2 (int (is_length ?is2)) x) =
      Some (is1\<lparr>contents := ?new\<rparr>)"
    using intsetSet_write [of ?is2 p x] wr e' rc(2) by (auto simp: p_def is1_def)
  have run: "intsetUpgradeAndAdd junk is x = Some (is1\<lparr>contents := ?new, is_length := (?L + 1) mod 2 ^ 32\<rparr>)"
    using up_run st sz J(1) rc(2)
    by (simp add: intsetUpgradeAndAdd_def Let_def is1_def split: if_splits)
  have "\<forall>v \<in> insert x (set vs). fits ?e' v"
    using intsetValueEncoding_self [OF x] rep up fits_mono rc(3) unfolding rep_def by fastforce
  then have "rep (is1\<lparr>contents := ?new, is_length := (?L + 1) mod 2 ^ 32\<rparr>) (take p vs @ x # drop p vs)"
    using room e' set_insert_at [of p vs x] by (auto simp: rep_def is1_def)
  with run show ?thesis by blast
qed

section \<open>Removal\<close>

lemma memmove_down:
  assumes "Suc p < length vs"
  shows "\<exists>buf. memmove (p * e) ((p + 1) * e) ((length vs - (p + 1)) * e) (enc_array e vs) = Some buf \<and>
    length buf = length vs * e \<and> take ((length vs - 1) * e) buf = enc_array e (take p vs @ drop (Suc p) vs)"
proof -
  let ?B = "enc_array e vs"
  have sum: "(p + 1) * e + (length vs - (p + 1)) * e = length vs * e"
    unfolding add_mult_distrib [symmetric] using assms by (intro arg_cong [of _ _ "\<lambda>k. k * e"]) simp
  have rd: "read_bytes ((p + 1) * e) ((length vs - (p + 1)) * e) ?B = Some (enc_array e (drop (Suc p) vs))"
    using sum by (simp add: read_bytes_def flip: drop_enc_array)
  let ?buf = "take (p * e) ?B @ enc_array e (drop (Suc p) vs) @ drop (p * e + (length vs - (p + 1)) * e) ?B"
  have wr: "write_bytes (p * e) (enc_array e (drop (Suc p) vs)) ?B = Some ?buf"
    using sum unfolding write_bytes_def by simp
  have l: "length (take (p * e) ?B) = p * e" using sum by simp
  have "(length vs - 1) * e = p * e + (length vs - (p + 1)) * e"
    unfolding add_mult_distrib [symmetric] using assms by (intro arg_cong [of _ _ "\<lambda>k. k * e"]) simp
  then have "take ((length vs - 1) * e) ?buf = take (p * e) ?B @ enc_array e (drop (Suc p) vs)"
    using l by simp
  also have "\<dots> = enc_array e (take p vs @ drop (Suc p) vs)"
    by (simp add: take_enc_array)
  finally have "take ((length vs - 1) * e) ?buf = enc_array e (take p vs @ drop (Suc p) vs)" .
  moreover have "length ?buf = length vs * e" using l sum by simp
  ultimately show ?thesis using rd wr by (simp add: memmove_def)
qed

lemma intsetRemove_found:
  assumes rep: "rep is vs" and srch: "intsetSearch is x = Some (True, p)" and p: "p < length vs"
    and len: "length vs < 2 ^ 28" and x: "intsetValueEncoding x \<le> encoding is"
  shows "\<exists>is'. intsetRemove junk is x = Some (True, is') \<and> rep is' (take p vs @ drop (Suc p) vs)"
proof -
  let ?e = "encoding is" and ?vs = "take p vs @ drop (Suc p) vs"
  note rc = rep_contents [OF rep]
  have "\<exists>buf. (if p < length vs - 1 then intsetMoveTail is (p + 1) p else Some is) = Some (is\<lparr>contents := buf\<rparr>) \<and>
      length buf = length vs * ?e \<and> take ((length vs - 1) * ?e) buf = enc_array ?e ?vs"
  proof (cases "p < length vs - 1")
    case True
    then have p': "Suc p < length vs" by simp
    from memmove_down [OF this, of ?e] intsetMoveTail_memmove [OF rc(3), of "p + 1" p]
    show ?thesis using True rc len p' by auto
  next
    case False
    with p have pp: "p = length vs - 1" by simp
    have "is = is\<lparr>contents := enc_array ?e vs\<rparr>" using rc(1) by simp
    moreover have "take ((length vs - 1) * ?e) (enc_array ?e vs) = enc_array ?e ?vs"
      using pp p by (simp add: take_enc_array)
    ultimately show ?thesis using False by (intro exI [of _ "enc_array ?e vs"]) simp
  qed
  then obtain buf where mv: "(if p < length vs - 1 then intsetMoveTail is (p + 1) p else Some is) = Some (is\<lparr>contents := buf\<rparr>)"
    and buf: "length buf = length vs * ?e" "take ((length vs - 1) * ?e) buf = enc_array ?e ?vs" by blast
  have "(length vs - 1) * ?e < 2 ^ 32" using len rc(3) by auto
  moreover have "(length vs - 1) * ?e \<le> length buf" unfolding buf(1) by (intro mult_le_mono1) simp
  ultimately have sz: "intsetResize junk (is\<lparr>contents := buf\<rparr>) (length vs - 1) = is\<lparr>contents := enc_array ?e ?vs\<rparr>"
    using buf(2) by (simp add: intsetResize_def Let_def zrealloc_shrink)
  have "set ?vs \<subseteq> set vs" using set_take_subset set_drop_subset by fastforce
  then have "rep (is\<lparr>contents := enc_array ?e ?vs, is_length := length vs - 1\<rparr>) ?vs"
    using rep p unfolding rep_def by auto
  moreover have "intsetRemove junk is x = Some (True, is\<lparr>contents := enc_array ?e ?vs, is_length := length vs - 1\<rparr>)"
    using x srch mv sz rc(2) by (simp add: intsetRemove_def Let_def split: if_splits)
  ultimately show ?thesis by blast
qed

lemma remove_at:
  assumes "sorted_wrt (<) (vs :: int list)" "p < length vs"
  shows "sorted_wrt (<) (take p vs @ drop (Suc p) vs)" "set (take p vs @ drop (Suc p) vs) = set vs - {vs ! p}"
proof -
  have vs: "vs = take p vs @ vs ! p # drop (Suc p) vs" using assms(2) by (rule id_take_nth_drop)
  have s: "sorted_wrt (<) (take p vs @ vs ! p # drop (Suc p) vs)" using assms(1) vs by simp
  then show "sorted_wrt (<) (take p vs @ drop (Suc p) vs)"
    by (simp only: sorted_wrt_append sorted_wrt.simps) simp
  have "vs ! p \<notin> set (take p vs)" "vs ! p \<notin> set (drop (Suc p) vs)"
    using s by (auto simp only: sorted_wrt_append sorted_wrt.simps list.set)+
  then show "set (take p vs @ drop (Suc p) vs) = set vs - {vs ! p}"
    by (subst (3) vs) auto
qed

section \<open>Operations on well-formed intsets\<close>

lemma intsetAdd_correct:
  assumes "is_inv is" "is_room is" "fits 8 x"
  shows "\<exists>is'. intsetAdd junk is x = Some (x \<notin> is_set is, is') \<and> is_inv is' \<and> is_set is' = insert x (is_set is)"
proof -
  from assms(1) obtain vs where rep: "rep is vs" and st: "sorted_wrt (<) vs" and set: "is_set is = set vs"
    by (rule is_invE)
  have room: "length vs + 1 < 2 ^ 28" using assms(2) rep_contents(2) [OF rep] by (simp add: is_room_def)
  have fin: ?thesis if "intsetAdd junk is x = Some (True, is')" "rep is' (take p vs @ x # drop p vs)"
    "ins_point vs x p" for is' p
    using that ins_point_absent [OF that(3)] is_invI [OF that(2) ins_point_sorted [OF st that(3)]]
      rep_set [OF that(2)] set_insert_at [of p vs x] set by simp
  show ?thesis
  proof (cases "intsetValueEncoding x > encoding is")
    case True
    obtain is' where up: "intsetUpgradeAndAdd junk is x = Some is'"
      and r: "rep is' (take (if x < 0 then 0 else length vs) vs @ x # drop (if x < 0 then 0 else length vs) vs)"
      using intsetUpgradeAndAdd_correct [OF rep room assms(3) True, of junk] by blast
    have "intsetAdd junk is x = Some (True, is')" using True up by (simp add: intsetAdd_def)
    then show ?thesis using r by (rule fin) (use out_of_range [OF rep assms(3) True] in simp)
  next
    case False
    then have le: "intsetValueEncoding x \<le> encoding is" by simp
    have f: "fits (encoding is) x"
      using intsetValueEncoding_fits [OF assms(3) rep_contents(3) [OF rep]] le by simp
    have "length vs < 2 ^ 31" using room by simp
    from rep st this show ?thesis
    proof (cases rule: intsetSearch_cases [of "is" vs x])
      case (found p)
      then have "x \<in> is_set is" unfolding set by auto
      moreover from found le have "intsetAdd junk is x = Some (False, is)" by (simp add: intsetAdd_def)
      ultimately show ?thesis using assms(1) by auto
    next
      case (absent p)
      then have "p \<le> length vs" by (simp add: ins_point_def)
      from intsetAdd_inplace [OF rep absent(1) this room f le, of junk] absent(2) fin show ?thesis by blast
    qed
  qed
qed

lemma intsetRemove_correct:
  assumes "is_inv is" "is_length is < 2 ^ 28" "fits 8 x"
  shows "\<exists>is'. intsetRemove junk is x = Some (x \<in> is_set is, is') \<and> is_inv is' \<and> is_set is' = is_set is - {x}"
proof -
  from assms(1) obtain vs where rep: "rep is vs" and st: "sorted_wrt (<) vs" and set: "is_set is = set vs"
    by (rule is_invE)
  have len: "length vs < 2 ^ 28" using assms(2) rep_contents(2) [OF rep] by simp
  show ?thesis
  proof (cases "intsetValueEncoding x \<le> encoding is")
    case True
    have "length vs < 2 ^ 31" using len by simp
    from rep st this show ?thesis
    proof (cases rule: intsetSearch_cases [of "is" vs x])
      case (found p)
      from intsetRemove_found [OF rep found(1,2) len True, of junk] obtain is' where
        r: "intsetRemove junk is x = Some (True, is')" "rep is' (take p vs @ drop (Suc p) vs)" by blast
      from r(1) found(2,3) is_invI [OF r(2) remove_at(1) [OF st found(2)]] rep_set [OF r(2)]
        remove_at(2) [OF st found(2)] set show ?thesis by auto
    next
      case (absent p)
      with ins_point_absent set True assms(1) show ?thesis by (auto simp: intsetRemove_def)
    qed
  next
    case False
    then have "\<not> fits (encoding is) x"
      using intsetValueEncoding_fits [OF assms(3) rep_contents(3) [OF rep]] by simp
    then have "x \<notin> is_set is" using rep set by (auto simp: rep_def)
    with False assms(1) show ?thesis by (simp add: intsetRemove_def)
  qed
qed

lemma intsetFind_mem:
  assumes "is_inv is" "is_length is < 2 ^ 28" "fits 8 x"
  shows "intsetFind is x = Some (x \<in> is_set is)"
proof -
  from assms(1) obtain vs where rep: "rep is vs" and st: "sorted_wrt (<) vs" and set: "is_set is = set vs"
    by (rule is_invE)
  have "length vs < 2 ^ 31" using assms(2) rep_contents(2) [OF rep] by simp
  from intsetFind_correct [OF rep st this assms(3)] set show ?thesis by simp
qed

lemma is_length_card: "is_inv is \<Longrightarrow> is_length is = card (is_set is)"
  by (erule is_invE) (metis distinct_card rep_contents(2) strict_sorted_iff)

lemma intsetNew_inv: "is_inv intsetNew" "is_set intsetNew = {}"
  by (simp_all add: is_inv_def is_set_def is_vals_def rep_def intsetNew_def intset_enc_defs)

lemma is_vals_sorted_list: "is_inv is \<Longrightarrow> is_vals is = sorted_list_of_set (is_set is)"
  unfolding is_set_def is_inv_def
  by (metis sorted_list_of_set.idem_if_sorted_distinct strict_sorted_iff)

lemma intsetGet_nth:
  assumes "is_inv is"
  shows "intsetGet is pos = Some (if pos < card (is_set is) then Some (sorted_list_of_set (is_set is) ! pos) else None)"
proof -
  from assms obtain vs where rep: "rep is vs" and set: "is_vals is = vs" by (rule is_invE)
  have "length vs = card (is_set is)" using is_length_card [OF assms] rep_contents(2) [OF rep] by simp
  with intsetGetAt_rep [OF rep] is_vals_sorted_list [OF assms] rep_contents(2) [OF rep] set
  show ?thesis by (simp add: intsetGet_def)
qed

section \<open>Properties\<close>

text \<open>A 16-bit encoded set with a negative, a small and a larger element.\<close>

definition ex_intset :: intset where
  "ex_intset = \<lparr>encoding = 2, is_length = 3, contents = enc_array 2 [-5, 1, 300]\<rparr>"

lemma rep_ex_intset: "rep ex_intset [-5, 1, 300]"
  by (simp add: rep_def ex_intset_def fits_def)

lemma ex_intset_inv: "is_inv ex_intset" "is_set ex_intset = {-5, 1, 300}" "is_length ex_intset = 3"
  using is_invI [OF rep_ex_intset] rep_set [OF rep_ex_intset] rep_contents(2) [OF rep_ex_intset] by simp_all

lemma ex_intset_fits: "fits 8 70000" "fits 8 1" "is_room ex_intset" "is_length ex_intset < 2 ^ 28"
  by (simp_all add: fits_def is_room_def ex_intset_inv)

text \<open>C2. \<^verbatim>\<open>intsetAdd\<close> never leaves the allocation and refines insertion into a set of integers:
  whether it moves the tail or first rewrites the whole array in a wider encoding, the result
  is a well-formed intset that holds exactly one more value, and \<^verbatim>\<open>*success\<close> says if it was new.\<close>

theorem intsetAdd_refines:
  assumes "is_inv is" "is_room is" "fits 8 x"
  shows "\<exists>is'. intsetAdd junk is x = Some (x \<notin> is_set is, is') \<and> is_inv is' \<and>
    is_set is' = insert x (is_set is)"
  using assms by (rule intsetAdd_correct)

theorem intsetAdd_refines_witness:
  "\<exists>is'. intsetAdd (\<lambda>_. 0) ex_intset 70000 = Some (True, is') \<and> is_inv is' \<and> is_set is' = {70000, -5, 1, 300}"
  using intsetAdd_refines [of ex_intset 70000 "\<lambda>_. 0"] ex_intset_inv ex_intset_fits by simp

text \<open>C28. \<^verbatim>\<open>intsetRemove\<close> never leaves the allocation and refines the removal of a value.\<close>

theorem intsetRemove_refines:
  assumes "is_inv is" "is_length is < 2 ^ 28" "fits 8 x"
  shows "\<exists>is'. intsetRemove junk is x = Some (x \<in> is_set is, is') \<and> is_inv is' \<and>
    is_set is' = is_set is - {x}"
  using assms by (rule intsetRemove_correct)

theorem intsetRemove_refines_witness:
  "\<exists>is'. intsetRemove (\<lambda>_. 0) ex_intset 1 = Some (True, is') \<and> is_inv is' \<and> is_set is' = {-5, 300}"
  using intsetRemove_refines [of ex_intset 1 "\<lambda>_. 0"] ex_intset_inv ex_intset_fits by (simp add: insert_Diff_if)

text \<open>The binary search of \<^verbatim>\<open>intsetSearch\<close> ends without reading outside the set: it reports
  a position that holds the value, or a position before which all values are smaller and from
  which on all are larger.\<close>

theorem intsetSearch_position:
  assumes "is_inv is" "is_length is < 2 ^ 31"
  shows "\<exists>found p. intsetSearch is x = Some (found, p) \<and> (found \<longleftrightarrow> x \<in> is_set is) \<and>
    (if found then p < is_length is \<and> is_vals is ! p = x else ins_point (is_vals is) x p)"
proof -
  from assms(1) obtain vs where rep: "rep is vs" and st: "sorted_wrt (<) vs" and set: "is_set is = set vs"
    and vs: "is_vals is = vs" by (rule is_invE)
  have l: "is_length is = length vs" using rep_contents(2) [OF rep] .
  with assms(2) have "length vs < 2 ^ 31" by simp
  from rep st this show ?thesis
  proof (cases rule: intsetSearch_cases [of "is" vs x])
    case (found p)
    then have "x \<in> is_set is" unfolding set by auto
    with found l vs show ?thesis by (intro exI [of _ True] exI [of _ p]) simp
  next
    case (absent p)
    then have "x \<notin> is_set is" unfolding set using ins_point_absent by blast
    with absent l vs show ?thesis by (intro exI [of _ False] exI [of _ p]) simp
  qed
qed

theorem intsetSearch_position_witness:
  "\<exists>found p. intsetSearch ex_intset 2 = Some (found, p) \<and> \<not> found \<and> ins_point [-5, 1, 300] 2 p"
  using intsetSearch_position [of ex_intset 2] ex_intset_inv rep_is_vals [OF rep_ex_intset] by auto

text \<open>\<^verbatim>\<open>intsetGet\<close> enumerates the set in increasing order and refuses every position past
  its end.\<close>

theorem intsetGet_enumerates:
  assumes "is_inv is"
  shows "intsetGet is pos =
    Some (if pos < card (is_set is) then Some (sorted_list_of_set (is_set is) ! pos) else None)"
  using assms by (rule intsetGet_nth)

theorem intsetGet_enumerates_witness: "is_inv ex_intset \<and> intsetGet ex_intset 3 = Some None"
  using intsetGet_enumerates [of ex_intset 3] ex_intset_inv by simp

end
