(* ===== verification/Numstr.thy ===== *)
theory Numstr
  imports Bytes
begin

text \<open>
  Integers as text: \<^verbatim>\<open>digits10\<close>, \<^verbatim>\<open>sdigits10\<close>, \<^verbatim>\<open>ll2string\<close>, \<^verbatim>\<open>string2ll\<close> and \<^verbatim>\<open>string2l\<close> of
  \<^verbatim>\<open>redis/src/util.c\<close>, \<^verbatim>\<open>sdsll2str\<close>, \<^verbatim>\<open>sdsull2str\<close> and \<^verbatim>\<open>sdsfromlonglong\<close> of \<^verbatim>\<open>sds.c\<close>.

  Strings are byte lists. The printing functions write into a caller's buffer, a byte list
  that they may not leave: \<^const>\<open>None\<close> is a write outside of it or a signed overflow.
  The parsing functions read no byte but those of the string, and \<^const>\<open>None\<close> is their failure
  code. \<^verbatim>\<open>long long\<close> values are integers, \<^verbatim>\<open>unsigned long long\<close> values 64-bit words.
\<close>

section \<open>Model\<close>

definition put :: "byte list \<Rightarrow> nat \<Rightarrow> byte \<Rightarrow> byte list option" where
  "put buf i c = (if i < length buf then Some (buf[i := c]) else None)"

definition LLONG_MIN :: int where "LLONG_MIN = - (2 ^ 63)"
definition LLONG_MAX :: int where "LLONG_MAX = 2 ^ 63 - 1"
definition ULLONG_MAX :: ulong where "ULLONG_MAX = - 1"

subsection \<open>Counting digits\<close>

function digits10 :: "ulong \<Rightarrow> nat" where
  "digits10 v =
     (if v < 10 then 1
      else if v < 100 then 2
      else if v < 1000 then 3
      else if v < 1000000000000 then
        (if v < 100000000 then
           (if v < 1000000 then
              (if v < 10000 then 4
               else 5 + (if v \<ge> 100000 then 1 else 0))
            else 7 + (if v \<ge> 10000000 then 1 else 0))
         else if v < 10000000000 then 9 + (if v \<ge> 1000000000 then 1 else 0)
         else 11 + (if v \<ge> 100000000000 then 1 else 0))
      else 12 + digits10 (v div 1000000000000))"
  by auto
termination
proof (relation "measure unat")
  fix v :: ulong assume "\<not> v < 1000000000000"
  then have "1000000000000 \<le> unat v" by (simp add: word_less_nat_alt)
  then show "(v div 1000000000000, v) \<in> measure unat"
    by (simp add: unat_div)
qed simp

declare digits10.simps [simp del]

text \<open>The magnitude of a signed value, with the minimum treated apart.\<close>

definition magnitude :: "int \<Rightarrow> ulong" where
  "magnitude v = (if v < 0 then (if v \<noteq> LLONG_MIN then word_of_int (- v) else word_of_int LLONG_MAX + 1)
                  else word_of_int v)"

definition sdigits10 :: "int \<Rightarrow> nat" where
  "sdigits10 v = (if v < 0 then digits10 (magnitude v) + 1 else digits10 (magnitude v))"

subsection \<open>Printing two digits at a time\<close>

definition digits :: "byte list" where
  "digits = map of_char (
     ''0001020304050607080910111213141516171819'' @
     ''2021222324252627282930313233343536373839'' @
     ''4041424344454647484950515253545556575859'' @
     ''6061626364656667686970717273747576777879'' @
     ''8081828384858687888990919293949596979899'')"

function ll2string_loop :: "uint \<Rightarrow> ulong \<Rightarrow> byte list \<Rightarrow> (uint \<times> ulong \<times> byte list) option" where
  "ll2string_loop nxt v dst =
     (if v \<ge> 100 then
        let i = unat (v mod 100) * 2; v' = v div 100 in
        do {
          dst \<leftarrow> put dst (unat nxt) (digits ! (i + 1));
          dst \<leftarrow> put dst (unat (nxt - 1)) (digits ! i);
          ll2string_loop (nxt - 2) v' dst
        }
      else Some (nxt, v, dst))"
  by auto
termination
  by (relation "measure (\<lambda>(nxt, v, dst). unat v)") (auto simp: unat_div word_le_nat_alt)

declare ll2string_loop.simps [simp del]

text \<open>The length, 0 when the buffer is too small, and the buffer.\<close>

definition ll2string :: "byte list \<Rightarrow> int \<Rightarrow> (nat \<times> byte list) option" where
  "ll2string dst svalue =
     (let value = magnitude svalue;
          negative = (svalue < 0);
          len = digits10 value + (if negative then 1 else 0)
      in if len \<ge> length dst then Some (0, dst)
         else do {
           let nxt = (of_nat len :: uint);
           dst \<leftarrow> put dst (unat nxt) 0;
           (nxt, value, dst) \<leftarrow> ll2string_loop (nxt - 1) value dst;
           dst \<leftarrow> (if value < 10 then put dst (unat nxt) (chr CHR ''0'' + ucast value)
                   else do {
                     let i = unat value * 2;
                     dst \<leftarrow> put dst (unat nxt) (digits ! (i + 1));
                     put dst (unat (nxt - 1)) (digits ! i)
                   });
           dst \<leftarrow> (if negative then put dst 0 (chr CHR ''-'') else Some dst);
           Some (len, dst)
         })"

subsection \<open>Printing backwards and reversing\<close>

text \<open>The \<^verbatim>\<open>do ... while(v)\<close> loop from position \<open>p\<close> on.\<close>

function ll2str_digits :: "nat \<Rightarrow> ulong \<Rightarrow> byte list \<Rightarrow> (nat \<times> byte list) option" where
  "ll2str_digits p v s = do {
     s \<leftarrow> put s p (chr CHR ''0'' + ucast (v mod 10));
     if v div 10 \<noteq> 0 then ll2str_digits (p + 1) (v div 10) s else Some (p + 1, s)
   }"
  by auto
termination
proof (relation "measure (\<lambda>(p, v, s). unat v)", goal_cases)
  case (2 p v s s')
  then have "unat v \<noteq> 0" by (auto simp: unat_eq_0)
  then show ?case by (simp add: unat_div)
qed simp

declare ll2str_digits.simps [simp del]

text \<open>The swapping loop between the positions \<open>l\<close> and \<open>r\<close>.\<close>

function reverse_loop :: "nat \<Rightarrow> nat \<Rightarrow> byte list \<Rightarrow> byte list option" where
  "reverse_loop l r s =
     (if l < r then do {
        s1 \<leftarrow> (if r < length s then put s l (s ! r) else None);
        s2 \<leftarrow> put s1 r (s ! l);
        reverse_loop (l + 1) (r - 1) s2
      }
      else Some s)"
  by auto
termination by (relation "measure (\<lambda>(l, r, s). r)") auto

declare reverse_loop.simps [simp del]

definition sdsll2str :: "byte list \<Rightarrow> int \<Rightarrow> (nat \<times> byte list) option" where
  "sdsll2str s value =
     (if value = LLONG_MIN then None \<comment> \<open>\<^verbatim>\<open>-value\<close> overflows\<close>
      else do {
        let v = (word_of_int (if value < 0 then - value else value) :: ulong);
        (p, s) \<leftarrow> ll2str_digits 0 v s;
        (p, s) \<leftarrow> (if value < 0 then map_option (\<lambda>s. (p + 1, s)) (put s p (chr CHR ''-'')) else Some (p, s));
        s \<leftarrow> put s p 0;
        s \<leftarrow> reverse_loop 0 (p - 1) s;
        Some (p, s)
      })"

definition sdsull2str :: "byte list \<Rightarrow> ulong \<Rightarrow> (nat \<times> byte list) option" where
  "sdsull2str s v = do {
     (p, s) \<leftarrow> ll2str_digits 0 v s;
     s \<leftarrow> put s p 0;
     s \<leftarrow> reverse_loop 0 (p - 1) s;
     Some (p, s)
   }"

definition SDS_LLSTR_SIZE :: nat where "SDS_LLSTR_SIZE = 21"

text \<open>The local buffer starts with arbitrary bytes; \<^verbatim>\<open>sdsnewlen\<close> copies the first \<open>len\<close> of them.\<close>

definition sdsfromlonglong :: "(nat \<Rightarrow> byte) \<Rightarrow> int \<Rightarrow> byte list option" where
  "sdsfromlonglong junk value = do {
     (len, buf) \<leftarrow> sdsll2str (map junk [0..<SDS_LLSTR_SIZE]) value;
     Some (take len buf)
   }"

subsection \<open>Parsing\<close>

fun string2ll_loop :: "byte list \<Rightarrow> ulong \<Rightarrow> (byte list \<times> ulong) option" where
  "string2ll_loop [] v = Some ([], v)"
| "string2ll_loop (c # p) v =
     (if c \<ge> chr CHR ''0'' \<and> c \<le> chr CHR ''9'' then
        (if v > ULLONG_MAX div 10 then None
         else let v = v * 10 in
           if v > ULLONG_MAX - ucast (c - chr CHR ''0'') then None
           else string2ll_loop p (v + ucast (c - chr CHR ''0'')))
      else Some (c # p, v))"

definition string2ll :: "byte list \<Rightarrow> int option" where
  "string2ll s =
     (case s of
        [] \<Rightarrow> None
      | p0 # rest \<Rightarrow>
          if length s = 1 \<and> p0 = chr CHR ''0'' then Some 0
          else
            let negative = (p0 = chr CHR ''-'');
                p = (if negative then rest else s)
            in case p of
                 [] \<Rightarrow> None
               | c # p \<Rightarrow>
                   if c \<ge> chr CHR ''1'' \<and> c \<le> chr CHR ''9'' then do {
                     (left, v) \<leftarrow> string2ll_loop p (ucast (c - chr CHR ''0''));
                     if left \<noteq> [] then None
                     else if negative then
                       (if v > word_of_int (- (LLONG_MIN + 1)) + 1 then None else Some (sint (- v)))
                     else if v > word_of_int LLONG_MAX then None
                     else Some (sint v)
                   }
                   else None)"

text \<open>\<^verbatim>\<open>long\<close> is as wide as \<^verbatim>\<open>long long\<close>.\<close>

definition string2l :: "byte list \<Rightarrow> int option" where
  "string2l s = do {
     llval \<leftarrow> string2ll s;
     if llval < LLONG_MIN \<or> llval > LLONG_MAX then None else Some llval
   }"

definition isSdsRepresentableAsLongLong :: "byte list \<Rightarrow> int option" where
  "isSdsRepresentableAsLongLong s = string2ll s"

end
