(* ===== verification/Numstr_Correct.thy ===== *)
theory Numstr_Correct
  imports Numstr
begin

text \<open>
  Correctness of the conversions between integers and text: the printers write the canonical
  decimal representation (\<open>int_str\<close>) into their buffer and nothing outside of it, the digit
  counters predict its length, and the parser accepts exactly the canonical representations
  of 64-bit integers.
\<close>

section \<open>Decimal text\<close>

definition dig :: "nat \<Rightarrow> byte" where
  "dig d = chr CHR ''0'' + of_nat d"

fun dec :: "nat \<Rightarrow> byte list" where
  "dec n = (if n < 10 then [dig n] else dec (n div 10) @ [dig (n mod 10)])"

declare dec.simps [simp del]

definition int_str :: "int \<Rightarrow> byte list" where
  "int_str v = (if v < 0 then chr CHR ''-'' # dec (nat (- v)) else dec (nat v))"

lemma dec_small: "n < 10 \<Longrightarrow> dec n = [dig n]"
  by (simp add: dec.simps)

lemma dec_snoc: "0 < n \<Longrightarrow> d < 10 \<Longrightarrow> dec (10 * n + d) = dec n @ [dig d]"
  by (subst dec.simps) simp

lemma dec_step: "10 \<le> n \<Longrightarrow> dec n = dec (n div 10) @ [dig (n mod 10)]"
  by (subst dec.simps) simp

lemma dec_nonempty [simp]: "dec n \<noteq> []"
  by (subst dec.simps) simp

lemma unat_dig: "d < 10 \<Longrightarrow> unat (dig d) = 48 + d"
  by (simp add: dig_def unat_word_ariths unat_of_nat)

lemma dig_range: "d < 10 \<Longrightarrow> chr CHR ''0'' \<le> dig d \<and> dig d \<le> chr CHR ''9''"
  by (simp add: word_le_nat_alt unat_dig)

lemma dig_of_byte:
  assumes "chr CHR ''0'' \<le> c" "c \<le> chr CHR ''9''"
  obtains d where "d < 10" "c = dig d"
proof
  show "unat c - 48 < 10" using assms by (simp add: word_le_nat_alt)
  then have "unat c = unat (dig (unat c - 48))"
    using assms by (simp add: unat_dig word_le_nat_alt)
  then show "c = dig (unat c - 48)" by (simp only: word_unat_eq_iff)
qed

lemma dig_value: "d < 10 \<Longrightarrow> (ucast (dig d - chr CHR ''0'') :: ulong) = of_nat d"
  by (simp add: dig_def word_unat_eq_iff unat_of_nat unsigned_ucast_eq take_bit_nat_def)

lemma dec_digits: "c \<in> set (dec n) \<Longrightarrow> \<exists>d < 10. c = dig d"
proof (induction n rule: dec.induct)
  case (1 n)
  show ?case
  proof (cases "n < 10")
    case True
    with "1.prems" show ?thesis by (auto simp: dec_small)
  next
    case False
    with "1.prems" have "c \<in> set (dec (n div 10)) \<or> c = dig (n mod 10)" by (auto simp: dec_step)
    moreover have "n mod 10 < 10" by simp
    ultimately show ?thesis using "1.IH" False by blast
  qed
qed

text \<open>Reading the text back.\<close>

definition dval :: "byte list \<Rightarrow> nat" where
  "dval = foldl (\<lambda>a c. 10 * a + (unat c - 48)) 0"

lemma dval_snoc [simp]: "dval (ds @ [c]) = 10 * dval ds + (unat c - 48)"
  by (simp add: dval_def)

lemma dval_dec [simp]: "dval (dec n) = n"
proof (induction n rule: dec.induct)
  case (1 n)
  then show ?case
    by (cases "n < 10") (simp_all add: dec_small dec_step unat_dig dval_def)
qed

lemma dec_inject [simp]: "dec a = dec b \<longleftrightarrow> a = b"
  by (metis dval_dec)

lemma dec_prefix_le:
  assumes "dec b = dec a @ q"
  shows "a \<le> b"
  using assms
proof (induction q arbitrary: b rule: rev_induct)
  case Nil
  then show ?case by simp
next
  case (snoc x q)
  have "\<not> b < 10"
  proof
    assume "b < 10"
    with snoc.prems have "length (dec a @ q @ [x]) = 1" by (metis dec_small length_Cons list.size(3) One_nat_def)
    then show False by simp
  qed
  with snoc.prems have "dec (b div 10) = dec a @ q" by (simp add: dec_step)
  from snoc.IH [OF this] show ?case by linarith
qed

lemma dec_length_le: "0 < k \<Longrightarrow> length (dec n) \<le> k \<longleftrightarrow> n < 10 ^ k"
proof (induction k arbitrary: n)
  case (Suc k)
  show ?case
  proof (cases "n < 10")
    case True
    then have "n < 10 ^ Suc k" by (simp add: less_le_trans [of n 10])
    with True show ?thesis by (simp add: dec_small)
  next
    case False
    then have l: "length (dec n) = Suc (length (dec (n div 10)))" by (simp add: dec_step)
    show ?thesis
    proof (cases "k = 0")
      case True
      with False l show ?thesis by simp
    next
      case k: False
      have "n div 10 < 10 ^ k \<longleftrightarrow> n < 10 ^ Suc k"
        by (simp add: div_less_iff_less_mult mult.commute)
      with Suc.IH [of "n div 10"] k l show ?thesis by simp
    qed
  qed
qed simp

lemma dec_length: "10 ^ k \<le> n \<Longrightarrow> n < 10 ^ Suc k \<Longrightarrow> length (dec n) = Suc k"
  using dec_length_le [of "Suc k" n] dec_length_le [of k n]
  by (cases "k = 0") (auto simp: dec_small le_Suc_eq)

lemma dec_length_div: "10 ^ j \<le> n \<Longrightarrow> length (dec n) = j + length (dec (n div 10 ^ j))"
proof (induction j arbitrary: n)
  case (Suc j)
  then have "10 \<le> n" by (metis le_trans one_le_numeral power_increasing power_one_right zero_less_Suc Suc_leI One_nat_def)
  moreover have "10 ^ j \<le> n div 10" using Suc.prems by (simp add: less_eq_div_iff_mult_less_eq mult.commute)
  ultimately show ?case using Suc.IH [of "n div 10"] by (simp add: dec_step div_mult2_eq)
qed simp


section \<open>Counting and printing\<close>

lemma digits10_dec: "digits10 v = length (dec (unat v))"
proof (induction v rule: digits10.induct)
  case (1 v)
  let ?n = "unat v"
  have le: "\<And>k. 10 ^ k \<le> ?n \<Longrightarrow> ?n < 10 ^ Suc k \<Longrightarrow> length (dec ?n) = Suc k" by (rule dec_length)
  note k = le [of 0] le [of 1] le [of 2] le [of 3] le [of 4] le [of 5] le [of 6] le [of 7]
    le [of 8] le [of 9] le [of 10] le [of 11]
  show ?case
  proof (cases "v < 1000000000000")
    case True
    have one: "?n < 10 \<Longrightarrow> length (dec ?n) = 1" by (simp add: dec_small)
    from True one k show ?thesis
      by (subst digits10.simps) (simp add: word_less_nat_alt word_le_nat_alt)
  next
    case False
    then have big: "1000000000000 \<le> ?n" by (simp add: word_less_nat_alt)
    have "length (dec ?n) = 12 + length (dec (?n div 10 ^ 12))"
      using big by (intro dec_length_div) simp
    moreover have "digits10 v = 12 + digits10 (v div 1000000000000)"
      using big by (subst digits10.simps) (simp add: word_less_nat_alt)
    moreover have "digits10 (v div 1000000000000) = length (dec (?n div 10 ^ 12))"
      using "1.IH" big by (simp add: word_less_nat_alt unat_div)
    ultimately show ?thesis by simp
  qed
qed

lemma unat_magnitude:
  assumes "fits 8 v"
  shows "unat (magnitude v) = nat \<bar>v\<bar>"
proof -
  have r: "- (2 ^ 63) \<le> v" "v < 2 ^ 63" using assms by (simp_all add: fits_def)
  have "magnitude v = word_of_int \<bar>v\<bar>"
    by (auto simp: magnitude_def LLONG_MIN_def LLONG_MAX_def)
  moreover have "uint (word_of_int \<bar>v\<bar> :: ulong) = \<bar>v\<bar>"
    using r by (simp add: uint_word_of_int)
  ultimately show ?thesis by (simp add: unat_eq_nat_uint)
qed

lemma sdigits10_int_str: "fits 8 v \<Longrightarrow> sdigits10 v = length (int_str v)"
  by (simp add: sdigits10_def digits10_dec unat_magnitude int_str_def)

lemma put_Some: "i < length buf \<Longrightarrow> put buf i c = Some (buf[i := c])"
  by (simp add: put_def)

lemma pairs_nth:
  "i < n \<Longrightarrow> concat (map (\<lambda>i. [f i, g i]) [0..<n]) ! (2 * i) = f i"
  "i < n \<Longrightarrow> concat (map (\<lambda>i. [f i, g i]) [0..<n]) ! Suc (2 * i) = g i"
proof (induction n)
  case (Suc n)
  have len: "length (concat (map (\<lambda>i. [f i, g i]) [0..<n])) = 2 * n" by (induction n) auto
  case 1
  then show ?case using Suc.IH(1) len by (cases "i = n") (auto simp: nth_append)
  case 2
  then show ?case using Suc.IH(2) len by (cases "i = n") (auto simp: nth_append)
qed simp_all

lemma digits_pairs: "digits = concat (map (\<lambda>i. [dig (i div 10), dig (i mod 10)]) [0..<100])"
  by (simp add: digits_def dig_def upt_rec [of 0] upt_rec [of "Suc 0"] upt_rec_numeral flip: numeral_2_eq_2)

lemma digits_nth:
  assumes "i < 100"
  shows "digits ! (i * 2) = dig (i div 10)" "digits ! (i * 2 + 1) = dig (i mod 10)"
  using pairs_nth [OF assms, of "\<lambda>i. dig (i div 10)" "\<lambda>i. dig (i mod 10)"]
  by (simp_all add: digits_pairs mult.commute)

lemma dec_100:
  assumes "100 \<le> n"
  shows "dec n = dec (n div 100) @ [dig (n mod 100 div 10), dig (n mod 100 mod 10)]"
proof -
  have "dec n = dec (n div 10 div 10) @ [dig (n div 10 mod 10), dig (n mod 10)]"
    using assms by (subst dec_step; simp) (subst dec_step; simp)
  moreover have "n mod 100 = 10 * (n div 10 mod 10) + n mod 10"
    using mod_mult2_eq [of n 10 10] by simp
  moreover have "n div 100 = n div 10 div 10"
    using div_mult2_eq [of n 10 10] by simp
  ultimately show ?thesis by simp
qed

lemma two_puts:
  assumes "Suc k < length dst"
  shows "put dst (Suc k) b = Some (dst[Suc k := b])" "put (dst[Suc k := b]) k a = Some (take k dst @ [a, b] @ drop (k + 2) dst)"
proof -
  have "dst = take k dst @ dst ! k # dst ! Suc k # drop (k + 2) dst"
    using assms by (metis Cons_nth_drop_Suc Suc_lessD add_2_eq_Suc' append_take_drop_id)
  then have "dst[Suc k := b, k := a] = (take k dst @ dst ! k # dst ! Suc k # drop (k + 2) dst)[Suc k := b, k := a]"
    by simp
  also have "\<dots> = take k dst @ [a, b] @ drop (k + 2) dst"
    using assms by (simp add: list_update_append)
  finally show "put dst (Suc k) b = Some (dst[Suc k := b])" "put (dst[Suc k := b]) k a = Some (take k dst @ [a, b] @ drop (k + 2) dst)"
    using assms by (simp_all add: put_def)
qed

lemma ll2string_loop_Some:
  assumes "length (dec (unat v)) \<le> Suc (unat nxt)" "unat nxt < length dst"
  shows "\<exists>nxt' v' suf. ll2string_loop nxt v dst = Some (nxt', v', take (Suc (unat nxt')) dst @ suf @ drop (Suc (unat nxt)) dst) \<and>
    unat v' < 100 \<and> dec (unat v) = dec (unat v') @ suf \<and> unat nxt = unat nxt' + length suf"
  using assms
proof (induction nxt v dst rule: ll2string_loop.induct)
  case (1 nxt v dst)
  show ?case
  proof (cases "v \<ge> 100")
    case False
    then have "unat v < 100" by (simp add: word_le_nat_alt)
    with False show ?thesis
      by (intro exI [of _ nxt] exI [of _ v] exI [of _ "[]"]) (simp add: ll2string_loop.simps [of nxt v dst])
  next
    case True
    let ?m = "unat v mod 100"
    have big: "100 \<le> unat v" using True by (simp add: word_le_nat_alt)
    note d100 = dec_100 [OF big]
    have l0: "1 \<le> length (dec (unat v div 100))" by (simp add: Suc_leI)
    have "length (dec (unat v div 100)) + 2 \<le> Suc (unat nxt)" using "1.prems"(1) unfolding d100 by simp
    with l0 have n2: "2 \<le> unat nxt" by linarith
    then obtain k where k: "unat nxt = Suc (Suc k)" by (metis add_2_eq_Suc le_Suc_ex)
    have k1: "unat (nxt - 1) = Suc k" and k2: "unat (nxt - 2) = k"
      using k n2 by (simp_all add: unat_sub word_le_nat_alt)
    have i: "unat (v mod 100) * 2 = ?m * 2" by (simp add: unat_mod)
    have m: "?m < 100" by simp
    note dg = digits_nth [OF m]
    let ?dst = "take (Suc k) dst @ [dig (?m div 10), dig (?m mod 10)] @ drop (Suc k + 2) dst"
    have p: "put dst (unat nxt) (dig (?m mod 10)) = Some (dst[Suc (Suc k) := dig (?m mod 10)])"
      "put (dst[Suc (Suc k) := dig (?m mod 10)]) (unat (nxt - 1)) (dig (?m div 10)) = Some ?dst"
      using two_puts [of "Suc k" dst] "1.prems"(2) k k1 by simp_all
    have ih: "\<exists>nxt' v' suf. ll2string_loop (nxt - 2) (v div 100) ?dst =
        Some (nxt', v', take (Suc (unat nxt')) ?dst @ suf @ drop (Suc (unat (nxt - 2))) ?dst) \<and>
      unat v' < 100 \<and> dec (unat (v div 100)) = dec (unat v') @ suf \<and> unat (nxt - 2) = unat nxt' + length suf"
      using True p i dg "1.prems" k k2 d100 by (intro "1.IH") (auto simp: unat_div)
    then obtain nxt' v' suf where r: "ll2string_loop (nxt - 2) (v div 100) ?dst =
        Some (nxt', v', take (Suc (unat nxt')) ?dst @ suf @ drop (Suc (unat (nxt - 2))) ?dst)"
      "unat v' < 100" "dec (unat (v div 100)) = dec (unat v') @ suf" "unat (nxt - 2) = unat nxt' + length suf"
      by blast
    let ?suf = "suf @ [dig (?m div 10), dig (?m mod 10)]"
    have run: "ll2string_loop nxt v dst = ll2string_loop (nxt - 2) (v div 100) ?dst"
      using True p i dg by (subst ll2string_loop.simps) (simp add: Let_def)
    have tk: "take (Suc (unat nxt')) ?dst = take (Suc (unat nxt')) dst"
      using r(4) k2 "1.prems"(2) k by (simp add: min_def)
    have dr: "drop (Suc (unat (nxt - 2))) ?dst = [dig (?m div 10), dig (?m mod 10)] @ drop (Suc (unat nxt)) dst"
      using k k2 "1.prems"(2) by simp
    show ?thesis
      using run r tk dr k k2 d100 by (intro exI [of _ nxt'] exI [of _ v'] exI [of _ ?suf]) (simp add: unat_div)
  qed
qed

lemma ll2string_dec:
  assumes "length (dec (unat v)) + z < length dst" "length dst < 2 ^ 32"
  defines "len \<equiv> length (dec (unat v)) + z"
  shows "\<exists>nxt' v' suf. ll2string_loop (of_nat len - 1) v (dst[len := 0]) = Some (nxt', v', take (Suc (unat nxt')) dst @ suf @ 0 # drop (Suc len) dst) \<and>
    unat v' < 100 \<and> dec (unat v) = dec (unat v') @ suf \<and> unat nxt' = z + length (dec (unat v')) - 1 \<and> unat nxt' < len"
proof -
  let ?nxt = "of_nat len - 1 :: uint"
  have len0: "0 < len" "len < length dst" "len < 2 ^ 32" using assms by simp_all
  then have nxt: "Suc (unat ?nxt) = len"
    by (simp add: unat_sub word_le_nat_alt unat_of_nat)
  then have "unat ?nxt = len - 1" by simp
  have p: "length (dec (unat v)) \<le> Suc (unat ?nxt)" "unat ?nxt < length (dst[len := 0])"
    unfolding nxt using nxt len0(2) by (simp_all add: len_def)
  obtain nxt' v' suf where r: "ll2string_loop ?nxt v (dst[len := 0]) =
      Some (nxt', v', take (Suc (unat nxt')) (dst[len := 0]) @ suf @ drop (Suc (unat ?nxt)) (dst[len := 0]))"
    "unat v' < 100" "dec (unat v) = dec (unat v') @ suf" "unat ?nxt = unat nxt' + length suf"
    using ll2string_loop_Some [OF p] by blast
  have "drop (Suc (unat ?nxt)) (dst[len := 0]) = 0 # drop (Suc len) dst"
    unfolding nxt using len0(2) by (simp add: drop_update_swap Cons_nth_drop_Suc [symmetric])
  moreover have "take (Suc (unat nxt')) (dst[len := 0]) = take (Suc (unat nxt')) dst"
    using nxt r(4) by (intro take_update_cancel) simp
  moreover have "length (dec (unat v)) = length (dec (unat v')) + length suf" using r(3) by simp
  then have "unat nxt' = z + length (dec (unat v')) - 1" using nxt r(4) unfolding len_def by linarith
  moreover have "unat nxt' < len" using nxt r(4) by linarith
  ultimately show ?thesis using r by (intro exI [of _ nxt'] exI [of _ v'] exI [of _ suf]) simp
qed

lemma last_digits:
  fixes v :: ulong and nxt :: uint
  assumes "unat v < 100" "unat nxt = z + length (dec (unat v)) - 1" "unat nxt < length dst"
  shows "(if v < 10 then put dst (unat nxt) (chr CHR ''0'' + ucast v)
    else do { dst \<leftarrow> put dst (unat nxt) (digits ! (unat v * 2 + 1)); put dst (unat (nxt - 1)) (digits ! (unat v * 2)) }) =
    Some (take z dst @ dec (unat v) @ drop (Suc (unat nxt)) dst)"
proof (cases "v < 10")
  case True
  then have s: "unat v < 10" by (simp add: word_less_nat_alt)
  have "(ucast v :: byte) = of_nat (unat v)" by simp
  then have "chr CHR ''0'' + ucast v = dig (unat v)" unfolding dig_def by (simp only:)
  with True s assms show ?thesis by (simp add: put_def dec_small upd_conv_take_nth_drop)
next
  case False
  then have s: "10 \<le> unat v" by (simp add: word_less_nat_alt)
  have d: "dec (unat v) = [dig (unat v div 10), dig (unat v mod 10)]"
    using s assms(1) by (simp add: dec_step dec_small)
  have n: "unat nxt = Suc z" using assms(2) d by simp
  then have n1: "unat (nxt - 1) = z" by (simp add: unat_sub word_le_nat_alt)
  show ?thesis
    using False digits_nth [OF assms(1)] two_puts [of z dst] assms(3) n n1 d by simp
qed

lemma ll2string_text:
  assumes v: "fits 8 v" and len: "length dst < 2 ^ 32"
  shows "ll2string dst v = Some (if length (int_str v) < length dst
    then (length (int_str v), int_str v @ 0 # drop (Suc (length (int_str v))) dst) else (0, dst))"
proof -
  define z where "z = (if v < 0 then 1 else 0 :: nat)"
  define L where "L = digits10 (magnitude v) + z"
  have L: "L = length (int_str v)" "L = length (dec (unat (magnitude v))) + z"
    using unat_magnitude [OF v] by (auto simp: L_def z_def digits10_dec int_str_def)
  show ?thesis
  proof (cases "L < length dst")
    case False
    then have "ll2string dst v = Some (0, dst)"
      by (simp add: ll2string_def Let_def L_def z_def split: if_splits)
    with False L show ?thesis by simp
  next
    case True
    obtain nxt' v' suf where r: "ll2string_loop (of_nat L - 1) (magnitude v) (dst[L := 0]) =
        Some (nxt', v', take (Suc (unat nxt')) dst @ suf @ 0 # drop (Suc L) dst)"
      "unat v' < 100" "dec (unat (magnitude v)) = dec (unat v') @ suf" "unat nxt' = z + length (dec (unat v')) - 1" "unat nxt' < L"
      using ll2string_dec [of "magnitude v" z dst] True len unfolding L(2) by blast
    let ?d = "take (Suc (unat nxt')) dst @ suf @ 0 # drop (Suc L) dst"
    have lst: "(if v' < 10 then put ?d (unat nxt') (chr CHR ''0'' + ucast v')
      else do { dst \<leftarrow> put ?d (unat nxt') (digits ! (unat v' * 2 + 1)); put dst (unat (nxt' - 1)) (digits ! (unat v' * 2)) }) =
      Some (take z ?d @ dec (unat v') @ drop (Suc (unat nxt')) ?d)"
      using r(2,4,5) True by (intro last_digits) simp_all
    have eq: "take z ?d @ dec (unat v') @ drop (Suc (unat nxt')) ?d = take z dst @ dec (unat (magnitude v)) @ 0 # drop (Suc L) dst"
    proof -
      have "z \<le> Suc (unat nxt')" using r(4) by (simp add: z_def)
      then show ?thesis using r(3,5) True by (simp add: min_def)
    qed
    have of: "unat (of_nat L :: uint) = L" using True len by (simp add: unat_of_nat)
    have sgn: "(if v < 0 then put (take z dst @ dec (unat (magnitude v)) @ 0 # drop (Suc L) dst) 0 (chr CHR ''-'')
      else Some (take z dst @ dec (unat (magnitude v)) @ 0 # drop (Suc L) dst)) = Some (int_str v @ 0 # drop (Suc L) dst)"
      using True unat_magnitude [OF v] by (cases dst) (auto simp: z_def put_def int_str_def)
    have "ll2string dst v = Some (L, int_str v @ 0 # drop (Suc L) dst)"
      using True r(1) lst eq of sgn
      unfolding ll2string_def Let_def z_def [symmetric] L_def [symmetric]
      by (simp add: put_def [of dst] split del: if_split)
    with True L show ?thesis by simp
  qed
qed

section \<open>Printing backwards\<close>

lemma reverse_loop_rev:
  "reverse_loop (length xs) (length xs + length m - 1) (xs @ m @ zs) = Some (xs @ rev m @ zs)"
proof (induction m arbitrary: xs zs rule: length_induct)
  case (1 m)
  consider "m = []" | a where "m = [a]" | a m' b where "m = a # m' @ [b]"
    by (metis append_butlast_last_id list.exhaust)
  then show ?case
  proof cases
    case 1
    have "\<not> length xs < length xs - 1" by simp
    with 1 show ?thesis by (simp add: reverse_loop.simps)
  next
    case 2
    then show ?thesis by (simp add: reverse_loop.simps)
  next
    case 3
    let ?l = "length xs" and ?r = "length xs + length m - 1"
    have r: "?r = Suc (?l + length m')" using 3 by simp
    have nth: "(xs @ m @ zs) ! ?r = b" "(xs @ m @ zs) ! ?l = a"
      using 3 r by (simp_all add: nth_append)
    have "(xs @ m @ zs)[?l := b] = xs @ (b # m' @ [b]) @ zs" using 3 by simp
    moreover have "(xs @ (b # m' @ [b]) @ zs)[?r := a] = (xs @ [b]) @ m' @ a # zs"
      unfolding r by (simp add: list_update_append)
    ultimately have "reverse_loop ?l ?r (xs @ m @ zs) = reverse_loop (?l + 1) (?r - 1) ((xs @ [b]) @ m' @ a # zs)"
      using r nth 3 by (subst reverse_loop.simps) (simp add: put_def)
    also have "\<dots> = Some ((xs @ [b]) @ rev m' @ a # zs)"
      using 1 [rule_format, of m' "xs @ [b]" "a # zs"] 3 r by simp
    finally show ?thesis using 3 by simp
  qed
qed

lemma digit_char: "chr CHR ''0'' + ucast ((v :: ulong) mod 10) = dig (unat v mod 10)"
proof -
  have "(of_nat (unat (v mod 10)) :: byte) = ucast (v mod 10)" by simp
  then show ?thesis unfolding unat_mod dig_def by simp
qed

lemma ll2str_digits_rev:
  assumes "p + length (dec (unat v)) \<le> length s"
  shows "ll2str_digits p v s = Some (p + length (dec (unat v)),
    take p s @ rev (dec (unat v)) @ drop (p + length (dec (unat v))) s)"
  using assms
proof (induction p v s rule: ll2str_digits.induct)
  case (1 p v s)
  let ?c = "dig (unat v mod 10)"
  have "1 \<le> length (dec (unat v))" by (simp add: Suc_leI)
  with "1.prems" have p: "p < length s" by linarith
  then have pt: "put s p (chr CHR ''0'' + ucast (v mod 10)) = Some (s[p := ?c])"
    unfolding digit_char by (simp add: put_def)
  show ?case
  proof (cases "v div 10 = 0")
    case True
    then have "unat (v div 10) = 0" by simp
    then have "unat v < 10" by (simp add: unat_div)
    with True pt p show ?thesis
      by (subst ll2str_digits.simps) (simp add: dec_small upd_conv_take_nth_drop)
  next
    case False
    then have "unat (v div 10) \<noteq> 0" by (simp add: unat_eq_0)
    then have big: "10 \<le> unat v" by (simp add: unat_div)
    have d: "dec (unat v) = dec (unat (v div 10)) @ [?c]" using dec_step [OF big] by (simp add: unat_div)
    have "ll2str_digits (p + 1) (v div 10) (s[p := ?c]) = Some (p + 1 + length (dec (unat (v div 10))),
        take (p + 1) (s[p := ?c]) @ rev (dec (unat (v div 10))) @ drop (p + 1 + length (dec (unat (v div 10)))) (s[p := ?c]))"
      using pt False "1.prems" d by (intro "1.IH") simp_all
    moreover have "take (p + 1) (s[p := ?c]) = take p s @ [?c]" using p by (simp add: take_Suc_conv_app_nth)
    ultimately show ?thesis using pt False d by (subst ll2str_digits.simps) simp
  qed
qed

lemma dec_length_64: "length (dec (unat (v :: ulong))) \<le> 20"
proof -
  have "unat v < 2 ^ 64" by (rule unat_lt_64)
  then show ?thesis by (subst dec_length_le) simp_all
qed

lemma int_str_length: "fits 8 v \<Longrightarrow> length (int_str v) \<le> 20"
proof -
  assume "fits 8 v"
  then have "\<bar>v\<bar> \<le> 2 ^ 63" by (auto simp: fits_def)
  then have "nat \<bar>v\<bar> < 10 ^ 19" by simp
  then have "length (dec (nat \<bar>v\<bar>)) \<le> 19" by (subst dec_length_le) simp_all
  then show ?thesis by (auto simp: int_str_def)
qed

lemma reverse_prefix: "m \<noteq> [] \<Longrightarrow> reverse_loop 0 (length m - 1) (m @ zs) = Some (rev m @ zs)"
  using reverse_loop_rev [of "[]" m zs] by simp

lemma put_append: "put (xs @ zs) (length xs) c = (if zs = [] then None else Some (xs @ c # tl zs))"
  by (cases zs) (auto simp: put_def)

lemma tl_drop_Suc: "tl (drop n xs) = drop (Suc n) xs"
  by (simp add: drop_Suc drop_tl)

lemma sdsull2str_text:
  assumes "length (dec (unat v)) < length s"
  shows "sdsull2str s v = Some (length (dec (unat v)), dec (unat v) @ 0 # drop (Suc (length (dec (unat v)))) s)"
proof -
  let ?D = "dec (unat v)"
  have "ll2str_digits 0 v s = Some (length ?D, rev ?D @ drop (length ?D) s)"
    using ll2str_digits_rev [of 0 v s] assms by simp
  moreover have "put (rev ?D @ drop (length ?D) s) (length ?D) 0 = Some (rev ?D @ 0 # drop (Suc (length ?D)) s)"
    using put_append [of "rev ?D" "drop (length ?D) s" 0] assms by (simp add: tl_drop_Suc)
  moreover have "reverse_loop 0 (length ?D - 1) (rev ?D @ 0 # drop (Suc (length ?D)) s) = Some (?D @ 0 # drop (Suc (length ?D)) s)"
    using reverse_prefix [of "rev ?D"] by simp
  ultimately show ?thesis by (simp add: sdsull2str_def)
qed

lemma sdsll2str_text:
  assumes v: "fits 8 v" "v \<noteq> LLONG_MIN" and len: "length (int_str v) < length s"
  shows "sdsll2str s v = Some (length (int_str v), int_str v @ 0 # drop (Suc (length (int_str v))) s)"
proof -
  define w :: ulong where "w = word_of_int (if v < 0 then - v else v)"
  have "w = magnitude v" using v(2) by (simp add: w_def magnitude_def)
  then have w: "unat w = nat \<bar>v\<bar>" using unat_magnitude [OF v(1)] by simp
  let ?D = "dec (unat w)" and ?S = "int_str v"
  have S: "?S = (if v < 0 then chr CHR ''-'' # ?D else ?D)" unfolding w int_str_def by simp
  have "length ?D \<le> length ?S" by (simp add: S)
  then have dg: "ll2str_digits 0 w s = Some (length ?D, rev ?D @ drop (length ?D) s)"
    using ll2str_digits_rev [of 0 w s] len by simp
  have sgn: "(if v < 0 then map_option (\<lambda>s. (length ?D + 1, s)) (put (rev ?D @ drop (length ?D) s) (length ?D) (chr CHR ''-''))
      else Some (length ?D, rev ?D @ drop (length ?D) s)) = Some (length ?S, rev ?S @ drop (length ?S) s)"
    using put_append [of "rev ?D" "drop (length ?D) s" "chr CHR ''-''"] len
    by (cases "v < 0") (simp_all add: S tl_drop_Suc)
  have nul: "put (rev ?S @ drop (length ?S) s) (length ?S) 0 = Some (rev ?S @ 0 # drop (Suc (length ?S)) s)"
    using put_append [of "rev ?S" "drop (length ?S) s" 0] len by (simp add: tl_drop_Suc)
  have ne: "?S \<noteq> []" by (simp add: S)
  have rl: "reverse_loop 0 (length ?S - 1) (rev ?S @ 0 # drop (Suc (length ?S)) s) = Some (?S @ 0 # drop (Suc (length ?S)) s)"
    using reverse_prefix [of "rev ?S"] ne by simp
  show ?thesis
    using v(2) dg sgn nul rl unfolding sdsll2str_def Let_def w_def [symmetric]
    by (simp split del: if_split)
qed

lemma sdsfromlonglong_text:
  assumes "fits 8 v" "v \<noteq> LLONG_MIN"
  shows "sdsfromlonglong junk v = Some (int_str v)"
proof -
  have "length (int_str v) < length (map junk [0..<SDS_LLSTR_SIZE])"
    using int_str_length [OF assms(1)] by (simp add: SDS_LLSTR_SIZE_def)
  from sdsll2str_text [OF assms this] show ?thesis by (simp add: sdsfromlonglong_def)
qed

section \<open>Parsing\<close>

lemma ULLONG_MAX_nat: "unat ULLONG_MAX = 2 ^ 64 - 1" "unat (ULLONG_MAX div 10) = (2 ^ 64 - 1) div 10"
  by (simp_all add: ULLONG_MAX_def unat_div unsigned_minus_1_eq_mask mask_eq_exp_minus_1)

lemma string2ll_step:
  fixes v :: ulong
  assumes d: "d < 10"
  shows "string2ll_loop (dig d # p) v =
    (if 10 * unat v + d < 2 ^ 64 then string2ll_loop p (of_nat (10 * unat v + d)) else None)"
proof -
  have r: "dig d \<ge> chr CHR ''0''" "dig d \<le> chr CHR ''9''" using dig_range [OF d] by simp_all
  have uc: "(ucast (dig d - chr CHR ''0'') :: ulong) = of_nat d" by (rule dig_value [OF d])
  have ud: "unat (of_nat d :: ulong) = d" using d by (simp add: unat_of_nat)
  have um: "unat (ULLONG_MAX - of_nat d) = 2 ^ 64 - 1 - d"
    using d ULLONG_MAX_nat(1) ud by (subst unat_sub) (simp_all add: word_le_nat_alt)
  show ?thesis
  proof (cases "v > ULLONG_MAX div 10")
    case True
    then have "unat v > (2 ^ 64 - 1) div 10" unfolding word_less_nat_alt ULLONG_MAX_nat .
    then have "\<not> 10 * unat v + d < 2 ^ 64" by simp
    with True r show ?thesis by simp
  next
    case False
    then have le: "unat v \<le> (2 ^ 64 - 1) div 10" unfolding word_less_nat_alt ULLONG_MAX_nat by simp
    then have m: "unat (v * 10) = unat v * 10" by (simp add: unat_word_ariths)
    have "v * 10 + of_nat d = (of_nat (10 * unat v + d) :: ulong)" by simp
    moreover have "v * 10 > ULLONG_MAX - of_nat d \<longleftrightarrow> \<not> 10 * unat v + d < 2 ^ 64"
      unfolding word_less_nat_alt um m using d le by auto
    ultimately show ?thesis using False r uc by (simp add: Let_def del: of_nat_add of_nat_mult)
  qed
qed

lemma string2ll_loop_sound:
  "string2ll_loop p v = Some ([], w) \<Longrightarrow> 0 < unat v \<Longrightarrow> dec (unat w) = dec (unat v) @ p"
proof (induction p arbitrary: v)
  case (Cons c p)
  from Cons.prems(1) have "chr CHR ''0'' \<le> c" "c \<le> chr CHR ''9''" by (auto split: if_splits)
  then obtain d where d: "d < 10" "c = dig d" by (rule dig_of_byte)
  have lt: "10 * unat v + d < 2 ^ 64" and run: "string2ll_loop p (of_nat (10 * unat v + d)) = Some ([], w)"
    using Cons.prems(1) unfolding d(2) string2ll_step [OF d(1)] by (simp_all split: if_splits)
  have u: "unat (of_nat (10 * unat v + d) :: ulong) = 10 * unat v + d"
    using lt by (simp only: unat_of_nat_64)
  from Cons.IH [OF run] Cons.prems(2) have "dec (unat w) = dec (10 * unat v + d) @ p" unfolding u by simp
  with dec_snoc [OF Cons.prems(2) d(1)] d(2) show ?case by simp
qed simp

lemma string2ll_loop_complete:
  fixes v w :: ulong
  shows "dec (unat w) = dec (unat v) @ p \<Longrightarrow> 0 < unat v \<Longrightarrow> string2ll_loop p v = Some ([], w)"
proof (induction p arbitrary: v)
  case (Cons c p)
  have "c \<in> set (dec (unat w))" unfolding Cons.prems(1) by simp
  then obtain d where d: "d < 10" "c = dig d" using dec_digits by blast
  have eq: "dec (unat w) = dec (10 * unat v + d) @ p"
    using Cons.prems dec_snoc [OF Cons.prems(2) d(1)] d(2) by simp
  have lt: "10 * unat v + d < 2 ^ 64"
    using dec_prefix_le [OF eq] unat_lt_64 [of w] by simp
  then have u: "unat (of_nat (10 * unat v + d) :: ulong) = 10 * unat v + d" by (simp only: unat_of_nat_64)
  have "string2ll_loop p (of_nat (10 * unat v + d)) = Some ([], w)"
    by (rule Cons.IH) (unfold u, use eq Cons.prems(2) in simp_all)
  with lt show ?case unfolding d(2) string2ll_step [OF d(1)] by simp
next
  case Nil
  then show ?case by (simp add: word_unat_eq_iff)
qed

text \<open>The text of a positive number starts with a digit from 1 to 9.\<close>

lemma dec_head: "0 < n \<Longrightarrow> \<exists>d p. dec n = dig d # p \<and> 0 < d \<and> d < 10"
proof (induction n rule: dec.induct)
  case (1 n)
  show ?case
  proof (cases "n < 10")
    case True
    with "1.prems" show ?thesis by (auto simp: dec_small)
  next
    case False
    then have "0 < n div 10" by (simp add: div_greater_zero_iff)
    with "1.IH" False obtain d p where "dec (n div 10) = dig d # p \<and> 0 < d \<and> d < 10" by blast
    with False show ?thesis by (auto simp: dec_step)
  qed
qed

definition parse_magnitude :: "byte list \<Rightarrow> ulong option" where
  "parse_magnitude p = (case p of [] \<Rightarrow> None | c # p \<Rightarrow>
     if c \<ge> chr CHR ''1'' \<and> c \<le> chr CHR ''9'' then
       (case string2ll_loop p (ucast (c - chr CHR ''0'')) of
          Some ([], v) \<Rightarrow> Some v | _ \<Rightarrow> None)
     else None)"

lemma parse_magnitude_iff: "parse_magnitude p = Some v \<longleftrightarrow> p = dec (unat v) \<and> 0 < unat v"
proof
  assume "parse_magnitude p = Some v"
  then obtain c p' where p: "p = c # p'" and c: "c \<ge> chr CHR ''1''" "c \<le> chr CHR ''9''"
    and run: "string2ll_loop p' (ucast (c - chr CHR ''0'')) = Some ([], v)"
    by (auto simp: parse_magnitude_def split: list.splits if_splits option.splits prod.splits)
  have "chr CHR ''0'' \<le> c" using c(1) by (simp add: word_le_nat_alt)
  with c(2) obtain d where d: "d < 10" "c = dig d" by (metis dig_of_byte)
  have d0: "0 < d" using c(1) d by (cases d) (simp_all add: dig_def)
  have u: "unat (ucast (c - chr CHR ''0'') :: ulong) = d"
    using d unfolding d(2) dig_value [OF d(1)] by (simp add: unat_of_nat)
  from string2ll_loop_sound [OF run] d0 have "dec (unat v) = dec d @ p'" unfolding u by simp
  moreover from this have "d \<le> unat v" by (rule dec_prefix_le)
  ultimately show "p = dec (unat v) \<and> 0 < unat v" using p d d0 by (simp add: dec_small)
next
  assume r: "p = dec (unat v) \<and> 0 < unat v"
  then obtain d p' where p: "p = dig d # p'" and d: "0 < d" "d < 10" using dec_head by blast
  have u: "(ucast (dig d - chr CHR ''0'') :: ulong) = of_nat d" by (rule dig_value [OF d(2)])
  have ud: "unat (of_nat d :: ulong) = d" using d by (simp add: unat_of_nat)
  have "string2ll_loop p' (of_nat d) = Some ([], v)"
    using r p d by (intro string2ll_loop_complete) (simp_all add: ud dec_small)
  moreover have "chr CHR ''1'' \<le> dig d" "dig d \<le> chr CHR ''9''"
    using d by (simp_all add: word_le_nat_alt unat_dig)
  ultimately show "parse_magnitude p = Some v" using p u by (simp add: parse_magnitude_def)
qed

lemma string2ll_parts:
  assumes "s \<noteq> []" "s \<noteq> [chr CHR ''0'']"
  shows "string2ll s = (if hd s = chr CHR ''-'' then
       Option.bind (parse_magnitude (tl s)) (\<lambda>v. if unat v > 2 ^ 63 then None else Some (- int (unat v)))
     else Option.bind (parse_magnitude s) (\<lambda>v. if unat v \<ge> 2 ^ 63 then None else Some (int (unat v))))"
proof -
  obtain c p where s: "s = c # p" using assms(1) by (cases s) auto
  have nz: "\<not> (length s = 1 \<and> c = chr CHR ''0'')" using assms(2) s by auto
  show ?thesis
  proof (cases "c = chr CHR ''-''")
    case True
    show ?thesis
      using s True by (auto simp: string2ll_def parse_magnitude_def LLONG_MIN_def LLONG_MAX_def word_less_nat_alt sint_minus_unat Let_def
          split: list.splits option.splits prod.splits)
  next
    case False
    show ?thesis
      using s False nz by (auto simp: string2ll_def parse_magnitude_def LLONG_MIN_def LLONG_MAX_def word_less_nat_alt sint_minus_unat Let_def
          split: list.splits option.splits prod.splits)
  qed
qed

lemma parse_magnitude_dec:
  assumes "0 < n" "n < 2 ^ 64"
  shows "parse_magnitude (dec n) = Some (of_nat n)"
  using assms unat_of_nat_64 [of n] by (simp add: parse_magnitude_iff)

lemma int_str_sign: "hd (int_str v) = chr CHR ''-'' \<longleftrightarrow> v < 0" "int_str v \<noteq> []"
proof -
  have "hd (dec n) \<noteq> chr CHR ''-''" for n
  proof
    assume "hd (dec n) = chr CHR ''-''"
    moreover have "hd (dec n) \<in> set (dec n)" by (rule hd_in_set) simp
    ultimately obtain d where d: "d < 10" "chr CHR ''-'' = dig d" using dec_digits by metis
    have "unat (chr CHR ''-'') = 48 + d" unfolding d(2) by (rule unat_dig [OF d(1)])
    then show False by simp
  qed
  then show "hd (int_str v) = chr CHR ''-'' \<longleftrightarrow> v < 0" by (auto simp: int_str_def)
  show "int_str v \<noteq> []" by (simp add: int_str_def)
qed

lemma string2ll_int_str:
  assumes "fits 8 v"
  shows "string2ll (int_str v) = Some v"
proof -
  have r: "- (2 ^ 63) \<le> v" "v < 2 ^ 63" using assms by (simp_all add: fits_def)
  consider "v = 0" | "0 < v" | "v < 0" by linarith
  then show ?thesis
  proof cases
    case 1
    then show ?thesis by (simp add: int_str_def dec_small dig_def string2ll_def)
  next
    case 2
    have n: "0 < nat v" "nat v < 2 ^ 63" using 2 r by simp_all
    then have u: "unat (of_nat (nat v) :: ulong) = nat v" using unat_of_nat_64 [of "nat v"] by simp
    have z: "dec (nat v) \<noteq> [chr CHR ''0'']"
      using n dec_inject [of "nat v" 0] by (simp add: dec_small dig_def)
    have "parse_magnitude (dec (nat v)) = Some (of_nat (nat v))"
      using n by (intro parse_magnitude_dec) simp_all
    then show ?thesis
      using 2 n u z int_str_sign [of v] string2ll_parts [of "int_str v"] by (simp add: int_str_def)
  next
    case 3
    let ?n = "nat (- v)"
    have n: "0 < ?n" "?n \<le> 2 ^ 63" using 3 r by simp_all
    then have u: "unat (of_nat ?n :: ulong) = ?n" using unat_of_nat_64 [of ?n] by simp
    have "parse_magnitude (dec ?n) = Some (of_nat ?n)"
      using n by (intro parse_magnitude_dec) simp_all
    then show ?thesis
      using 3 n u string2ll_parts [of "int_str v"] by (simp add: int_str_def)
  qed
qed

lemma string2ll_Some:
  assumes "string2ll s = Some v"
  shows "fits 8 v \<and> s = int_str v"
proof (cases "s = [chr CHR ''0'']")
  case True
  with assms show ?thesis by (auto simp: string2ll_def int_str_def dec_small dig_def fits_def)
next
  case False
  have ne: "s \<noteq> []" using assms by (auto simp: string2ll_def)
  show ?thesis
  proof (cases "hd s = chr CHR ''-''")
    case True
    then obtain w where w: "parse_magnitude (tl s) = Some w" "unat w \<le> 2 ^ 63" "v = - int (unat w)"
      using assms string2ll_parts [OF ne False] by (auto simp: bind_eq_Some_conv split: if_splits)
    from w(1) have d: "tl s = dec (unat w)" "0 < unat w" by (simp_all add: parse_magnitude_iff)
    have "int (unat w) \<le> int (2 ^ 63)" using w(2) by (simp only: of_nat_le_iff)
    then have "v \<le> 0" "- (2 ^ 63) \<le> v" using w(3) by simp_all
    then have "fits 8 v" by (simp add: fits_def)
    moreover have "v < 0" using w(3) d(2) by linarith
    then have "s = int_str v" using True d w(3) ne by (cases s) (auto simp: int_str_def)
    ultimately show ?thesis by simp
  next
    case neg: False
    then obtain w where w: "parse_magnitude s = Some w" "unat w < 2 ^ 63" "v = int (unat w)"
      using assms string2ll_parts [OF ne False] by (auto simp: bind_eq_Some_conv split: if_splits)
    have "int (unat w) < int (2 ^ 63)" using w(2) by (simp only: of_nat_less_iff)
    then have "0 \<le> v" "v < 2 ^ 63" using w(3) by simp_all
    then have "fits 8 v" by (simp add: fits_def)
    moreover have "\<not> v < 0" "nat v = unat w" using w(3) by simp_all
    then have "s = int_str v" using w(1) by (simp add: parse_magnitude_iff int_str_def)
    ultimately show ?thesis by simp
  qed
qed

lemma string2ll_iff: "string2ll s = Some v \<longleftrightarrow> fits 8 v \<and> s = int_str v"
  using string2ll_Some string2ll_int_str by blast

lemma int_str_inject: "fits 8 a \<Longrightarrow> fits 8 b \<Longrightarrow> int_str a = int_str b \<longleftrightarrow> a = b"
  by (metis option.inject string2ll_int_str)

section \<open>Properties\<close>

text \<open>C20. \<^verbatim>\<open>string2ll\<close> accepts exactly the canonical decimal texts of the 64-bit signed
  integers: no leading zeros or plus sign, no other byte before or after, no \<^verbatim>\<open>-0\<close>, and no
  value outside the range, so that a string it accepts can be rebuilt from the number.\<close>

theorem string2ll_canonical:
  "string2ll s = Some v \<longleftrightarrow> LLONG_MIN \<le> v \<and> v \<le> LLONG_MAX \<and> s = int_str v"
  unfolding string2ll_iff by (auto simp: fits_def LLONG_MIN_def LLONG_MAX_def)

text \<open>C32. \<^verbatim>\<open>ll2string\<close> writes the canonical decimal text of every 64-bit signed integer, the
  minimum included, with its terminating zero, at the start of the buffer and leaves the
  bytes after it alone; when the text does not fit it returns 0 and writes nothing.\<close>

theorem ll2string_writes:
  assumes "LLONG_MIN \<le> v" "v \<le> LLONG_MAX" "length dst < 2 ^ 32"
  shows "ll2string dst v = Some (if length (int_str v) < length dst
    then (length (int_str v), int_str v @ 0 # drop (Suc (length (int_str v))) dst) else (0, dst))"
  using assms by (intro ll2string_text) (auto simp: fits_def LLONG_MIN_def LLONG_MAX_def)

theorem ll2string_writes_witness:
  "ll2string [7, 7, 7, 7, 7] (- 42) = Some (3, [chr CHR ''-'', chr CHR ''4'', chr CHR ''2'', 0, 7])"
  using ll2string_writes [of "- 42" "[7, 7, 7, 7, 7]"]
  by (simp add: LLONG_MIN_def LLONG_MAX_def int_str_def dec.simps dig_def)

text \<open>\<^verbatim>\<open>sdsfromlonglong\<close> and \<^verbatim>\<open>isSdsRepresentableAsLongLong\<close> are inverse to each other
  for every 64-bit signed integer but the minimum, whatever the local buffer held before.\<close>

theorem sdsfromlonglong_roundtrip:
  assumes "LLONG_MIN < v" "v \<le> LLONG_MAX"
  shows "\<exists>s. sdsfromlonglong junk v = Some s \<and> isSdsRepresentableAsLongLong s = Some v \<and>
    (\<forall>s'. isSdsRepresentableAsLongLong s' = Some v \<longrightarrow> s' = s)"
proof -
  have f: "fits 8 v" "v \<noteq> LLONG_MIN" using assms by (auto simp: fits_def LLONG_MIN_def LLONG_MAX_def)
  with sdsfromlonglong_text [OF f, of junk] string2ll_iff show ?thesis
    by (auto simp: isSdsRepresentableAsLongLong_def)
qed

theorem sdsfromlonglong_roundtrip_witness:
  "\<exists>s. sdsfromlonglong (\<lambda>_. 0) 65536 = Some s \<and> isSdsRepresentableAsLongLong s = Some 65536"
  using sdsfromlonglong_roundtrip [of 65536 "\<lambda>_. 0"] by (auto simp: LLONG_MIN_def LLONG_MAX_def)

text \<open>The comparison cascade of \<^verbatim>\<open>digits10\<close> counts the decimal digits of every 64-bit
  unsigned integer, and \<^verbatim>\<open>sdsull2str\<close> writes exactly that many.\<close>

theorem digits10_counts:
  assumes "20 < length s"
  shows "\<exists>s'. sdsull2str s v = Some (digits10 v, s') \<and> dval (take (digits10 v) s') = unat v"
proof -
  have "length (dec (unat v)) < length s" using dec_length_64 [of v] assms by linarith
  from sdsull2str_text [OF this] show ?thesis by (simp add: digits10_dec)
qed

theorem digits10_counts_witness:
  "\<exists>s'. sdsull2str (replicate 21 0) 1000 = Some (digits10 1000, s') \<and> dval (take (digits10 1000) s') = 1000"
  using digits10_counts [of "replicate 21 0" 1000] by simp

end
