(* ===== verification/Glob.thy ===== *)
theory Glob
  imports Prelude
begin

text \<open>
  The glob matcher \<^verbatim>\<open>stringmatchlen\<close> of \<^verbatim>\<open>redis/src/util.c\<close>. The pattern is a position \<open>p\<close> in a
  buffer together with \<^verbatim>\<open>patternLen\<close>, because the code reads past \<^verbatim>\<open>patternLen\<close> and steps back;
  a read outside of the buffer is \<^const>\<open>None\<close>. The string is the list of the bytes left, so that
  \<^verbatim>\<open>stringLen\<close> is its length and \<^verbatim>\<open>string[0]\<close> its head. \<^verbatim>\<open>char\<close> is signed, and \<^verbatim>\<open>tolower\<close> is that
  of the C locale.
\<close>

section \<open>Model\<close>

definition peek :: "byte list \<Rightarrow> nat \<Rightarrow> byte option" where
  "peek buf i = (if i < length buf then Some (buf ! i) else None)"

definition tolower :: "int \<Rightarrow> int" where
  "tolower c = (if 65 \<le> c \<and> c \<le> 90 then c + 32 else c)"

definition char_eq :: "bool \<Rightarrow> byte \<Rightarrow> byte \<Rightarrow> bool" where
  "char_eq nocase a b = (if \<not> nocase then a = b else tolower (sint a) = tolower (sint b))"

definition range_match :: "bool \<Rightarrow> byte \<Rightarrow> byte \<Rightarrow> byte \<Rightarrow> bool" where
  "range_match nocase a b ch =
     (let start = sint a; fin = sint b; c = sint ch;
          (start, fin) = (if start > fin then (fin, start) else (start, fin));
          (start, fin, c) = (if nocase then (tolower start, tolower fin, tolower c) else (start, fin, c))
      in c \<ge> start \<and> c \<le> fin)"

text \<open>The loop of the case \<open>*\<close> over consecutive stars.\<close>

function star_skip :: "byte list \<Rightarrow> nat \<Rightarrow> int \<Rightarrow> (nat \<times> int) option" where
  "star_skip buf p len =
     (if len \<noteq> 0 then do {
        c \<leftarrow> peek buf (p + 1);
        if c = chr CHR ''*'' then star_skip buf (p + 1) (len - 1) else Some (p, len)
      }
      else Some (p, len))"
  by auto
termination
  by (relation "measure (\<lambda>(buf, p, len). length buf - p)") (auto simp: peek_def split: if_splits)

declare star_skip.simps [simp del]

text \<open>The \<^verbatim>\<open>while(1)\<close> loop over a class, for the byte \<open>c\<close> of the string: where it ends and
  whether an item matched.\<close>

function class_loop :: "byte list \<Rightarrow> bool \<Rightarrow> byte \<Rightarrow> nat \<Rightarrow> int \<Rightarrow> bool \<Rightarrow> (nat \<times> int \<times> bool) option" where
  "class_loop buf nocase c p len matched = do {
     p0 \<leftarrow> peek buf p;
     if p0 = chr CHR 0x5C \<and> len \<ge> 2 then do {
       p1 \<leftarrow> peek buf (p + 1);
       class_loop buf nocase c (p + 2) (len - 2) (matched \<or> p1 = c)
     }
     else if p0 = chr CHR '']'' then Some (p, len, matched)
     else if len = 0 then (if p = 0 then None else Some (p - 1, len + 1, matched))
     else do {
       dash \<leftarrow> (if len \<ge> 3 then map_option (\<lambda>p1. p1 = chr CHR ''-'') (peek buf (p + 1)) else Some False);
       if dash then do {
         p2 \<leftarrow> peek buf (p + 2);
         class_loop buf nocase c (p + 3) (len - 3) (matched \<or> range_match nocase p0 p2 c)
       }
       else class_loop buf nocase c (p + 1) (len - 1) (matched \<or> char_eq nocase p0 c)
     }
   }"
  by auto
termination
  by (relation "measure (\<lambda>(buf, nocase, c, p, len, matched). length buf - p)") (auto simp: peek_def split: if_splits)

declare class_loop.simps [simp del]

text \<open>The cases of the \<^verbatim>\<open>switch\<close> that consume one byte \<open>c\<close> of the string: the pattern position
  reached and whether the byte is accepted.\<close>

definition glob_step :: "byte list \<Rightarrow> bool \<Rightarrow> nat \<Rightarrow> int \<Rightarrow> byte \<Rightarrow> (nat \<times> int \<times> bool) option" where
  "glob_step buf nocase p len c = do {
     p0 \<leftarrow> peek buf p;
     if p0 = chr CHR ''?'' then Some (p, len, True)
     else if p0 = chr CHR ''['' then do {
       p1 \<leftarrow> peek buf (p + 1);
       let neg = (p1 = chr CHR ''^'');
       (p, len, matched) \<leftarrow>
         (if neg then class_loop buf nocase c (p + 2) (len - 2) False
          else class_loop buf nocase c (p + 1) (len - 1) False);
       Some (p, len, if neg then \<not> matched else matched)
     }
     else do {
       let (p, len) = (if p0 = chr CHR 0x5C \<and> len \<ge> 2 then (p + 1, len - 1) else (p, len));
       p0 \<leftarrow> peek buf p;
       Some (p, len, char_eq nocase p0 c)
     }
   }"

text \<open>The loop over trailing stars once the string is used up.\<close>

function trail_skip :: "byte list \<Rightarrow> nat \<Rightarrow> int \<Rightarrow> (nat \<times> int) option" where
  "trail_skip buf p len = do {
     c \<leftarrow> peek buf p;
     if c = chr CHR ''*'' then trail_skip buf (p + 1) (len - 1) else Some (p, len)
   }"
  by auto
termination
  by (relation "measure (\<lambda>(buf, p, len). length buf - p)") (auto simp: peek_def split: if_splits)

declare trail_skip.simps [simp del]

lemma peek_lt: "peek buf p = Some c \<Longrightarrow> p < length buf"
  by (simp add: peek_def split: if_splits)

lemma star_skip_mono: "star_skip buf p len = Some (p', len') \<Longrightarrow> p \<le> p'"
proof (induction buf p len rule: star_skip.induct)
  case (1 buf p len)
  show ?case
  proof (cases "len \<noteq> 0 \<and> peek buf (p + 1) = Some (chr CHR ''*'')")
    case True
    then have "star_skip buf (p + 1) (len - 1) = Some (p', len')"
      using "1.prems" by (subst (asm) star_skip.simps) simp
    with "1.IH" True show ?thesis by fastforce
  next
    case False
    with "1.prems" show ?thesis
      by (subst (asm) star_skip.simps) (auto simp: bind_eq_Some_conv split: if_splits)
  qed
qed

lemma class_loop_cases:
  assumes "class_loop buf nocase c p len m = Some r"
  shows "p \<le> Suc (fst r) \<or> p < length buf \<and>
    (\<exists>q \<in> {p + 1, p + 2, p + 3}. \<exists>len' m'. class_loop buf nocase c q len' m' = Some r)"
  using assms by (subst (asm) class_loop.simps)
    (auto simp: bind_eq_Some_conv dest: peek_lt split: if_splits)

lemma class_loop_mono: "class_loop buf nocase c p len m = Some r \<Longrightarrow> p \<le> Suc (fst r)"
proof (induction "length buf - p" arbitrary: p len m rule: less_induct)
  case less
  from class_loop_cases [OF less.prems] show ?case
  proof (elim disjE conjE bexE exE)
    fix q len' m'
    assume q: "p < length buf" "q \<in> {p + 1, p + 2, p + 3}" "class_loop buf nocase c q len' m' = Some r"
    then have "q \<le> Suc (fst r)" by (intro less.hyps [of q len' m']) auto
    with q(2) show ?thesis by auto
  qed
qed

lemma glob_step_mono:
  assumes "glob_step buf nocase p len c = Some (p', len', ok)"
  shows "p \<le> p'"
  using assms unfolding glob_step_def
  by (auto simp: bind_eq_Some_conv Let_def split: if_splits prod.splits dest!: class_loop_mono)

text \<open>The matcher and the loop of the case \<open>*\<close> over the suffixes of the string.\<close>

function stringmatchlen :: "byte list \<Rightarrow> bool \<Rightarrow> nat \<Rightarrow> int \<Rightarrow> byte list \<Rightarrow> bool option"
  and star_loop :: "byte list \<Rightarrow> bool \<Rightarrow> nat \<Rightarrow> int \<Rightarrow> byte list \<Rightarrow> bool option" where
  "stringmatchlen buf nocase p len s =
     (if len \<noteq> 0 \<and> s \<noteq> [] then do {
        p0 \<leftarrow> peek buf p;
        if p0 = chr CHR ''*'' then do {
          (p1, len) \<leftarrow> star_skip buf p len;
          if len = 1 then Some True else star_loop buf nocase (p1 + 1) (len - 1) s
        }
        else do {
          (p1, len, ok) \<leftarrow> glob_step buf nocase p len (hd s);
          if \<not> ok then Some False
          else if tl s = [] then do {
            (p2, len) \<leftarrow> trail_skip buf (p1 + 1) (len - 1);
            Some (len = 0)
          }
          else stringmatchlen buf nocase (p1 + 1) (len - 1) (tl s)
        }
      }
      else Some (len = 0 \<and> s = []))"
| "star_loop buf nocase p len s =
     (case s of
        [] \<Rightarrow> Some False
      | _ # s' \<Rightarrow> do {
          r \<leftarrow> stringmatchlen buf nocase p len s;
          if r then Some True else star_loop buf nocase p len s'
        })"
  by pat_completeness auto
termination
proof (relation "measures [\<lambda>x. case x of Inl (buf, _, p, _, s) \<Rightarrow> length buf - p | Inr (buf, _, p, _, s) \<Rightarrow> length buf - p,
      \<lambda>x. case x of Inl (buf, _, p, _, s) \<Rightarrow> length s | Inr (buf, _, p, _, s) \<Rightarrow> length s,
      \<lambda>x. case x of Inl _ \<Rightarrow> 0 | Inr _ \<Rightarrow> 1]", goal_cases)
  case (2 buf nocase p len s p0 x p1 len')
  then have "p \<le> p1" "p < length buf" by (auto dest: star_skip_mono peek_lt)
  then show ?case by auto
next
  case (3 buf nocase p len s p0 x p1 y len' ok)
  then have "p \<le> p1" "p < length buf" by (auto dest: glob_step_mono peek_lt)
  then show ?case by auto
qed auto

declare stringmatchlen.simps [simp del] star_loop.simps [simp del]

definition stringmatch :: "byte list \<Rightarrow> byte list \<Rightarrow> bool \<Rightarrow> bool option" where
  "stringmatch pattern string nocase =
     (if 0 \<in> set pattern \<and> 0 \<in> set string then
        stringmatchlen pattern nocase 0 (int (length (takeWhile (\<lambda>c. c \<noteq> 0) pattern))) (takeWhile (\<lambda>c. c \<noteq> 0) string)
      else None)"

end
