(* ===== verification/Bloom.thy ===== *)
theory Bloom
  imports Prelude
begin

unbundle bit_operations_syntax

text \<open>
  The Bloom filters of \<^verbatim>\<open>DS&Algo/src/Bloom_filter/bloom_filter.hpp\<close>. The derived class
  \<^verbatim>\<open>compressible_bloom_filter\<close> extends the record of its base class, and the virtual method
  \<^verbatim>\<open>compute_indices\<close>, which \<^verbatim>\<open>insert\<close> and \<^verbatim>\<open>contains\<close> of the base class call, is an argument of
  those two. Keys are byte lists. An access outside of the bit table and a remainder by zero
  are \<^const>\<open>None\<close>. The results of the floating-point computations (the optimal parameters, the
  size after a compression) are arguments; the false positive probability, which no
  operation on the table reads, is left out. \<^verbatim>\<open>rand()\<close> is a sequence of numbers.
\<close>

section \<open>Data\<close>

definition bits_per_char :: ulong where "bits_per_char = 8"

definition bit_mask :: "byte list" where
  "bit_mask = [0x01, 0x02, 0x04, 0x08, 0x10, 0x20, 0x40, 0x80]"

record optimal_parameters_t =
  number_of_hashes :: uint
  op_table_size :: ulong

record bloom_parameters =
  minimum_size :: ulong
  maximum_size :: ulong
  minimum_number_of_hashes :: uint
  maximum_number_of_hashes :: uint
  p_projected_element_count :: ulong
  p_random_seed :: ulong
  optimal_parameters :: optimal_parameters_t

record bloom_filter =
  salts :: "uint list"
  bit_table :: "byte list"
  salt_count :: uint
  table_size :: ulong
  projected_element_count :: ulong
  inserted_element_count :: ulong
  random_seed :: ulong

record compressible_bloom_filter = bloom_filter +
  table_sizes :: "ulong list"

section \<open>Parameters\<close>

definition default_parameters :: bloom_parameters where
  "default_parameters =
     \<lparr>minimum_size = 1, maximum_size = - 1, minimum_number_of_hashes = 1, maximum_number_of_hashes = - 1,
      p_projected_element_count = 10000, p_random_seed = 0xA5A5A5A55A5A5A5A,
      optimal_parameters = \<lparr>number_of_hashes = 0, op_table_size = 0\<rparr>\<rparr>"

text \<open>\<^verbatim>\<open>operator!\<close>; \<open>bad_fpp\<close> says that the probability is negative or infinite.\<close>

definition invalid_parameters :: "bool \<Rightarrow> bloom_parameters \<Rightarrow> bool" where
  "invalid_parameters bad_fpp p =
     (minimum_size p > maximum_size p \<or>
      minimum_number_of_hashes p > maximum_number_of_hashes p \<or>
      minimum_number_of_hashes p < 1 \<or>
      0 = maximum_number_of_hashes p \<or>
      0 = p_projected_element_count p \<or>
      bad_fpp \<or>
      0 = p_random_seed p \<or>
      0xFFFFFFFFFFFFFFFF = p_random_seed p)"

text \<open>\<open>min_k\<close> and \<open>min_m\<close> are the minimum found by the floating-point loop, cast to integers.\<close>

definition compute_optimal_parameters :: "bool \<Rightarrow> uint \<Rightarrow> ulong \<Rightarrow> bloom_parameters \<Rightarrow> bool \<times> bloom_parameters" where
  "compute_optimal_parameters bad_fpp min_k min_m p =
     (if invalid_parameters bad_fpp p then (False, p)
      else
        let n = min_k;
            ts = min_m;
            ts = ts + (if ts mod bits_per_char \<noteq> 0 then bits_per_char - ts mod bits_per_char else 0);
            n = (if n < minimum_number_of_hashes p then minimum_number_of_hashes p
                 else if n > maximum_number_of_hashes p then maximum_number_of_hashes p else n);
            ts = (if ts < minimum_size p then minimum_size p
                  else if ts > maximum_size p then maximum_size p else ts)
        in (True, p\<lparr>optimal_parameters := \<lparr>number_of_hashes = n, op_table_size = ts\<rparr>\<rparr>))"

section \<open>Salts and hashing\<close>

definition predef_salt :: "uint list" where
  "predef_salt =
    [0xAAAAAAAA, 0x55555555, 0x33333333, 0xCCCCCCCC,
     0x66666666, 0x99999999, 0xB5B5B5B5, 0x4B4B4B4B,
     0xAA55AA55, 0x55335533, 0x33CC33CC, 0xCC66CC66,
     0x66996699, 0x99B599B5, 0xB54BB54B, 0x4BAA4BAA,
     0xAA33AA33, 0x55CC55CC, 0x33663366, 0xCC99CC99,
     0x66B566B5, 0x994B994B, 0xB5AAB5AA, 0xAAAAAA33,
     0x555555CC, 0x33333366, 0xCCCCCC99, 0x666666B5,
     0x9999994B, 0xB5B5B5AA, 0xFFFFFFFF, 0xFFFF0000,
     0xB823D5EB, 0xC1191CDF, 0xF623AEB3, 0xDB58499F,
     0xC8D42E70, 0xB173F616, 0xA91A5967, 0xDA427D63,
     0xB1E8A2EA, 0xF6C0D155, 0x4909FEA3, 0xA68CC6A7,
     0xC395E782, 0xA26057EB, 0x0CD5DA28, 0x467C5492,
     0xF15E6982, 0x61C6FAD3, 0x9615E352, 0x6E9E355A,
     0x689B563E, 0x0C9831A8, 0x6753C18B, 0xA622689B,
     0x8CA63C47, 0x42CC2884, 0x8E89919B, 0x6EDBD7D3,
     0x15B6796C, 0x1D6FDFE4, 0x63FF9092, 0xE7401432,
     0xEFFE9412, 0xAEAEDF79, 0x9F245A31, 0x83C136FC,
     0xC3DA4A8C, 0xA5112C8C, 0x5271F491, 0x9A948DAB,
     0xCEE59A8D, 0xB5F525AB, 0x59D13217, 0x24E7C331,
     0x697C2103, 0x84B0A460, 0x86156DA9, 0xAEF2AC68,
     0x23243DA5, 0x3F649643, 0x5FA495A8, 0x67710DF8,
     0x9A6C499E, 0xDCFB0227, 0x46A43433, 0x1832B07A,
     0xC46AFF3C, 0xB9C8FFF0, 0xC9500467, 0x34431BDF,
     0xB652432B, 0xE367F12B, 0x427F4C1B, 0x224C006E,
     0x2E7E5A89, 0x96F99AA5, 0x0BEB452A, 0x2FD87C39,
     0x74B2E1FB, 0x222EFD24, 0xF357F60C, 0x440FCB1E,
     0x8BBE030F, 0x6704DC29, 0x1144D12F, 0x948B1355,
     0x6D8FD7E9, 0x1C11A014, 0xADD1592F, 0xFB3C712E,
     0xFC77642F, 0xF9C4CE8C, 0x31312FB9, 0x08B0DD79,
     0x318FA6E7, 0xC040D23D, 0xC0589AA7, 0x0CA5C075,
     0xF874B172, 0x0CF914D5, 0x784D3280, 0x4E8CFEBC,
     0xC569F575, 0xCDB2A091, 0x2CC016B4, 0x5C5F4421]"

text \<open>The in-place mixing: every salt is multiplied by the one three places on, which has
  already changed when the index wraps around.\<close>

definition mix_salts :: "uint \<Rightarrow> uint list \<Rightarrow> uint list" where
  "mix_salts seed ss =
     foldl (\<lambda>ss i. ss[i := ss ! i * ss ! ((i + 3) mod length ss) + seed]) ss [0..<length ss]"

partial_function (option) draw_salts :: "(nat \<Rightarrow> uint) \<Rightarrow> nat \<Rightarrow> nat \<Rightarrow> uint list \<Rightarrow> uint list option" where
  "draw_salts rand t n ss =
     (if length ss < n then
        (if rand t * rand (t + 1) = 0 then draw_salts rand (t + 2) n ss
         else if rand t * rand (t + 1) \<notin> set ss then draw_salts rand (t + 2) n (ss @ [rand t * rand (t + 1)])
         else draw_salts rand (t + 2) n ss)
      else Some ss)"

text \<open>\<open>rand\<close> is the sequence that \<^verbatim>\<open>srand\<close> starts for the seed.\<close>

definition generate_unique_salt :: "(uint \<Rightarrow> nat \<Rightarrow> uint) \<Rightarrow> uint \<Rightarrow> ulong \<Rightarrow> uint list option" where
  "generate_unique_salt rand cnt seed =
     (if cnt \<le> 128 then Some (mix_salts (ucast seed) (take (unat cnt) predef_salt))
      else draw_salts (rand (ucast seed)) 0 (unat cnt) predef_salt)"

definition read_uint :: "byte list \<Rightarrow> uint" where
  "read_uint bs = ucast (bs ! 0) OR push_bit 8 (ucast (bs ! 1)) OR push_bit 16 (ucast (bs ! 2)) OR push_bit 24 (ucast (bs ! 3))"

definition read_ushort :: "byte list \<Rightarrow> uint" where
  "read_ushort bs = ucast (bs ! 0) OR push_bit 8 (ucast (bs ! 1))"

fun hash_ap_blocks :: "byte list \<Rightarrow> uint \<Rightarrow> byte list \<times> uint" where
  "hash_ap_blocks itr hash =
     (if length itr \<ge> 8 then
        let i1 = read_uint itr; i2 = read_uint (drop 4 itr) in
        hash_ap_blocks (drop 8 itr)
          (hash XOR (push_bit 7 hash XOR i1 * drop_bit 3 hash XOR
             NOT (push_bit 11 hash + (i2 XOR drop_bit 5 hash))))
      else (itr, hash))"

declare hash_ap_blocks.simps [simp del]

text \<open>The step shared by the four-byte and the two-byte remainder.\<close>

definition hash_ap_tail :: "nat \<Rightarrow> uint \<Rightarrow> uint \<Rightarrow> uint" where
  "hash_ap_tail loop i hash =
     (if odd loop then hash XOR (push_bit 7 hash XOR i * drop_bit 3 hash)
      else hash XOR NOT (push_bit 11 hash + (i XOR drop_bit 5 hash)))"

definition hash_ap :: "byte list \<Rightarrow> uint \<Rightarrow> uint" where
  "hash_ap key hash =
     (let (itr, hash) = hash_ap_blocks key hash in
      if itr \<noteq> [] then
        let (itr, hash, loop) =
              (if length itr \<ge> 4 then (drop 4 itr, hash_ap_tail 0 (read_uint itr) hash, 1)
               else (itr, hash, 0 :: nat));
            (itr, hash, loop) =
              (if length itr \<ge> 2 then (drop 2 itr, hash_ap_tail loop (read_ushort itr) hash, loop + 1)
               else (itr, hash, loop))
        in if itr \<noteq> [] then hash + ((ucast (itr ! 0) XOR (hash * 0xA5A5A5A5)) + of_nat loop) else hash
      else hash)"

section \<open>The filter\<close>

definition new_filter :: "(uint \<Rightarrow> nat \<Rightarrow> uint) \<Rightarrow> bloom_parameters \<Rightarrow> bloom_filter option" where
  "new_filter rand p = do {
     let seed = p_random_seed p * 0xA5A5A5A5 + 1;
     let cnt = number_of_hashes (optimal_parameters p);
     let ts = op_table_size (optimal_parameters p);
     ss \<leftarrow> generate_unique_salt rand cnt seed;
     Some \<lparr>salts = ss, bit_table = replicate (unat (ts div bits_per_char)) 0, salt_count = cnt, table_size = ts,
           projected_element_count = p_projected_element_count p, inserted_element_count = 0, random_seed = seed\<rparr>
   }"

definition clear :: "'a bloom_filter_scheme \<Rightarrow> 'a bloom_filter_scheme" where
  "clear f = f\<lparr>bit_table := map (\<lambda>_. 0) (bit_table f), inserted_element_count := 0\<rparr>"

text \<open>\<^verbatim>\<open>compute_indices\<close> of the base class: the bit index; the bit is its remainder by 8.\<close>

definition compute_indices :: "'a bloom_filter_scheme \<Rightarrow> uint \<Rightarrow> ulong option" where
  "compute_indices f hash = (if table_size f = 0 then None else Some (ucast hash mod table_size f))"

definition set_bit_at :: "ulong \<Rightarrow> byte list \<Rightarrow> byte list option" where
  "set_bit_at bit_index tab =
     (let i = unat (bit_index div bits_per_char) in
      if i < length tab then Some (tab[i := tab ! i OR bit_mask ! unat (bit_index mod bits_per_char)]) else None)"

definition test_bit_at :: "ulong \<Rightarrow> byte list \<Rightarrow> bool option" where
  "test_bit_at bit_index tab =
     (let i = unat (bit_index div bits_per_char); m = bit_mask ! unat (bit_index mod bits_per_char) in
      if i < length tab then Some (tab ! i AND m = m) else None)"

text \<open>The loops over the salts.\<close>

fun insert_loop :: "(uint \<Rightarrow> ulong option) \<Rightarrow> byte list \<Rightarrow> uint list \<Rightarrow> byte list \<Rightarrow> byte list option" where
  "insert_loop indices key [] tab = Some tab"
| "insert_loop indices key (s # ss) tab = do {
     bit_index \<leftarrow> indices (hash_ap key s);
     tab \<leftarrow> set_bit_at bit_index tab;
     insert_loop indices key ss tab
   }"

fun contains_loop :: "(uint \<Rightarrow> ulong option) \<Rightarrow> byte list \<Rightarrow> uint list \<Rightarrow> byte list \<Rightarrow> bool option" where
  "contains_loop indices key [] tab = Some True"
| "contains_loop indices key (s # ss) tab = do {
     bit_index \<leftarrow> indices (hash_ap key s);
     b \<leftarrow> test_bit_at bit_index tab;
     if \<not> b then Some False else contains_loop indices key ss tab
   }"

text \<open>\<^verbatim>\<open>insert\<close> and \<^verbatim>\<open>contains\<close>, over the virtual method \<open>indices\<close>.\<close>

definition insert_key :: "('a bloom_filter_scheme \<Rightarrow> uint \<Rightarrow> ulong option) \<Rightarrow> byte list \<Rightarrow>
    'a bloom_filter_scheme \<Rightarrow> 'a bloom_filter_scheme option" where
  "insert_key indices key f = do {
     tab \<leftarrow> insert_loop (indices f) key (salts f) (bit_table f);
     Some (f\<lparr>bit_table := tab, inserted_element_count := inserted_element_count f + 1\<rparr>)
   }"

definition contains_key :: "('a bloom_filter_scheme \<Rightarrow> uint \<Rightarrow> ulong option) \<Rightarrow> 'a bloom_filter_scheme \<Rightarrow>
    byte list \<Rightarrow> bool option" where
  "contains_key indices f key = contains_loop (indices f) key (salts f) (bit_table f)"

fun insert_range :: "('a bloom_filter_scheme \<Rightarrow> uint \<Rightarrow> ulong option) \<Rightarrow> byte list list \<Rightarrow>
    'a bloom_filter_scheme \<Rightarrow> 'a bloom_filter_scheme option" where
  "insert_range indices [] f = Some f"
| "insert_range indices (k # ks) f = do { f \<leftarrow> insert_key indices k f; insert_range indices ks f }"

text \<open>\<^verbatim>\<open>contains_all\<close> and \<^verbatim>\<open>contains_none\<close>: the keys from the first offending one on.\<close>

fun contains_all :: "('a bloom_filter_scheme \<Rightarrow> uint \<Rightarrow> ulong option) \<Rightarrow> 'a bloom_filter_scheme \<Rightarrow>
    byte list list \<Rightarrow> byte list list option" where
  "contains_all indices f [] = Some []"
| "contains_all indices f (k # ks) = do {
     b \<leftarrow> contains_key indices f k;
     if \<not> b then Some (k # ks) else contains_all indices f ks
   }"

fun contains_none :: "('a bloom_filter_scheme \<Rightarrow> uint \<Rightarrow> ulong option) \<Rightarrow> 'a bloom_filter_scheme \<Rightarrow>
    byte list list \<Rightarrow> byte list list option" where
  "contains_none indices f [] = Some []"
| "contains_none indices f (k # ks) = do {
     b \<leftarrow> contains_key indices f k;
     if b then Some (k # ks) else contains_none indices f ks
   }"

section \<open>Set operations\<close>

text \<open>The loop over the cells; the other table is read at the same indices.\<close>

definition combine_tables :: "(byte \<Rightarrow> byte \<Rightarrow> byte) \<Rightarrow> byte list \<Rightarrow> byte list \<Rightarrow> byte list option" where
  "combine_tables g a b = (if length a \<le> length b then Some (map2 g a b) else None)"

definition same_shape :: "'a bloom_filter_scheme \<Rightarrow> 'a bloom_filter_scheme \<Rightarrow> bool" where
  "same_shape a f = (salt_count a = salt_count f \<and> table_size a = table_size f \<and> random_seed a = random_seed f)"

definition intersect_filter :: "'a bloom_filter_scheme \<Rightarrow> 'a bloom_filter_scheme \<Rightarrow> 'a bloom_filter_scheme option" where
  "intersect_filter a f =
     (if same_shape a f then
        map_option (\<lambda>t. a\<lparr>bit_table := t\<rparr>) (combine_tables (\<lambda>x y. x AND y) (bit_table a) (bit_table f))
      else Some a)"

definition union_filter :: "'a bloom_filter_scheme \<Rightarrow> 'a bloom_filter_scheme \<Rightarrow> 'a bloom_filter_scheme option" where
  "union_filter a f =
     (if same_shape a f then
        map_option (\<lambda>t. a\<lparr>bit_table := t\<rparr>) (combine_tables (\<lambda>x y. x OR y) (bit_table a) (bit_table f))
      else Some a)"

definition difference_filter :: "'a bloom_filter_scheme \<Rightarrow> 'a bloom_filter_scheme \<Rightarrow> 'a bloom_filter_scheme option" where
  "difference_filter a f =
     (if same_shape a f then
        map_option (\<lambda>t. a\<lparr>bit_table := t\<rparr>) (combine_tables (\<lambda>x y. x XOR y) (bit_table a) (bit_table f))
      else Some a)"

section \<open>Compression\<close>

definition new_compressible :: "(uint \<Rightarrow> nat \<Rightarrow> uint) \<Rightarrow> bloom_parameters \<Rightarrow> compressible_bloom_filter option" where
  "new_compressible rand p = do {
     f \<leftarrow> new_filter rand p;
     Some (bloom_filter.extend f \<lparr>table_sizes = [table_size f]\<rparr>)
   }"

definition size_of :: "compressible_bloom_filter \<Rightarrow> ulong" where
  "size_of f = last (table_sizes f)"

fun mod_sizes :: "ulong list \<Rightarrow> ulong \<Rightarrow> ulong option" where
  "mod_sizes [] b = Some b"
| "mod_sizes (n # ns) b = (if n = 0 then None else mod_sizes ns (b mod n))"

definition compressible_indices :: "compressible_bloom_filter \<Rightarrow> uint \<Rightarrow> ulong option" where
  "compressible_indices f hash = mod_sizes (table_sizes f) (ucast hash)"

text \<open>The folding loop: the cells from \<open>src\<close> on are or-ed into the new table from its start.\<close>

fun fold_cells :: "byte list \<Rightarrow> nat \<Rightarrow> byte list \<Rightarrow> byte list option" where
  "fold_cells [] j tmp = Some tmp"
| "fold_cells (c # cs) j tmp =
     (if j < length tmp then fold_cells cs (j + 1) (tmp[j := tmp ! j OR c]) else None)"

text \<open>\<open>percentage_ok\<close> is the range check on the percentage, \<open>shrunk\<close> the value of the
  floating-point expression for the new size.\<close>

definition compress :: "bool \<Rightarrow> ulong \<Rightarrow> compressible_bloom_filter \<Rightarrow> (bool \<times> compressible_bloom_filter) option" where
  "compress percentage_ok shrunk f =
     (if \<not> percentage_ok then Some (False, f)
      else
        let original = last (table_sizes f);
            new = shrunk - shrunk mod bits_per_char
        in if bits_per_char > new \<or> new \<ge> original then Some (False, f)
           else
             let n = unat (new div bits_per_char); m = unat (original div bits_per_char) in
             if m \<le> length (bit_table f) then do {
               tmp \<leftarrow> fold_cells (take (m - n) (drop n (bit_table f))) 0 (take n (bit_table f));
               Some (True, f\<lparr>bit_table := tmp, table_sizes := table_sizes f @ [new]\<rparr>)
             }
             else None)"

end
