(* ===== verification/Bloom_Correct.thy ===== *)
theory Bloom_Correct
  imports Bloom
begin

text \<open>
  Correctness of the Bloom filters: no false negatives through insertions, unions,
  intersections and compressions, for both classes, by way of the contract of the virtual
  method \<^verbatim>\<open>compute_indices\<close> (\<open>bloom_indexing\<close>).
\<close>

unbundle bit_operations_syntax

section \<open>Bits of a table\<close>

definition tbit :: "byte list \<Rightarrow> nat \<Rightarrow> bool" where
  "tbit tab b = bit (tab ! (b div 8)) (b mod 8)"

lemma bit_mask_exp: "i < 8 \<Longrightarrow> bit_mask ! i = 2 ^ i"
  by (auto simp: bit_mask_def less_Suc_eq numeral_eq_Suc)

lemma and_exp_eq: "(x :: byte) AND 2 ^ i = 2 ^ i \<longleftrightarrow> bit x i" if "i < 8"
proof
  assume "x AND 2 ^ i = 2 ^ i"
  then have "bit (x AND 2 ^ i) i = bit (2 ^ i :: byte) i" by simp
  with that show "bit x i" by (simp add: bit_simps)
next
  assume "bit x i"
  then show "x AND 2 ^ i = 2 ^ i" by (intro bit_word_eqI) (auto simp: bit_simps)
qed

lemma bit_or_exp: "bit ((x :: byte) OR 2 ^ i) j \<longleftrightarrow> bit x j \<or> (i = j \<and> j < 8)"
  by (auto simp: bit_simps)

lemma unat_bits: "unat (b div bits_per_char) = unat b div 8" "unat (b mod bits_per_char) = unat b mod 8"
  by (simp_all add: bits_per_char_def unat_div unat_mod)

lemma div8_less: "b < 8 * n \<Longrightarrow> b div 8 < (n :: nat)"
  by (simp add: less_mult_imp_div_less mult.commute)

lemma set_bit_at_Some:
  assumes "unat b < 8 * length tab"
  shows "\<exists>tab'. set_bit_at b tab = Some tab' \<and> length tab' = length tab \<and>
    (\<forall>c < 8 * length tab. tbit tab' c \<longleftrightarrow> tbit tab c \<or> c = unat b)"
proof -
  let ?i = "unat b div 8" and ?j = "unat b mod 8"
  let ?tab = "tab[?i := tab ! ?i OR 2 ^ ?j]"
  have i: "?i < length tab" using assms by (rule div8_less)
  have "tbit ?tab c \<longleftrightarrow> tbit tab c \<or> c = unat b" if "c < 8 * length tab" for c
  proof (cases "c div 8 = ?i")
    case True
    then have "?j = c mod 8 \<longleftrightarrow> c = unat b" by (metis div_mult_mod_eq)
    with True i show ?thesis by (simp add: tbit_def bit_or_exp)
  next
    case False
    then show ?thesis by (auto simp: tbit_def)
  qed
  with i show ?thesis by (simp add: set_bit_at_def Let_def unat_bits bit_mask_exp)
qed

lemma test_bit_at_Some: "unat b < 8 * length tab \<Longrightarrow> test_bit_at b tab = Some (tbit tab (unat b))"
  by (simp add: test_bit_at_def Let_def unat_bits bit_mask_exp and_exp_eq tbit_def div8_less)

section \<open>The interface of the virtual method\<close>

text \<open>What \<^verbatim>\<open>insert\<close> and \<^verbatim>\<open>contains\<close> need of \<^verbatim>\<open>compute_indices\<close>: it gives a bit of the table and does
  not depend on the contents of the table.\<close>

locale bloom_indexing =
  fixes indices :: "'a bloom_filter_scheme \<Rightarrow> uint \<Rightarrow> ulong option"
    and wf :: "'a bloom_filter_scheme \<Rightarrow> bool"
  assumes index_in: "wf f \<Longrightarrow> \<exists>b. indices f h = Some b \<and> unat b < 8 * length (bit_table f)"
    and index_stable: "indices (f\<lparr>bit_table := t, inserted_element_count := n\<rparr>) = indices f"
    and wf_stable: "wf f \<Longrightarrow> length t = length (bit_table f) \<Longrightarrow> wf (f\<lparr>bit_table := t, inserted_element_count := n\<rparr>)"
begin

text \<open>The bits that stand for a key.\<close>

definition key_bits :: "'a bloom_filter_scheme \<Rightarrow> byte list \<Rightarrow> nat set" where
  "key_bits f key = (\<lambda>s. unat (the (indices f (hash_ap key s)))) ` set (salts f)"

lemma key_bits_in: "wf f \<Longrightarrow> b \<in> key_bits f key \<Longrightarrow> b < 8 * length (bit_table f)"
  unfolding key_bits_def using index_in by (metis (no_types, lifting) image_iff option.sel)

lemma insert_loop_Some:
  assumes "wf f" "length tab = length (bit_table f)"
  shows "\<exists>tab'. insert_loop (indices f) key ss tab = Some tab' \<and> length tab' = length tab \<and>
    (\<forall>c < 8 * length tab. tbit tab' c \<longleftrightarrow> tbit tab c \<or> c \<in> (\<lambda>s. unat (the (indices f (hash_ap key s)))) ` set ss)"
  using assms(2)
proof (induction ss arbitrary: tab)
  case (Cons s ss)
  obtain b where b: "indices f (hash_ap key s) = Some b" "unat b < 8 * length tab"
    using index_in [OF assms(1)] Cons.prems by metis
  obtain tab1 where t1: "set_bit_at b tab = Some tab1" "length tab1 = length tab"
    "\<forall>c < 8 * length tab. tbit tab1 c \<longleftrightarrow> tbit tab c \<or> c = unat b"
    using set_bit_at_Some [OF b(2)] by blast
  have "length tab1 = length (bit_table f)" using t1(2) Cons.prems by simp
  from Cons.IH [OF this] obtain tab2 where
    "insert_loop (indices f) key ss tab1 = Some tab2" "length tab2 = length tab1"
    "\<forall>c < 8 * length tab1. tbit tab2 c \<longleftrightarrow> tbit tab1 c \<or> c \<in> (\<lambda>s. unat (the (indices f (hash_ap key s)))) ` set ss"
    by blast
  with b(1) t1 show ?case by (intro exI [of _ tab2]) auto
qed simp

lemma contains_loop_Some:
  assumes "wf f"
  shows "contains_loop (indices f) key ss (bit_table f) =
    Some (\<forall>s \<in> set ss. tbit (bit_table f) (unat (the (indices f (hash_ap key s)))))"
proof (induction ss)
  case (Cons s ss)
  obtain b where "indices f (hash_ap key s) = Some b" "unat b < 8 * length (bit_table f)"
    using index_in [OF assms] by metis
  with Cons show ?case by (simp add: test_bit_at_Some)
qed simp

lemma contains_key_bits:
  "wf f \<Longrightarrow> contains_key indices f key = Some (\<forall>b \<in> key_bits f key. tbit (bit_table f) b)"
  by (simp add: contains_key_def contains_loop_Some key_bits_def)

lemma insert_key_bits:
  assumes "wf f"
  shows "\<exists>f'. insert_key indices key f = Some f' \<and> wf f' \<and> (\<forall>k. key_bits f' k = key_bits f k) \<and>
    inserted_element_count f' = inserted_element_count f + 1 \<and> length (bit_table f') = length (bit_table f) \<and>
    (\<forall>c < 8 * length (bit_table f). tbit (bit_table f') c \<longleftrightarrow> tbit (bit_table f) c \<or> c \<in> key_bits f key)"
proof -
  obtain tab where t: "insert_loop (indices f) key (salts f) (bit_table f) = Some tab" "length tab = length (bit_table f)"
    "\<forall>c < 8 * length (bit_table f). tbit tab c \<longleftrightarrow> tbit (bit_table f) c \<or> c \<in> key_bits f key"
    using insert_loop_Some [OF assms refl] unfolding key_bits_def by blast
  let ?f = "f\<lparr>bit_table := tab, inserted_element_count := inserted_element_count f + 1\<rparr>"
  have "insert_key indices key f = Some ?f" using t(1) by (simp add: insert_key_def)
  moreover have "wf ?f" using wf_stable [OF assms t(2)] .
  moreover have "key_bits ?f k = key_bits f k" for k by (simp add: key_bits_def index_stable)
  ultimately show ?thesis using t(2,3) by auto
qed

text \<open>No false negatives, for one insertion and for a sequence of insertions.\<close>

lemma insert_key_contains:
  assumes "wf f"
  shows "\<exists>f'. insert_key indices key f = Some f' \<and> wf f' \<and> contains_key indices f' key = Some True \<and>
    (\<forall>k. contains_key indices f k = Some True \<longrightarrow> contains_key indices f' k = Some True)"
proof -
  from insert_key_bits [OF assms] obtain f' where f': "insert_key indices key f = Some f'" "wf f'"
    "\<forall>k. key_bits f' k = key_bits f k"
    "\<forall>c < 8 * length (bit_table f). tbit (bit_table f') c \<longleftrightarrow> tbit (bit_table f) c \<or> c \<in> key_bits f key" by blast
  have "contains_key indices f' key = Some True"
    using f' key_bits_in [OF assms] by (simp add: contains_key_bits)
  moreover have "contains_key indices f' k = Some True" if "contains_key indices f k = Some True" for k
    using that f' key_bits_in [OF assms] by (simp add: contains_key_bits assms)
  ultimately show ?thesis using f' by blast
qed

lemma insert_range_contains:
  "wf f \<Longrightarrow> \<exists>f'. insert_range indices ks f = Some f' \<and> wf f' \<and> (\<forall>k \<in> set ks. contains_key indices f' k = Some True) \<and>
    (\<forall>k. contains_key indices f k = Some True \<longrightarrow> contains_key indices f' k = Some True)"
proof (induction ks arbitrary: f)
  case (Cons k ks)
  obtain f1 where f1: "insert_key indices k f = Some f1" "wf f1" "contains_key indices f1 k = Some True"
    "\<forall>k. contains_key indices f k = Some True \<longrightarrow> contains_key indices f1 k = Some True"
    using insert_key_contains [OF Cons.prems] by blast
  obtain f2 where f2: "insert_range indices ks f1 = Some f2" "wf f2" "\<forall>k \<in> set ks. contains_key indices f2 k = Some True"
    "\<forall>k. contains_key indices f1 k = Some True \<longrightarrow> contains_key indices f2 k = Some True"
    using Cons.IH [OF f1(2)] by blast
  have "insert_range indices (k # ks) f = Some f2" using f1(1) f2(1) by simp
  moreover have "\<forall>k' \<in> set (k # ks). contains_key indices f2 k' = Some True" using f1(3) f2(3,4) by simp
  moreover have "\<forall>k. contains_key indices f k = Some True \<longrightarrow> contains_key indices f2 k = Some True" using f1(4) f2(4) by blast
  ultimately show ?case using f2(2) by blast
qed simp

lemma contains_all_inserted:
  "wf f \<Longrightarrow> \<forall>k \<in> set ks. contains_key indices f k = Some True \<Longrightarrow> contains_all indices f ks = Some []"
  by (induction ks) auto

end


section \<open>The two classes\<close>

definition filter_wf :: "'a bloom_filter_scheme \<Rightarrow> bool" where
  "filter_wf f \<longleftrightarrow> table_size f \<noteq> 0 \<and> unat (table_size f) = 8 * length (bit_table f)"

interpretation bf: bloom_indexing compute_indices filter_wf
proof
  fix f :: "'a bloom_filter_scheme" and h :: uint
  assume wf: "filter_wf f"
  have "0 < unat (table_size f)" using wf unat_gt_0 [of "table_size f"] unfolding filter_wf_def by blast
  then have "unat (ucast h mod table_size f) < unat (table_size f)" by (simp add: unat_mod)
  with wf show "\<exists>b. compute_indices f h = Some b \<and> unat b < 8 * length (bit_table f)"
    by (simp add: compute_indices_def filter_wf_def)
qed (simp_all add: compute_indices_def filter_wf_def fun_eq_iff)

definition comp_wf :: "compressible_bloom_filter \<Rightarrow> bool" where
  "comp_wf f \<longleftrightarrow> table_sizes f \<noteq> [] \<and> 0 \<notin> set (table_sizes f) \<and> unat (last (table_sizes f)) = 8 * length (bit_table f)"

lemma mod_sizes_Some: "0 \<notin> set ns \<Longrightarrow> \<exists>r. mod_sizes ns b = Some r \<and> (ns \<noteq> [] \<longrightarrow> unat r < unat (last ns))"
proof (induction ns arbitrary: b)
  case (Cons n ns)
  then have "0 < unat n" by (auto simp: unat_gt_0)
  then have "unat (b mod n) < unat n" by (simp add: unat_mod)
  with Cons show ?case by auto
qed simp

interpretation cf: bloom_indexing compressible_indices comp_wf
proof
  fix f :: compressible_bloom_filter and h :: uint
  assume "comp_wf f"
  with mod_sizes_Some [of "table_sizes f" "ucast h"]
  show "\<exists>b. compressible_indices f h = Some b \<and> unat b < 8 * length (bit_table f)"
    by (auto simp: compressible_indices_def comp_wf_def)
qed (simp_all add: compressible_indices_def comp_wf_def fun_eq_iff)

section \<open>Set operations\<close>

lemma tbit_map2:
  assumes "length a \<le> length b" "c < 8 * length a"
    and g: "\<And>x y i. bit (g x y) i = G (bit (x :: byte) i) (bit (y :: byte) i)"
  shows "tbit (map2 g a b) c = G (tbit a c) (tbit b c)"
proof -
  have "c div 8 < length a" using assms(2) by (rule div8_less)
  with assms(1) show ?thesis by (simp add: tbit_def g)
qed

lemma combine_wf:
  assumes "filter_wf a" "filter_wf b" "same_shape a b"
  shows "combine_tables g (bit_table a) (bit_table b) = Some (map2 g (bit_table a) (bit_table b))"
    and "filter_wf (a\<lparr>bit_table := map2 g (bit_table a) (bit_table b)\<rparr>)"
    and "length (bit_table a) = length (bit_table b)"
  using assms by (auto simp: combine_tables_def same_shape_def filter_wf_def)

lemma same_key_bits:
  assumes "same_shape a b" "salts a = salts b"
  shows "bf.key_bits b k = bf.key_bits a k" "bf.key_bits (a\<lparr>bit_table := t\<rparr>) k = bf.key_bits a k"
proof -
  have "compute_indices b = compute_indices a" "compute_indices (a\<lparr>bit_table := t\<rparr>) = compute_indices a"
    using assms(1) by (simp_all add: compute_indices_def same_shape_def fun_eq_iff)
  with assms(2) show "bf.key_bits b k = bf.key_bits a k" "bf.key_bits (a\<lparr>bit_table := t\<rparr>) k = bf.key_bits a k"
    by (simp_all add: bf.key_bits_def)
qed

section \<open>Compression\<close>

lemma fold_cells_Some:
  "j + length cs \<le> length tmp \<Longrightarrow> \<exists>tmp'. fold_cells cs j tmp = Some tmp' \<and> length tmp' = length tmp \<and>
    (\<forall>i < length tmp. tmp' ! i = (if j \<le> i \<and> i < j + length cs then tmp ! i OR cs ! (i - j) else tmp ! i))"
proof (induction cs arbitrary: j tmp)
  case (Cons c cs)
  let ?t = "tmp[j := tmp ! j OR c]"
  from Cons.IH [of "j + 1" ?t] Cons.prems obtain tmp' where
    r: "fold_cells cs (j + 1) ?t = Some tmp'" "length tmp' = length tmp"
    "\<forall>i < length tmp. tmp' ! i = (if j + 1 \<le> i \<and> i < j + 1 + length cs then ?t ! i OR cs ! (i - (j + 1)) else ?t ! i)"
    by auto
  have "tmp' ! i = (if j \<le> i \<and> i < j + length (c # cs) then tmp ! i OR (c # cs) ! (i - j) else tmp ! i)" if "i < length tmp" for i
    using r(3) that Cons.prems by (cases "i = j") (auto simp: nth_Cons')
  with r Cons.prems show ?case by (intro exI [of _ tmp']) simp
qed auto

lemma fold_cells_None: "j \<le> length tmp \<Longrightarrow> length tmp < j + length cs \<Longrightarrow> fold_cells cs j tmp = None"
  by (induction cs arbitrary: j tmp) auto

lemma mod_sizes_snoc: "mod_sizes (ns @ [n]) b = Option.bind (mod_sizes ns b) (\<lambda>r. if n = 0 then None else Some (r mod n))"
  by (induction ns arbitrary: b) auto

lemma folded_bit:
  assumes n: "n < length tab" "length tab \<le> 2 * n" and r: "r < 8 * length tab" "tbit tab r"
    and tmp: "length tmp = n" "\<forall>i < n. tmp ! i = (if i < length tab - n then tab ! i OR tab ! (n + i) else tab ! i)"
  shows "tbit tmp (r mod (8 * n))"
proof (cases "r < 8 * n")
  case True
  then have "r div 8 < n" by (rule div8_less)
  with True tmp(2) r(2) show ?thesis by (simp add: tbit_def bit_simps)
next
  case False
  then obtain q where q: "r = 8 * n + q" using le_Suc_ex [of "8 * n" r] by auto
  then have "r div 8 = n + q div 8" "r mod 8 = q mod 8" by simp_all
  moreover have "q < 8 * (length tab - n)" using q r(1) n by simp
  moreover from this have "q div 8 < length tab - n" by (rule div8_less)
  moreover have "r mod (8 * n) = q" using q n r(1) by simp
  moreover have "length tab - n \<le> n" using n by simp
  ultimately show ?thesis using tmp(2) r(2) by (simp add: tbit_def bit_simps)
qed

lemma compress_contains:
  assumes wf: "comp_wf f" and half: "unat (last (table_sizes f)) \<le> 2 * unat (shrunk - shrunk mod bits_per_char)"
  shows "\<exists>r f'. compress ok shrunk f = Some (r, f') \<and> comp_wf f' \<and>
    (\<forall>k. contains_key compressible_indices f k = Some True \<longrightarrow> contains_key compressible_indices f' k = Some True)"
proof -
  define new where "new = shrunk - shrunk mod bits_per_char"
  define n where "n = unat (new div bits_per_char)"
  let ?tab = "bit_table f" and ?orig = "last (table_sizes f)"
  have new8: "unat new = 8 * n"
  proof -
    have "unat new = unat shrunk - unat shrunk mod 8"
      unfolding new_def by (subst unat_sub) (simp_all add: unat_bits word_le_nat_alt)
    moreover have "n = unat new div 8" by (simp add: n_def unat_bits)
    ultimately show ?thesis by (simp add: minus_mod_eq_mult_div)
  qed
  have len: "unat ?orig = 8 * length ?tab" using wf by (simp add: comp_wf_def)
  show ?thesis
  proof (cases "ok \<and> \<not> (bits_per_char > new \<or> new \<ge> ?orig)")
    case False
    then have "compress ok shrunk f = Some (False, f)"
      by (auto simp: compress_def Let_def new_def)
    with wf show ?thesis by auto
  next
    case True
    then have "8 \<le> unat new" "unat new < unat ?orig"
      by (simp_all add: bits_per_char_def word_less_nat_alt word_le_nat_alt)
    then have n: "1 \<le> n" "n < length ?tab" using new8 len by simp_all
    have n2: "length ?tab \<le> 2 * n" using half new8 len unfolding new_def [symmetric] by simp
    have m: "unat (?orig div bits_per_char) = length ?tab" by (simp add: unat_bits len)
    have "0 + length (drop n ?tab) \<le> length (take n ?tab)" using n n2 by simp
    from fold_cells_Some [OF this] obtain tmp where tmp: "fold_cells (drop n ?tab) 0 (take n ?tab) = Some tmp" "length tmp = n"
      "\<forall>i < n. tmp ! i = (if i < length ?tab - n then take n ?tab ! i OR drop n ?tab ! i else take n ?tab ! i)"
      using n n2 by auto
    let ?f = "f\<lparr>bit_table := tmp, table_sizes := table_sizes f @ [new]\<rparr>"
    have run: "compress ok shrunk f = Some (True, ?f)"
      using True tmp(1) m by (simp add: compress_def Let_def new_def [symmetric] n_def [symmetric])
    have nz: "new \<noteq> 0" using new8 n by auto
    have wf': "comp_wf ?f" using wf nz new8 tmp(2) by (auto simp: comp_wf_def)
    have tmp': "\<forall>i < n. tmp ! i = (if i < length ?tab - n then ?tab ! i OR ?tab ! (n + i) else ?tab ! i)"
      using tmp(3) n by simp
    have "contains_key compressible_indices ?f k = Some True" if c: "contains_key compressible_indices f k = Some True" for k
    proof -
      have "tbit tmp (unat (the (compressible_indices ?f (hash_ap k s))))" if s: "s \<in> set (salts f)" for s
      proof -
        obtain r where r: "compressible_indices f (hash_ap k s) = Some r" "unat r < 8 * length ?tab"
          using cf.index_in [OF wf] by blast
        then have "tbit ?tab (unat r)"
          using c s by (auto simp: cf.contains_key_bits [OF wf] cf.key_bits_def)
        from folded_bit [OF n(2) n2 r(2) this tmp(2) tmp'] have "tbit tmp (unat r mod unat new)" by (simp add: new8)
        moreover have "compressible_indices ?f (hash_ap k s) = Some (r mod new)"
          using r(1) nz by (simp add: compressible_indices_def mod_sizes_snoc)
        ultimately show ?thesis by (simp add: unat_mod)
      qed
      then show ?thesis by (simp add: cf.contains_key_bits [OF wf'] cf.key_bits_def)
    qed
    with run wf' show ?thesis by blast
  qed
qed

lemma mix_salts_length: "length (mix_salts seed ss) = length ss"
proof -
  have "length (foldl (\<lambda>ss i. ss[i := g ss i]) ss is) = length ss" for g :: "uint list \<Rightarrow> nat \<Rightarrow> uint" and ss "is"
    by (induction "is" arbitrary: ss) simp_all
  then show ?thesis by (simp add: mix_salts_def)
qed

lemma predef_salt_length: "length predef_salt = 128"
  by (simp add: predef_salt_def)

lemma new_filter_wf:
  assumes "op_table_size (optimal_parameters p) \<noteq> 0" "8 dvd unat (op_table_size (optimal_parameters p))"
    "number_of_hashes (optimal_parameters p) \<le> 128"
  shows "\<exists>f. new_filter rand p = Some f \<and> filter_wf f \<and> length (salts f) = unat (number_of_hashes (optimal_parameters p)) \<and>
    inserted_element_count f = 0"
proof -
  have "unat (number_of_hashes (optimal_parameters p)) \<le> 128" using assms(3) by (simp add: word_le_nat_alt)
  with assms show ?thesis
    by (auto simp: new_filter_def generate_unique_salt_def Let_def filter_wf_def unat_bits mix_salts_length predef_salt_length)
qed

section \<open>Properties\<close>

definition ex_filter :: bloom_filter where
  "ex_filter = \<lparr>salts = [0xAAAAAAAA, 0x55555555], bit_table = [0, 0, 0, 0], salt_count = 2, table_size = 32,
     projected_element_count = 10, inserted_element_count = 0, random_seed = 1\<rparr>"

lemma ex_filter_wf: "filter_wf ex_filter"
  by (simp add: filter_wf_def ex_filter_def)

definition ex_comp :: compressible_bloom_filter where
  "ex_comp = bloom_filter.extend ex_filter \<lparr>table_sizes = [32]\<rparr>"

lemma ex_comp_wf: "comp_wf ex_comp"
  by (simp add: comp_wf_def ex_comp_def ex_filter_def bloom_filter.defs)

text \<open>C23. A Bloom filter has no false negatives: on a filter whose table has the size it claims,
  inserting any sequence of keys never leaves the table, and afterwards every inserted key,
  and every key reported before, is reported as contained.\<close>

theorem bloom_no_false_negatives:
  assumes "filter_wf f"
  shows "\<exists>f'. insert_range compute_indices ks f = Some f' \<and> filter_wf f' \<and>
    contains_all compute_indices f' ks = Some [] \<and>
    (\<forall>k. contains_key compute_indices f k = Some True \<longrightarrow> contains_key compute_indices f' k = Some True)"
  using bf.insert_range_contains [OF assms, of ks] bf.contains_all_inserted by blast

theorem bloom_no_false_negatives_witness:
  "\<exists>f'. insert_range compute_indices [[1, 2, 3], [4]] ex_filter = Some f' \<and>
    contains_all compute_indices f' [[1, 2, 3], [4]] = Some []"
  using bloom_no_false_negatives [OF ex_filter_wf, of "[[1, 2, 3], [4]]"] by blast

text \<open>The constructor gives a filter that fulfils the contract of \<^verbatim>\<open>insert\<close> and \<^verbatim>\<open>contains\<close>, with
  as many salts as hash functions asked for, whenever the table size is a positive multiple
  of eight and the predefined salts suffice.\<close>

theorem new_filter_valid:
  assumes "op_table_size (optimal_parameters p) \<noteq> 0" "8 dvd unat (op_table_size (optimal_parameters p))"
    "number_of_hashes (optimal_parameters p) \<le> 128"
  shows "\<exists>f. new_filter rand p = Some f \<and> filter_wf f \<and>
    length (salts f) = unat (number_of_hashes (optimal_parameters p)) \<and> inserted_element_count f = 0"
  using assms by (rule new_filter_wf)

theorem new_filter_valid_witness:
  "\<exists>f. new_filter (\<lambda>_ _. 0) (default_parameters\<lparr>optimal_parameters := \<lparr>number_of_hashes = 5, op_table_size = 64\<rparr>\<rparr>) = Some f \<and>
    filter_wf f \<and> length (salts f) = 5"
  using new_filter_valid [of "default_parameters\<lparr>optimal_parameters := \<lparr>number_of_hashes = 5, op_table_size = 64\<rparr>\<rparr>" "\<lambda>_ _. 0"]
  by (auto simp: word_le_nat_alt)

text \<open>The intersection of two filters of the same shape contains exactly the keys that both
  contain, and the union every key that one of them contains; neither reads or writes
  outside of the tables.\<close>

theorem filter_set_operations:
  assumes "filter_wf a" "filter_wf b" "same_shape a b" "salts a = salts b"
  shows "\<exists>i u. intersect_filter a b = Some i \<and> union_filter a b = Some u \<and> filter_wf i \<and> filter_wf u \<and>
    (\<forall>k. contains_key compute_indices i k = Some True \<longleftrightarrow>
       contains_key compute_indices a k = Some True \<and> contains_key compute_indices b k = Some True) \<and>
    (\<forall>k. contains_key compute_indices a k = Some True \<or> contains_key compute_indices b k = Some True \<longrightarrow>
       contains_key compute_indices u k = Some True)"
proof -
  define i where "i = a\<lparr>bit_table := map2 (\<lambda>x y. x AND y) (bit_table a) (bit_table b)\<rparr>"
  define u where "u = a\<lparr>bit_table := map2 (\<lambda>x y. x OR y) (bit_table a) (bit_table b)\<rparr>"
  note cw = combine_wf [OF assms(1-3)] and kb = same_key_bits [OF assms(3,4)]
  have wf: "filter_wf i" "filter_wf u" unfolding i_def u_def by (rule cw(2))+
  have run: "intersect_filter a b = Some i" "union_filter a b = Some u"
    using assms(3) cw(1) by (simp_all add: intersect_filter_def union_filter_def i_def u_def)
  have bits: "tbit (bit_table i) c \<longleftrightarrow> tbit (bit_table a) c \<and> tbit (bit_table b) c"
    "tbit (bit_table u) c \<longleftrightarrow> tbit (bit_table a) c \<or> tbit (bit_table b) c" if "c < 8 * length (bit_table a)" for c
    using that cw(3) tbit_map2 [of "bit_table a" "bit_table b" c "\<lambda>x y. x AND y" "(\<and>)"]
      tbit_map2 [of "bit_table a" "bit_table b" c "\<lambda>x y. x OR y" "(\<or>)"]
    by (simp_all add: i_def u_def bit_simps)
  have keys: "bf.key_bits i k = bf.key_bits a k" "bf.key_bits u k = bf.key_bits a k" for k
    by (simp_all add: i_def u_def kb(2))
  note cb = bf.contains_key_bits [OF wf(1)] bf.contains_key_bits [OF wf(2)] bf.contains_key_bits [OF assms(1)]
    bf.contains_key_bits [OF assms(2)]
  have in_tab: "\<forall>c \<in> bf.key_bits a k. c < 8 * length (bit_table a)" for k using bf.key_bits_in [OF assms(1)] by blast
  have "contains_key compute_indices i k = Some True \<longleftrightarrow>
       contains_key compute_indices a k = Some True \<and> contains_key compute_indices b k = Some True" for k
    using in_tab [of k] bits(1) by (auto simp: cb keys kb(1))
  moreover have "contains_key compute_indices u k = Some True"
    if "contains_key compute_indices a k = Some True \<or> contains_key compute_indices b k = Some True" for k
    using that in_tab [of k] bits(2) by (auto simp: cb keys kb(1))
  ultimately show ?thesis using run wf by blast
qed

theorem filter_set_operations_witness:
  "\<exists>i u. intersect_filter ex_filter (clear ex_filter) = Some i \<and> union_filter ex_filter (clear ex_filter) = Some u \<and>
    filter_wf i \<and> filter_wf u"
  using filter_set_operations [of ex_filter "clear ex_filter"] ex_filter_wf
  by (auto simp: clear_def filter_wf_def same_shape_def)

text \<open>Compressing a filter to at least half of its size keeps every member: whatever was
  reported as contained still is, although its bits have moved to other indices.\<close>

theorem compress_keeps_members:
  assumes "comp_wf f" "unat (size_of f) \<le> 2 * unat (shrunk - shrunk mod bits_per_char)"
  shows "\<exists>r f'. compress ok shrunk f = Some (r, f') \<and> comp_wf f' \<and>
    (\<forall>k. contains_key compressible_indices f k = Some True \<longrightarrow> contains_key compressible_indices f' k = Some True)"
  using assms unfolding size_of_def by (rule compress_contains)

theorem compress_keeps_members_witness:
  "\<exists>r f'. compress True 20 ex_comp = Some (r, f') \<and> comp_wf f'"
  using compress_keeps_members [OF ex_comp_wf, of 20 True]
  by (auto simp: size_of_def ex_comp_def ex_filter_def bloom_filter.defs bits_per_char_def)

text \<open>Compressing to less than half, which the range check on the percentage allows, writes
  past the end of the new table.\<close>

theorem compress_below_half_overflows:
  assumes "comp_wf f" "8 \<le> unat new" "8 dvd unat new" "2 * unat new < unat (size_of f)"
  shows "compress True new f = None"
proof -
  have z: "new mod bits_per_char = 0" using assms(3) by (simp add: unat_bits flip: unat_eq_0 mod_0_imp_dvd)
  let ?n = "unat new div 8" and ?tab = "bit_table f"
  have len: "unat (last (table_sizes f)) = 8 * length ?tab" using assms(1) by (simp add: comp_wf_def)
  have n: "unat new = 8 * ?n" using assms(3) by simp
  then have "2 * ?n < length ?tab" using assms(4) len by (simp add: size_of_def)
  then have "fold_cells (take (length ?tab - ?n) (drop ?n ?tab)) 0 (take ?n ?tab) = None"
    by (intro fold_cells_None) simp_all
  moreover have "bits_per_char \<le> new" "new < last (table_sizes f)"
    using assms(2,4) by (simp_all add: bits_per_char_def word_le_nat_alt word_less_nat_alt size_of_def)
  ultimately show ?thesis using len by (simp add: compress_def Let_def z unat_bits not_le not_less)
qed

theorem compress_below_half_overflows_witness: "compress True 8 ex_comp = None"
  using compress_below_half_overflows [OF ex_comp_wf, of 8]
  by (simp add: size_of_def ex_comp_def ex_filter_def bloom_filter.defs)

end
