(* ===== verification/Set_Type.thy ===== *)
theory Set_Type
  imports Dict_Iter Intset Numstr
begin

text \<open>
  The set type of \<^verbatim>\<open>redis/src/t_set.c\<close>: a set object is an intset or a hash table, and the
  \<^verbatim>\<open>setType*\<close> functions hide which. Strings are byte lists. \<^verbatim>\<open>None\<close> is undefined behaviour or a failed
  \<^verbatim>\<open>serverAssert\<close>, as in the components below. What the functions read of the server is the
  record \<open>set_env\<close>: \<^verbatim>\<open>dict_can_resize\<close>, \<^verbatim>\<open>server.set_max_intset_entries\<close>, the keyed hash function of
  strings, the bytes of uninitialised memory and the addresses of the tables of a hash table.
\<close>

section \<open>Data\<close>

record set_env =
  env_can_resize :: bool
  set_max_intset_entries :: nat
  sds_hash :: "byte list \<Rightarrow> ulong"
  env_junk :: "nat \<Rightarrow> byte"
  env_addr :: "ulong \<times> ulong"

type_synonym sds_dict = "(byte list, unit) dict"

datatype set_obj = OBJ_ENCODING_HT sds_dict | OBJ_ENCODING_INTSET intset

definition dictSdsKeyCompare :: "byte list \<Rightarrow> byte list \<Rightarrow> bool" where
  "dictSdsKeyCompare key1 key2 = (if length key1 \<noteq> length key2 then False else list_all2 (=) key1 key2)"

definition setDictType :: "set_env \<Rightarrow> (byte list, unit) dictType" where
  "setDictType env = \<lparr>hashFunction = sds_hash env, keyDup = None, valDup = None, keyCompare = Some dictSdsKeyCompare\<rparr>"

definition HASHTABLE_MIN_FILL :: int where "HASHTABLE_MIN_FILL = 10"

definition htNeedsResize :: "('k, 'v) dict \<Rightarrow> bool" where
  "htNeedsResize d =
     (let size = sint (dictSlots d); used = sint (dictSize d)
      in size > uint DICT_HT_INITIAL_SIZE \<and> used * 100 div size < HASHTABLE_MIN_FILL)"

definition createIntsetObject :: set_obj where
  "createIntsetObject = OBJ_ENCODING_INTSET intsetNew"

definition createSetObject :: "set_env \<Rightarrow> set_obj" where
  "createSetObject env = OBJ_ENCODING_HT (dictCreate (setDictType env))"

definition setTypeCreate :: "set_env \<Rightarrow> byte list \<Rightarrow> set_obj" where
  "setTypeCreate env value =
     (if isSdsRepresentableAsLongLong value \<noteq> None then createIntsetObject else createSetObject env)"

section \<open>Iteration\<close>

datatype setTypeIterator = HT_iter dictIterator | INTSET_iter nat
datatype set_elem = Sds "byte list" | Ll int

definition setTypeInitIterator :: "set_obj \<Rightarrow> setTypeIterator" where
  "setTypeInitIterator subject =
     (case subject of OBJ_ENCODING_HT _ \<Rightarrow> HT_iter dictGetIterator | OBJ_ENCODING_INTSET _ \<Rightarrow> INTSET_iter 0)"

definition setTypeReleaseIterator :: "set_env \<Rightarrow> set_obj \<Rightarrow> setTypeIterator \<Rightarrow> set_obj option" where
  "setTypeReleaseIterator env subject si =
     (case (subject, si) of
        (OBJ_ENCODING_HT d, HT_iter di) \<Rightarrow> map_option OBJ_ENCODING_HT (dictReleaseIterator (env_addr env) d di)
      | _ \<Rightarrow> Some subject)"

text \<open>The element (\<^const>\<open>None\<close> for the return value -1), the subject and the iterator.\<close>

definition setTypeNext :: "set_env \<Rightarrow> set_obj \<Rightarrow> setTypeIterator \<Rightarrow>
    (set_elem option \<times> set_obj \<times> setTypeIterator) option" where
  "setTypeNext env subject si =
     (case (subject, si) of
        (OBJ_ENCODING_HT d, HT_iter di) \<Rightarrow> do {
          (de, d, di) \<leftarrow> dictNext (env_addr env) d di;
          Some (map_option (\<lambda>r. Sds (entry_key (deref d r))) de, OBJ_ENCODING_HT d, HT_iter di)
        }
      | (OBJ_ENCODING_INTSET is, INTSET_iter ii) \<Rightarrow> do {
          v \<leftarrow> intsetGet is ii;
          Some (map_option Ll v, subject, INTSET_iter (ii + 1))
        }
      | _ \<Rightarrow> None)"

text \<open>\<^verbatim>\<open>setTypeNextObject\<close>: the element as a new string.\<close>

definition elem_sds :: "set_env \<Rightarrow> set_elem \<Rightarrow> byte list option" where
  "elem_sds env e = (case e of Sds s \<Rightarrow> Some s | Ll v \<Rightarrow> sdsfromlonglong (env_junk env) v)"

definition setTypeNextObject :: "set_env \<Rightarrow> set_obj \<Rightarrow> setTypeIterator \<Rightarrow>
    (byte list option \<times> set_obj \<times> setTypeIterator) option" where
  "setTypeNextObject env subject si = do {
     (e, subject, si) \<leftarrow> setTypeNext env subject si;
     (case e of
        None \<Rightarrow> Some (None, subject, si)
      | Some e \<Rightarrow> do { s \<leftarrow> elem_sds env e; Some (Some s, subject, si) })
   }"

text \<open>The loop \<^verbatim>\<open>while(setTypeNext(si,...) != -1)\<close> up to the release of the iterator: the elements in
  their order. The bodies of these loops leave the subject alone, as the fingerprint check
  demands, so that a caller is a fold over them.\<close>

partial_function (option) setTypeDrain :: "set_env \<Rightarrow> set_obj \<Rightarrow> setTypeIterator \<Rightarrow> (set_elem list \<times> set_obj) option" where
  "setTypeDrain env subject si =
     Option.bind (setTypeNext env subject si) (\<lambda>(e, subject, si).
       case e of
         None \<Rightarrow> map_option (\<lambda>o'. ([], o')) (setTypeReleaseIterator env subject si)
       | Some x \<Rightarrow> Option.bind (setTypeDrain env subject si) (\<lambda>(xs, o'). Some (x # xs, o')))"

definition setTypeElements :: "set_env \<Rightarrow> set_obj \<Rightarrow> (set_elem list \<times> set_obj) option" where
  "setTypeElements env subject = setTypeDrain env subject (setTypeInitIterator subject)"

section \<open>Size, conversion and update\<close>

definition setTypeSize :: "set_obj \<Rightarrow> nat" where
  "setTypeSize subject =
     (case subject of OBJ_ENCODING_HT d \<Rightarrow> unat (dictSize d) | OBJ_ENCODING_INTSET is \<Rightarrow> intsetLen is)"

fun convert_loop :: "set_env \<Rightarrow> set_elem list \<Rightarrow> sds_dict \<Rightarrow> sds_dict option" where
  "convert_loop env [] d = Some d"
| "convert_loop env (e # es) d =
     (case e of
        Ll intele \<Rightarrow> do {
          element \<leftarrow> sdsfromlonglong (env_junk env) intele;
          (st, d) \<leftarrow> dictAdd (env_can_resize env) d element ();
          if st = DICT_OK then convert_loop env es d else None
        }
      | Sds _ \<Rightarrow> None)"

text \<open>\<^verbatim>\<open>setTypeConvert(setobj, OBJ_ENCODING_HT)\<close>, the only conversion there is.\<close>

definition setTypeConvert :: "set_env \<Rightarrow> set_obj \<Rightarrow> set_obj option" where
  "setTypeConvert env setobj =
     (case setobj of
        OBJ_ENCODING_INTSET is \<Rightarrow> do {
          let d = dictCreate (setDictType env);
          (_, d) \<leftarrow> dictExpand d (of_nat (intsetLen is));
          (es, _) \<leftarrow> setTypeElements env setobj;
          d \<leftarrow> convert_loop env es d;
          Some (OBJ_ENCODING_HT d)
        }
      | OBJ_ENCODING_HT _ \<Rightarrow> None)"

definition setTypeAdd :: "set_env \<Rightarrow> set_obj \<Rightarrow> byte list \<Rightarrow> (bool \<times> set_obj) option" where
  "setTypeAdd env subject value =
     (case subject of
        OBJ_ENCODING_HT ht \<Rightarrow> do {
          (de, _, ht) \<leftarrow> dictAddRaw (env_can_resize env) ht value;
          (case de of
             Some de \<Rightarrow> Some (True, OBJ_ENCODING_HT (dictSetVal ht de ()))
           | None \<Rightarrow> Some (False, OBJ_ENCODING_HT ht))
        }
      | OBJ_ENCODING_INTSET is \<Rightarrow>
          (case isSdsRepresentableAsLongLong value of
             Some llval \<Rightarrow> do {
               (success, is) \<leftarrow> intsetAdd (env_junk env) is llval;
               if success then
                 (if intsetLen is > set_max_intset_entries env
                  then map_option (\<lambda>o'. (True, o')) (setTypeConvert env (OBJ_ENCODING_INTSET is))
                  else Some (True, OBJ_ENCODING_INTSET is))
               else Some (False, OBJ_ENCODING_INTSET is)
             }
           | None \<Rightarrow> do {
               obj \<leftarrow> setTypeConvert env subject;
               (case obj of
                  OBJ_ENCODING_HT ht \<Rightarrow> do {
                    (st, ht) \<leftarrow> dictAdd (env_can_resize env) ht value ();
                    if st = DICT_OK then Some (True, OBJ_ENCODING_HT ht) else None
                  }
                | OBJ_ENCODING_INTSET _ \<Rightarrow> None)
             }))"

definition setTypeRemove :: "set_env \<Rightarrow> set_obj \<Rightarrow> byte list \<Rightarrow> (bool \<times> set_obj) option" where
  "setTypeRemove env setobj value =
     (case setobj of
        OBJ_ENCODING_HT d \<Rightarrow> do {
          (st, d) \<leftarrow> dictDelete d value;
          if st = DICT_OK then
            (if htNeedsResize d then do {
               (_, d) \<leftarrow> dictResize (env_can_resize env) d;
               Some (True, OBJ_ENCODING_HT d)
             }
             else Some (True, OBJ_ENCODING_HT d))
          else Some (False, OBJ_ENCODING_HT d)
        }
      | OBJ_ENCODING_INTSET is \<Rightarrow>
          (case isSdsRepresentableAsLongLong value of
             Some llval \<Rightarrow> do {
               (success, is) \<leftarrow> intsetRemove (env_junk env) is llval;
               Some (success, OBJ_ENCODING_INTSET is)
             }
           | None \<Rightarrow> Some (False, setobj)))"

definition setTypeIsMember :: "set_obj \<Rightarrow> byte list \<Rightarrow> (bool \<times> set_obj) option" where
  "setTypeIsMember subject value =
     (case subject of
        OBJ_ENCODING_HT d \<Rightarrow> do {
          (de, d) \<leftarrow> dictFind d value;
          Some (de \<noteq> None, OBJ_ENCODING_HT d)
        }
      | OBJ_ENCODING_INTSET is \<Rightarrow>
          (case isSdsRepresentableAsLongLong value of
             Some llval \<Rightarrow> do { b \<leftarrow> intsetFind is llval; Some (b, subject) }
           | None \<Rightarrow> Some (False, subject)))"

end
