(* ===== verification/Set_Commands.thy ===== *)
theory Set_Commands
  imports Set_Type
begin

text \<open>
  The set commands of \<^verbatim>\<open>redis/src/t_set.c\<close> over a keyspace, a map from names to objects. Distinct
  keys hold distinct objects, so that the pointer comparisons of the commands are comparisons
  of keys. Keys with a time to live and the cluster slots are outside of this model; values of
  the other types are opaque; access times, hit counters and the \<^verbatim>\<open>keymiss\<close> event of the read lookups
  are left out. A command returns the reply and the server: the
  keyspace, \<^verbatim>\<open>server.dirty\<close>, the keyspace events in their order and the keys signalled as modified.
  \<^verbatim>\<open>qsort\<close> is a parameter, because the order of equal elements is unspecified.
\<close>

section \<open>Server state\<close>

datatype 'o robj = OBJ_SET set_obj | OBJ_OTHER 'o

datatype reply = ReplyWrongType | ReplyInt int | ReplySet int "byte list list"

type_synonym key = "byte list"
type_synonym 'o keyspace = "key \<rightharpoonup> 'o robj"

record 'o server =
  keyspace :: "'o keyspace"
  dirty :: int
  events :: "(string \<times> key) list"
  modified :: "key list"

type_synonym qsort = "(key \<Rightarrow> key \<Rightarrow> int) \<Rightarrow> key list \<Rightarrow> key list"

definition notifyKeyspaceEvent :: "string \<Rightarrow> key \<Rightarrow> 'o server \<Rightarrow> 'o server" where
  "notifyKeyspaceEvent ev k srv = srv\<lparr>events := events srv @ [(ev, k)]\<rparr>"

definition signalModifiedKey :: "key \<Rightarrow> 'o server \<Rightarrow> 'o server" where
  "signalModifiedKey k srv = srv\<lparr>modified := modified srv @ [k]\<rparr>"

definition setObj :: "key \<Rightarrow> set_obj \<Rightarrow> 'o server \<Rightarrow> 'o server" where
  "setObj k s srv = srv\<lparr>keyspace := (keyspace srv)(k \<mapsto> OBJ_SET s)\<rparr>"

text \<open>\<^verbatim>\<open>dbAdd\<close> asserts that the key is new.\<close>

definition dbAdd :: "key \<Rightarrow> set_obj \<Rightarrow> 'o server \<Rightarrow> 'o server option" where
  "dbAdd k s srv = (if keyspace srv k \<noteq> None then None else Some (setObj k s srv))"

definition dbDelete :: "key \<Rightarrow> 'o server \<Rightarrow> bool \<times> 'o server" where
  "dbDelete k srv = (keyspace srv k \<noteq> None, srv\<lparr>keyspace := (keyspace srv)(k := None)\<rparr>)"

definition add_dirty :: "int \<Rightarrow> 'o server \<Rightarrow> 'o server" where
  "add_dirty n srv = srv\<lparr>dirty := dirty srv + n\<rparr>"

definition addReplyBulkLongLong :: "set_env \<Rightarrow> int \<Rightarrow> byte list option" where
  "addReplyBulkLongLong env ll = do {
     (len, buf) \<leftarrow> ll2string (map (env_junk env) [0..<64]) ll;
     Some (take len buf)
   }"

section \<open>SADD, SREM, SMOVE, SISMEMBER, SCARD\<close>

fun sadd_loop :: "set_env \<Rightarrow> byte list list \<Rightarrow> set_obj \<Rightarrow> int \<Rightarrow> (int \<times> set_obj) option" where
  "sadd_loop env [] s added = Some (added, s)"
| "sadd_loop env (v # vs) s added = do {
     (b, s) \<leftarrow> setTypeAdd env s v;
     sadd_loop env vs s (if b then added + 1 else added)
   }"

definition saddCommand :: "set_env \<Rightarrow> key \<Rightarrow> byte list list \<Rightarrow> 'o server \<Rightarrow> (reply \<times> 'o server) option" where
  "saddCommand env key vals srv =
     (case vals of [] \<Rightarrow> None | v # _ \<Rightarrow> do {
        (s, srv) \<leftarrow>
          (case keyspace srv key of
             None \<Rightarrow> do {
               let s = setTypeCreate env v;
               srv \<leftarrow> dbAdd key s srv;
               Some (Some s, srv)
             }
           | Some (OBJ_SET s) \<Rightarrow> Some (Some s, srv)
           | Some (OBJ_OTHER _) \<Rightarrow> Some (None, srv));
        (case s of
           None \<Rightarrow> Some (ReplyWrongType, srv)
         | Some s \<Rightarrow> do {
             (added, s) \<leftarrow> sadd_loop env vals s 0;
             let srv = setObj key s srv;
             let srv = (if added \<noteq> 0 then notifyKeyspaceEvent ''sadd'' key (signalModifiedKey key srv) else srv);
             Some (ReplyInt added, add_dirty added srv)
           })
      })"

fun srem_loop :: "set_env \<Rightarrow> byte list list \<Rightarrow> set_obj \<Rightarrow> int \<Rightarrow> (int \<times> bool \<times> set_obj) option" where
  "srem_loop env [] s deleted = Some (deleted, False, s)"
| "srem_loop env (v # vs) s deleted = do {
     (b, s) \<leftarrow> setTypeRemove env s v;
     if b then (if setTypeSize s = 0 then Some (deleted + 1, True, s) else srem_loop env vs s (deleted + 1))
     else srem_loop env vs s deleted
   }"

definition sremCommand :: "set_env \<Rightarrow> key \<Rightarrow> byte list list \<Rightarrow> 'o server \<Rightarrow> (reply \<times> 'o server) option" where
  "sremCommand env key vals srv =
     (case keyspace srv key of
        None \<Rightarrow> Some (ReplyInt 0, srv)
      | Some (OBJ_OTHER _) \<Rightarrow> Some (ReplyWrongType, srv)
      | Some (OBJ_SET s) \<Rightarrow> do {
          (deleted, keyremoved, s) \<leftarrow> srem_loop env vals s 0;
          let srv = setObj key s srv;
          let srv = (if keyremoved then snd (dbDelete key srv) else srv);
          let srv = (if deleted \<noteq> 0 then
              (let srv = notifyKeyspaceEvent ''srem'' key (signalModifiedKey key srv);
                   srv = (if keyremoved then notifyKeyspaceEvent ''del'' key srv else srv)
               in add_dirty deleted srv)
            else srv);
          Some (ReplyInt deleted, srv)
        })"

definition smoveCommand :: "set_env \<Rightarrow> key \<Rightarrow> key \<Rightarrow> byte list \<Rightarrow> 'o server \<Rightarrow> (reply \<times> 'o server) option" where
  "smoveCommand env src dst ele srv =
     (case keyspace srv src of
        None \<Rightarrow> Some (ReplyInt 0, srv)
      | Some (OBJ_OTHER _) \<Rightarrow> Some (ReplyWrongType, srv)
      | Some (OBJ_SET srcset) \<Rightarrow>
          (case keyspace srv dst of
             Some (OBJ_OTHER _) \<Rightarrow> Some (ReplyWrongType, srv)
           | _ \<Rightarrow>
             if src = dst then do {
               (b, srcset) \<leftarrow> setTypeIsMember srcset ele;
               Some (ReplyInt (if b then 1 else 0), setObj src srcset srv)
             }
             else do {
               (b, srcset) \<leftarrow> setTypeRemove env srcset ele;
               let srv = setObj src srcset srv;
               if \<not> b then Some (ReplyInt 0, srv)
               else do {
                 let srv = notifyKeyspaceEvent ''srem'' src srv;
                 let srv = (if setTypeSize srcset = 0 then notifyKeyspaceEvent ''del'' src (snd (dbDelete src srv)) else srv);
                 (dstset, srv) \<leftarrow>
                   (case keyspace srv dst of
                      Some (OBJ_SET dstset) \<Rightarrow> Some (dstset, srv)
                    | _ \<Rightarrow> do {
                        let dstset = setTypeCreate env ele;
                        srv \<leftarrow> dbAdd dst dstset srv;
                        Some (dstset, srv)
                      });
                 let srv = add_dirty 1 (signalModifiedKey dst (signalModifiedKey src srv));
                 (b, dstset) \<leftarrow> setTypeAdd env dstset ele;
                 let srv = setObj dst dstset srv;
                 Some (ReplyInt 1, if b then notifyKeyspaceEvent ''sadd'' dst (add_dirty 1 srv) else srv)
               }
             }))"

definition sismemberCommand :: "key \<Rightarrow> byte list \<Rightarrow> 'o server \<Rightarrow> (reply \<times> 'o server) option" where
  "sismemberCommand key ele srv =
     (case keyspace srv key of
        None \<Rightarrow> Some (ReplyInt 0, srv)
      | Some (OBJ_OTHER _) \<Rightarrow> Some (ReplyWrongType, srv)
      | Some (OBJ_SET s) \<Rightarrow> do {
          (b, s) \<leftarrow> setTypeIsMember s ele;
          Some (ReplyInt (if b then 1 else 0), setObj key s srv)
        })"

definition scardCommand :: "key \<Rightarrow> 'o server \<Rightarrow> reply" where
  "scardCommand key srv =
     (case keyspace srv key of
        None \<Rightarrow> ReplyInt 0
      | Some (OBJ_OTHER _) \<Rightarrow> ReplyWrongType
      | Some (OBJ_SET s) \<Rightarrow> ReplyInt (int (setTypeSize s)))"

section \<open>SINTER\<close>

text \<open>The lookups at the start: the reply of an early return, if any.\<close>

datatype lookups = Missing | WrongType | AllSets

fun lookup_sets :: "'o keyspace \<Rightarrow> key list \<Rightarrow> lookups" where
  "lookup_sets m [] = AllSets"
| "lookup_sets m (k # ks) =
     (case m k of None \<Rightarrow> Missing | Some (OBJ_OTHER _) \<Rightarrow> WrongType | Some (OBJ_SET _) \<Rightarrow> lookup_sets m ks)"

definition set_size_at :: "'o keyspace \<Rightarrow> key \<Rightarrow> nat" where
  "set_size_at m k = (case m k of Some (OBJ_SET s) \<Rightarrow> setTypeSize s | _ \<Rightarrow> 0)"

definition qsortCompareSetsByCardinality :: "'o keyspace \<Rightarrow> key \<Rightarrow> key \<Rightarrow> int" where
  "qsortCompareSetsByCardinality m s1 s2 =
     (if set_size_at m s1 > set_size_at m s2 then 1 else if set_size_at m s1 < set_size_at m s2 then -1 else 0)"

definition qsortCompareSetsByRevCardinality :: "'o keyspace \<Rightarrow> key \<Rightarrow> key \<Rightarrow> int" where
  "qsortCompareSetsByRevCardinality m s1 s2 =
     (let first = set_size_at m s1; second = set_size_at m s2
      in if first < second then 1 else if first > second then -1 else 0)"

text \<open>The inner loop of SINTER: is the element \<open>e\<close> of the set at \<open>k0\<close> in every other set? A
  lookup in a hash table may move a bucket of it.\<close>

fun inter_test :: "set_env \<Rightarrow> key \<Rightarrow> set_elem \<Rightarrow> key list \<Rightarrow> 'o keyspace \<Rightarrow> (bool \<times> 'o keyspace) option" where
  "inter_test env k0 e [] m = Some (True, m)"
| "inter_test env k0 e (k # ks) m =
     (if k = k0 then inter_test env k0 e ks m
      else case m k of
        Some (OBJ_SET s) \<Rightarrow>
          (case e of
             Ll intobj \<Rightarrow>
               (case s of
                  OBJ_ENCODING_INTSET is \<Rightarrow> do {
                    b \<leftarrow> intsetFind is intobj;
                    if \<not> b then Some (False, m) else inter_test env k0 e ks m
                  }
                | OBJ_ENCODING_HT _ \<Rightarrow> do {
                    elesds \<leftarrow> sdsfromlonglong (env_junk env) intobj;
                    (b, s) \<leftarrow> setTypeIsMember s elesds;
                    let m = m(k \<mapsto> OBJ_SET s);
                    if \<not> b then Some (False, m) else inter_test env k0 e ks m
                  })
           | Sds elesds \<Rightarrow> do {
               (b, s) \<leftarrow> setTypeIsMember s elesds;
               let m = m(k \<mapsto> OBJ_SET s);
               if \<not> b then Some (False, m) else inter_test env k0 e ks m
             })
      | _ \<Rightarrow> None)"

text \<open>The outer loop. With a destination the elements go to \<open>dstset\<close>, else to the reply.\<close>

fun inter_loop :: "set_env \<Rightarrow> bool \<Rightarrow> key \<Rightarrow> key list \<Rightarrow> set_elem list \<Rightarrow> 'o keyspace \<Rightarrow> byte list list \<Rightarrow> set_obj \<Rightarrow>
    ('o keyspace \<times> byte list list \<times> set_obj) option" where
  "inter_loop env store k0 ks [] m out dstset = Some (m, out, dstset)"
| "inter_loop env store k0 ks (e # es) m out dstset = do {
     (b, m) \<leftarrow> inter_test env k0 e ks m;
     if b then
       (if \<not> store then do {
          x \<leftarrow> (case e of Sds elesds \<Rightarrow> Some elesds | Ll intobj \<Rightarrow> addReplyBulkLongLong env intobj);
          inter_loop env store k0 ks es m (out @ [x]) dstset
        }
        else do {
          x \<leftarrow> elem_sds env e;
          (_, dstset) \<leftarrow> setTypeAdd env dstset x;
          inter_loop env store k0 ks es m out dstset
        })
     else inter_loop env store k0 ks es m out dstset
   }"

text \<open>The common end of the STORE variants.\<close>

definition store_result :: "string \<Rightarrow> key \<Rightarrow> set_obj \<Rightarrow> 'o server \<Rightarrow> (reply \<times> 'o server) option" where
  "store_result event dstkey dstset srv = do {
     let (deleted, srv) = dbDelete dstkey srv;
     (r, srv) \<leftarrow>
       (if setTypeSize dstset > 0 then do {
          srv \<leftarrow> dbAdd dstkey dstset srv;
          Some (ReplyInt (int (setTypeSize dstset)), notifyKeyspaceEvent event dstkey srv)
        }
        else Some (ReplyInt 0, if deleted then notifyKeyspaceEvent ''del'' dstkey srv else srv));
     Some (r, add_dirty 1 (signalModifiedKey dstkey srv))
   }"

definition sinterGenericCommand :: "set_env \<Rightarrow> qsort \<Rightarrow> key list \<Rightarrow> key option \<Rightarrow> 'o server \<Rightarrow> (reply \<times> 'o server) option" where
  "sinterGenericCommand env qs setkeys dstkey srv =
     (case lookup_sets (keyspace srv) setkeys of
        Missing \<Rightarrow>
          (case dstkey of
             Some d \<Rightarrow>
               (let (deleted, srv') = dbDelete d srv
                in Some (ReplyInt 0, if deleted then add_dirty 1 (signalModifiedKey d srv') else srv'))
           | None \<Rightarrow> Some (ReplySet 0 [], srv))
      | WrongType \<Rightarrow> Some (ReplyWrongType, srv)
      | AllSets \<Rightarrow>
          (case qs (qsortCompareSetsByCardinality (keyspace srv)) setkeys of
             [] \<Rightarrow> None
           | k0 # ks \<Rightarrow>
               (case keyspace srv k0 of
                  Some (OBJ_SET s0) \<Rightarrow> do {
                    (es, _) \<leftarrow> setTypeElements env s0;
                    (m, out, dstset) \<leftarrow>
                      inter_loop env (dstkey \<noteq> None) k0 ks es (keyspace srv) [] createIntsetObject;
                    let srv = srv\<lparr>keyspace := m\<rparr>;
                    (case dstkey of
                       Some d \<Rightarrow> store_result ''sinterstore'' d dstset srv
                     | None \<Rightarrow> Some (ReplySet (int (length out)) out, srv))
                  }
                | _ \<Rightarrow> None)))"

section \<open>SUNION and SDIFF\<close>

datatype set_op = SET_OP_UNION | SET_OP_DIFF

text \<open>A key with no object is an empty set here; only a wrong type ends the command.\<close>

definition any_wrong_type :: "'o keyspace \<Rightarrow> key list \<Rightarrow> bool" where
  "any_wrong_type m ks = list_ex (\<lambda>k. case m k of Some (OBJ_OTHER _) \<Rightarrow> True | _ \<Rightarrow> False) ks"

definition algo_one_work :: "'o keyspace \<Rightarrow> key list \<Rightarrow> int" where
  "algo_one_work m ks =
     sum_list (map (\<lambda>k. if m k = None then 0 else int (set_size_at m (hd ks))) ks)"

definition algo_two_work :: "'o keyspace \<Rightarrow> key list \<Rightarrow> int" where
  "algo_two_work m ks =
     sum_list (map (\<lambda>k. if m k = None then 0 else int (set_size_at m k)) ks)"

definition diff_algo :: "'o keyspace \<Rightarrow> key list \<Rightarrow> nat" where
  "diff_algo m ks = (if algo_one_work m ks div 2 \<le> algo_two_work m ks then 1 else 2)"

text \<open>Every element of a set through \<^verbatim>\<open>setTypeNextObject\<close>.\<close>

fun elems_sds :: "set_env \<Rightarrow> set_elem list \<Rightarrow> byte list list option" where
  "elems_sds env [] = Some []"
| "elems_sds env (e # es) = do { x \<leftarrow> elem_sds env e; xs \<leftarrow> elems_sds env es; Some (x # xs) }"

definition set_strings :: "set_env \<Rightarrow> set_obj \<Rightarrow> byte list list option" where
  "set_strings env s = do { (es, _) \<leftarrow> setTypeElements env s; elems_sds env es }"

fun add_loop :: "set_env \<Rightarrow> byte list list \<Rightarrow> int \<Rightarrow> set_obj \<Rightarrow> (int \<times> set_obj) option" where
  "add_loop env [] cardinality dstset = Some (cardinality, dstset)"
| "add_loop env (x # xs) cardinality dstset = do {
     (b, dstset) \<leftarrow> setTypeAdd env dstset x;
     add_loop env xs (if b then cardinality + 1 else cardinality) dstset
   }"

fun remove_loop :: "set_env \<Rightarrow> byte list list \<Rightarrow> int \<Rightarrow> set_obj \<Rightarrow> (int \<times> set_obj) option" where
  "remove_loop env [] cardinality dstset = Some (cardinality, dstset)"
| "remove_loop env (x # xs) cardinality dstset = do {
     (b, dstset) \<leftarrow> setTypeRemove env dstset x;
     remove_loop env xs (if b then cardinality - 1 else cardinality) dstset
   }"

fun union_loop :: "set_env \<Rightarrow> 'o keyspace \<Rightarrow> key list \<Rightarrow> int \<Rightarrow> set_obj \<Rightarrow> (int \<times> set_obj) option" where
  "union_loop env m [] cardinality dstset = Some (cardinality, dstset)"
| "union_loop env m (k # ks) cardinality dstset =
     (case m k of
        Some (OBJ_SET s) \<Rightarrow> do {
          xs \<leftarrow> set_strings env s;
          (cardinality, dstset) \<leftarrow> add_loop env xs cardinality dstset;
          union_loop env m ks cardinality dstset
        }
      | _ \<Rightarrow> union_loop env m ks cardinality dstset)"

text \<open>Algorithm 1: is \<open>ele\<close> in none of the other sets?\<close>

fun diff1_test :: "key \<Rightarrow> byte list \<Rightarrow> key list \<Rightarrow> 'o keyspace \<Rightarrow> (bool \<times> 'o keyspace) option" where
  "diff1_test k0 ele [] m = Some (True, m)"
| "diff1_test k0 ele (k # ks) m =
     (case m k of
        Some (OBJ_SET s) \<Rightarrow>
          if k = k0 then Some (False, m)
          else do {
            (b, s) \<leftarrow> setTypeIsMember s ele;
            let m = m(k \<mapsto> OBJ_SET s);
            if b then Some (False, m) else diff1_test k0 ele ks m
          }
      | _ \<Rightarrow> diff1_test k0 ele ks m)"

fun diff1_loop :: "set_env \<Rightarrow> key \<Rightarrow> key list \<Rightarrow> byte list list \<Rightarrow> 'o keyspace \<Rightarrow> int \<Rightarrow> set_obj \<Rightarrow>
    ('o keyspace \<times> int \<times> set_obj) option" where
  "diff1_loop env k0 ks [] m cardinality dstset = Some (m, cardinality, dstset)"
| "diff1_loop env k0 ks (x # xs) m cardinality dstset = do {
     (b, m) \<leftarrow> diff1_test k0 x ks m;
     if b then do {
       (_, dstset) \<leftarrow> setTypeAdd env dstset x;
       diff1_loop env k0 ks xs m (cardinality + 1) dstset
     }
     else diff1_loop env k0 ks xs m cardinality dstset
   }"

text \<open>Algorithm 2 after its first round, which adds the elements of the first set.\<close>

fun diff2_loop :: "set_env \<Rightarrow> 'o keyspace \<Rightarrow> key list \<Rightarrow> int \<Rightarrow> set_obj \<Rightarrow> (int \<times> set_obj) option" where
  "diff2_loop env m [] cardinality dstset = Some (cardinality, dstset)"
| "diff2_loop env m (k # ks) cardinality dstset =
     (case m k of
        Some (OBJ_SET s) \<Rightarrow> do {
          xs \<leftarrow> set_strings env s;
          (cardinality, dstset) \<leftarrow> remove_loop env xs cardinality dstset;
          if cardinality = 0 then Some (cardinality, dstset) else diff2_loop env m ks cardinality dstset
        }
      | _ \<Rightarrow> diff2_loop env m ks cardinality dstset)"

text \<open>The operation itself: the destination set and its cardinality, and the keyspace, in which
  lookups may have moved buckets.\<close>

definition set_op_dst :: "set_env \<Rightarrow> qsort \<Rightarrow> set_op \<Rightarrow> key \<Rightarrow> key list \<Rightarrow> 'o keyspace \<Rightarrow>
    ('o keyspace \<times> int \<times> set_obj) option" where
  "set_op_dst env qs op k0 ks m =
     (case op of
        SET_OP_UNION \<Rightarrow> do {
          (n, dst) \<leftarrow> union_loop env m (k0 # ks) 0 createIntsetObject;
          Some (m, n, dst)
        }
      | SET_OP_DIFF \<Rightarrow>
          (case m k0 of
             Some (OBJ_SET s0) \<Rightarrow> do {
               xs \<leftarrow> set_strings env s0;
               if diff_algo m (k0 # ks) = 1 then
                 let ks = (if length (k0 # ks) > 1 then qs (qsortCompareSetsByRevCardinality m) ks else ks)
                 in diff1_loop env k0 ks xs m 0 createIntsetObject
               else do {
                 (n, dst) \<leftarrow> add_loop env xs 0 createIntsetObject;
                 (n, dst) \<leftarrow> (if n = 0 then Some (n, dst) else diff2_loop env m ks n dst);
                 Some (m, n, dst)
               }
             }
           | _ \<Rightarrow> Some (m, 0, createIntsetObject)))"

definition sunionDiffGenericCommand :: "set_env \<Rightarrow> qsort \<Rightarrow> key list \<Rightarrow> key option \<Rightarrow> set_op \<Rightarrow> 'o server \<Rightarrow>
    (reply \<times> 'o server) option" where
  "sunionDiffGenericCommand env qs setkeys dstkey op srv =
     (case setkeys of
        [] \<Rightarrow> None
      | k0 # ks \<Rightarrow>
          if any_wrong_type (keyspace srv) setkeys then Some (ReplyWrongType, srv)
          else do {
            (m, cardinality, dstset) \<leftarrow> set_op_dst env qs op k0 ks (keyspace srv);
            let srv = srv\<lparr>keyspace := m\<rparr>;
            (case dstkey of
               None \<Rightarrow> do {
                 xs \<leftarrow> set_strings env dstset;
                 Some (ReplySet cardinality xs, srv)
               }
             | Some d \<Rightarrow>
                 store_result (case op of SET_OP_UNION \<Rightarrow> ''sunionstore'' | SET_OP_DIFF \<Rightarrow> ''sdiffstore'') d dstset srv)
          })"

definition sinterCommand :: "set_env \<Rightarrow> qsort \<Rightarrow> key list \<Rightarrow> 'o server \<Rightarrow> (reply \<times> 'o server) option" where
  "sinterCommand env qs argv srv = sinterGenericCommand env qs argv None srv"

definition sinterstoreCommand :: "set_env \<Rightarrow> qsort \<Rightarrow> key \<Rightarrow> key list \<Rightarrow> 'o server \<Rightarrow> (reply \<times> 'o server) option" where
  "sinterstoreCommand env qs dst argv srv = sinterGenericCommand env qs argv (Some dst) srv"

definition sunionCommand :: "set_env \<Rightarrow> qsort \<Rightarrow> key list \<Rightarrow> 'o server \<Rightarrow> (reply \<times> 'o server) option" where
  "sunionCommand env qs argv srv = sunionDiffGenericCommand env qs argv None SET_OP_UNION srv"

definition sunionstoreCommand :: "set_env \<Rightarrow> qsort \<Rightarrow> key \<Rightarrow> key list \<Rightarrow> 'o server \<Rightarrow> (reply \<times> 'o server) option" where
  "sunionstoreCommand env qs dst argv srv = sunionDiffGenericCommand env qs argv (Some dst) SET_OP_UNION srv"

definition sdiffCommand :: "set_env \<Rightarrow> qsort \<Rightarrow> key list \<Rightarrow> 'o server \<Rightarrow> (reply \<times> 'o server) option" where
  "sdiffCommand env qs argv srv = sunionDiffGenericCommand env qs argv None SET_OP_DIFF srv"

definition sdiffstoreCommand :: "set_env \<Rightarrow> qsort \<Rightarrow> key \<Rightarrow> key list \<Rightarrow> 'o server \<Rightarrow> (reply \<times> 'o server) option" where
  "sdiffstoreCommand env qs dst argv srv = sunionDiffGenericCommand env qs argv (Some dst) SET_OP_DIFF srv"

end
