(* ===== verification/Set_Spec.thy ===== *)
theory Set_Spec
  imports Prelude
begin

text \<open>
  The interface of a set implementation with mutating operations that may fail, and what a
  client that adds, removes or looks up a whole list of elements gets from it. The bound
  \<open>cap\<close> is the number of elements an implementation has room for.
\<close>

section \<open>Loops over elements\<close>

text \<open>A loop that applies an operation to every element and counts its successes.\<close>

fun count_loop :: "('s \<Rightarrow> 'a \<Rightarrow> (bool \<times> 's) option) \<Rightarrow> 'a list \<Rightarrow> 's \<Rightarrow> (nat \<times> 's) option" where
  "count_loop f [] s = Some (0, s)"
| "count_loop f (x # xs) s = do {
     (b, s) \<leftarrow> f s x;
     (n, s) \<leftarrow> count_loop f xs s;
     Some (if b then Suc n else n, s)
   }"

section \<open>The interface\<close>

locale set_impl =
  fixes inv :: "'s \<Rightarrow> bool" and els :: "'s \<Rightarrow> 'a set" and ok :: "'a \<Rightarrow> bool" and cap :: nat
    and add :: "'s \<Rightarrow> 'a \<Rightarrow> (bool \<times> 's) option"
    and remove :: "'s \<Rightarrow> 'a \<Rightarrow> (bool \<times> 's) option"
    and member :: "'s \<Rightarrow> 'a \<Rightarrow> (bool \<times> 's) option"
  assumes els_finite: "inv s \<Longrightarrow> finite (els s)"
    and add: "inv s \<Longrightarrow> card (els s) < cap \<Longrightarrow> ok x \<Longrightarrow>
      \<exists>s'. add s x = Some (x \<notin> els s, s') \<and> inv s' \<and> els s' = insert x (els s)"
    and remove: "inv s \<Longrightarrow> card (els s) \<le> cap \<Longrightarrow> ok x \<Longrightarrow>
      \<exists>s'. remove s x = Some (x \<in> els s, s') \<and> inv s' \<and> els s' = els s - {x}"
    and member: "inv s \<Longrightarrow> card (els s) \<le> cap \<Longrightarrow> ok x \<Longrightarrow>
      \<exists>s'. member s x = Some (x \<in> els s, s') \<and> inv s' \<and> els s' = els s"
begin

lemma add_list:
  "inv s \<Longrightarrow> \<forall>x \<in> set xs. ok x \<Longrightarrow> card (els s) + length xs \<le> cap \<Longrightarrow>
   \<exists>s'. count_loop add xs s = Some (card (els s \<union> set xs) - card (els s), s') \<and> inv s' \<and> els s' = els s \<union> set xs"
proof (induction xs arbitrary: s)
  case (Cons x xs)
  then obtain s1 where s1: "add s x = Some (x \<notin> els s, s1)" "inv s1" "els s1 = insert x (els s)"
    using add [of s x] by auto
  have c1: "card (els s1) \<le> Suc (card (els s))" "card (els s) \<le> card (els s1)"
    using s1(3) els_finite [OF Cons.prems(1)] by (auto simp: card_insert_if)
  then obtain s2 where s2: "count_loop add xs s1 = Some (card (els s1 \<union> set xs) - card (els s1), s2)" "inv s2"
    "els s2 = els s1 \<union> set xs"
    using Cons.IH [OF s1(2)] Cons.prems by auto
  have "card (els s1) \<le> card (els s1 \<union> set xs)" using els_finite [OF s1(2)] by (intro card_mono) auto
  moreover have "els s \<union> set (x # xs) = els s1 \<union> set xs" using s1(3) by auto
  moreover have "card (els s1) = (if x \<in> els s then card (els s) else Suc (card (els s)))"
    using s1(3) els_finite [OF Cons.prems(1)] by (simp add: card_insert_if)
  ultimately show ?case using s1(1) s2 by (cases "x \<in> els s") (simp_all add: Suc_diff_le)
qed simp

lemma remove_list:
  "inv s \<Longrightarrow> \<forall>x \<in> set xs. ok x \<Longrightarrow> card (els s) \<le> cap \<Longrightarrow>
   \<exists>s'. count_loop remove xs s = Some (card (els s) - card (els s - set xs), s') \<and> inv s' \<and> els s' = els s - set xs"
proof (induction xs arbitrary: s)
  case (Cons x xs)
  then obtain s1 where s1: "remove s x = Some (x \<in> els s, s1)" "inv s1" "els s1 = els s - {x}"
    using remove [of s x] by auto
  have fin: "finite (els s)" by (rule els_finite [OF Cons.prems(1)])
  have "card (els s1) \<le> cap" using s1(3) Cons.prems(3) card_Diff1_le [of "els s" x] by simp
  then obtain s2 where s2: "count_loop remove xs s1 = Some (card (els s1) - card (els s1 - set xs), s2)" "inv s2"
    "els s2 = els s1 - set xs"
    using Cons.IH [OF s1(2)] Cons.prems(2) by auto
  have le: "card (els s1 - set xs) \<le> card (els s1)" using s1(3) fin by (intro card_mono) auto
  have eq: "els s - set (x # xs) = els s1 - set xs" using s1(3) by auto
  have "card (els s) = (if x \<in> els s then Suc (card (els s1)) else card (els s1))"
    unfolding s1(3) using card_Suc_Diff1 [OF fin, of x] by auto
  then have "card (els s) - card (els s - set (x # xs)) =
      (if x \<in> els s then Suc (card (els s1) - card (els s1 - set xs)) else card (els s1) - card (els s1 - set xs))"
    using le unfolding eq by (simp add: Suc_diff_le)
  then show ?case unfolding eq using s1(1) s2 by simp
qed simp

end

end
