(* ===== verification/Set_Correct.thy ===== *)
theory Set_Correct
  imports Set_Type Set_Spec Intset_Correct Numstr_Correct
begin

text \<open>
  The set type is a set of strings, whichever encoding the object has: \<open>set_els\<close> is the set an
  object stands for, and \<^verbatim>\<open>setTypeAdd\<close>, \<^verbatim>\<open>setTypeRemove\<close> and \<^verbatim>\<open>setTypeIsMember\<close> meet the interface
  \<open>set_impl\<close>, the upgrade of an intset to a hash table included. One value stays
  outside: \<^verbatim>\<open>sdsfromlonglong\<close> overflows on \<^verbatim>\<open>LLONG_MIN\<close>, so that an intset that holds it cannot be
  converted or listed.
\<close>

section \<open>Hash tables of strings\<close>

definition set_keys :: "sds_dict \<Rightarrow> byte list set" where
  "set_keys d = entry_key ` set (dict_entries d)"

definition ht_ok :: "set_env \<Rightarrow> sds_dict \<Rightarrow> bool" where
  "ht_ok env d \<longleftrightarrow> dict_inv d \<and> dict_type d = setDictType env"

lemma keq_set [simp]: "keq (setDictType env) a b \<longleftrightarrow> a = b"
  by (auto simp: keq_def dictCompareKeys_def setDictType_def dictSdsKeyCompare_def list.rel_eq)

lemma setDictType_wf: "wf_type (setDictType env)"
  unfolding wf_type_def keq_set by (simp add: setDictType_def dictSetKey_def)

lemma ht_ok_map: "ht_ok env d \<Longrightarrow> dict_map d k = None \<longleftrightarrow> k \<notin> set_keys d"
  by (auto simp: ht_ok_def dict_map_absent set_keys_def)

lemma set_keys_map: "ht_ok env d \<Longrightarrow> set_keys d = {k. dict_map d k \<noteq> None}"
  by (simp add: ht_ok_map)

lemma set_keys_card: "ht_ok env d \<Longrightarrow> card (set_keys d) = length (dict_entries d)"
proof -
  assume ok: "ht_ok env d"
  then have "distinct (key_classes (setDictType env) (dict_entries d))"
    by (auto simp: ht_ok_def dict_inv_def)
  then have "distinct (map entry_key (dict_entries d))"
    by (simp add: key_classes_def distinct_map inj_on_def kclass_eq_iff [OF setDictType_wf])
  then show ?thesis
    unfolding set_keys_def by (metis distinct_card length_map set_map)
qed

lemma set_keys_finite [simp]: "finite (set_keys d)"
  by (simp add: set_keys_def)

lemma ht_ok_small: "ht_ok env d \<Longrightarrow> card (set_keys d) < 2 ^ 58 \<Longrightarrow> dict_small d"
  by (simp add: dict_small_def set_keys_card)

lemma same_content_keys: "same_content d d' \<Longrightarrow> set_keys d' = set_keys d"
  unfolding same_content_def set_keys_def by (metis set_mset_mset)

lemma ht_ok_same: "ht_ok env d \<Longrightarrow> dict_inv d' \<Longrightarrow> same_content d d' \<Longrightarrow> ht_ok env d' \<and> set_keys d' = set_keys d"
  using same_content_keys [of d d'] by (simp add: ht_ok_def same_content_def)

lemma dictCreate_ok: "ht_ok env (dictCreate (setDictType env))" "set_keys (dictCreate (setDictType env)) = {}"
  by (simp_all add: ht_ok_def dictCreate_def dict_inv_def setDictType_wf set_keys_def dict_entries_def
      key_classes_def dictIsRehashing_def)

lemma ht_add_raw:
  assumes ok: "ht_ok env d" and c: "card (set_keys d) < 2 ^ 58"
  shows "if k \<in> set_keys d
    then \<exists>r d'. dictAddRaw b d k = Some (None, Some r, d') \<and> ht_ok env d' \<and> set_keys d' = set_keys d
    else \<exists>r d'. dictAddRaw b d k = Some (Some r, None, d') \<and> ht_ok env (dictSetVal d' r v) \<and>
      set_keys (dictSetVal d' r v) = insert k (set_keys d)"
proof -
  have inv: "dict_inv d" and ty: "dict_type d = setDictType env" using ok by (simp_all add: ht_ok_def)
  from inv ht_ok_small [OF ok c] show ?thesis
  proof (cases rule: dictAddRaw_cases [of d b k])
    case (added n i d')
    have "k \<notin> set_keys d" using added(8) ty by (auto simp: set_keys_def)
    note sv = dictSetVal_correct [OF added(2,3), of v]
    note nw = new_entry_map [OF inv added(2,4,6,7)]
    have ok': "ht_ok env (dictSetVal d' (n, i, 0) v)" using sv(1,2) added(4) ty by (simp add: ht_ok_def)
    have "set_keys (dictSetVal d' (n, i, 0) v) = insert k (set_keys d)"
      unfolding set_keys_map [OF ok'] set_keys_map [OF ok] using sv(5) nw ty added(4) by auto
    with ok' \<open>k \<notin> set_keys d\<close> added(1) show ?thesis by auto
  next
    case (present r d')
    have "entry_key (deref d' r) \<in> set_keys d'"
      using dict_entries_ref [OF present(4,2)] by (auto simp: set_keys_def)
    then have "k \<in> set_keys d" using present(5) same_content_keys [OF present(3)] ty by simp
    with present(1) ht_ok_same [OF ok present(2,3)] show ?thesis by (cases r) auto
  qed
qed

lemma ht_add:
  assumes ok: "ht_ok env d" and c: "card (set_keys d) < 2 ^ 58" and k: "k \<notin> set_keys d"
  shows "\<exists>d'. dictAdd b d k () = Some (DICT_OK, d') \<and> ht_ok env d' \<and> set_keys d' = insert k (set_keys d)"
  using ht_add_raw [OF ok c, of k b "()"] k by (auto simp: dictAdd_def)

lemma ht_delete:
  assumes ok: "ht_ok env d" and c: "card (set_keys d) < 2 ^ 58"
  shows "\<exists>d'. dictDelete d k = Some (if k \<in> set_keys d then DICT_OK else DICT_ERR, d') \<and> ht_ok env d' \<and>
    set_keys d' = set_keys d - {k}"
proof -
  have inv: "dict_inv d" and ty: "dict_type d = setDictType env" using ok by (simp_all add: ht_ok_def)
  obtain he d' where d': "dictGenericDelete d k = Some (he, d')" "dict_inv d'" "dict_type d' = dict_type d"
    "map_option entry_val he = dict_map d k"
    "\<forall>k'. dict_map d' k' = (if keq (dict_type d) k' k then None else dict_map d k')"
    using dictGenericDelete_correct [OF inv ht_ok_small [OF ok c], of k] by blast
  have ok': "ht_ok env d'" using d'(2,3) ty by (simp add: ht_ok_def)
  have "set_keys d' = set_keys d - {k}"
    unfolding set_keys_map [OF ok'] set_keys_map [OF ok] using d'(5) ty by auto
  moreover have "he = None \<longleftrightarrow> k \<notin> set_keys d"
    using d'(4) ht_ok_map [OF ok] by (metis map_option_is_None)
  ultimately show ?thesis using d'(1) ok' by (auto simp: dictDelete_def split: option.split)
qed

lemma ht_find:
  assumes ok: "ht_ok env d" and c: "card (set_keys d) < 2 ^ 58"
  shows "\<exists>r d'. dictFind d k = Some (r, d') \<and> (r \<noteq> None \<longleftrightarrow> k \<in> set_keys d) \<and> ht_ok env d' \<and> set_keys d' = set_keys d"
proof -
  have inv: "dict_inv d" using ok by (simp add: ht_ok_def)
  from dictFind_correct [OF inv ht_ok_small [OF ok c], of k] obtain r d' where
    r: "dictFind d k = Some (r, d')" "dict_inv d'" "same_content d d'"
    "case r of None \<Rightarrow> dict_map d k = None | Some ref \<Rightarrow> dict_map d k = Some (entry_val (deref d' ref))"
    by (auto split: option.splits)
  have "r \<noteq> None \<longleftrightarrow> k \<in> set_keys d" using r(4) ht_ok_map [OF ok, of k] by (cases r) auto
  with r(1) ht_ok_same [OF ok r(2,3)] show ?thesis by blast
qed

lemma ht_resize:
  assumes ok: "ht_ok env d" and c: "card (set_keys d) < 2 ^ 58"
  shows "\<exists>st d'. dictResize b d = Some (st, d') \<and> ht_ok env d' \<and> set_keys d' = set_keys d"
proof (cases "\<not> b \<or> dictIsRehashing d")
  case True
  then show ?thesis using ok by (simp add: dictResize_def)
next
  case False
  have inv: "dict_inv d" using ok by (simp add: ht_ok_def)
  define m where "m = (if ht_used (ht0 d) < DICT_HT_INITIAL_SIZE then DICT_HT_INITIAL_SIZE else ht_used (ht0 d))"
  have "unat (ht_used (ht0 d)) \<le> length (dict_entries d)"
    using inv by (simp add: dict_inv_def ht_inv_def dict_entries_def)
  then have "unat m \<le> 2 ^ 60"
    using ht_ok_small [OF ok c] by (simp add: m_def DICT_HT_INITIAL_SIZE_def dict_small_def)
  from dictExpand_Some [OF inv this] False show ?thesis
    unfolding dictResize_def m_def Let_def by (auto dest: ht_ok_same [OF ok])
qed

section \<open>Set objects\<close>

definition set_els :: "set_obj \<Rightarrow> byte list set" where
  "set_els subject = (case subject of OBJ_ENCODING_HT d \<Rightarrow> set_keys d | OBJ_ENCODING_INTSET is \<Rightarrow> int_str ` is_set is)"

definition set_inv :: "set_env \<Rightarrow> set_obj \<Rightarrow> bool" where
  "set_inv env subject = (case subject of
       OBJ_ENCODING_HT d \<Rightarrow> ht_ok env d
     | OBJ_ENCODING_INTSET is \<Rightarrow> is_inv is \<and> LLONG_MIN \<notin> is_set is)"

definition set_cap :: nat where "set_cap = 2 ^ 28 - 2"

definition sds_ok :: "byte list \<Rightarrow> bool" where
  "sds_ok s \<longleftrightarrow> s \<noteq> int_str LLONG_MIN"

lemma set_els_simps [simp]:
  "set_els (OBJ_ENCODING_HT d) = set_keys d" "set_els (OBJ_ENCODING_INTSET is) = int_str ` is_set is"
  by (simp_all add: set_els_def)

lemma set_inv_simps [simp]:
  "set_inv env (OBJ_ENCODING_HT d) = ht_ok env d"
  "set_inv env (OBJ_ENCODING_INTSET is) \<longleftrightarrow> is_inv is \<and> LLONG_MIN \<notin> is_set is"
  by (simp_all add: set_inv_def)

lemma is_set_fits: "is_inv is \<Longrightarrow> x \<in> is_set is \<Longrightarrow> fits 8 x"
proof -
  assume "is_inv is" "x \<in> is_set is"
  then obtain vs where "rep is vs" "x \<in> set vs" by (metis is_invE)
  then show ?thesis by (auto simp: rep_def fits_def)
qed

lemma is_set_finite [simp]: "finite (is_set is)"
  by (simp add: is_set_def)

lemma int_str_card: "is_inv is \<Longrightarrow> card (int_str ` is_set is) = card (is_set is)"
  by (intro card_image inj_onI) (metis int_str_inject is_set_fits)

lemma int_str_mem: "is_inv is \<Longrightarrow> fits 8 x \<Longrightarrow> int_str x \<in> int_str ` is_set is \<longleftrightarrow> x \<in> is_set is"
  by (metis (no_types, lifting) image_iff int_str_inject is_set_fits)

lemma set_els_finite: "finite (set_els s)"
  by (cases s) simp_all

lemma representable: "isSdsRepresentableAsLongLong s = Some v \<longleftrightarrow> fits 8 v \<and> s = int_str v"
  by (simp add: isSdsRepresentableAsLongLong_def string2ll_iff)

lemma not_representable: "isSdsRepresentableAsLongLong s = None \<Longrightarrow> is_inv is \<Longrightarrow> s \<notin> int_str ` is_set is"
  by (metis (no_types, lifting) image_iff is_set_fits option.distinct(1) representable)

lemma setTypeCreate_ok: "set_inv env (setTypeCreate env v)" "set_els (setTypeCreate env v) = {}"
  by (simp_all add: setTypeCreate_def createIntsetObject_def createSetObject_def intsetNew_inv dictCreate_ok)

lemma setTypeSize_card: "set_inv env s \<Longrightarrow> card (set_els s) \<le> set_cap \<Longrightarrow> setTypeSize s = card (set_els s)"
proof (cases s)
  case (OBJ_ENCODING_HT d)
  assume a: "set_inv env s" "card (set_els s) \<le> set_cap"
  then have l: "card (set_keys d) = length (dict_entries d)" "length (dict_entries d) < 2 ^ 63"
    using OBJ_ENCODING_HT set_keys_card [of env d] by (simp_all add: set_cap_def)
  have "dict_inv d" using a OBJ_ENCODING_HT by (simp add: ht_ok_def)
  then have u: "unat (ht_used (ht0 d)) + unat (ht_used (ht1 d)) = length (dict_entries d)"
    by (simp add: dict_inv_def ht_inv_def dict_entries_def)
  then have "unat (ht_used (ht0 d) + ht_used (ht1 d)) = length (dict_entries d)"
    using l(2) by (subst unat_plus_if_size) (simp add: word_size)
  with l OBJ_ENCODING_HT show ?thesis by (simp add: setTypeSize_def dictSize_def)
next
  case (OBJ_ENCODING_INTSET "is")
  assume "set_inv env s"
  with OBJ_ENCODING_INTSET show ?thesis by (simp add: setTypeSize_def intsetLen_def int_str_card is_length_card)
qed

subsection \<open>Iteration\<close>

text \<open>The elements an iteration delivers, as values and as strings.\<close>

definition set_elems :: "set_obj \<Rightarrow> set_elem list" where
  "set_elems subject = (case subject of
       OBJ_ENCODING_HT d \<Rightarrow> map (\<lambda>e. Sds (entry_key e)) (dict_entries d)
     | OBJ_ENCODING_INTSET is \<Rightarrow> map Ll (sorted_list_of_set (is_set is)))"

definition elem_str :: "set_elem \<Rightarrow> byte list" where
  "elem_str e = (case e of Sds s \<Rightarrow> s | Ll v \<Rightarrow> int_str v)"

lemma setTypeDrain_HT:
  "dictDrain (env_addr env) d it = Some (es, d', it') \<Longrightarrow> dictReleaseIterator (env_addr env) d' it' = Some d'' \<Longrightarrow>
   setTypeDrain env (OBJ_ENCODING_HT d) (HT_iter it) = Some (map (\<lambda>e. Sds (entry_key e)) es, OBJ_ENCODING_HT d'')"
proof (induction es arbitrary: d it)
  case Nil
  then show ?case
    by (subst (asm) dictDrain.simps, subst setTypeDrain.simps)
      (auto simp: bind_eq_Some_conv setTypeNext_def setTypeReleaseIterator_def split: option.splits)
next
  case (Cons e es)
  from Cons.prems(1) obtain r d1 it1 where nx: "dictNext (env_addr env) d it = Some (Some r, d1, it1)"
    "deref d1 r = e" "dictDrain (env_addr env) d1 it1 = Some (es, d', it')"
    by (subst (asm) dictDrain.simps) (auto simp: bind_eq_Some_conv split: option.splits)
  from Cons.IH [OF nx(3) Cons.prems(2)] nx(1,2) show ?case
    by (subst setTypeDrain.simps) (simp add: setTypeNext_def)
qed

lemma setTypeDrain_INTSET:
  assumes "is_inv is"
  shows "setTypeDrain env (OBJ_ENCODING_INTSET is) (INTSET_iter i) =
    Some (map Ll (drop i (sorted_list_of_set (is_set is))), OBJ_ENCODING_INTSET is)"
proof (induction "card (is_set is) - i" arbitrary: i)
  case 0
  then show ?case
    by (subst setTypeDrain.simps) (simp add: setTypeNext_def setTypeReleaseIterator_def intsetGet_nth [OF assms])
next
  case (Suc n)
  then have i: "i < card (is_set is)" by simp
  have "setTypeDrain env (OBJ_ENCODING_INTSET is) (INTSET_iter (i + 1)) =
      Some (map Ll (drop (i + 1) (sorted_list_of_set (is_set is))), OBJ_ENCODING_INTSET is)"
    using Suc by (intro Suc(1)) simp
  then show ?case
    using i by (subst setTypeDrain.simps) (simp add: setTypeNext_def intsetGet_nth [OF assms] flip: Cons_nth_drop_Suc)
qed

lemma setTypeElements_all: "set_inv env s \<Longrightarrow> setTypeElements env s = Some (set_elems s, s)"
proof (cases s)
  case (OBJ_ENCODING_HT d)
  assume "set_inv env s"
  then have "dict_inv d" using OBJ_ENCODING_HT by (simp add: ht_ok_def)
  from drain_release [OF this, of dictGetIterator "env_addr env"] setTypeDrain_HT OBJ_ENCODING_HT show ?thesis
    unfolding setTypeElements_def set_elems_def setTypeInitIterator_def by fastforce
next
  case (OBJ_ENCODING_INTSET "is")
  assume "set_inv env s"
  then show ?thesis using OBJ_ENCODING_INTSET
    by (simp add: setTypeElements_def set_elems_def setTypeInitIterator_def setTypeDrain_INTSET)
qed

lemma elem_str_image: "elem_str ` set (set_elems s) = set_els s"
  by (cases s) (auto simp: set_elems_def elem_str_def set_keys_def image_image)

lemma elem_str_distinct: "set_inv env s \<Longrightarrow> distinct (map elem_str (set_elems s))"
proof (rule card_distinct)
  assume inv: "set_inv env s"
  have "length (set_elems s) = card (set_els s)"
    using inv by (cases s) (simp_all add: set_elems_def set_keys_card int_str_card)
  then show "card (set (map elem_str (set_elems s))) = length (map elem_str (set_elems s))"
    by (simp add: elem_str_image)
qed

lemma elem_sds_str: "set_inv env s \<Longrightarrow> e \<in> set (set_elems s) \<Longrightarrow> elem_sds env e = Some (elem_str e)"
  by (cases s) (auto simp: set_elems_def elem_sds_def elem_str_def intro!: sdsfromlonglong_text is_set_fits)

subsection \<open>Conversion\<close>

lemma convert_loop_adds:
  assumes "ht_ok env d" "card (set_keys d) + length vs < 2 ^ 58"
    "\<forall>v \<in> set vs. fits 8 v \<and> v \<noteq> LLONG_MIN" "distinct vs" "int_str ` set vs \<inter> set_keys d = {}"
  shows "\<exists>d'. convert_loop env (map Ll vs) d = Some d' \<and> ht_ok env d' \<and> set_keys d' = set_keys d \<union> int_str ` set vs"
  using assms
proof (induction vs arbitrary: d)
  case (Cons v vs)
  have v: "sdsfromlonglong (env_junk env) v = Some (int_str v)"
    using Cons.prems(3) by (simp add: sdsfromlonglong_text)
  obtain d1 where d1: "dictAdd (env_can_resize env) d (int_str v) () = Some (DICT_OK, d1)" "ht_ok env d1"
    "set_keys d1 = insert (int_str v) (set_keys d)"
    using ht_add [OF Cons.prems(1), of "int_str v" "env_can_resize env"] Cons.prems(2,5) by auto
  have "int_str v \<notin> int_str ` set vs" using Cons.prems(3,4) int_str_inject [of v] by auto
  then obtain d2 where "convert_loop env (map Ll vs) d1 = Some d2" "ht_ok env d2"
    "set_keys d2 = set_keys d1 \<union> int_str ` set vs"
    using Cons.IH [OF d1(2)] Cons.prems(2-) d1(3) by (auto simp: card_insert_if)
  then show ?case using v d1 by auto
qed auto

lemma setTypeConvert_keeps:
  assumes "is_inv is" "LLONG_MIN \<notin> is_set is" "card (is_set is) \<le> Suc set_cap"
  shows "\<exists>d. setTypeConvert env (OBJ_ENCODING_INTSET is) = Some (OBJ_ENCODING_HT d) \<and> ht_ok env d \<and>
    set_keys d = int_str ` is_set is"
proof -
  define d0 where "d0 = dictCreate (setDictType env)"
  note d0 = dictCreate_ok [of env, folded d0_def]
  have "unat (of_nat (intsetLen is) :: ulong) \<le> 2 ^ 60"
    using assms(3) by (simp add: intsetLen_def is_length_card [OF assms(1)] set_cap_def unat_of_nat)
  then obtain st d1 where d1: "dictExpand d0 (of_nat (intsetLen is)) = Some (st, d1)" "dict_inv d1" "same_content d0 d1"
    using dictExpand_Some d0(1) unfolding ht_ok_def by metis
  note d1' = ht_ok_same [OF d0(1) d1(2,3)]
  have "\<forall>v \<in> set (sorted_list_of_set (is_set is)). fits 8 v \<and> v \<noteq> LLONG_MIN"
    using assms(1,2) is_set_fits by auto
  then obtain d2 where "convert_loop env (map Ll (sorted_list_of_set (is_set is))) d1 = Some d2" "ht_ok env d2"
    "set_keys d2 = int_str ` is_set is"
    using convert_loop_adds [of env d1 "sorted_list_of_set (is_set is)"] d1' d0(2) assms(3) by (auto simp: set_cap_def)
  then show ?thesis
    using d1(1) assms(1,2) by (simp add: setTypeConvert_def setTypeElements_all set_elems_def flip: d0_def)
qed

section \<open>The operations implement sets\<close>

lemma setTypeAdd_HT:
  assumes "ht_ok env d" "card (set_keys d) < 2 ^ 58"
  shows "\<exists>s'. setTypeAdd env (OBJ_ENCODING_HT d) v = Some (v \<notin> set_keys d, s') \<and> set_inv env s' \<and>
    set_els s' = insert v (set_keys d)"
  using ht_add_raw [OF assms, of v "env_can_resize env" "()"] unfolding setTypeAdd_def
  by (cases "v \<in> set_keys d") (auto simp: insert_absorb)

lemma setTypeAdd_correct:
  assumes inv: "set_inv env s" and c: "card (set_els s) < set_cap" and v: "sds_ok v"
  shows "\<exists>s'. setTypeAdd env s v = Some (v \<notin> set_els s, s') \<and> set_inv env s' \<and> set_els s' = insert v (set_els s)"
proof (cases s)
  case (OBJ_ENCODING_HT d)
  then show ?thesis using setTypeAdd_HT [of env d v] inv c by (simp add: set_cap_def)
next
  case (OBJ_ENCODING_INTSET "is")
  then have i: "is_inv is" "LLONG_MIN \<notin> is_set is" "card (is_set is) < set_cap"
    using inv c by (simp_all add: int_str_card)
  show ?thesis
  proof (cases "isSdsRepresentableAsLongLong v")
    case None
    obtain d where d: "setTypeConvert env s = Some (OBJ_ENCODING_HT d)" "ht_ok env d" "set_keys d = set_els s"
      using setTypeConvert_keeps [OF i(1,2), of env] i(3) OBJ_ENCODING_INTSET by auto
    have "v \<notin> set_els s" using not_representable [OF None i(1)] OBJ_ENCODING_INTSET by simp
    with ht_add [OF d(2), of v "env_can_resize env"] d c None OBJ_ENCODING_INTSET show ?thesis
      by (auto simp: setTypeAdd_def set_cap_def)
  next
    case (Some x)
    then have x: "fits 8 x" "v = int_str x" by (simp_all add: representable)
    with v have "x \<noteq> LLONG_MIN" by (auto simp: sds_ok_def)
    have "is_room is" using i(3) by (simp add: is_room_def is_length_card [OF i(1)] set_cap_def)
    from intsetAdd_correct [OF i(1) this x(1), of "env_junk env"] obtain is' where
      is': "intsetAdd (env_junk env) is x = Some (x \<notin> is_set is, is')" "is_inv is'" "is_set is' = insert x (is_set is)"
      by blast
    have m: "v \<in> set_els s \<longleftrightarrow> x \<in> is_set is" using int_str_mem [OF i(1) x(1)] x(2) OBJ_ENCODING_INTSET by simp
    have "LLONG_MIN \<notin> is_set is'" "card (is_set is') \<le> Suc set_cap"
      using is'(3) i(2,3) \<open>x \<noteq> LLONG_MIN\<close> by (auto simp: card_insert_if)
    with setTypeConvert_keeps [OF is'(2), of env] is' m Some x(2) OBJ_ENCODING_INTSET show ?thesis
      by (auto simp: setTypeAdd_def)
  qed
qed

lemma setTypeRemove_correct:
  assumes inv: "set_inv env s" and c: "card (set_els s) \<le> set_cap"
  shows "\<exists>s'. setTypeRemove env s v = Some (v \<in> set_els s, s') \<and> set_inv env s' \<and> set_els s' = set_els s - {v}"
proof (cases s)
  case (OBJ_ENCODING_HT d)
  have d: "ht_ok env d" "card (set_keys d) < 2 ^ 58" using inv c OBJ_ENCODING_HT by (simp_all add: set_cap_def)
  obtain d' where d': "dictDelete d v = Some (if v \<in> set_keys d then DICT_OK else DICT_ERR, d')" "ht_ok env d'"
    "set_keys d' = set_keys d - {v}"
    using ht_delete [OF d] by blast
  have "card (set_keys d') < 2 ^ 58" using d(2) d'(3) card_Diff1_le [of "set_keys d" v] by simp
  from ht_resize [OF d'(2) this, of "env_can_resize env"] d' OBJ_ENCODING_HT show ?thesis
    by (auto simp: setTypeRemove_def)
next
  case (OBJ_ENCODING_INTSET "is")
  then have i: "is_inv is" "LLONG_MIN \<notin> is_set is" "is_length is < 2 ^ 28"
    using inv c by (simp_all add: int_str_card is_length_card set_cap_def)
  show ?thesis
  proof (cases "isSdsRepresentableAsLongLong v")
    case None
    with not_representable [OF None i(1)] OBJ_ENCODING_INTSET inv show ?thesis by (auto simp: setTypeRemove_def)
  next
    case (Some x)
    then have x: "fits 8 x" "v = int_str x" by (simp_all add: representable)
    from intsetRemove_correct [OF i(1,3) x(1), of "env_junk env"] obtain is' where
      is': "intsetRemove (env_junk env) is x = Some (x \<in> is_set is, is')" "is_inv is'" "is_set is' = is_set is - {x}"
      by blast
    have "int_str ` (is_set is - {x}) = int_str ` is_set is - {v}"
      using is_set_fits [OF i(1)] int_str_inject [OF _ x(1)] x(2) by auto
    with is' i(2) int_str_mem [OF i(1) x(1)] x(2) Some OBJ_ENCODING_INTSET show ?thesis
      by (simp add: setTypeRemove_def)
  qed
qed

lemma setTypeIsMember_correct:
  assumes inv: "set_inv env s" and c: "card (set_els s) \<le> set_cap"
  shows "\<exists>s'. setTypeIsMember s v = Some (v \<in> set_els s, s') \<and> set_inv env s' \<and> set_els s' = set_els s"
proof (cases s)
  case (OBJ_ENCODING_HT d)
  with ht_find [of env d v] inv c show ?thesis by (auto simp: setTypeIsMember_def set_cap_def)
next
  case (OBJ_ENCODING_INTSET "is")
  then have i: "is_inv is" "is_length is < 2 ^ 28"
    using inv c by (simp_all add: int_str_card is_length_card set_cap_def)
  show ?thesis
  proof (cases "isSdsRepresentableAsLongLong v")
    case None
    with not_representable [OF None i(1)] OBJ_ENCODING_INTSET inv show ?thesis by (auto simp: setTypeIsMember_def)
  next
    case (Some x)
    then have x: "fits 8 x" "v = int_str x" by (simp_all add: representable)
    with intsetFind_mem [OF i x(1)] int_str_mem [OF i(1) x(1)] Some OBJ_ENCODING_INTSET inv show ?thesis
      by (simp add: setTypeIsMember_def)
  qed
qed

interpretation iset: set_impl is_inv is_set "fits 8" set_cap "intsetAdd junk" "intsetRemove junk"
  "\<lambda>is x. map_option (\<lambda>b. (b, is)) (intsetFind is x)" for junk
proof unfold_locales
  fix "is" x assume a: "is_inv is" "card (is_set is) < set_cap" "fits 8 x"
  have "is_room is" using a(2) by (simp add: is_room_def is_length_card [OF a(1)] set_cap_def)
  from intsetAdd_correct [OF a(1) this a(3)]
  show "\<exists>is'. intsetAdd junk is x = Some (x \<notin> is_set is, is') \<and> is_inv is' \<and> is_set is' = insert x (is_set is)" .
qed (simp_all add: intsetRemove_correct intsetFind_mem is_length_card set_cap_def)

interpretation sobj: set_impl "set_inv env" set_els sds_ok set_cap "setTypeAdd env" "setTypeRemove env" setTypeIsMember for env
  by unfold_locales (simp_all add: set_els_finite setTypeAdd_correct setTypeRemove_correct setTypeIsMember_correct)

end
