(* ===== verification/Set_Commands_Correct.thy ===== *)
theory Set_Commands_Correct
  imports Set_Commands Set_Correct
begin

text \<open>
  The set commands refine operations on a keyspace of abstract sets: the encodings, the rehash
  steps of a lookup and the order in which the sets are visited are invisible, and no command
  leaves an empty set behind.
\<close>

section \<open>Abstract keyspaces\<close>

datatype 'o aobj = ASet "byte list set" | AOther 'o

definition obj_abs :: "'o robj \<Rightarrow> 'o aobj" where
  "obj_abs ob = (case ob of OBJ_SET s \<Rightarrow> ASet (set_els s) | OBJ_OTHER x \<Rightarrow> AOther x)"

definition ks_abs :: "'o keyspace \<Rightarrow> key \<rightharpoonup> 'o aobj" where
  "ks_abs m k = map_option obj_abs (m k)"

text \<open>The set at a key; a missing key is an empty set.\<close>

definition ks_set :: "'o keyspace \<Rightarrow> key \<Rightarrow> byte list set" where
  "ks_set m k = (case ks_abs m k of Some (ASet A) \<Rightarrow> A | _ \<Rightarrow> {})"

definition set_good :: "set_env \<Rightarrow> set_obj \<Rightarrow> bool" where
  "set_good env s \<longleftrightarrow> set_inv env s \<and> card (set_els s) \<le> set_cap \<and> (\<forall>x \<in> set_els s. sds_ok x)"

definition ks_inv :: "set_env \<Rightarrow> 'o keyspace \<Rightarrow> bool" where
  "ks_inv env m \<longleftrightarrow> (\<forall>k s. m k = Some (OBJ_SET s) \<longrightarrow> set_good env s \<and> set_els s \<noteq> {})"

lemma obj_abs_simps [simp]: "obj_abs (OBJ_SET s) = ASet (set_els s)" "obj_abs (OBJ_OTHER x) = AOther x"
  by (simp_all add: obj_abs_def)

lemma ks_abs_upd [simp]: "ks_abs (m(k \<mapsto> ob)) = (ks_abs m)(k \<mapsto> obj_abs ob)" "ks_abs (m(k := None)) = (ks_abs m)(k := None)"
  by (auto simp: ks_abs_def fun_eq_iff)

lemma ks_set_Some: "m k = Some (OBJ_SET s) \<Longrightarrow> ks_set m k = set_els s"
  by (simp add: ks_set_def ks_abs_def)

lemma ks_set_None: "m k = None \<Longrightarrow> ks_set m k = {}"
  by (simp add: ks_set_def ks_abs_def)

lemma ks_set_cong: "ks_abs m' = ks_abs m \<Longrightarrow> ks_set m' = ks_set m"
  by (simp add: ks_set_def fun_eq_iff)

lemma ks_abs_same: "ks_abs m k = Some (ASet A) \<Longrightarrow> (ks_abs m)(k \<mapsto> ASet A) = ks_abs m"
  by auto

lemma ks_invD: "ks_inv env m \<Longrightarrow> m k = Some (OBJ_SET s) \<Longrightarrow> set_good env s \<and> set_els s \<noteq> {}"
  by (simp add: ks_inv_def)

lemma ks_inv_upd: "ks_inv env m \<Longrightarrow> set_good env s \<Longrightarrow> set_els s \<noteq> {} \<Longrightarrow> ks_inv env (m(k \<mapsto> OBJ_SET s))"
  by (simp add: ks_inv_def)

lemma ks_inv_del: "ks_inv env m \<Longrightarrow> ks_inv env (m(k := None))"
  by (simp add: ks_inv_def)

lemma set_good_same: "set_good env s \<Longrightarrow> set_inv env s' \<Longrightarrow> set_els s' = set_els s \<Longrightarrow> set_good env s'"
  by (simp add: set_good_def)

lemma ks_set_ok: "ks_inv env m \<Longrightarrow> x \<in> ks_set m k \<Longrightarrow> sds_ok x"
  by (auto simp: ks_set_def ks_abs_def obj_abs_def ks_inv_def set_good_def split: option.splits robj.splits)

lemma ks_set_finite [simp]: "finite (ks_set m k)"
  by (auto simp: ks_set_def ks_abs_def obj_abs_def set_els_finite split: option.splits robj.splits)

lemma ks_set_cap: "ks_inv env m \<Longrightarrow> card (ks_set m k) \<le> set_cap"
  by (auto simp: ks_set_def ks_abs_def obj_abs_def ks_inv_def set_good_def split: option.splits robj.splits)

lemma good_size: "set_good env s \<Longrightarrow> setTypeSize s = card (set_els s)"
  using setTypeSize_card by (auto simp: set_good_def)

lemma good_size_0: "set_good env s \<Longrightarrow> setTypeSize s = 0 \<longleftrightarrow> set_els s = {}"
  by (simp add: good_size set_els_finite)

lemma good_member:
  assumes "set_good env s"
  shows "\<exists>s'. setTypeIsMember s v = Some (v \<in> set_els s, s') \<and> set_good env s' \<and> set_els s' = set_els s"
  using setTypeIsMember_correct [of env s v] assms set_good_same [OF assms] unfolding set_good_def by blast

lemma good_remove:
  assumes "set_good env s"
  shows "\<exists>s'. setTypeRemove env s v = Some (v \<in> set_els s, s') \<and> set_good env s' \<and> set_els s' = set_els s - {v}"
proof -
  obtain s' where s': "setTypeRemove env s v = Some (v \<in> set_els s, s')" "set_inv env s'" "set_els s' = set_els s - {v}"
    using setTypeRemove_correct [of env s v] assms by (auto simp: set_good_def)
  then have "set_good env s'"
    using assms card_Diff1_le [of "set_els s" v] by (simp add: set_good_def)
  with s' show ?thesis by blast
qed

lemma good_add:
  assumes "set_good env s" "card (set_els s) < set_cap" "sds_ok v"
  shows "\<exists>s'. setTypeAdd env s v = Some (v \<notin> set_els s, s') \<and> set_good env s' \<and> set_els s' = insert v (set_els s)"
proof -
  obtain s' where s': "setTypeAdd env s v = Some (v \<notin> set_els s, s')" "set_inv env s'" "set_els s' = insert v (set_els s)"
    using setTypeAdd_correct [of env s v] assms by (auto simp: set_good_def)
  then have "set_good env s'"
    using assms by (simp add: set_good_def card_insert_if set_els_finite)
  with s' show ?thesis by blast
qed

lemma good_new: "set_good env createIntsetObject" "set_els createIntsetObject = {}"
  "set_good env (setTypeCreate env v)" "set_els (setTypeCreate env v) = {}"
  using setTypeCreate_ok [of env v]
  by (simp_all add: set_good_def createIntsetObject_def intsetNew_inv)

section \<open>Loops over the arguments\<close>

lemma sadd_loop_count: "sadd_loop env vs s n = map_option (\<lambda>(c, s). (n + int c, s)) (count_loop (setTypeAdd env) vs s)"
  by (induction vs arbitrary: s n) (auto simp: Option.map_conv_bind_option split: Option.bind_splits)

lemma add_loop_sadd: "add_loop env vs n s = sadd_loop env vs s n"
  by (induction vs arbitrary: s n) (auto split: Option.bind_splits)

lemma remove_loop_count: "remove_loop env vs n s = map_option (\<lambda>(c, s). (n - int c, s)) (count_loop (setTypeRemove env) vs s)"
  by (induction vs arbitrary: s n) (auto simp: Option.map_conv_bind_option split: Option.bind_splits)

lemma sadd_loop_adds:
  assumes "set_good env s" "\<forall>v \<in> set vs. sds_ok v" "card (set_els s) + length vs \<le> set_cap"
  shows "\<exists>s'. sadd_loop env vs s n = Some (n + int (card (set_els s \<union> set vs) - card (set_els s)), s') \<and>
    set_good env s' \<and> set_els s' = set_els s \<union> set vs"
proof -
  obtain s' where s': "count_loop (setTypeAdd env) vs s = Some (card (set_els s \<union> set vs) - card (set_els s), s')"
    "set_inv env s'" "set_els s' = set_els s \<union> set vs"
    using sobj.add_list [of env s vs] assms by (auto simp: set_good_def)
  have "card (set_els s \<union> set vs) \<le> card (set_els s) + length vs"
    by (meson add_left_mono card_Un_le card_length order_trans)
  then have "set_good env s'" using assms s' by (auto simp: set_good_def)
  with s' show ?thesis by (simp add: sadd_loop_count)
qed

lemma remove_loop_removes:
  assumes "set_good env s" "\<forall>v \<in> set vs. sds_ok v"
  shows "\<exists>s'. remove_loop env vs n s = Some (n - int (card (set_els s) - card (set_els s - set vs)), s') \<and>
    set_good env s' \<and> set_els s' = set_els s - set vs"
proof -
  obtain s' where s': "count_loop (setTypeRemove env) vs s = Some (card (set_els s) - card (set_els s - set vs), s')"
    "set_inv env s'" "set_els s' = set_els s - set vs"
    using sobj.remove_list [of env s vs] assms by (auto simp: set_good_def)
  have "card (set_els s - set vs) \<le> card (set_els s)" using set_els_finite by (intro card_mono) auto
  then have "set_good env s'" using assms s' by (auto simp: set_good_def)
  with s' show ?thesis by (simp add: remove_loop_count)
qed

lemma srem_loop_removes:
  assumes "set_good env s" "set_els s \<noteq> {}"
  shows "\<exists>s'. srem_loop env vs s n = Some (n + int (card (set_els s) - card (set_els s - set vs)), set_els s' = {}, s') \<and>
    set_good env s' \<and> set_els s' = set_els s - set vs"
  using assms
proof (induction vs arbitrary: s n)
  case (Cons v vs)
  obtain s1 where s1: "setTypeRemove env s v = Some (v \<in> set_els s, s1)" "set_good env s1" "set_els s1 = set_els s - {v}"
    using good_remove [OF Cons.prems(1)] by blast
  have sz: "setTypeSize s1 = 0 \<longleftrightarrow> set_els s1 = {}" by (rule good_size_0 [OF s1(2)])
  have eq: "set_els s - set (v # vs) = set_els s1 - set vs" using s1(3) by auto
  show ?case
  proof (cases "set_els s1 = {}")
    case True
    then have "set_els s = {v}" using s1(3) Cons.prems(2) by auto
    with True s1 sz show ?thesis by auto
  next
    case False
    define n1 where "n1 = (if v \<in> set_els s then n + 1 else n)"
    obtain s2 where s2: "srem_loop env vs s1 n1 =
        Some (n1 + int (card (set_els s1) - card (set_els s1 - set vs)), set_els s2 = {}, s2)"
      "set_good env s2" "set_els s2 = set_els s1 - set vs"
      using Cons.IH [OF s1(2) False] by blast
    have r: "srem_loop env (v # vs) s n = srem_loop env vs s1 n1" using s1(1) sz False by (simp add: n1_def)
    have le: "card (set_els s1 - set vs) \<le> card (set_els s1)" using set_els_finite by (intro card_mono) auto
    have "card (set_els s) = (if v \<in> set_els s then Suc (card (set_els s1)) else card (set_els s1))"
      unfolding s1(3) using card_Suc_Diff1 [OF set_els_finite, of v s] by auto
    then have "n + int (card (set_els s) - card (set_els s - set (v # vs))) =
        n1 + int (card (set_els s1) - card (set_els s1 - set vs))"
      unfolding eq n1_def using le by (simp add: Suc_diff_le)
    with r s2 show ?thesis unfolding eq by metis
  qed
qed simp

lemmas srv_defs = notifyKeyspaceEvent_def signalModifiedKey_def add_dirty_def setObj_def dbAdd_def dbDelete_def

section \<open>Intersection\<close>

lemma set_elems_ok:
  assumes "set_inv env s" "e \<in> set (set_elems s)"
  shows "elem_sds env e = Some (elem_str e)" "e = Ll v \<Longrightarrow> fits 8 v" "elem_str e \<in> set_els s"
proof -
  show "elem_sds env e = Some (elem_str e)" by (rule elem_sds_str [OF assms])
  show "e = Ll v \<Longrightarrow> fits 8 v" using assms by (cases s) (auto simp: set_elems_def intro: is_set_fits)
  show "elem_str e \<in> set_els s" using assms(2) elem_str_image [of s] by blast
qed

definition elem_ok :: "set_env \<Rightarrow> set_elem \<Rightarrow> bool" where
  "elem_ok env e \<longleftrightarrow> elem_sds env e = Some (elem_str e) \<and> (\<forall>v. e = Ll v \<longrightarrow> fits 8 v)"

lemma member_step:
  assumes "ks_inv env m" "m k = Some (OBJ_SET s)"
  shows "\<exists>s'. setTypeIsMember s v = Some (v \<in> ks_set m k, s') \<and> ks_inv env (m(k \<mapsto> OBJ_SET s')) \<and>
    ks_abs (m(k \<mapsto> OBJ_SET s')) = ks_abs m"
proof -
  have g: "set_good env s" "set_els s \<noteq> {}" using ks_invD [of env m k s] assms by simp_all
  obtain s' where s': "setTypeIsMember s v = Some (v \<in> set_els s, s')" "set_good env s'" "set_els s' = set_els s"
    using good_member [OF g(1)] by blast
  have "ks_abs m k = Some (ASet (set_els s'))" using assms(2) s'(3) by (simp add: ks_abs_def)
  with s' g(2) ks_inv_upd [OF assms(1) s'(2)] ks_abs_same ks_set_Some [of m k s] assms(2) show ?thesis
    by (metis ks_abs_upd(1) obj_abs_simps(1))
qed

lemma ks_abs_set:
  assumes "ks_abs m' = ks_abs m"
  shows "(\<exists>s. m' k = Some (OBJ_SET s)) \<longleftrightarrow> (\<exists>s. m k = Some (OBJ_SET s))" "m' k = None \<longleftrightarrow> m k = None"
proof -
  have "(\<exists>s. m k = Some (OBJ_SET s)) \<longleftrightarrow> (\<exists>A. ks_abs m k = Some (ASet A))" for m :: "'a keyspace"
    by (cases "m k"; cases "the (m k)") (simp_all add: ks_abs_def)
  then show "(\<exists>s. m' k = Some (OBJ_SET s)) \<longleftrightarrow> (\<exists>s. m k = Some (OBJ_SET s))" using assms by simp
  show "m' k = None \<longleftrightarrow> m k = None" using fun_cong [OF assms, of k] by (simp add: ks_abs_def) (metis map_option_is_None)
qed

lemma inter_test_decides:
  assumes "ks_inv env m" "elem_ok env e" "\<forall>k \<in> set ks. \<exists>s. m k = Some (OBJ_SET s)"
  shows "\<exists>m'. inter_test env k0 e ks m = Some (\<forall>k \<in> set ks. k = k0 \<or> elem_str e \<in> ks_set m k, m') \<and>
    ks_inv env m' \<and> ks_abs m' = ks_abs m"
  using assms
proof (induction ks arbitrary: m)
  case (Cons k ks)
  obtain s where s: "m k = Some (OBJ_SET s)" using Cons.prems(3) by auto
  have g: "set_good env s \<and> set_els s \<noteq> {}" using ks_invD [of env m k s] Cons.prems(1) s by simp
  obtain s' where s': "setTypeIsMember s (elem_str e) = Some (elem_str e \<in> ks_set m k, s')"
    "ks_inv env (m(k \<mapsto> OBJ_SET s'))" "ks_abs (m(k \<mapsto> OBJ_SET s')) = ks_abs m"
    using member_step [of env m k s] Cons.prems(1) s by blast
  define m1 where "m1 = m(k \<mapsto> OBJ_SET s')"
  have "\<forall>k \<in> set ks. \<exists>s. m1 k = Some (OBJ_SET s)" using Cons.prems(3) by (simp add: m1_def)
  from Cons.IH [OF s'(2) [folded m1_def] Cons.prems(2) this] obtain m2 where
    m2: "inter_test env k0 e ks m1 = Some (\<forall>k \<in> set ks. k = k0 \<or> elem_str e \<in> ks_set m k, m2)"
      "ks_inv env m2" "ks_abs m2 = ks_abs m"
    using s'(3) ks_set_cong [OF s'(3)] by (auto simp flip: m1_def)
  from Cons.IH [OF Cons.prems(1,2)] Cons.prems(3) obtain m3 where
    m3: "inter_test env k0 e ks m = Some (\<forall>k \<in> set ks. k = k0 \<or> elem_str e \<in> ks_set m k, m3)"
      "ks_inv env m3" "ks_abs m3 = ks_abs m" by auto
  have find: "intsetFind is v = Some (elem_str e \<in> ks_set m k)" if "s = OBJ_ENCODING_INTSET is" "e = Ll v" for "is" v
  proof -
    have i: "is_inv is" "is_length is < 2 ^ 28" "fits 8 v"
      using g that Cons.prems(2) by (auto simp: set_good_def elem_ok_def int_str_card is_length_card set_cap_def)
    then show ?thesis
      using intsetFind_mem [OF i] int_str_mem [OF i(1,3)] ks_set_Some [of m k s] s that by (simp add: elem_str_def)
  qed
  have r: "inter_test env k0 e (k # ks) m =
      (if k = k0 then inter_test env k0 e ks m
       else if \<exists>v is. e = Ll v \<and> s = OBJ_ENCODING_INTSET is
       then (if elem_str e \<in> ks_set m k then inter_test env k0 e ks m else Some (False, m))
       else if elem_str e \<in> ks_set m k then inter_test env k0 e ks m1 else Some (False, m1))"
    using s s'(1) find Cons.prems(2)
    by (cases e; cases s) (simp_all add: m1_def elem_ok_def elem_sds_def elem_str_def)
  show ?case
    unfolding r using m2 m3 s'(2,3) Cons.prems(1) by (auto simp flip: m1_def)
qed auto

lemma reply_bulk_text:
  assumes "fits 8 v"
  shows "addReplyBulkLongLong env v = Some (int_str v)"
  using ll2string_text [OF assms, of "map (env_junk env) [0..<64]"] int_str_length [OF assms]
  by (simp add: addReplyBulkLongLong_def)

lemma inter_loop_filters:
  assumes "ks_inv env m" "\<forall>e \<in> set es. elem_ok env e \<and> sds_ok (elem_str e)"
    "\<forall>k \<in> set ks. \<exists>s. m k = Some (OBJ_SET s)" "set_good env dst" "card (set_els dst) + length es \<le> set_cap"
  shows "\<exists>m' dst'. inter_loop env store k0 ks es m out dst =
      Some (m', if store then out else out @ filter (\<lambda>x. \<forall>k \<in> set ks. k = k0 \<or> x \<in> ks_set m k) (map elem_str es), dst') \<and>
    ks_inv env m' \<and> ks_abs m' = ks_abs m \<and> set_good env dst' \<and>
    (store \<longrightarrow> set_els dst' = set_els dst \<union> {x \<in> elem_str ` set es. \<forall>k \<in> set ks. k = k0 \<or> x \<in> ks_set m k})"
  using assms
proof (induction es arbitrary: m out dst)
  case (Cons e es)
  define P where "P = (\<lambda>x. \<forall>k \<in> set ks. k = k0 \<or> x \<in> ks_set m k)"
  have e: "elem_ok env e" "sds_ok (elem_str e)" using Cons.prems(2) by simp_all
  obtain m1 where m1: "inter_test env k0 e ks m = Some (P (elem_str e), m1)" "ks_inv env m1" "ks_abs m1 = ks_abs m"
    using inter_test_decides [OF Cons.prems(1) e(1) Cons.prems(3)] unfolding P_def by blast
  have ks: "\<forall>k \<in> set ks. \<exists>s. m1 k = Some (OBJ_SET s)"
    using Cons.prems(3) ks_abs_set [OF m1(3)] by blast
  obtain dst1 where dst1: "setTypeAdd env dst (elem_str e) = Some (elem_str e \<notin> set_els dst, dst1)" "set_good env dst1"
    "set_els dst1 = insert (elem_str e) (set_els dst)"
    using good_add [OF Cons.prems(4) _ e(2)] Cons.prems(5) by auto
  have c1: "card (set_els dst1) + length es \<le> set_cap"
    using Cons.prems(5) dst1(3) set_els_finite by (simp add: card_insert_if)
  have bulk: "(case e of Sds x \<Rightarrow> Some x | Ll v \<Rightarrow> addReplyBulkLongLong env v) = Some (elem_str e)"
    using e(1) by (cases e) (simp_all add: elem_ok_def elem_str_def reply_bulk_text)
  have step: "inter_loop env store k0 ks (e # es) m out dst =
      inter_loop env store k0 ks es m1 (if P (elem_str e) \<and> \<not> store then out @ [elem_str e] else out)
        (if P (elem_str e) \<and> store then dst1 else dst)"
    using m1(1) bulk dst1(1) e(1) by (cases store) (simp_all add: elem_ok_def)
  have g: "set_good env (if P (elem_str e) \<and> store then dst1 else dst)"
    "card (set_els (if P (elem_str e) \<and> store then dst1 else dst)) + length es \<le> set_cap"
    using dst1(2) Cons.prems(4,5) c1 by simp_all
  have es: "\<forall>e \<in> set es. elem_ok env e \<and> sds_ok (elem_str e)" using Cons.prems(2) by simp
  from Cons.IH [OF m1(2) es ks g, of "if P (elem_str e) \<and> \<not> store then out @ [elem_str e] else out"]
  obtain m' dst' where r: "inter_loop env store k0 ks (e # es) m out dst =
      Some (m', if store then (if P (elem_str e) \<and> \<not> store then out @ [elem_str e] else out)
        else (if P (elem_str e) \<and> \<not> store then out @ [elem_str e] else out) @ filter P (map elem_str es), dst')"
    "ks_inv env m'" "ks_abs m' = ks_abs m" "set_good env dst'"
    "store \<longrightarrow> set_els dst' = set_els (if P (elem_str e) \<and> store then dst1 else dst) \<union> {x \<in> elem_str ` set es. P x}"
    unfolding step P_def ks_set_cong [OF m1(3)] m1(3) by blast
  have "inter_loop env store k0 ks (e # es) m out dst =
      Some (m', if store then out else out @ filter P (map elem_str (e # es)), dst')" unfolding r(1) by simp
  moreover have "store \<longrightarrow> set_els dst' = set_els dst \<union> {x \<in> elem_str ` set (e # es). P x}"
    using r(5) dst1(3) by auto
  ultimately show ?case using r(2-4) unfolding P_def by (intro exI [of _ m'] exI [of _ dst'] conjI)
qed auto

section \<open>Union and difference\<close>

lemma set_strings_all:
  assumes "set_inv env s"
  shows "set_strings env s = Some (map elem_str (set_elems s))"
proof -
  have "elems_sds env es = Some (map elem_str es)" if "set es \<subseteq> set (set_elems s)" for es
    using that elem_sds_str [OF assms] by (induction es) auto
  then show ?thesis by (simp add: set_strings_def setTypeElements_all [OF assms])
qed

lemma set_strings_good:
  assumes "set_good env s"
  obtains xs where "set_strings env s = Some xs" "set xs = set_els s" "distinct xs" "length xs = card (set_els s)"
    "\<forall>x \<in> set xs. sds_ok x"
proof -
  have inv: "set_inv env s" using assms by (simp add: set_good_def)
  let ?xs = "map elem_str (set_elems s)"
  have d: "distinct ?xs" by (rule elem_str_distinct [OF inv])
  have s: "set ?xs = set_els s" by (simp add: elem_str_image)
  show thesis
    using set_strings_all [OF inv] s d distinct_card [OF d] assms
    by (intro that [of ?xs]) (simp_all add: set_good_def)
qed

definition no_wrong_type :: "'o keyspace \<Rightarrow> key list \<Rightarrow> bool" where
  "no_wrong_type m ks \<longleftrightarrow> (\<forall>k \<in> set ks. \<forall>x. m k \<noteq> Some (OBJ_OTHER x))"

lemma no_wrong_type_any: "any_wrong_type m ks \<longleftrightarrow> \<not> no_wrong_type m ks"
proof -
  have "(case m k of Some (OBJ_OTHER x) \<Rightarrow> True | _ \<Rightarrow> False) \<longleftrightarrow> (\<exists>x. m k = Some (OBJ_OTHER x))" for k
    by (cases "m k"; cases "the (m k)") simp_all
  then show ?thesis by (simp add: any_wrong_type_def no_wrong_type_def list_ex_iff)
qed

lemma no_wrong_type_Cons [simp]:
  "no_wrong_type m (k # ks) \<longleftrightarrow> (m k = None \<or> (\<exists>s. m k = Some (OBJ_SET s))) \<and> no_wrong_type m ks"
  unfolding no_wrong_type_def by (cases "m k"; cases "the (m k)") auto

lemma union_loop_adds:
  assumes "ks_inv env m" "no_wrong_type m ks" "set_good env dst" "n = int (card (set_els dst))"
    "card (set_els dst) + sum_list (map (\<lambda>k. card (ks_set m k)) ks) \<le> set_cap"
  shows "\<exists>dst'. union_loop env m ks n dst = Some (int (card (set_els dst')), dst') \<and> set_good env dst' \<and>
    set_els dst' = set_els dst \<union> (\<Union>k \<in> set ks. ks_set m k)"
  using assms
proof (induction ks arbitrary: n dst)
  case (Cons k ks)
  show ?case
  proof (cases "m k = None")
    case True
    with Cons show ?thesis by (simp add: ks_set_None)
  next
    case False
    with Cons.prems(2) obtain s where s: "m k = Some (OBJ_SET s)" by auto
    have sg: "set_good env s" using ks_invD [of env m k s] Cons.prems(1) s by simp
    obtain xs where xs: "set_strings env s = Some xs" "set xs = set_els s" "length xs = card (set_els s)" "\<forall>x \<in> set xs. sds_ok x"
      by (rule set_strings_good [OF sg])
    have k: "ks_set m k = set_els s" using ks_set_Some [of m k s] s by simp
    obtain dst1 where d1: "add_loop env xs n dst = Some (int (card (set_els dst1)), dst1)" "set_good env dst1"
      "set_els dst1 = set_els dst \<union> set_els s"
    proof -
      have "card (set_els dst) + length xs \<le> set_cap" using Cons.prems(5) xs(3) k by simp
      from sadd_loop_adds [OF Cons.prems(3) xs(4) this, of n] obtain dst1 where
        d: "sadd_loop env xs dst n = Some (n + int (card (set_els dst \<union> set xs) - card (set_els dst)), dst1)"
          "set_good env dst1" "set_els dst1 = set_els dst \<union> set xs" by blast
      have "card (set_els dst) \<le> card (set_els dst \<union> set xs)" using set_els_finite by (intro card_mono) auto
      with d Cons.prems(4) xs(2) show thesis by (intro that [of dst1]) (simp_all add: add_loop_sadd)
    qed
    have "card (set_els dst1) + sum_list (map (\<lambda>k. card (ks_set m k)) ks) \<le> set_cap"
      using Cons.prems(5) card_Un_le [of "set_els dst" "set_els s"] d1(3) k by simp
    from Cons.IH [OF Cons.prems(1) _ d1(2) refl this] Cons.prems(2) show ?thesis
      using s xs(1) d1 k by (auto simp: Un_assoc)
  qed
qed simp

lemma diff1_test_decides:
  assumes "ks_inv env m" "no_wrong_type m ks" "ele \<in> ks_set m k0"
  shows "\<exists>m'. diff1_test k0 ele ks m = Some (\<forall>k \<in> set ks. ele \<notin> ks_set m k, m') \<and>
    ks_inv env m' \<and> ks_abs m' = ks_abs m"
  using assms
proof (induction ks arbitrary: m)
  case (Cons k ks)
  show ?case
  proof (cases "m k = None")
    case True
    with Cons show ?thesis by (simp add: ks_set_None)
  next
    case False
    with Cons.prems(2) obtain s where s: "m k = Some (OBJ_SET s)" by auto
    obtain s' where s': "setTypeIsMember s ele = Some (ele \<in> ks_set m k, s')"
      "ks_inv env (m(k \<mapsto> OBJ_SET s'))" "ks_abs (m(k \<mapsto> OBJ_SET s')) = ks_abs m"
      using member_step [of env m k s] Cons.prems(1) s by blast
    define m1 where "m1 = m(k \<mapsto> OBJ_SET s')"
    note m1 = s'(2,3) [folded m1_def]
    have "no_wrong_type m1 ks" using Cons.prems(2) by (simp add: no_wrong_type_def m1_def)
    from Cons.IH [OF m1(1) this] obtain m2 where
      m2: "diff1_test k0 ele ks m1 = Some (\<forall>k \<in> set ks. ele \<notin> ks_set m k, m2)" "ks_inv env m2" "ks_abs m2 = ks_abs m"
      using Cons.prems(3) ks_set_cong [OF m1(2)] m1(2) by auto
    have "diff1_test k0 ele (k # ks) m = (if k = k0 then Some (False, m)
        else if ele \<in> ks_set m k then Some (False, m1) else diff1_test k0 ele ks m1)"
      using s s'(1) by (simp add: m1_def)
    with m1 m2 Cons.prems(1,3) show ?thesis by auto
  qed
qed auto

lemma no_wrong_type_cong: "ks_abs m' = ks_abs m \<Longrightarrow> no_wrong_type m' ks = no_wrong_type m ks"
proof -
  assume a: "ks_abs m' = ks_abs m"
  have "m' k \<noteq> Some (OBJ_OTHER x) \<longleftrightarrow> m k \<noteq> Some (OBJ_OTHER x)" for k x
    using fun_cong [OF a, of k] by (cases "m k"; cases "m' k"; cases "the (m k)"; cases "the (m' k)") (auto simp: ks_abs_def)
  then show ?thesis by (simp add: no_wrong_type_def)
qed

lemma diff1_loop_adds:
  assumes "ks_inv env m" "no_wrong_type m ks" "set xs \<subseteq> ks_set m k0" "distinct xs" "set xs \<inter> set_els dst = {}"
    "set_good env dst" "n = int (card (set_els dst))" "card (set_els dst) + length xs \<le> set_cap"
  shows "\<exists>m' dst'. diff1_loop env k0 ks xs m n dst = Some (m', int (card (set_els dst')), dst') \<and>
    ks_inv env m' \<and> ks_abs m' = ks_abs m \<and> set_good env dst' \<and>
    set_els dst' = set_els dst \<union> {x \<in> set xs. \<forall>k \<in> set ks. x \<notin> ks_set m k}"
  using assms
proof (induction xs arbitrary: m n dst)
  case (Cons x xs)
  have x: "x \<in> ks_set m k0" "x \<notin> set_els dst" using Cons.prems(3,5) by auto
  define P where "P = (\<lambda>x. \<forall>k \<in> set ks. x \<notin> ks_set m k)"
  obtain m1 where m1: "diff1_test k0 x ks m = Some (P x, m1)" "ks_inv env m1" "ks_abs m1 = ks_abs m"
    using diff1_test_decides [OF Cons.prems(1,2) x(1)] unfolding P_def by blast
  obtain dst1 where dst1: "setTypeAdd env dst x = Some (x \<notin> set_els dst, dst1)" "set_good env dst1"
    "set_els dst1 = insert x (set_els dst)"
    using good_add [OF Cons.prems(6) _ ks_set_ok [OF Cons.prems(1) x(1)]] Cons.prems(8) by auto
  define d where "d = (if P x then dst1 else dst)"
  have step: "diff1_loop env k0 ks (x # xs) m n dst = diff1_loop env k0 ks xs m1 (if P x then n + 1 else n) d"
    using m1(1) dst1(1) by (simp add: d_def)
  have d: "set_els d = (if P x then insert x (set_els dst) else set_els dst)" "set_good env d"
    using dst1 Cons.prems(6) by (simp_all add: d_def)
  have n: "(if P x then n + 1 else n) = int (card (set_els d))" "card (set_els d) + length xs \<le> set_cap"
    "set xs \<inter> set_els d = {}"
    using Cons.prems(4,5,7,8) x(2) set_els_finite by (auto simp: d(1))
  have "no_wrong_type m1 ks" "set xs \<subseteq> ks_set m1 k0"
    using Cons.prems(2,3) no_wrong_type_cong [OF m1(3)] ks_set_cong [OF m1(3)] by auto
  from Cons.IH [OF m1(2) this _ n(3) d(2) n(1,2)] Cons.prems(4) obtain m' dst' where
    r: "diff1_loop env k0 ks (x # xs) m n dst = Some (m', int (card (set_els dst')), dst')" "ks_inv env m'"
      "ks_abs m' = ks_abs m" "set_good env dst'" "set_els dst' = set_els d \<union> {x \<in> set xs. P x}"
    unfolding step P_def ks_set_cong [OF m1(3)] m1(3) by auto
  have "set_els dst' = set_els dst \<union> {y \<in> set (x # xs). P y}" using r(5) d(1) by auto
  with r(1-4) show ?case unfolding P_def by (intro exI [of _ m'] exI [of _ dst'] conjI)
qed auto

lemma diff2_loop_removes:
  assumes "ks_inv env m" "no_wrong_type m ks" "set_good env dst" "n = int (card (set_els dst))"
  shows "\<exists>dst'. diff2_loop env m ks n dst = Some (int (card (set_els dst')), dst') \<and> set_good env dst' \<and>
    set_els dst' = set_els dst - (\<Union>k \<in> set ks. ks_set m k)"
  using assms
proof (induction ks arbitrary: n dst)
  case (Cons k ks)
  show ?case
  proof (cases "m k = None")
    case True
    with Cons show ?thesis by (simp add: ks_set_None)
  next
    case False
    with Cons.prems(2) obtain s where s: "m k = Some (OBJ_SET s)" by auto
    have sg: "set_good env s" using ks_invD [of env m k s] Cons.prems(1) s by simp
    obtain xs where xs: "set_strings env s = Some xs" "set xs = set_els s" "\<forall>x \<in> set xs. sds_ok x"
      by (rule set_strings_good [OF sg])
    have k: "ks_set m k = set_els s" using ks_set_Some [of m k s] s by simp
    from remove_loop_removes [OF Cons.prems(3) xs(3), of n] obtain d1 where
      d: "remove_loop env xs n dst = Some (n - int (card (set_els dst) - card (set_els dst - set xs)), d1)"
        "set_good env d1" "set_els d1 = set_els dst - set xs" by blast
    have "card (set_els dst - set xs) \<le> card (set_els dst)" using set_els_finite by (intro card_mono) auto
    then have r: "remove_loop env xs n dst = Some (int (card (set_els d1)), d1)" using d Cons.prems(4) by simp
    have eq: "set_els dst - (\<Union>k \<in> set (k # ks). ks_set m k) = set_els d1 - (\<Union>k \<in> set ks. ks_set m k)"
      using d(3) k xs(2) by auto
    show ?thesis
    proof (cases "set_els d1 = {}")
      case True
      then show ?thesis unfolding eq using s xs(1) r d(2) by simp
    next
      case ne: False
      have "diff2_loop env m (k # ks) n dst = diff2_loop env m ks (int (card (set_els d1))) d1"
        using s xs(1) r ne set_els_finite by simp
      then show ?thesis unfolding eq using Cons.IH [OF Cons.prems(1) _ d(2) refl] Cons.prems(2) by auto
    qed
  qed
qed auto

section \<open>Whole commands\<close>

definition qsort_ok :: "qsort \<Rightarrow> bool" where
  "qsort_ok qs \<longleftrightarrow> (\<forall>cmp xs. mset (qs cmp xs) = mset xs)"

text \<open>The keyspace after a set was stored: an empty result deletes the key.\<close>

definition ks_store :: "key \<Rightarrow> byte list set \<Rightarrow> (key \<rightharpoonup> 'o aobj) \<Rightarrow> key \<rightharpoonup> 'o aobj" where
  "ks_store k A a = (if A = {} then a(k := None) else a(k \<mapsto> ASet A))"

text \<open>A reply that lists a set, with its size announced in front.\<close>

definition lists_set :: "reply \<Rightarrow> byte list set \<Rightarrow> bool" where
  "lists_set r A \<longleftrightarrow> (\<exists>xs. r = ReplySet (int (card A)) xs \<and> distinct xs \<and> set xs = A)"

text \<open>What a set operation with result \<open>A\<close> does: it lists \<open>A\<close> and leaves the keyspace, or stores
  \<open>A\<close> and returns its size.\<close>

definition op_result :: "set_env \<Rightarrow> key option \<Rightarrow> byte list set \<Rightarrow> 'o server \<Rightarrow> reply \<Rightarrow> 'o server \<Rightarrow> bool" where
  "op_result env dstkey A srv r srv' \<longleftrightarrow> ks_inv env (keyspace srv') \<and>
     (case dstkey of
        None \<Rightarrow> lists_set r A \<and> ks_abs (keyspace srv') = ks_abs (keyspace srv)
      | Some d \<Rightarrow> r = ReplyInt (int (card A)) \<and> ks_abs (keyspace srv') = ks_store d A (ks_abs (keyspace srv)))"

lemma store_result_stores:
  assumes "ks_inv env (keyspace srv)" "set_good env dst"
  shows "\<exists>srv'. store_result ev d dst srv = Some (ReplyInt (int (card (set_els dst))), srv') \<and>
    ks_inv env (keyspace srv') \<and> ks_abs (keyspace srv') = ks_store d (set_els dst) (ks_abs (keyspace srv)) \<and>
    dirty srv' = dirty srv + 1"
  using assms ks_inv_del [of env "keyspace srv" d] ks_inv_upd [of env _ dst]
  by (auto simp: store_result_def srv_defs ks_store_def good_size set_els_finite)

lemma lookup_sets_all: "lookup_sets m ks = AllSets \<longleftrightarrow> (\<forall>k \<in> set ks. \<exists>s. m k = Some (OBJ_SET s))"
  by (induction ks) (auto split: option.split robj.split)

lemma lookup_sets_missing: "lookup_sets m ks = Missing \<Longrightarrow> \<exists>k \<in> set ks. m k = None"
  by (induction ks) (auto split: option.splits robj.splits)

lemma lookup_sets_wrong: "no_wrong_type m ks \<Longrightarrow> lookup_sets m ks \<noteq> WrongType"
  by (induction ks) auto

lemma op_result_store:
  assumes "ks_inv env m" "ks_abs m = ks_abs (keyspace srv)" "set_good env dst"
  shows "\<exists>srv'. store_result ev d dst (srv\<lparr>keyspace := m\<rparr>) = Some (ReplyInt (int (card (set_els dst))), srv') \<and>
    op_result env (Some d) (set_els dst) srv (ReplyInt (int (card (set_els dst)))) srv'"
  using store_result_stores [of env "srv\<lparr>keyspace := m\<rparr>" dst ev d] assms by (auto simp: op_result_def)

lemma sinter_missing:
  assumes "ks_inv env (keyspace srv)" "lookup_sets (keyspace srv) setkeys = Missing"
  shows "\<exists>r srv'. sinterGenericCommand env qs setkeys dstkey srv = Some (r, srv') \<and> op_result env dstkey {} srv r srv'"
  using assms by (auto simp: sinterGenericCommand_def op_result_def lists_set_def ks_store_def srv_defs ks_inv_del split: option.split)

lemma sinter_all:
  assumes inv: "ks_inv env (keyspace srv)" and qs: "qsort_ok qs" and ne: "setkeys \<noteq> []"
    and all: "lookup_sets (keyspace srv) setkeys = AllSets"
  shows "\<exists>r srv'. sinterGenericCommand env qs setkeys dstkey srv = Some (r, srv') \<and>
    op_result env dstkey (\<Inter>k \<in> set setkeys. ks_set (keyspace srv) k) srv r srv'"
proof -
  let ?m = "keyspace srv"
  define c where "c = qsortCompareSetsByCardinality ?m"
  have ms: "mset (qs c setkeys) = mset setkeys" using qs by (simp add: qsort_ok_def)
  then have "qs c setkeys \<noteq> []" using ne by auto
  then obtain k0 ks where k: "qs c setkeys = k0 # ks" by (cases "qs c setkeys") auto
  have set: "set setkeys = insert k0 (set ks)" using mset_eq_setD [OF ms] k by simp
  have sets: "\<forall>k \<in> set setkeys. \<exists>s. ?m k = Some (OBJ_SET s)" using all by (simp add: lookup_sets_all)
  then obtain s0 where s0: "?m k0 = Some (OBJ_SET s0)" using set by auto
  have g: "set_good env s0" using ks_invD [of env ?m k0 s0] inv s0 by simp
  then have i: "set_inv env s0" by (simp add: set_good_def)
  let ?xs = "map elem_str (set_elems s0)"
  define P where "P = (\<lambda>x. \<forall>k \<in> set ks. k = k0 \<or> x \<in> ks_set ?m k)"
  have xs: "set ?xs = ks_set ?m k0" "distinct ?xs" "length (set_elems s0) = card (ks_set ?m k0)"
    using ks_set_Some [of ?m k0 s0] s0 elem_str_image [of s0] elem_str_distinct [OF i] distinct_card [OF elem_str_distinct [OF i]] by auto
  have I: "{x \<in> ks_set ?m k0. P x} = (\<Inter>k \<in> set setkeys. ks_set ?m k)" unfolding set P_def by auto
  have es: "\<forall>e \<in> set (set_elems s0). elem_ok env e \<and> sds_ok (elem_str e)"
    using set_elems_ok [OF i] g by (auto simp: elem_ok_def set_good_def)
  have "card (set_els createIntsetObject) + length (set_elems s0) \<le> set_cap"
    using xs(3) ks_set_cap [OF inv] good_new(2) by simp
  from inter_loop_filters [OF inv es _ good_new(1) this, of ks "dstkey \<noteq> None" k0 "[]"] sets set
  obtain m' dst where r: "inter_loop env (dstkey \<noteq> None) k0 ks (set_elems s0) ?m [] createIntsetObject =
      Some (m', if dstkey \<noteq> None then [] else [] @ filter P ?xs, dst)"
    "ks_inv env m'" "ks_abs m' = ks_abs ?m" "set_good env dst"
    "dstkey \<noteq> None \<longrightarrow> set_els dst = {x \<in> elem_str ` set (set_elems s0). P x}"
    unfolding P_def good_new(2) by auto
  have cmd: "sinterGenericCommand env qs setkeys dstkey srv =
      (case dstkey of Some d \<Rightarrow> store_result ''sinterstore'' d dst (srv\<lparr>keyspace := m'\<rparr>)
       | None \<Rightarrow> Some (ReplySet (int (length (filter P ?xs))) (filter P ?xs), srv\<lparr>keyspace := m'\<rparr>))"
    using all k s0 setTypeElements_all [OF i] r(1)
    by (cases dstkey) (simp_all add: sinterGenericCommand_def flip: c_def)
  show ?thesis
  proof (cases dstkey)
    case None
    have f: "set (filter P ?xs) = (\<Inter>k \<in> set setkeys. ks_set ?m k)" "distinct (filter P ?xs)"
      using xs(1,2) I by auto
    have "lists_set (ReplySet (int (length (filter P ?xs))) (filter P ?xs)) (\<Inter>k \<in> set setkeys. ks_set ?m k)"
      unfolding lists_set_def using f distinct_card [OF f(2)] by metis
    with None cmd r(2,3) show ?thesis by (simp add: op_result_def)
  next
    case (Some d)
    then have "set_els dst = (\<Inter>k \<in> set setkeys. ks_set ?m k)" using r(5) I xs(1) by auto
    with op_result_store [OF r(2,3,4), of "''sinterstore''" d] cmd Some show ?thesis by auto
  qed
qed

lemma op_result_reply:
  assumes "ks_inv env m" "ks_abs m = ks_abs (keyspace srv)" "set_good env dst"
  shows "\<exists>xs. set_strings env dst = Some xs \<and>
    op_result env None (set_els dst) srv (ReplySet (int (card (set_els dst))) xs) (srv\<lparr>keyspace := m\<rparr>)"
proof -
  obtain xs where "set_strings env dst = Some xs" "set xs = set_els dst" "distinct xs"
    by (rule set_strings_good [OF assms(3)])
  with assms(1,2) show ?thesis by (simp add: op_result_def lists_set_def)
qed

lemma sunionDiff_result:
  assumes "no_wrong_type (keyspace srv) (k0 # ks)"
    and "\<exists>m dst. set_op_dst env qs op k0 ks (keyspace srv) = Some (m, int (card (set_els dst)), dst) \<and>
      ks_inv env m \<and> ks_abs m = ks_abs (keyspace srv) \<and> set_good env dst \<and> set_els dst = A"
  shows "\<exists>r srv'. sunionDiffGenericCommand env qs (k0 # ks) dstkey op srv = Some (r, srv') \<and> op_result env dstkey A srv r srv'"
proof -
  obtain m dst where r: "set_op_dst env qs op k0 ks (keyspace srv) = Some (m, int (card (set_els dst)), dst)"
    "ks_inv env m" "ks_abs m = ks_abs (keyspace srv)" "set_good env dst" "set_els dst = A" using assms(2) by blast
  have w: "\<not> any_wrong_type (keyspace srv) (k0 # ks)" using assms(1) by (simp add: no_wrong_type_any)
  show ?thesis
  proof (cases dstkey)
    case None
    from op_result_reply [OF r(2-4)] r(1,5) None w show ?thesis by (auto simp: sunionDiffGenericCommand_def)
  next
    case (Some d)
    from op_result_store [OF r(2-4), of "case op of SET_OP_UNION \<Rightarrow> ''sunionstore'' | SET_OP_DIFF \<Rightarrow> ''sdiffstore''" d] r(1,5) Some w show ?thesis by (auto simp: sunionDiffGenericCommand_def)
  qed
qed

lemma sunion_all:
  assumes inv: "ks_inv env (keyspace srv)" and ty: "no_wrong_type (keyspace srv) (k0 # ks)"
    and room: "sum_list (map (\<lambda>k. card (ks_set (keyspace srv) k)) (k0 # ks)) \<le> set_cap"
  shows "\<exists>r srv'. sunionDiffGenericCommand env qs (k0 # ks) dstkey SET_OP_UNION srv = Some (r, srv') \<and>
    op_result env dstkey (\<Union>k \<in> set (k0 # ks). ks_set (keyspace srv) k) srv r srv'"
proof -
  obtain dst where u: "union_loop env (keyspace srv) (k0 # ks) 0 createIntsetObject = Some (int (card (set_els dst)), dst)"
    "set_good env dst" "set_els dst = (\<Union>k \<in> set (k0 # ks). ks_set (keyspace srv) k)"
    using union_loop_adds [OF inv ty good_new(1), of 0] room good_new(2) by auto
  have "set_op_dst env qs SET_OP_UNION k0 ks (keyspace srv) = Some (keyspace srv, int (card (set_els dst)), dst)"
    using u(1) by (simp add: set_op_dst_def del: union_loop.simps)
  with inv u(2,3) show ?thesis by (intro sunionDiff_result [OF ty]) blast
qed

lemma sdiff_all:
  assumes inv: "ks_inv env (keyspace srv)" and qs: "qsort_ok qs" and ty: "no_wrong_type (keyspace srv) (k0 # ks0)"
  shows "\<exists>r srv'. sunionDiffGenericCommand env qs (k0 # ks0) dstkey SET_OP_DIFF srv = Some (r, srv') \<and>
    op_result env dstkey (ks_set (keyspace srv) k0 - (\<Union>k \<in> set ks0. ks_set (keyspace srv) k)) srv r srv'"
proof (rule sunionDiff_result [OF ty], cases "keyspace srv k0 = None")
  let ?m = "keyspace srv"
  let ?A = "ks_set ?m k0 - (\<Union>k \<in> set ks0. ks_set ?m k)"
  case True
  then show "\<exists>m dst. set_op_dst env qs SET_OP_DIFF k0 ks0 ?m = Some (m, int (card (set_els dst)), dst) \<and>
      ks_inv env m \<and> ks_abs m = ks_abs ?m \<and> set_good env dst \<and> set_els dst = ?A"
    using good_new(1) [of env] good_new(2) inv
    by (intro exI [of _ ?m] exI [of _ createIntsetObject]) (simp add: set_op_dst_def ks_set_None)
next
  let ?m = "keyspace srv"
  let ?A = "ks_set ?m k0 - (\<Union>k \<in> set ks0. ks_set ?m k)"
  case False
  with ty obtain s0 where s0: "?m k0 = Some (OBJ_SET s0)" by auto
  have g: "set_good env s0" using ks_invD [of env ?m k0 s0] inv s0 by simp
  obtain xs where xs: "set_strings env s0 = Some xs" "set xs = set_els s0" "distinct xs" "length xs = card (set_els s0)"
    "\<forall>x \<in> set xs. sds_ok x"
    by (rule set_strings_good [OF g])
  have k0: "ks_set ?m k0 = set_els s0" using ks_set_Some [of ?m k0 s0] s0 by simp
  have len: "card (set_els createIntsetObject) + length xs \<le> set_cap"
    using xs(4) ks_set_cap [OF inv, of k0] k0 good_new(2) by simp
  show "\<exists>m dst. set_op_dst env qs SET_OP_DIFF k0 ks0 ?m = Some (m, int (card (set_els dst)), dst) \<and>
      ks_inv env m \<and> ks_abs m = ks_abs ?m \<and> set_good env dst \<and> set_els dst = ?A"
  proof (cases "diff_algo ?m (k0 # ks0) = 1")
    case True
    define ks where "ks = (if length (k0 # ks0) > 1 then qs (qsortCompareSetsByRevCardinality ?m) ks0 else ks0)"
    have set: "set ks = set ks0" using qs mset_eq_setD by (simp add: ks_def qsort_ok_def) blast
    then have "no_wrong_type ?m ks" using ty by (simp add: no_wrong_type_def)
    moreover have "set xs \<subseteq> ks_set ?m k0" "set xs \<inter> set_els createIntsetObject = {}" "0 = int (card (set_els createIntsetObject))"
      using xs(2) k0 good_new(2) by simp_all
    ultimately obtain m' dst where d: "diff1_loop env k0 ks xs ?m 0 createIntsetObject = Some (m', int (card (set_els dst)), dst)"
      "ks_inv env m'" "ks_abs m' = ks_abs ?m" "set_good env dst"
      "set_els dst = set_els createIntsetObject \<union> {x \<in> set xs. \<forall>k \<in> set ks. x \<notin> ks_set ?m k}"
      using diff1_loop_adds [OF inv _ _ xs(3) _ good_new(1) _ len, of ks k0 0] by blast
    then have "set_els dst = ?A" using good_new(2) xs(2) k0 set by auto
    moreover have "set_op_dst env qs SET_OP_DIFF k0 ks0 ?m = Some (m', int (card (set_els dst)), dst)"
      using s0 True xs(1) d(1) by (simp add: set_op_dst_def Let_def ks_def)
    ultimately show ?thesis using d(2-4) by blast
  next
    case False
    from sadd_loop_adds [OF good_new(1) xs(5) len, of env 0] good_new(2) obtain d0 where
      d0: "add_loop env xs 0 createIntsetObject = Some (int (card (set_els d0)), d0)" "set_good env d0" "set_els d0 = set_els s0"
      using xs(2) by (auto simp: add_loop_sadd)
    obtain dst where d: "diff2_loop env ?m ks0 (int (card (set_els d0))) d0 = Some (int (card (set_els dst)), dst)"
      "set_good env dst" "set_els dst = set_els d0 - (\<Union>k \<in> set ks0. ks_set ?m k)"
      using diff2_loop_removes [OF inv _ d0(2) refl, of ks0] ty unfolding no_wrong_type_Cons by blast
    define dst' where "dst' = (if set_els d0 = {} then d0 else dst)"
    have "set_els dst' = ?A" "set_good env dst'"
      using d d0 k0 by (auto simp: dst'_def)
    moreover have "set_op_dst env qs SET_OP_DIFF k0 ks0 ?m = Some (?m, int (card (set_els dst')), dst')"
      using s0 False xs(1) d(1) d0(1) set_els_finite [of d0] by (simp add: set_op_dst_def dst'_def)
    ultimately show ?thesis using inv by blast
  qed
qed

section \<open>A concrete keyspace\<close>

definition ex_env :: set_env where
  "ex_env = \<lparr>env_can_resize = True, set_max_intset_entries = 512, sds_hash = (\<lambda>s. of_nat (length s)),
     env_junk = (\<lambda>_. 0), env_addr = (1, 2)\<rparr>"

text \<open>The same elements as an intset at \<^verbatim>\<open>a\<close> and as a hash table at \<^verbatim>\<open>b\<close>.\<close>

definition ex_a :: key where "ex_a = [97]"
definition ex_b :: key where "ex_b = [98]"

definition ex_srv :: "nat server" where
  "ex_srv = \<lparr>keyspace = [ex_a \<mapsto> OBJ_SET (OBJ_ENCODING_INTSET ex_intset),
       ex_b \<mapsto> OBJ_SET (the (setTypeConvert ex_env (OBJ_ENCODING_INTSET ex_intset)))],
     dirty = 0, events = [], modified = []\<rparr>"

definition ex_qsort :: qsort where
  "ex_qsort cmp xs = foldr (\<lambda>x ys. takeWhile (\<lambda>y. cmp y x < 0) ys @ x # dropWhile (\<lambda>y. cmp y x < 0) ys) xs []"

lemma ex_qsort_ok: "qsort_ok ex_qsort"
proof -
  have "mset (ex_qsort cmp xs) = mset xs" for cmp xs
  proof (induction xs)
    case (Cons x xs)
    then show ?case by (simp only: ex_qsort_def foldr.simps o_apply mset_insert_before mset.simps)
  qed (simp add: ex_qsort_def)
  then show ?thesis by (simp add: qsort_ok_def)
qed

definition ex_set :: "byte list set" where
  "ex_set = int_str ` {-5, 1, 300}"

lemma ex_set_ok: "card ex_set = 3" "x \<in> ex_set \<Longrightarrow> sds_ok x"
proof -
  have f: "fits 8 (-5)" "fits 8 1" "fits 8 300" "fits 8 LLONG_MIN" by (simp_all add: fits_def LLONG_MIN_def)
  show "card ex_set = 3"
    using int_str_card [OF ex_intset_inv(1)] ex_intset_inv(2) by (simp add: ex_set_def)
  show "x \<in> ex_set \<Longrightarrow> sds_ok x"
    using f int_str_inject by (auto simp: ex_set_def sds_ok_def) (auto simp: LLONG_MIN_def)
qed

lemma ex_srv_good:
  obtains d where "keyspace ex_srv = [ex_a \<mapsto> OBJ_SET (OBJ_ENCODING_INTSET ex_intset), ex_b \<mapsto> OBJ_SET (OBJ_ENCODING_HT d)]"
    "ht_ok ex_env d" "set_keys d = ex_set"
proof -
  have "LLONG_MIN \<notin> is_set ex_intset" "card (is_set ex_intset) \<le> Suc set_cap"
    by (simp_all add: ex_intset_inv LLONG_MIN_def set_cap_def)
  from setTypeConvert_keeps [OF ex_intset_inv(1) this, of ex_env] obtain d where
    "setTypeConvert ex_env (OBJ_ENCODING_INTSET ex_intset) = Some (OBJ_ENCODING_HT d)" "ht_ok ex_env d" "set_keys d = ex_set"
    by (auto simp: ex_set_def ex_intset_inv)
  then show thesis by (intro that [of d]) (simp_all add: ex_srv_def)
qed

lemma ex_srv_inv: "ks_inv ex_env (keyspace ex_srv)"
  and ex_srv_abs: "ks_abs (keyspace ex_srv) = [ex_a \<mapsto> ASet ex_set, ex_b \<mapsto> ASet ex_set]"
  and ex_srv_type: "no_wrong_type (keyspace ex_srv) [ex_a, ex_b]"
proof -
  obtain d where d: "keyspace ex_srv = [ex_a \<mapsto> OBJ_SET (OBJ_ENCODING_INTSET ex_intset), ex_b \<mapsto> OBJ_SET (OBJ_ENCODING_HT d)]"
    "ht_ok ex_env d" "set_keys d = ex_set" by (rule ex_srv_good)
  have e: "set_els (OBJ_ENCODING_INTSET ex_intset) = ex_set" by (simp add: ex_set_def ex_intset_inv)
  have "set_good ex_env (OBJ_ENCODING_INTSET ex_intset)" "set_good ex_env (OBJ_ENCODING_HT d)"
    using e d(2,3) ex_set_ok by (simp_all add: set_good_def set_cap_def ex_intset_inv LLONG_MIN_def)
  moreover have "ex_set \<noteq> {}" by (simp add: ex_set_def)
  ultimately show "ks_inv ex_env (keyspace ex_srv)" using d(1,3) e by (auto simp: ks_inv_def)
  show "ks_abs (keyspace ex_srv) = [ex_a \<mapsto> ASet ex_set, ex_b \<mapsto> ASet ex_set]"
    using d(1,3) e by (auto simp: ks_abs_def fun_eq_iff)
  show "no_wrong_type (keyspace ex_srv) [ex_a, ex_b]" using d(1) by (simp add: no_wrong_type_def)
qed

lemma ex_srv_set: "ks_set (keyspace ex_srv) ex_a = ex_set" "ks_set (keyspace ex_srv) ex_b = ex_set" "ex_a \<noteq> ex_b"
  by (simp_all add: ks_set_def ex_srv_abs ex_a_def ex_b_def)

section \<open>Properties\<close>

text \<open>C9. SINTER and SINTERSTORE compute the intersection of the sets at the given keys,
  whatever their encodings, the order \<^verbatim>\<open>qsort\<close> leaves them in and repetitions among the keys: the
  reply announces and lists exactly its elements, or the destination holds it and is
  deleted when it is empty. No other key changes its value.\<close>

theorem sinterGenericCommand_intersects:
  assumes "ks_inv env (keyspace srv)" "qsort_ok qs" "setkeys \<noteq> []" "no_wrong_type (keyspace srv) setkeys"
  shows "\<exists>r srv'. sinterGenericCommand env qs setkeys dstkey srv = Some (r, srv') \<and>
    op_result env dstkey (\<Inter>k \<in> set setkeys. ks_set (keyspace srv) k) srv r srv'"
proof (cases "lookup_sets (keyspace srv) setkeys")
  case Missing
  then obtain k where "k \<in> set setkeys" "ks_set (keyspace srv) k = {}"
    using lookup_sets_missing [OF Missing] by (auto simp: ks_set_None)
  then have "(\<Inter>k \<in> set setkeys. ks_set (keyspace srv) k) = {}" by auto
  with sinter_missing [OF assms(1) Missing] show ?thesis by metis
next
  case WrongType
  with lookup_sets_wrong [OF assms(4)] show ?thesis by simp
next
  case AllSets
  show ?thesis by (rule sinter_all [OF assms(1-3) AllSets])
qed

theorem sinterGenericCommand_intersects_witness:
  "\<exists>r srv'. sinterGenericCommand ex_env ex_qsort [ex_a, ex_b] None ex_srv = Some (r, srv') \<and> lists_set r ex_set"
  using sinterGenericCommand_intersects [OF ex_srv_inv ex_qsort_ok _ ex_srv_type, of None]
  by (auto simp: op_result_def ex_srv_set)

text \<open>C10. SUNION, SDIFF and their STORE variants compute the union of the sets and the first
  set without the others; the difference does so with either of its two algorithms. A missing
  key counts as an empty set.\<close>

theorem sunionDiffGenericCommand_computes:
  assumes "ks_inv env (keyspace srv)" "qsort_ok qs" "no_wrong_type (keyspace srv) (k0 # ks)"
    "sum_list (map (\<lambda>k. card (ks_set (keyspace srv) k)) (k0 # ks)) \<le> set_cap"
  shows "\<exists>r srv'. sunionDiffGenericCommand env qs (k0 # ks) dstkey op srv = Some (r, srv') \<and>
    op_result env dstkey
      (case op of SET_OP_UNION \<Rightarrow> \<Union>k \<in> set (k0 # ks). ks_set (keyspace srv) k
       | SET_OP_DIFF \<Rightarrow> ks_set (keyspace srv) k0 - (\<Union>k \<in> set ks. ks_set (keyspace srv) k)) srv r srv'"
  using sunion_all [OF assms(1,3,4), of qs dstkey] sdiff_all [OF assms(1-3), of dstkey] by (cases op) simp_all

theorem sunionDiffGenericCommand_computes_witness:
  "\<exists>r srv'. sunionDiffGenericCommand ex_env ex_qsort [ex_a, ex_b] (Some ex_a) SET_OP_DIFF ex_srv = Some (r, srv') \<and>
    r = ReplyInt 0 \<and> ks_abs (keyspace srv') = [ex_b \<mapsto> ASet ex_set]"
  using sunionDiffGenericCommand_computes [OF ex_srv_inv ex_qsort_ok ex_srv_type, of "Some ex_a" SET_OP_DIFF] ex_srv_set(3)
  by (auto simp: op_result_def ex_srv_set ex_set_ok ks_store_def ex_srv_abs set_cap_def fun_upd_twist)

text \<open>C27. SADD adds its arguments to the set at the key, which it creates when it is missing:
  the reply and \<^verbatim>\<open>server.dirty\<close> count the new elements, and an event is sent when there is one. A
  key of another type is left alone.\<close>

theorem saddCommand_adds:
  assumes "ks_inv env (keyspace srv)" "vals \<noteq> []" "\<forall>v \<in> set vals. sds_ok v"
    "card (ks_set (keyspace srv) key) + length vals \<le> set_cap"
  shows "if no_wrong_type (keyspace srv) [key]
    then \<exists>srv' n. saddCommand env key vals srv = Some (ReplyInt n, srv') \<and>
      n = int (card (ks_set (keyspace srv) key \<union> set vals)) - int (card (ks_set (keyspace srv) key)) \<and>
      ks_inv env (keyspace srv') \<and>
      ks_abs (keyspace srv') = (ks_abs (keyspace srv))(key \<mapsto> ASet (ks_set (keyspace srv) key \<union> set vals)) \<and>
      dirty srv' = dirty srv + n \<and> events srv' = events srv @ (if n = 0 then [] else [(''sadd'', key)])
    else saddCommand env key vals srv = Some (ReplyWrongType, srv)"
proof (cases "no_wrong_type (keyspace srv) [key]")
  case True
  define s where "s = (case keyspace srv key of Some (OBJ_SET s) \<Rightarrow> s | _ \<Rightarrow> setTypeCreate env (hd vals))"
  have s: "set_good env s" "set_els s = ks_set (keyspace srv) key"
    using True assms(1) ks_invD [of env "keyspace srv" key] good_new(3,4)
    by (auto simp: s_def ks_set_None ks_set_Some)
  from sadd_loop_adds [OF s(1) assms(3), of 0] assms(4) s(2) obtain s' where
    s': "sadd_loop env vals s 0 = Some (int (card (set_els s \<union> set vals) - card (set_els s)), s')" "set_good env s'"
      "set_els s' = set_els s \<union> set vals" by auto
  have "card (set_els s) \<le> card (set_els s \<union> set vals)" using set_els_finite by (intro card_mono) auto
  then have n: "int (card (set_els s \<union> set vals) - card (set_els s)) = int (card (set_els s \<union> set vals)) - int (card (set_els s))"
    by simp
  have "set_els s' \<noteq> {}" using s'(3) assms(2) by simp
  with ks_inv_upd [OF assms(1) s'(2)] have "ks_inv env ((keyspace srv)(key \<mapsto> OBJ_SET s'))" by blast
  note inv' = this
  define n where "n = int (card (set_els s \<union> set vals)) - int (card (set_els s))"
  define srv' where "srv' = add_dirty n
    (let srv = setObj key s' srv in if n \<noteq> 0 then notifyKeyspaceEvent ''sadd'' key (signalModifiedKey key srv) else srv)"
  obtain v vs where v: "vals = v # vs" using assms(2) by (cases vals) auto
  have loop: "sadd_loop env (v # vs) s 0 = Some (n, s')" using s'(1) n v by (simp add: n_def)
  have "saddCommand env key vals srv = Some (ReplyInt n, srv')"
  proof (cases "keyspace srv key")
    case None
    then show ?thesis using loop
      unfolding saddCommand_def v s_def srv'_def by (simp add: Let_def dbAdd_def setObj_def del: sadd_loop.simps)
  next
    case (Some ob)
    with True obtain s0 where "keyspace srv key = Some (OBJ_SET s0)" by auto
    then show ?thesis using loop
      unfolding saddCommand_def v s_def srv'_def by (simp add: Let_def del: sadd_loop.simps)
  qed
  moreover have "keyspace srv' = (keyspace srv)(key \<mapsto> OBJ_SET s')" "dirty srv' = dirty srv + n"
    "events srv' = events srv @ (if n = 0 then [] else [(''sadd'', key)])"
    by (simp_all add: srv'_def srv_defs Let_def)
  ultimately show ?thesis using True inv' s(2) s'(3) n_def by auto
next
  case False
  then obtain x where "keyspace srv key = Some (OBJ_OTHER x)" by (auto simp: no_wrong_type_def)
  with False assms(2) show ?thesis by (simp add: saddCommand_def split: list.splits)
qed

theorem saddCommand_adds_witness:
  "\<exists>srv'. saddCommand ex_env ex_a [[120], [121], [120]] ex_srv = Some (ReplyInt (int (card (ex_set \<union> {[120], [121]})) - 3), srv') \<and>
    ks_abs (keyspace srv') = [ex_a \<mapsto> ASet (ex_set \<union> {[120], [121]}), ex_b \<mapsto> ASet ex_set]"
proof -
  have "sds_ok [120]" "sds_ok [121]" by (simp_all add: sds_ok_def int_str_def LLONG_MIN_def)
  with saddCommand_adds [OF ex_srv_inv, of "[[120], [121], [120]]" ex_a] ex_srv_type ex_srv_set(3)
  show ?thesis
    by (auto simp: ex_srv_set ex_set_ok ex_srv_abs set_cap_def no_wrong_type_def fun_upd_twist insert_commute)
qed

text \<open>C26. SREM removes its arguments from the set at the key and deletes the key exactly when the
  set becomes empty, with a \<^verbatim>\<open>del\<close> event after the \<^verbatim>\<open>srem\<close> event; the reply and \<^verbatim>\<open>server.dirty\<close> count
  the removed elements, although the loop stops at the last of them.\<close>

theorem sremCommand_removes:
  assumes "ks_inv env (keyspace srv)" "no_wrong_type (keyspace srv) [key]"
  shows "\<exists>srv' n. sremCommand env key vals srv = Some (ReplyInt n, srv') \<and>
    n = int (card (ks_set (keyspace srv) key)) - int (card (ks_set (keyspace srv) key - set vals)) \<and>
    ks_inv env (keyspace srv') \<and>
    ks_abs (keyspace srv') = ks_store key (ks_set (keyspace srv) key - set vals) (ks_abs (keyspace srv)) \<and>
    dirty srv' = dirty srv + n \<and>
    events srv' = events srv @ (if n = 0 then [] else [(''srem'', key)]) @
      (if n \<noteq> 0 \<and> ks_set (keyspace srv) key \<subseteq> set vals then [(''del'', key)] else [])"
proof (cases "keyspace srv key")
  case None
  then have "ks_set (keyspace srv) key = {}" "(ks_abs (keyspace srv))(key := None) = ks_abs (keyspace srv)"
    by (simp_all add: ks_set_None ks_abs_def fun_eq_iff)
  with None assms(1) show ?thesis by (simp add: sremCommand_def ks_store_def)
next
  case (Some ob)
  with assms(2) obtain s where s: "keyspace srv key = Some (OBJ_SET s)" by auto
  then have g: "set_good env s" "set_els s \<noteq> {}" "ks_set (keyspace srv) key = set_els s"
    using ks_invD [of env "keyspace srv" key s] assms(1) ks_set_Some [of "keyspace srv" key s] by simp_all
  obtain s' where s': "srem_loop env vals s 0 = Some (int (card (set_els s) - card (set_els s - set vals)), set_els s' = {}, s')"
    "set_good env s'" "set_els s' = set_els s - set vals" using srem_loop_removes [OF g(1,2), of vals 0] by auto
  have le: "card (set_els s - set vals) \<le> card (set_els s)" using set_els_finite by (intro card_mono) auto
  define n where "n = int (card (set_els s)) - int (card (set_els s'))"
  have loop: "srem_loop env vals s 0 = Some (n, set_els s' = {}, s')" using s'(1,3) le by (simp add: n_def)
  have n0: "set_els s' = {} \<Longrightarrow> n \<noteq> 0" unfolding n_def using g(2) set_els_finite [of s] by simp
  have sub: "set_els s' = {} \<longleftrightarrow> set_els s \<subseteq> set vals" using s'(3) by auto
  have "ks_inv env (if set_els s' = {} then (keyspace srv)(key := None) else (keyspace srv)(key \<mapsto> OBJ_SET s'))"
    using ks_inv_del [OF assms(1), of key] ks_inv_upd [OF assms(1) s'(2), of key] by simp
  with s loop n0 show ?thesis
    unfolding g(3) sub [symmetric] s'(3) [symmetric] n_def [symmetric]
    by (cases "set_els s' = {}") (simp_all add: sremCommand_def srv_defs ks_store_def Let_def)
qed

theorem sremCommand_removes_witness:
  "\<exists>srv'. sremCommand ex_env ex_a [int_str 300, int_str 1, int_str (-5), [120]] ex_srv = Some (ReplyInt 3, srv') \<and>
    ks_abs (keyspace srv') = [ex_b \<mapsto> ASet ex_set] \<and> dirty srv' = 3 \<and> events srv' = [(''srem'', ex_a), (''del'', ex_a)]"
proof -
  have e: "ex_set - {int_str 300, int_str 1, int_str (-5), [120]} = {}" "ex_set \<subseteq> {int_str 300, int_str 1, int_str (-5), [120]}"
    by (auto simp: ex_set_def)
  have "dirty ex_srv = 0" "events ex_srv = []" by (simp_all add: ex_srv_def)
  then show ?thesis
    using sremCommand_removes [OF ex_srv_inv, of ex_a "[int_str 300, int_str 1, int_str (-5), [120]]"] ex_srv_type ex_srv_set(3)
    by (auto simp: ex_srv_set ex_set_ok ex_srv_abs no_wrong_type_def ks_store_def fun_upd_twist e)
qed

text \<open>SMOVE moves an element from one set to another in one step: when it is in the source it
  leaves it, the source key being deleted if it becomes empty, and is in the destination
  afterwards; otherwise nothing changes. Moving within one key only reports membership.\<close>

theorem smoveCommand_moves:
  assumes "ks_inv env (keyspace srv)" "no_wrong_type (keyspace srv) [src, dst]" "sds_ok ele"
    "card (ks_set (keyspace srv) dst) < set_cap"
  shows "\<exists>srv'. smoveCommand env src dst ele srv = Some (ReplyInt (if ele \<in> ks_set (keyspace srv) src then 1 else 0), srv') \<and>
    ks_inv env (keyspace srv') \<and>
    ks_abs (keyspace srv') =
      (if src = dst \<or> ele \<notin> ks_set (keyspace srv) src then ks_abs (keyspace srv)
       else (ks_store src (ks_set (keyspace srv) src - {ele}) (ks_abs (keyspace srv)))
         (dst \<mapsto> ASet (insert ele (ks_set (keyspace srv) dst))))"
proof (cases "keyspace srv src")
  case None
  with assms(1) show ?thesis by (simp add: smoveCommand_def ks_set_None)
next
  case (Some ob)
  let ?m = "keyspace srv"
  from Some assms(2) obtain s where s: "?m src = Some (OBJ_SET s)" by auto
  then have g: "set_good env s" "set_els s \<noteq> {}" "ks_set ?m src = set_els s"
    using ks_invD [of env ?m src s] assms(1) ks_set_Some [of ?m src s] by simp_all
  have d: "?m dst = None \<or> (\<exists>s. ?m dst = Some (OBJ_SET s))" using assms(2) by simp
  show ?thesis
  proof (cases "src = dst")
    case True
    from member_step [of env ?m src s ele] assms(1) s obtain s' where
      "setTypeIsMember s ele = Some (ele \<in> ks_set ?m src, s')" "ks_inv env (?m(src \<mapsto> OBJ_SET s'))"
      "ks_abs (?m(src \<mapsto> OBJ_SET s')) = ks_abs ?m" by blast
    with True s show ?thesis by (simp add: smoveCommand_def srv_defs)
  next
    case False
    obtain s' where s': "setTypeRemove env s ele = Some (ele \<in> set_els s, s')" "set_good env s'" "set_els s' = set_els s - {ele}"
      using good_remove [OF g(1)] by blast
    have z: "setTypeSize s' = 0 \<longleftrightarrow> set_els s - {ele} = {}" using good_size_0 [OF s'(2)] s'(3) by simp
    define d0 where "d0 = (case ?m dst of Some (OBJ_SET d) \<Rightarrow> d | _ \<Rightarrow> setTypeCreate env ele)"
    have d0: "set_good env d0" "set_els d0 = ks_set ?m dst"
      using d assms(1) ks_invD [of env ?m dst] good_new(3,4) by (auto simp: d0_def ks_set_None ks_set_Some)
    obtain d1 where d1: "setTypeAdd env d0 ele = Some (ele \<notin> set_els d0, d1)" "set_good env d1"
      "set_els d1 = insert ele (set_els d0)"
      using good_add [OF d0(1) _ assms(3)] d0(2) assms(4) by auto
    define m1 where "m1 = (if set_els s - {ele} = {} then ?m(src := None) else ?m(src \<mapsto> OBJ_SET s'))"
    have m1: "ks_inv env m1" "ks_abs m1 = ks_store src (ks_set ?m src - {ele}) (ks_abs ?m)" "m1 dst = ?m dst"
      using ks_inv_del [OF assms(1), of src] ks_inv_upd [OF assms(1) s'(2), of src] s'(3) g(3) False
      by (auto simp: m1_def ks_store_def)
    have m2: "ks_inv env (m1(dst \<mapsto> OBJ_SET d1))" using ks_inv_upd [OF m1(1) d1(2)] d1(3) by simp
    show ?thesis
    proof (cases "ele \<in> set_els s")
      case True
      then have "\<exists>srv'. smoveCommand env src dst ele srv = Some (ReplyInt 1, srv') \<and> keyspace srv' = m1(dst \<mapsto> OBJ_SET d1)"
        using s s'(1) z d d1(1) False m1(3)
        by (auto simp: smoveCommand_def d0_def m1_def srv_defs Let_def)
      with True False m1(2) m2 d1(3) d0(2) g(3) show ?thesis by auto
    next
      case ne: False
      have "ks_abs (?m(src \<mapsto> OBJ_SET s')) = ks_abs ?m" using ne s s'(3) ks_abs_same [of ?m src "set_els s"] by (simp add: ks_abs_def)
      moreover have "ks_inv env (?m(src \<mapsto> OBJ_SET s'))"
        using ks_inv_upd [OF assms(1) s'(2)] s'(3) ne g(2) by simp
      ultimately show ?thesis using ne False s s'(1) g(3) d by (auto simp: smoveCommand_def srv_defs)
    qed
  qed
qed

theorem smoveCommand_moves_witness:
  "\<exists>srv'. smoveCommand ex_env ex_a ex_b (int_str 1) ex_srv = Some (ReplyInt 1, srv') \<and>
    ks_abs (keyspace srv') = [ex_a \<mapsto> ASet (ex_set - {int_str 1}), ex_b \<mapsto> ASet ex_set]"
proof -
  have i: "int_str 1 \<in> ex_set" by (simp add: ex_set_def)
  have "ex_set - {int_str 1} \<noteq> {}"
    by (metis One_nat_def card.empty card.insert ex_set_ok(1) finite.emptyI i insert_Diff insert_absorb insert_not_empty numeral_eq_one_iff numerals(1) semiring_norm(86))
  with i smoveCommand_moves [OF ex_srv_inv, of ex_a ex_b "int_str 1"] ex_srv_type ex_srv_set(3) ex_set_ok(2) [OF i]
  show ?thesis by (auto simp: ex_srv_set ex_set_ok ex_srv_abs ks_store_def set_cap_def insert_absorb fun_upd_twist)
qed

text \<open>C25. \<^verbatim>\<open>setTypeAdd\<close> refines insertion into a set of strings for both encodings: an integer in
  an intset, the conversion of an intset that became too long or meets its first string that is
  no integer, and a hash table in the middle of a rehash.\<close>

theorem setTypeAdd_refines:
  assumes "set_inv env s" "card (set_els s) < set_cap" "v \<noteq> int_str LLONG_MIN"
  shows "\<exists>s'. setTypeAdd env s v = Some (v \<notin> set_els s, s') \<and> set_inv env s' \<and> set_els s' = insert v (set_els s)"
  using assms by (intro sobj.add) (simp_all add: sds_ok_def)

theorem setTypeAdd_refines_witness:
  "\<exists>s'. setTypeAdd ex_env (OBJ_ENCODING_INTSET ex_intset) [120] = Some (True, s') \<and> set_inv ex_env s' \<and>
    set_els s' = insert [120] ex_set"
proof -
  have n: "[120] \<noteq> int_str LLONG_MIN" by (simp add: int_str_def LLONG_MIN_def)
  have i: "set_inv ex_env (OBJ_ENCODING_INTSET ex_intset)" "set_els (OBJ_ENCODING_INTSET ex_intset) = ex_set"
    by (simp_all add: ex_intset_inv LLONG_MIN_def ex_set_def)
  have "isSdsRepresentableAsLongLong [120] = None"
    by (simp add: isSdsRepresentableAsLongLong_def string2ll_def)
  then have "[120] \<notin> ex_set" using not_representable [OF _ ex_intset_inv(1)] by (simp add: ex_set_def ex_intset_inv)
  with setTypeAdd_refines [OF i(1) _ n] show ?thesis unfolding i(2) ex_set_ok by (simp add: set_cap_def)
qed

text \<open>An intset that holds \<^verbatim>\<open>LLONG_MIN\<close> cannot be converted to a hash table: printing that
  element overflows. \<^verbatim>\<open>SADD\<close> of \<^verbatim>\<open>-9223372036854775808\<close> and then of a string that is no integer is
  undefined behaviour.\<close>

theorem setTypeConvert_LLONG_MIN:
  assumes "is_inv is" "LLONG_MIN \<in> is_set is"
  shows "setTypeConvert env (OBJ_ENCODING_INTSET is) = None"
proof -
  have "x \<ge> LLONG_MIN" if "x \<in> is_set is" for x
    using is_set_fits [OF assms(1) that] by (simp add: fits_def LLONG_MIN_def)
  then have "Min (is_set is) = LLONG_MIN" using assms(2) by (intro Min_eqI) simp_all
  then have "sorted_list_of_set (is_set is) = LLONG_MIN # sorted_list_of_set (is_set is - {LLONG_MIN})"
    using assms(2) sorted_list_of_set_nonempty [of "is_set is"] by auto
  moreover have "sdsfromlonglong j LLONG_MIN = None" for j by (simp add: sdsfromlonglong_def sdsll2str_def)
  ultimately have "convert_loop env (map Ll (sorted_list_of_set (is_set is))) d = None" for d by simp
  moreover have "setTypeElements env (OBJ_ENCODING_INTSET is) = Some (map Ll (sorted_list_of_set (is_set is)), OBJ_ENCODING_INTSET is)"
    by (simp add: setTypeElements_def setTypeInitIterator_def setTypeDrain_INTSET [OF assms(1)])
  ultimately show ?thesis by (simp add: setTypeConvert_def split: Option.bind_splits)
qed

theorem setTypeConvert_LLONG_MIN_witness:
  "setTypeConvert ex_env (OBJ_ENCODING_INTSET \<lparr>encoding = 8, is_length = 1, contents = enc_array 8 [LLONG_MIN]\<rparr>) = None"
proof -
  let ?is = "\<lparr>encoding = 8, is_length = 1, contents = enc_array 8 [LLONG_MIN]\<rparr>"
  have "rep ?is [LLONG_MIN]" by (simp add: rep_def fits_def LLONG_MIN_def)
  then have "is_inv ?is" "LLONG_MIN \<in> is_set ?is" using is_invI rep_set by fastforce+
  then show ?thesis by (rule setTypeConvert_LLONG_MIN)
qed

end
