(* ===== verification/Adlist.thy ===== *)
theory Adlist
  imports Prelude
begin

text \<open>
  The doubly linked lists of \<^verbatim>\<open>redis/src/adlist.c\<close> over an explicit store: a heap maps addresses to
  nodes, a pointer is an optional address, and \<^verbatim>\<open>NULL\<close> is \<^const>\<open>None\<close>. Following or writing through
  \<^verbatim>\<open>NULL\<close> or an address that is not allocated makes the result \<^const>\<open>None\<close>. The address an allocation
  returns is an argument of the operation, \<^const>\<open>None\<close> when \<^verbatim>\<open>zmalloc\<close> returns \<^verbatim>\<open>NULL\<close>. The values given
  to the \<^verbatim>\<open>free\<close> method are collected in the order of the calls.
\<close>

section \<open>Data\<close>

type_synonym addr = nat
type_synonym ptr = "addr option"

record 'v listNode =
  node_prev :: ptr
  node_next :: ptr
  node_value :: 'v

type_synonym 'v heap = "addr \<rightharpoonup> 'v listNode"

record 'v adlist =
  l_head :: ptr
  l_tail :: ptr
  l_dup :: "('v \<Rightarrow> 'v option) option"
  l_free :: bool
  l_match :: "('v \<Rightarrow> 'v \<Rightarrow> bool) option"
  l_len :: ulong

datatype direction = AL_START_HEAD | AL_START_TAIL

record listIter =
  iter_next :: ptr
  iter_direction :: direction

section \<open>Memory\<close>

definition load :: "'v heap \<Rightarrow> ptr \<Rightarrow> 'v listNode option" where
  "load h p = Option.bind p h"

definition store :: "'v heap \<Rightarrow> ptr \<Rightarrow> ('v listNode \<Rightarrow> 'v listNode) \<Rightarrow> 'v heap option" where
  "store h p f =
     (case p of
        None \<Rightarrow> None
      | Some a \<Rightarrow> (case h a of None \<Rightarrow> None | Some n \<Rightarrow> Some (h(a \<mapsto> f n))))"

definition set_prev :: "'v heap \<Rightarrow> ptr \<Rightarrow> ptr \<Rightarrow> 'v heap option" where
  "set_prev h p q = store h p (node_prev_update (\<lambda>_. q))"

definition set_next :: "'v heap \<Rightarrow> ptr \<Rightarrow> ptr \<Rightarrow> 'v heap option" where
  "set_next h p q = store h p (node_next_update (\<lambda>_. q))"

definition zfree :: "'v heap \<Rightarrow> ptr \<Rightarrow> 'v heap option" where
  "zfree h p = (case p of None \<Rightarrow> None | Some a \<Rightarrow> if h a = None then None else Some (h(a := None)))"

section \<open>Operations\<close>

definition listCreate :: "'v adlist" where
  "listCreate = \<lparr>l_head = None, l_tail = None, l_dup = None, l_free = False, l_match = None, l_len = 0\<rparr>"

fun empty_loop :: "nat \<Rightarrow> bool \<Rightarrow> ptr \<Rightarrow> 'v heap \<Rightarrow> ('v list \<times> 'v heap) option" where
  "empty_loop 0 fr current h = Some ([], h)"
| "empty_loop (Suc len) fr current h = do {
     n \<leftarrow> load h current;
     h \<leftarrow> zfree h current;
     (freed, h) \<leftarrow> empty_loop len fr (node_next n) h;
     Some (if fr then node_value n # freed else freed, h)
   }"

definition listEmpty :: "'v heap \<Rightarrow> 'v adlist \<Rightarrow> ('v list \<times> 'v heap \<times> 'v adlist) option" where
  "listEmpty h l = do {
     (freed, h) \<leftarrow> empty_loop (unat (l_len l)) (l_free l) (l_head l) h;
     Some (freed, h, l\<lparr>l_head := None, l_tail := None, l_len := 0\<rparr>)
   }"

definition listRelease :: "'v heap \<Rightarrow> 'v adlist \<Rightarrow> ('v list \<times> 'v heap) option" where
  "listRelease h l = do { (freed, h, _) \<leftarrow> listEmpty h l; Some (freed, h) }"

text \<open>The additions return \<^const>\<open>False\<close> for \<^verbatim>\<open>NULL\<close>. The new node is written once its fields are known.\<close>

definition listAddNodeHead :: "ptr \<Rightarrow> 'v \<Rightarrow> 'v heap \<Rightarrow> 'v adlist \<Rightarrow> (bool \<times> 'v heap \<times> 'v adlist) option" where
  "listAddNodeHead new value h l =
     (case new of
        None \<Rightarrow> Some (False, h, l)
      | Some a \<Rightarrow>
          if l_len l = 0 then
            Some (True, h(a \<mapsto> \<lparr>node_prev = None, node_next = None, node_value = value\<rparr>),
                  l\<lparr>l_head := new, l_tail := new, l_len := l_len l + 1\<rparr>)
          else do {
            let h = h(a \<mapsto> \<lparr>node_prev = None, node_next = l_head l, node_value = value\<rparr>);
            h \<leftarrow> set_prev h (l_head l) new;
            Some (True, h, l\<lparr>l_head := new, l_len := l_len l + 1\<rparr>)
          })"

definition listAddNodeTail :: "ptr \<Rightarrow> 'v \<Rightarrow> 'v heap \<Rightarrow> 'v adlist \<Rightarrow> (bool \<times> 'v heap \<times> 'v adlist) option" where
  "listAddNodeTail new value h l =
     (case new of
        None \<Rightarrow> Some (False, h, l)
      | Some a \<Rightarrow>
          if l_len l = 0 then
            Some (True, h(a \<mapsto> \<lparr>node_prev = None, node_next = None, node_value = value\<rparr>),
                  l\<lparr>l_head := new, l_tail := new, l_len := l_len l + 1\<rparr>)
          else do {
            let h = h(a \<mapsto> \<lparr>node_prev = l_tail l, node_next = None, node_value = value\<rparr>);
            h \<leftarrow> set_next h (l_tail l) new;
            Some (True, h, l\<lparr>l_tail := new, l_len := l_len l + 1\<rparr>)
          })"

definition listInsertNode :: "ptr \<Rightarrow> ptr \<Rightarrow> 'v \<Rightarrow> bool \<Rightarrow> 'v heap \<Rightarrow> 'v adlist \<Rightarrow> (bool \<times> 'v heap \<times> 'v adlist) option" where
  "listInsertNode new old_node value after h l =
     (case new of
        None \<Rightarrow> Some (False, h, l)
      | Some a \<Rightarrow> do {
          n \<leftarrow> load h old_node;
          let (prev, nxt) = (if after then (old_node, node_next n) else (node_prev n, old_node));
          let l = (if after \<and> l_tail l = old_node then l\<lparr>l_tail := new\<rparr> else l);
          let l = (if \<not> after \<and> l_head l = old_node then l\<lparr>l_head := new\<rparr> else l);
          let h = h(a \<mapsto> \<lparr>node_prev = prev, node_next = nxt, node_value = value\<rparr>);
          h \<leftarrow> (if prev \<noteq> None then set_next h prev new else Some h);
          h \<leftarrow> (if nxt \<noteq> None then set_prev h nxt new else Some h);
          Some (True, h, l\<lparr>l_len := l_len l + 1\<rparr>)
        })"

text \<open>The first component is what the \<^verbatim>\<open>free\<close> method was given.\<close>

definition listDelNode :: "ptr \<Rightarrow> 'v heap \<Rightarrow> 'v adlist \<Rightarrow> ('v list \<times> 'v heap \<times> 'v adlist) option" where
  "listDelNode node h l = do {
     n \<leftarrow> load h node;
     (h, l) \<leftarrow> (if node_prev n \<noteq> None
                then map_option (\<lambda>h. (h, l)) (set_next h (node_prev n) (node_next n))
                else Some (h, l\<lparr>l_head := node_next n\<rparr>));
     n \<leftarrow> load h node;
     (h, l) \<leftarrow> (if node_next n \<noteq> None
                then map_option (\<lambda>h. (h, l)) (set_prev h (node_next n) (node_prev n))
                else Some (h, l\<lparr>l_tail := node_prev n\<rparr>));
     n \<leftarrow> load h node;
     h \<leftarrow> zfree h node;
     Some (if l_free l then [node_value n] else [], h, l\<lparr>l_len := l_len l - 1\<rparr>)
   }"

definition listGetIterator :: "'v adlist \<Rightarrow> direction \<Rightarrow> listIter" where
  "listGetIterator l direction =
     \<lparr>iter_next = (case direction of AL_START_HEAD \<Rightarrow> l_head l | AL_START_TAIL \<Rightarrow> l_tail l), iter_direction = direction\<rparr>"

definition listRewind :: "'v adlist \<Rightarrow> listIter" where
  "listRewind l = \<lparr>iter_next = l_head l, iter_direction = AL_START_HEAD\<rparr>"

definition listRewindTail :: "'v adlist \<Rightarrow> listIter" where
  "listRewindTail l = \<lparr>iter_next = l_tail l, iter_direction = AL_START_TAIL\<rparr>"

definition listNext :: "'v heap \<Rightarrow> listIter \<Rightarrow> (ptr \<times> listIter) option" where
  "listNext h iter =
     (case iter_next iter of
        None \<Rightarrow> Some (None, iter)
      | Some _ \<Rightarrow> do {
          n \<leftarrow> load h (iter_next iter);
          Some (iter_next iter,
                iter\<lparr>iter_next := (case iter_direction iter of AL_START_HEAD \<Rightarrow> node_next n | AL_START_TAIL \<Rightarrow> node_prev n)\<rparr>)
        })"

text \<open>The copying loop; \<open>news\<close> are the addresses the allocations return.\<close>

partial_function (option) dup_loop :: "(nat \<Rightarrow> ptr) \<Rightarrow> nat \<Rightarrow> listIter \<Rightarrow> 'v heap \<Rightarrow> 'v adlist \<Rightarrow>
    ('v adlist option \<times> 'v heap) option" where
  "dup_loop news i iter h copy =
     Option.bind (listNext h iter) (\<lambda>(node, iter).
       case node of
         None \<Rightarrow> Some (Some copy, h)
       | Some _ \<Rightarrow> Option.bind (load h node) (\<lambda>n.
           case (case l_dup copy of Some dup \<Rightarrow> dup (node_value n) | None \<Rightarrow> Some (node_value n)) of
             None \<Rightarrow> Option.bind (listRelease h copy) (\<lambda>(_, h). Some (None, h))
           | Some value \<Rightarrow>
               Option.bind (listAddNodeTail (news i) value h copy) (\<lambda>(ok, h, copy).
                 if \<not> ok then Option.bind (listRelease h copy) (\<lambda>(_, h). Some (None, h))
                 else dup_loop news (i + 1) iter h copy)))"

definition listDup :: "(nat \<Rightarrow> ptr) \<Rightarrow> 'v heap \<Rightarrow> 'v adlist \<Rightarrow> ('v adlist option \<times> 'v heap) option" where
  "listDup news h orig =
     dup_loop news 0 (listRewind orig) h
       (listCreate\<lparr>l_dup := l_dup orig, l_free := l_free orig, l_match := l_match orig\<rparr>)"

partial_function (option) search_loop :: "('v \<Rightarrow> 'v \<Rightarrow> bool) option \<Rightarrow> 'v \<Rightarrow> listIter \<Rightarrow> 'v heap \<Rightarrow> ptr option" where
  "search_loop mt key iter h =
     Option.bind (listNext h iter) (\<lambda>(node, iter).
       case node of
         None \<Rightarrow> Some None
       | Some _ \<Rightarrow> Option.bind (load h node) (\<lambda>n.
           if (case mt of Some f \<Rightarrow> f (node_value n) key | None \<Rightarrow> key = node_value n) then Some node
           else search_loop mt key iter h))"

definition listSearchKey :: "'v heap \<Rightarrow> 'v adlist \<Rightarrow> 'v \<Rightarrow> ptr option" where
  "listSearchKey h l key = search_loop (l_match l) key (listRewind l) h"

fun index_loop :: "direction \<Rightarrow> nat \<Rightarrow> ptr \<Rightarrow> 'v heap \<Rightarrow> ptr option" where
  "index_loop dir 0 n h = Some n"
| "index_loop dir (Suc index) n h =
     (case n of
        None \<Rightarrow> Some None
      | Some _ \<Rightarrow> do {
          nd \<leftarrow> load h n;
          index_loop dir index (case dir of AL_START_HEAD \<Rightarrow> node_next nd | AL_START_TAIL \<Rightarrow> node_prev nd) h
        })"

text \<open>\<^verbatim>\<open>-index\<close> overflows for the least \<^verbatim>\<open>long\<close>.\<close>

definition listIndex :: "'v heap \<Rightarrow> 'v adlist \<Rightarrow> int \<Rightarrow> ptr option" where
  "listIndex h l index =
     (if index = - (2 ^ 63) then None
      else if index < 0 then index_loop AL_START_TAIL (nat ((- index) - 1)) (l_tail l) h
      else index_loop AL_START_HEAD (nat index) (l_head l) h)"

definition listRotateTailToHead :: "'v heap \<Rightarrow> 'v adlist \<Rightarrow> ('v heap \<times> 'v adlist) option" where
  "listRotateTailToHead h l =
     (if l_len l \<le> 1 then Some (h, l)
      else do {
        let tail = l_tail l;
        n \<leftarrow> load h tail;
        let l = l\<lparr>l_tail := node_prev n\<rparr>;
        h \<leftarrow> set_next h (l_tail l) None;
        h \<leftarrow> set_prev h (l_head l) tail;
        h \<leftarrow> set_prev h tail None;
        h \<leftarrow> set_next h tail (l_head l);
        Some (h, l\<lparr>l_head := tail\<rparr>)
      })"

definition listRotateHeadToTail :: "'v heap \<Rightarrow> 'v adlist \<Rightarrow> ('v heap \<times> 'v adlist) option" where
  "listRotateHeadToTail h l =
     (if l_len l \<le> 1 then Some (h, l)
      else do {
        let head = l_head l;
        n \<leftarrow> load h head;
        let l = l\<lparr>l_head := node_next n\<rparr>;
        h \<leftarrow> set_prev h (l_head l) None;
        h \<leftarrow> set_next h (l_tail l) head;
        h \<leftarrow> set_next h head None;
        h \<leftarrow> set_prev h head (l_tail l);
        Some (h, l\<lparr>l_tail := head\<rparr>)
      })"

text \<open>The lists \<open>l\<close> and \<open>o\<close> are two objects.\<close>

definition listJoin :: "'v heap \<Rightarrow> 'v adlist \<Rightarrow> 'v adlist \<Rightarrow> ('v heap \<times> 'v adlist \<times> 'v adlist) option" where
  "listJoin h l ol = do {
     h \<leftarrow> (if l_head ol \<noteq> None then set_prev h (l_head ol) (l_tail l) else Some h);
     (h, l) \<leftarrow> (if l_tail l \<noteq> None then map_option (\<lambda>h. (h, l)) (set_next h (l_tail l) (l_head ol))
                else Some (h, l\<lparr>l_head := l_head ol\<rparr>));
     let l = (if l_tail ol \<noteq> None then l\<lparr>l_tail := l_tail ol\<rparr> else l);
     let l = l\<lparr>l_len := l_len l + l_len ol\<rparr>;
     Some (h, l, ol\<lparr>l_head := None, l_tail := None, l_len := 0\<rparr>)
   }"

end
