(* ===== verification/Adlist_Correct.thy ===== *)
theory Adlist_Correct
  imports Adlist
begin

text \<open>
  A list in the heap stands for the sequence of its nodes. Every operation keeps the links
  consistent in both directions, touches no memory but the nodes of its lists, and has the
  effect on the sequence its name says.
\<close>

section \<open>Segments\<close>

text \<open>A segment from the predecessor \<open>p\<close> to the successor \<open>s\<close>, as addresses with values.\<close>

definition first :: "(addr \<times> 'v) list \<Rightarrow> ptr \<Rightarrow> ptr" where
  "first xs s = (case xs of [] \<Rightarrow> s | (a, _) # _ \<Rightarrow> Some a)"

definition final :: "(addr \<times> 'v) list \<Rightarrow> ptr \<Rightarrow> ptr" where
  "final xs p = (if xs = [] then p else Some (fst (last xs)))"

fun dseg :: "'v heap \<Rightarrow> ptr \<Rightarrow> (addr \<times> 'v) list \<Rightarrow> ptr \<Rightarrow> bool" where
  "dseg h p [] s \<longleftrightarrow> True"
| "dseg h p ((a, v) # xs) s \<longleftrightarrow>
     h a = Some \<lparr>node_prev = p, node_next = first xs s, node_value = v\<rparr> \<and> dseg h (Some a) xs s"

definition nodes :: "(addr \<times> 'v) list \<Rightarrow> addr set" where
  "nodes xs = fst ` set xs"

definition list_rep :: "'v heap \<Rightarrow> 'v adlist \<Rightarrow> (addr \<times> 'v) list \<Rightarrow> bool" where
  "list_rep h l xs \<longleftrightarrow> distinct (map fst xs) \<and> dseg h None xs None \<and>
     l_head l = first xs None \<and> l_tail l = final xs None \<and> unat (l_len l) = length xs"

text \<open>Nothing outside of \<open>A\<close> changed.\<close>

definition frame :: "addr set \<Rightarrow> 'v heap \<Rightarrow> 'v heap \<Rightarrow> bool" where
  "frame A h h' \<longleftrightarrow> (\<forall>a. a \<notin> A \<longrightarrow> h' a = h a)"

lemma first_simps [simp]: "first [] s = s" "first ((a, v) # xs) s = Some a"
  by (simp_all add: first_def)

lemma final_simps [simp]: "final [] p = p" "final (xs @ [(a, v)]) p = Some a" "final [(a, v)] p = Some a"
  "xs \<noteq> [] \<Longrightarrow> final (x # xs) p = final xs p"
  by (simp_all add: final_def)

lemma nodes_simps [simp]: "nodes [] = {}" "nodes ((a, v) # xs) = insert a (nodes xs)" "nodes (xs @ ys) = nodes xs \<union> nodes ys"
  by (auto simp: nodes_def)

lemma distinct_fst_Cons: "distinct (map fst ((a, v) # xs)) \<longleftrightarrow> a \<notin> nodes xs \<and> distinct (map fst xs)"
  by (auto simp: nodes_def)

lemma distinct_fst_append:
  "distinct (map fst (xs @ ys)) \<longleftrightarrow> distinct (map fst xs) \<and> distinct (map fst ys) \<and> nodes xs \<inter> nodes ys = {}"
  by (auto simp: nodes_def)

lemma first_append: "first (xs @ ys) s = first xs (first ys s)"
  by (cases xs) (auto simp: first_def)

lemma final_append: "final (xs @ ys) p = final ys (final xs p)"
  by (auto simp: final_def)

lemma dseg_append: "dseg h p (xs @ ys) s \<longleftrightarrow> dseg h p xs (first ys s) \<and> dseg h (final xs p) ys s"
proof (induction xs arbitrary: p)
  case (Cons x xs)
  obtain a v where x: "x = (a, v)" by (cases x)
  have "final (x # xs) p = final xs (Some a)" by (cases "xs = []") (simp_all add: x final_def)
  then show ?case using Cons x by (simp add: first_append)
qed simp

lemma dseg_frame: "a \<notin> nodes xs \<Longrightarrow> dseg (h(a := n)) p xs s = dseg h p xs s"
  by (induction h p xs s rule: dseg.induct) auto

lemma dseg_cong: "(\<And>a. a \<in> nodes xs \<Longrightarrow> h' a = h a) \<Longrightarrow> dseg h' p xs s = dseg h p xs s"
  by (induction h p xs s rule: dseg.induct) auto

lemma frame_dseg: "frame A h h' \<Longrightarrow> A \<inter> nodes xs = {} \<Longrightarrow> dseg h' p xs s = dseg h p xs s"
  by (intro dseg_cong) (auto simp: frame_def)

text \<open>Redirecting the last next pointer and the first previous pointer of a segment.\<close>

lemma set_next_final:
  assumes "dseg h p xs s" "xs \<noteq> []" "distinct (map fst xs)"
  shows "\<exists>h'. set_next h (final xs None) s' = Some h' \<and> dseg h' p xs s' \<and> frame (nodes xs) h h'"
proof -
  obtain ys a v where xs: "xs = ys @ [(a, v)]" using assms(2) by (metis rev_exhaust surj_pair)
  have d: "dseg h p ys (Some a)" "h a = Some \<lparr>node_prev = final ys p, node_next = s, node_value = v\<rparr>" "a \<notin> nodes ys"
    using assms(1,3) unfolding xs dseg_append distinct_fst_append by auto
  then show ?thesis
    unfolding xs by (auto simp: set_next_def store_def dseg_append dseg_frame frame_def)
qed

lemma set_prev_first:
  assumes "dseg h p xs s" "xs \<noteq> []" "distinct (map fst xs)"
  shows "\<exists>h'. set_prev h (first xs None) p' = Some h' \<and> dseg h' p' xs s \<and> frame (nodes xs) h h'"
proof -
  obtain ys a v where xs: "xs = (a, v) # ys" using assms(2) by (metis list.exhaust surj_pair)
  then show ?thesis
    using assms(1,3) unfolding xs distinct_fst_Cons by (auto simp: set_prev_def store_def dseg_frame frame_def)
qed

lemma frame_trans: "frame A h h' \<Longrightarrow> frame A h' h'' \<Longrightarrow> frame A h h''"
  by (simp add: frame_def)

lemma frame_mono: "frame A h h' \<Longrightarrow> A \<subseteq> B \<Longrightarrow> frame B h h'"
  by (auto simp: frame_def)

lemma frame_upd: "frame {a} h (h(a := n))"
  by (simp add: frame_def)

lemma dseg_alloc: "dseg h p xs s \<Longrightarrow> a \<in> nodes xs \<Longrightarrow> h a \<noteq> None"
  by (induction h p xs s rule: dseg.induct) auto

lemma list_rep_len: "list_rep h l xs \<Longrightarrow> l_len l = 0 \<longleftrightarrow> xs = []" "list_rep h l xs \<Longrightarrow> l_len l \<le> 1 \<longleftrightarrow> length xs \<le> 1"
  by (auto simp: list_rep_def unat_eq_0 word_le_nat_alt)

lemma list_rep_Nil: "list_rep h listCreate []"
  by (simp add: list_rep_def listCreate_def)

lemma unat_inc: "unat (w :: ulong) = n \<Longrightarrow> Suc n < 2 ^ 64 \<Longrightarrow> unat (w + 1) = Suc n"
  by (simp add: unat_plus_if_size word_size)

section \<open>Insertion\<close>

lemma addHead_rep:
  assumes rep: "list_rep h l xs" and a: "h a = None" and len: "Suc (length xs) < 2 ^ 64"
  shows "\<exists>h' l'. listAddNodeHead (Some a) v h l = Some (True, h', l') \<and> list_rep h' l' ((a, v) # xs) \<and>
    frame (insert a (nodes xs)) h h'"
proof -
  have r: "distinct (map fst xs)" "dseg h None xs None" "l_head l = first xs None" "l_tail l = final xs None"
    "unat (l_len l) = length xs" using rep by (simp_all add: list_rep_def)
  have an: "a \<notin> nodes xs" using dseg_alloc [OF r(2), of a] a by auto
  show ?thesis
  proof (cases "xs = []")
    case True
    with list_rep_len(1) [OF rep] r(5) show ?thesis
      by (auto simp: listAddNodeHead_def list_rep_def unat_inc frame_def)
  next
    case False
    define h1 where "h1 = h(a \<mapsto> \<lparr>node_prev = None, node_next = first xs None, node_value = v\<rparr>)"
    have d1: "dseg h1 None xs None" using r(2) an by (simp add: h1_def dseg_frame)
    obtain h2 where h2: "set_prev h1 (first xs None) (Some a) = Some h2" "dseg h2 (Some a) xs None" "frame (nodes xs) h1 h2"
      using set_prev_first [OF d1 False r(1)] by blast
    have "h2 a = h1 a" using h2(3) an by (simp add: frame_def)
    then have "dseg h2 None ((a, v) # xs) None" using h2(2) by (simp add: h1_def)
    moreover have "frame (insert a (nodes xs)) h h2" using h2(3) by (auto simp: frame_def h1_def)
    ultimately show ?thesis
      using list_rep_len(1) [OF rep] False h2(1) r an unat_inc [OF r(5) len]
      by (auto simp: listAddNodeHead_def list_rep_def h1_def distinct_fst_Cons nodes_def)
  qed
qed

lemma addTail_rep:
  assumes rep: "list_rep h l xs" and a: "h a = None" and len: "Suc (length xs) < 2 ^ 64"
  shows "\<exists>h' l'. listAddNodeTail (Some a) v h l = Some (True, h', l') \<and> list_rep h' l' (xs @ [(a, v)]) \<and>
    frame (insert a (nodes xs)) h h' \<and> l_dup l' = l_dup l \<and> l_free l' = l_free l \<and> l_match l' = l_match l"
proof -
  have r: "distinct (map fst xs)" "dseg h None xs None" "l_head l = first xs None" "l_tail l = final xs None"
    "unat (l_len l) = length xs" using rep by (simp_all add: list_rep_def)
  have an: "a \<notin> nodes xs" using dseg_alloc [OF r(2), of a] a by auto
  show ?thesis
  proof (cases "xs = []")
    case True
    with list_rep_len(1) [OF rep] r(5) show ?thesis
      by (auto simp: listAddNodeTail_def list_rep_def unat_inc frame_def)
  next
    case False
    define h1 where "h1 = h(a \<mapsto> \<lparr>node_prev = final xs None, node_next = None, node_value = v\<rparr>)"
    have d1: "dseg h1 None xs None" using r(2) an by (simp add: h1_def dseg_frame)
    obtain h2 where h2: "set_next h1 (final xs None) (Some a) = Some h2" "dseg h2 None xs (Some a)" "frame (nodes xs) h1 h2"
      using set_next_final [OF d1 False r(1)] by blast
    have "h2 a = h1 a" using h2(3) an by (simp add: frame_def)
    then have "dseg h2 None (xs @ [(a, v)]) None" using h2(2) by (simp add: h1_def dseg_append)
    moreover have "frame (insert a (nodes xs)) h h2" using h2(3) by (auto simp: frame_def h1_def)
    moreover have "first (xs @ [(a, v)]) None = first xs None" using False by (cases xs) auto
    ultimately show ?thesis
      using list_rep_len(1) [OF rep] False h2(1) r an unat_inc [OF r(5) len]
      by (auto simp: listAddNodeTail_def list_rep_def h1_def nodes_def image_iff)
  qed
qed

lemma final_None [simp]: "final xs None = None \<longleftrightarrow> xs = []" and first_None [simp]: "first xs None = None \<longleftrightarrow> xs = []"
  by (auto simp: final_def first_def split: list.splits)

lemma redirect_next:
  assumes "dseg h p xs s" "distinct (map fst xs)"
  shows "\<exists>h'. (if final xs None \<noteq> None then set_next h (final xs None) s' else Some h) = Some h' \<and> dseg h' p xs s' \<and>
    frame (nodes xs) h h'"
  using set_next_final [OF assms(1) _ assms(2), of s'] by (cases "xs = []") (auto simp: frame_def)

lemma redirect_prev:
  assumes "dseg h p xs s" "distinct (map fst xs)"
  shows "\<exists>h'. (if first xs None \<noteq> None then set_prev h (first xs None) p' else Some h) = Some h' \<and> dseg h' p' xs s \<and>
    frame (nodes xs) h h'"
  using set_prev_first [OF assms(1) _ assms(2), of p'] by (cases "xs = []") (auto simp: frame_def)

lemma insert_between:
  fixes h :: "'v heap" and v :: 'v
  assumes d: "dseg h None (us @ ws) None" and dist: "distinct (map fst (us @ ws))" and a: "h a = None"
  defines "h1 \<equiv> h(a \<mapsto> \<lparr>node_prev = final us None, node_next = first ws None, node_value = v\<rparr>)"
  shows "\<exists>h2 h3. (if final us None \<noteq> None then set_next h1 (final us None) (Some a) else Some h1) = Some h2 \<and>
    (if first ws None \<noteq> None then set_prev h2 (first ws None) (Some a) else Some h2) = Some h3 \<and>
    dseg h3 None (us @ (a, v) # ws) None \<and> distinct (map fst (us @ (a, v) # ws)) \<and>
    frame (insert a (nodes (us @ ws))) h h3"
proof -
  have an: "a \<notin> nodes us" "a \<notin> nodes ws" using dseg_alloc [OF d, of a] a by auto
  have dis: "distinct (map fst us)" "distinct (map fst ws)" "nodes us \<inter> nodes ws = {}"
    using dist unfolding distinct_fst_append by auto
  have "dseg h1 None us (first ws None)" "dseg h1 (final us None) ws None"
    using d an unfolding dseg_append by (simp_all add: h1_def dseg_frame)
  note d1 = this
  obtain h2 where h2: "(if final us None \<noteq> None then set_next h1 (final us None) (Some a) else Some h1) = Some h2"
    "dseg h2 None us (Some a)" "frame (nodes us) h1 h2"
    using redirect_next [OF d1(1) dis(1)] by blast
  have d2: "dseg h2 (final us None) ws None" using d1(2) frame_dseg [OF h2(3) dis(3)] by simp
  obtain h3 where h3: "(if first ws None \<noteq> None then set_prev h2 (first ws None) (Some a) else Some h2) = Some h3"
    "dseg h3 (Some a) ws None" "frame (nodes ws) h2 h3"
    using redirect_prev [OF d2 dis(2)] by blast
  have "dseg h3 None us (Some a)" using h2(2) frame_dseg [OF h3(3), of us] dis(3) by auto
  moreover have "h3 a = h1 a" using h2(3) h3(3) an by (simp add: frame_def)
  ultimately have "dseg h3 None (us @ (a, v) # ws) None" using h3(2) by (simp add: dseg_append h1_def)
  moreover have "frame (insert a (nodes (us @ ws))) h h3" using h2(3) h3(3) by (auto simp: frame_def h1_def)
  moreover have "distinct (map fst (us @ (a, v) # ws))" using dis an unfolding distinct_fst_append distinct_fst_Cons by auto
  ultimately show ?thesis using h2(1) h3(1) by blast
qed

lemma dseg_node: "dseg h p (us @ (b, w) # ws) s \<Longrightarrow>
    h b = Some \<lparr>node_prev = final us p, node_next = first ws s, node_value = w\<rparr>"
  by (simp add: dseg_append)

lemma first_is: "distinct (map fst (us @ (b, w) # ws)) \<Longrightarrow> first (us @ (b, w) # ws) None = Some b \<longleftrightarrow> us = []"
  by (cases us) auto

lemma final_is: "distinct (map fst (us @ (b, w) # ws)) \<Longrightarrow> final (us @ (b, w) # ws) None = Some b \<longleftrightarrow> ws = []"
  unfolding distinct_fst_append distinct_fst_Cons by (auto simp: final_def nodes_def)

lemma insertNode_rep:
  assumes rep: "list_rep h l (us @ (b, w) # ws)" and a: "h a = None" and len: "Suc (length (us @ (b, w) # ws)) < 2 ^ 64"
  shows "\<exists>h' l'. listInsertNode (Some a) (Some b) v after h l = Some (True, h', l') \<and>
    list_rep h' l' (if after then us @ (b, w) # (a, v) # ws else us @ (a, v) # (b, w) # ws) \<and>
    frame (insert a (nodes (us @ (b, w) # ws))) h h'"
proof -
  let ?xs = "us @ (b, w) # ws"
  have r: "distinct (map fst ?xs)" "dseg h None ?xs None" "l_head l = first ?xs None" "l_tail l = final ?xs None"
    "unat (l_len l) = length ?xs" using rep by (simp_all add: list_rep_def)
  have ld: "load h (Some b) = Some \<lparr>node_prev = final us None, node_next = first ws None, node_value = w\<rparr>"
    using dseg_node [OF r(2)] by (simp add: load_def)
  have inc: "unat (l_len l + 1) = Suc (length ?xs)" by (rule unat_inc [OF r(5) len])
  define us' ws' where "us' = (if after then us @ [(b, w)] else us)" and "ws' = (if after then ws else (b, w) # ws)"
  have xs: "?xs = us' @ ws'" by (simp add: us'_def ws'_def)
  obtain h2 h3 where h: "(if final us' None \<noteq> None then set_next (h(a \<mapsto> \<lparr>node_prev = final us' None, node_next = first ws' None, node_value = v\<rparr>))
        (final us' None) (Some a) else Some (h(a \<mapsto> \<lparr>node_prev = final us' None, node_next = first ws' None, node_value = v\<rparr>))) = Some h2"
    "(if first ws' None \<noteq> None then set_prev h2 (first ws' None) (Some a) else Some h2) = Some h3"
    "dseg h3 None (us' @ (a, v) # ws') None" "distinct (map fst (us' @ (a, v) # ws'))" "frame (insert a (nodes (us' @ ws'))) h h3"
    using insert_between [OF r(2,1) [unfolded xs] a, of v] by blast
  define l' where "l' = (let l = (if after \<and> l_tail l = Some b then l\<lparr>l_tail := Some a\<rparr> else l);
      l = (if \<not> after \<and> l_head l = Some b then l\<lparr>l_head := Some a\<rparr> else l) in l\<lparr>l_len := l_len l + 1\<rparr>)"
  have "listInsertNode (Some a) (Some b) v after h l = Some (True, h3, l')"
    using ld h(1,2) by (auto simp: listInsertNode_def us'_def ws'_def l'_def Let_def split: if_splits)
  moreover have "list_rep h3 l' (us' @ (a, v) # ws')"
    using h(3,4) r(3,4) inc first_is [OF r(1)] final_is [OF r(1)]
    unfolding list_rep_def l'_def Let_def us'_def ws'_def
    by (cases after; cases us; cases "ws = []") (auto simp: final_append)
  ultimately show ?thesis using h(5) unfolding xs by (cases after) (auto simp: us'_def ws'_def)
qed

section \<open>Deletion\<close>

lemma delNode_rep:
  assumes rep: "list_rep h l (us @ (b, w) # ws)"
  shows "\<exists>h' l'. listDelNode (Some b) h l = Some (if l_free l then [w] else [], h', l') \<and> list_rep h' l' (us @ ws) \<and>
    h' b = None \<and> frame (nodes (us @ (b, w) # ws)) h h'"
proof -
  let ?xs = "us @ (b, w) # ws"
  have r: "distinct (map fst ?xs)" "dseg h None ?xs None" "l_head l = first ?xs None" "l_tail l = final ?xs None"
    "unat (l_len l) = length ?xs" using rep by (simp_all add: list_rep_def)
  let ?n = "\<lparr>node_prev = final us None, node_next = first ws None, node_value = w\<rparr>"
  have dis: "distinct (map fst us)" "distinct (map fst ws)" "nodes us \<inter> nodes ws = {}" "b \<notin> nodes us" "b \<notin> nodes ws"
    using r(1) unfolding distinct_fst_append distinct_fst_Cons by auto
  have d: "dseg h None us (Some b)" "h b = Some ?n" "dseg h (Some b) ws None"
    using r(2) by (auto simp: dseg_append)
  obtain h2 where h2: "(if final us None \<noteq> None then set_next h (final us None) (first ws None) else Some h) = Some h2"
    "dseg h2 None us (first ws None)" "frame (nodes us) h h2"
    using redirect_next [OF d(1) dis(1)] by blast
  have d2: "dseg h2 (Some b) ws None" "h2 b = Some ?n"
    using d(2,3) frame_dseg [OF h2(3) dis(3)] h2(3) dis(4) by (simp_all add: frame_def)
  obtain h3 where h3: "(if first ws None \<noteq> None then set_prev h2 (first ws None) (final us None) else Some h2) = Some h3"
    "dseg h3 (final us None) ws None" "frame (nodes ws) h2 h3"
    using redirect_prev [OF d2(1) dis(2)] by blast
  have d3: "dseg h3 None us (first ws None)" "h3 b = Some ?n"
    using h2(2) d2(2) frame_dseg [OF h3(3), of us] dis(3,5) h3(3) by (auto simp: frame_def)
  define h4 where "h4 = h3(b := None)"
  have "dseg h4 None (us @ ws) None" using d3(1) h3(2) dis(4,5) by (simp add: h4_def dseg_append dseg_frame)
  moreover have "unat (l_len l - 1) = length (us @ ws)"
  proof -
    have "1 \<le> l_len l" using r(5) by (simp add: word_le_nat_alt)
    then show ?thesis using r(5) by (simp add: unat_sub)
  qed
  moreover have "distinct (map fst (us @ ws))" using dis(1-3) unfolding distinct_fst_append by simp
  moreover define l' where "l' = (let l = (if us = [] then l\<lparr>l_head := first ws None\<rparr> else l);
      l = (if ws = [] then l\<lparr>l_tail := final us None\<rparr> else l) in l\<lparr>l_len := l_len l - 1\<rparr>)"
  ultimately have "list_rep h4 l' (us @ ws)"
    using r(3,4) unfolding list_rep_def Let_def
    by (cases us; cases "ws = []") (auto simp: final_append)
  moreover have "listDelNode (Some b) h l = Some (if l_free l then [w] else [], h4, l')"
    using d(2) h2(1) h3(1) d2(2) d3(2) unfolding listDelNode_def l'_def h4_def
    by (cases "us = []"; cases "ws = []") (simp_all add: load_def zfree_def Let_def)
  moreover have "frame (nodes ?xs) h h4" using h2(3) h3(3) by (auto simp: frame_def h4_def)
  ultimately show ?thesis by (auto simp: h4_def)
qed

lemma empty_loop_frees:
  "dseg h p xs s \<Longrightarrow> distinct (map fst xs) \<Longrightarrow>
   \<exists>h'. empty_loop (length xs) fr (first xs s) h = Some (if fr then map snd xs else [], h') \<and>
     (\<forall>a \<in> nodes xs. h' a = None) \<and> frame (nodes xs) h h'"
proof (induction xs arbitrary: h p)
  case (Cons x xs)
  obtain a v where x: "x = (a, v)" by (cases x)
  have a: "h a = Some \<lparr>node_prev = p, node_next = first xs s, node_value = v\<rparr>" "a \<notin> nodes xs" "distinct (map fst xs)"
    using Cons.prems x by (auto simp: nodes_def)
  have "dseg (h(a := None)) (Some a) xs s" using Cons.prems(1) x a(2) by (simp add: dseg_frame)
  from Cons.IH [OF this a(3)] obtain h' where h': "empty_loop (length xs) fr (first xs s) (h(a := None)) = Some (if fr then map snd xs else [], h')"
    "\<forall>a \<in> nodes xs. h' a = None" "frame (nodes xs) (h(a := None)) h'" by blast
  have "h' a = None" using h'(3) a(2) by (simp add: frame_def)
  with h' a(1) x show ?case by (auto simp: load_def zfree_def frame_def)
qed (simp add: frame_def)

lemma listEmpty_rep:
  assumes "list_rep h l xs"
  shows "\<exists>h' l'. listEmpty h l = Some (if l_free l then map snd xs else [], h', l') \<and> list_rep h' l' [] \<and>
    (\<forall>a \<in> nodes xs. h' a = None) \<and> frame (nodes xs) h h'"
  using empty_loop_frees [of h None xs None "l_free l"] assms by (auto simp: list_rep_def listEmpty_def)

section \<open>Iteration\<close>

lemma listNext_head:
  assumes "dseg h p xs s" "iter_next it = first xs None" "iter_direction it = AL_START_HEAD" "s = None"
  shows "listNext h it = Some (first xs None, it\<lparr>iter_next := first (tl xs) None\<rparr>)"
proof (cases xs)
  case Nil
  with assms show ?thesis by (simp add: listNext_def)
next
  case (Cons x ys)
  obtain a v where "x = (a, v)" by (cases x)
  with Cons assms show ?thesis by (simp add: listNext_def load_def)
qed


lemma dup_loop_copies:
  assumes "dseg h p xs None" "iter_next it = first xs None" "iter_direction it = AL_START_HEAD"
    "list_rep h c ys" "nodes xs \<inter> nodes ys = {}" "length xs + length ys < 2 ^ 64"
    "\<And>j. news j = Some (f j)" "inj f" "\<And>j. i \<le> j \<Longrightarrow> h (f j) = None"
    "\<And>v. v \<in> set (map snd xs) \<Longrightarrow> (case l_dup c of Some dup \<Rightarrow> dup v | None \<Rightarrow> Some v) = Some (g v)"
  shows "\<exists>h' c' zs. dup_loop news i it h c = Some (Some c', h') \<and> list_rep h' c' (ys @ zs) \<and>
    map snd zs = map g (map snd xs) \<and> frame (nodes ys \<union> f ` {i..}) h h'"
  using assms(1-6,9,10)
proof (induction xs arbitrary: h p it c ys i)
  case Nil
  then show ?case
    using listNext_head [OF Nil(1-3)] by (subst dup_loop.simps) (auto simp: frame_def)
next
  case (Cons x xs)
  obtain a v where x: "x = (a, v)" by (cases x)
  have nx: "listNext h it = Some (Some a, it\<lparr>iter_next := first xs None\<rparr>)"
    using listNext_head [OF Cons.prems(1-3)] x by simp
  have ld: "load h (Some a) = Some \<lparr>node_prev = p, node_next = first xs None, node_value = v\<rparr>"
    using Cons.prems(1) x by (simp add: load_def)
  have "h (f i) = None" "Suc (length ys) < 2 ^ 64" using Cons.prems(6,7) by simp_all
  from addTail_rep [OF Cons.prems(4) this] obtain h1 c1 where
    h1: "listAddNodeTail (Some (f i)) (g v) h c = Some (True, h1, c1)" "list_rep h1 c1 (ys @ [(f i, g v)])"
      "frame (insert (f i) (nodes ys)) h h1" "l_dup c1 = l_dup c" by blast
  have fi: "f i \<notin> nodes (x # xs)" using dseg_alloc [OF Cons.prems(1), of "f i"] Cons.prems(7) [of i] by auto
  have "insert (f i) (nodes ys) \<inter> nodes xs = {}" using Cons.prems(5) x fi by auto
  note fd = frame_dseg [OF h1(3) this, of "Some a" None]
  have d1: "dseg h1 (Some a) xs None" unfolding fd using Cons.prems(1) unfolding x dseg.simps by blast
  have fr: "h1 (f j) = None" if "i + 1 \<le> j" for j
  proof -
    have "f j \<noteq> f i" using inj_eq [OF assms(8)] that by simp
    moreover have "f j \<notin> nodes ys"
      using Cons.prems(4) dseg_alloc [of h None ys None "f j"] Cons.prems(7) [of j] that by (auto simp: list_rep_def)
    ultimately show ?thesis using h1(3) Cons.prems(7) [of j] that by (simp add: frame_def)
  qed
  have step: "dup_loop news i it h c = dup_loop news (i + 1) (it\<lparr>iter_next := first xs None\<rparr>) h1 c1"
    using nx ld Cons.prems(8) [of v] x h1(1) assms(7) by (subst dup_loop.simps) (cases "l_dup c", simp_all)
  have "\<exists>h' c' zs. dup_loop news (i + 1) (it\<lparr>iter_next := first xs None\<rparr>) h1 c1 = Some (Some c', h') \<and>
      list_rep h' c' ((ys @ [(f i, g v)]) @ zs) \<and> map snd zs = map g (map snd xs) \<and>
      frame (nodes (ys @ [(f i, g v)]) \<union> f ` {i + 1..}) h1 h'"
    using Cons.prems(3,5,6,8) x fi h1(4) fr by (intro Cons.IH [OF d1 _ _ h1(2)]) auto
  then obtain h' c' zs where r: "dup_loop news i it h c = Some (Some c', h')" "list_rep h' c' (ys @ (f i, g v) # zs)"
    "map snd zs = map g (map snd xs)" "frame (nodes (ys @ [(f i, g v)]) \<union> f ` {i + 1..}) h1 h'"
    unfolding step by auto
  have "frame (nodes ys \<union> f ` {i..}) h h'"
    using r(4) h1(3) unfolding frame_def by (auto simp: image_iff Ball_def)
  with r x show ?case by (intro exI [of _ h'] exI [of _ c'] exI [of _ "(f i, g v) # zs"]) simp
qed

lemma search_loop_finds:
  assumes "dseg h p xs None" "iter_next it = first xs None" "iter_direction it = AL_START_HEAD"
  shows "search_loop mt key it h =
    Some (map_option fst (find (\<lambda>(a, v). case mt of Some f \<Rightarrow> f v key | None \<Rightarrow> key = v) xs))"
  using assms
proof (induction xs arbitrary: p it)
  case Nil
  then show ?case using listNext_head [OF Nil] by (subst search_loop.simps) simp
next
  case (Cons x xs)
  obtain a v where x: "x = (a, v)" by (cases x)
  have nx: "listNext h it = Some (Some a, it\<lparr>iter_next := first xs None\<rparr>)"
    using listNext_head [OF Cons.prems] x by simp
  have d: "dseg h (Some a) xs None" "h a = Some \<lparr>node_prev = p, node_next = first xs None, node_value = v\<rparr>"
    using Cons.prems(1) x by simp_all
  have "search_loop mt key (it\<lparr>iter_next := first xs None\<rparr>) h =
      Some (map_option fst (find (\<lambda>(a, v). case mt of Some f \<Rightarrow> f v key | None \<Rightarrow> key = v) xs))"
    using Cons.prems(3) by (intro Cons.IH [OF d(1)]) simp_all
  then show ?case using nx d(2) x by (subst search_loop.simps) (cases mt, simp_all add: load_def)
qed

lemma index_loop_head:
  "dseg h p xs None \<Longrightarrow> index_loop AL_START_HEAD i (first xs None) h = Some (if i < length xs then Some (fst (xs ! i)) else None)"
proof (induction i arbitrary: xs p)
  case 0
  then show ?case by (cases xs) auto
next
  case (Suc i)
  show ?case
  proof (cases xs)
    case (Cons x ys)
    with Suc.prems have "dseg h (Some (fst x)) ys None" by (cases x) simp
    from Suc.IH [OF this] Cons Suc.prems show ?thesis by (cases x) (simp add: load_def)
  qed simp
qed

lemma index_loop_tail:
  "dseg h None xs s \<Longrightarrow> index_loop AL_START_TAIL i (final xs None) h = Some (if i < length xs then Some (fst (rev xs ! i)) else None)"
proof (induction i arbitrary: xs s)
  case 0
  then show ?case by (cases xs rule: rev_cases) (auto simp: final_def)
next
  case (Suc i)
  show ?case
  proof (cases xs rule: rev_cases)
    case (snoc ys x)
    obtain a v where x: "x = (a, v)" by (cases x)
    from Suc.prems have "dseg h None ys (Some a)" "h a = Some \<lparr>node_prev = final ys None, node_next = s, node_value = v\<rparr>"
      by (auto simp: snoc x dseg_append)
    with Suc.IH [OF this(1)] snoc x show ?thesis by (simp add: load_def)
  qed simp
qed

section \<open>Rotation and concatenation\<close>

lemma final_not_None: "xs \<noteq> [] \<Longrightarrow> final xs p = final xs None"
  by (simp add: final_def)

lemma first_not_None: "xs \<noteq> [] \<Longrightarrow> first xs s = first xs None"
  by (cases xs) auto

lemma rotateTail_rep:
  assumes rep: "list_rep h l (ys @ [(t, v)])" and ne: "ys \<noteq> []"
  shows "\<exists>h' l'. listRotateTailToHead h l = Some (h', l') \<and> list_rep h' l' ((t, v) # ys) \<and> frame (nodes (ys @ [(t, v)])) h h'"
proof -
  have r: "distinct (map fst ys)" "t \<notin> nodes ys" "dseg h None ys (Some t)"
    "h t = Some \<lparr>node_prev = final ys None, node_next = None, node_value = v\<rparr>"
    "l_head l = first ys None" "l_tail l = Some t" "unat (l_len l) = Suc (length ys)"
    using rep ne first_not_None [OF ne] by (auto simp: list_rep_def dseg_append first_append nodes_def)
  have big: "\<not> l_len l \<le> 1" using list_rep_len(2) [OF rep] ne by (cases ys) auto
  obtain h1 where h1: "set_next h (final ys None) None = Some h1" "dseg h1 None ys None" "frame (nodes ys) h h1"
    using set_next_final [OF r(3) ne r(1)] by blast
  obtain h2 where h2: "set_prev h1 (first ys None) (Some t) = Some h2" "dseg h2 (Some t) ys None" "frame (nodes ys) h1 h2"
    using set_prev_first [OF h1(2) ne r(1)] by blast
  have t: "h2 t = h t" using h1(3) h2(3) r(2) by (simp add: frame_def)
  define h3 where "h3 = h2(t \<mapsto> \<lparr>node_prev = None, node_next = first ys None, node_value = v\<rparr>)"
  have "dseg h3 None ((t, v) # ys) None" using h2(2) r(2) by (simp add: h3_def dseg_frame)
  moreover have "listRotateTailToHead h l = Some (h3, l\<lparr>l_tail := final ys None, l_head := Some t\<rparr>)"
    using big r(4-6) h1(1) h2(1) t by (simp add: listRotateTailToHead_def load_def set_prev_def set_next_def store_def h3_def Let_def)
  moreover have "frame (nodes (ys @ [(t, v)])) h h3" using h1(3) h2(3) by (auto simp: frame_def h3_def)
  ultimately show ?thesis using r ne by (auto simp: list_rep_def nodes_def)
qed

lemma rotateHead_rep:
  assumes rep: "list_rep h l ((a, v) # ys)" and ne: "ys \<noteq> []"
  shows "\<exists>h' l'. listRotateHeadToTail h l = Some (h', l') \<and> list_rep h' l' (ys @ [(a, v)]) \<and> frame (nodes ((a, v) # ys)) h h'"
proof -
  have r: "distinct (map fst ys)" "a \<notin> nodes ys" "dseg h (Some a) ys None"
    "h a = Some \<lparr>node_prev = None, node_next = first ys None, node_value = v\<rparr>"
    "l_head l = Some a" "l_tail l = final ys None" "unat (l_len l) = Suc (length ys)"
    using rep ne by (auto simp: list_rep_def nodes_def)
  have big: "\<not> l_len l \<le> 1" using list_rep_len(2) [OF rep] ne by (cases ys) auto
  obtain h1 where h1: "set_prev h (first ys None) None = Some h1" "dseg h1 None ys None" "frame (nodes ys) h h1"
    using set_prev_first [OF r(3) ne r(1)] by blast
  obtain h2 where h2: "set_next h1 (final ys None) (Some a) = Some h2" "dseg h2 None ys (Some a)" "frame (nodes ys) h1 h2"
    using set_next_final [OF h1(2) ne r(1)] by blast
  have a: "h2 a = h a" using h1(3) h2(3) r(2) by (simp add: frame_def)
  define h3 where "h3 = h2(a \<mapsto> \<lparr>node_prev = final ys None, node_next = None, node_value = v\<rparr>)"
  have "dseg h3 None (ys @ [(a, v)]) None" using h2(2) r(2) by (simp add: h3_def dseg_frame dseg_append)
  moreover have "listRotateHeadToTail h l = Some (h3, l\<lparr>l_head := first ys None, l_tail := Some a\<rparr>)"
    using big r(4-6) h1(1) h2(1) a by (simp add: listRotateHeadToTail_def load_def set_prev_def set_next_def store_def h3_def Let_def)
  moreover have "frame (nodes ((a, v) # ys)) h h3" using h1(3) h2(3) by (auto simp: frame_def h3_def)
  moreover have "first (ys @ [(a, v)]) None = first ys None" using ne by (cases ys) auto
  ultimately show ?thesis using r ne by (auto simp: list_rep_def nodes_def)
qed

lemma join_rep:
  assumes l: "list_rep h l xs" and ol: "list_rep h ol ys" and dis: "nodes xs \<inter> nodes ys = {}"
    and len: "length xs + length ys < 2 ^ 64"
  shows "\<exists>h' l' o'. listJoin h l ol = Some (h', l', o') \<and> list_rep h' l' (xs @ ys) \<and> list_rep h' o' [] \<and>
    frame (nodes (xs @ ys)) h h'"
proof -
  have x: "distinct (map fst xs)" "dseg h None xs None" "l_head l = first xs None" "l_tail l = final xs None"
    "unat (l_len l) = length xs" using l by (simp_all add: list_rep_def)
  have y: "distinct (map fst ys)" "dseg h None ys None" "l_head ol = first ys None" "l_tail ol = final ys None"
    "unat (l_len ol) = length ys" using ol by (simp_all add: list_rep_def)
  obtain h1 where h1: "(if first ys None \<noteq> None then set_prev h (first ys None) (final xs None) else Some h) = Some h1"
    "dseg h1 (final xs None) ys None" "frame (nodes ys) h h1"
    using redirect_prev [OF y(2,1)] by blast
  have "nodes ys \<inter> nodes xs = {}" using dis by blast
  then have d1: "dseg h1 None xs None" using x(2) frame_dseg [OF h1(3), of xs None None] by simp
  obtain h2 where h2: "(if final xs None \<noteq> None then set_next h1 (final xs None) (first ys None) else Some h1) = Some h2"
    "dseg h2 None xs (first ys None)" "frame (nodes xs) h1 h2"
    using redirect_next [OF d1 x(1)] by blast
  have "dseg h2 (final xs None) ys None" using h1(2) frame_dseg [OF h2(3) dis, of "final xs None" None] by simp
  with h2(2) have d: "dseg h2 None (xs @ ys) None" by (simp add: dseg_append)
  have n: "unat (l_len l + l_len ol) = length (xs @ ys)"
    using x(5) y(5) len by (simp add: unat_plus_if_size word_size)
  define l' where "l' = (let l = (if xs = [] then l\<lparr>l_head := first ys None\<rparr> else l);
      l = (if ys = [] then l else l\<lparr>l_tail := final ys None\<rparr>) in l\<lparr>l_len := l_len l + l_len ol\<rparr>)"
  have j: "listJoin h l ol = Some (h2, l', ol\<lparr>l_head := None, l_tail := None, l_len := 0\<rparr>)"
    using h1(1) h2(1) x(3,4) y(3,4) unfolding listJoin_def l'_def
    by (cases "xs = []"; cases "ys = []") (simp_all add: Let_def)
  have "distinct (map fst (xs @ ys))" using x(1) y(1) dis unfolding distinct_fst_append by simp
  then have "list_rep h2 l' (xs @ ys)"
    using d n x(3,4) y(3,4) first_not_None [of xs "first ys None"] final_not_None [of ys "final xs None"] unfolding list_rep_def l'_def Let_def
    by (cases "xs = []"; cases "ys = []") (simp_all add: final_append first_append)
  moreover have "frame (nodes (xs @ ys)) h h2" using h1(3) h2(3) by (auto simp: frame_def)
  ultimately show ?thesis using j by (auto simp: list_rep_def)
qed

section \<open>Properties\<close>

text \<open>Three nodes at the addresses 10, 20 and 30.\<close>

definition ex_heap :: "nat heap" where
  "ex_heap = [10 \<mapsto> \<lparr>node_prev = None, node_next = Some 20, node_value = 1\<rparr>,
     20 \<mapsto> \<lparr>node_prev = Some 10, node_next = Some 30, node_value = 2\<rparr>,
     30 \<mapsto> \<lparr>node_prev = Some 20, node_next = None, node_value = 3\<rparr>]"

definition ex_list :: "nat adlist" where
  "ex_list = \<lparr>l_head = Some 10, l_tail = Some 30, l_dup = None, l_free = True, l_match = None, l_len = 3\<rparr>"

lemma ex_list_rep: "list_rep ex_heap ex_list [(10, 1), (20, 2), (30, 3)]"
  by (simp add: list_rep_def ex_heap_def ex_list_def final_def)

text \<open>C18. \<^verbatim>\<open>listInsertNode\<close> puts a new node before or after a given one, at the ends of the list too:
  both directions of links, the head, the tail and the length stay consistent, and no memory
  but the nodes of this list and the new node changes.\<close>

theorem listInsertNode_inserts:
  assumes "list_rep h l (us @ (b, w) # ws)" "h a = None" "Suc (length (us @ (b, w) # ws)) < 2 ^ 64"
  shows "\<exists>h' l'. listInsertNode (Some a) (Some b) v after h l = Some (True, h', l') \<and>
    list_rep h' l' (if after then us @ (b, w) # (a, v) # ws else us @ (a, v) # (b, w) # ws) \<and>
    (\<forall>c. c \<noteq> a \<and> c \<notin> nodes (us @ (b, w) # ws) \<longrightarrow> h' c = h c)"
  using insertNode_rep [OF assms, of v after] unfolding frame_def by auto

theorem listInsertNode_inserts_witness:
  "\<exists>h' l'. listInsertNode (Some 40) (Some 30) 9 True ex_heap ex_list = Some (True, h', l') \<and>
    list_rep h' l' [(10, 1), (20, 2), (30, 3), (40, 9)]"
  using listInsertNode_inserts [of ex_heap ex_list "[(10, 1), (20, 2)]" 30 3 "[]" 40 9 True] ex_list_rep
  by (auto simp: ex_heap_def)

text \<open>C24. \<^verbatim>\<open>listDelNode\<close> unlinks exactly the given node, frees its memory and gives its value to the
  \<^verbatim>\<open>free\<close> method once; the other nodes keep their order.\<close>

theorem listDelNode_deletes:
  assumes "list_rep h l (us @ (b, w) # ws)"
  shows "\<exists>h' l'. listDelNode (Some b) h l = Some (if l_free l then [w] else [], h', l') \<and> list_rep h' l' (us @ ws) \<and>
    h' b = None \<and> (\<forall>c. c \<notin> nodes (us @ (b, w) # ws) \<longrightarrow> h' c = h c)"
  using delNode_rep [OF assms] unfolding frame_def by blast

theorem listDelNode_deletes_witness:
  "\<exists>h' l'. listDelNode (Some 10) ex_heap ex_list = Some ([1], h', l') \<and> list_rep h' l' [(20, 2), (30, 3)] \<and> h' 10 = None"
  using listDelNode_deletes [of ex_heap ex_list "[]" 10 1 "[(20, 2), (30, 3)]"] ex_list_rep by (auto simp: ex_list_def)

text \<open>Rotating a list of at least two nodes in one direction and then in the other restores
  the sequence of nodes.\<close>

theorem listRotate_roundtrip:
  assumes "list_rep h l xs" "2 \<le> length xs"
  shows "\<exists>h1 l1 h2 l2. listRotateTailToHead h l = Some (h1, l1) \<and> list_rep h1 l1 (last xs # butlast xs) \<and>
    listRotateHeadToTail h1 l1 = Some (h2, l2) \<and> list_rep h2 l2 xs"
proof -
  have "xs \<noteq> []" using assms(2) by auto
  then obtain ys t v where xs: "xs = ys @ [(t, v)]" by (metis rev_exhaust surj_pair)
  have ne: "ys \<noteq> []" using assms(2) xs by auto
  obtain h1 l1 where 1: "listRotateTailToHead h l = Some (h1, l1)" "list_rep h1 l1 ((t, v) # ys)"
    using rotateTail_rep [of h l ys t v] assms(1) xs ne by blast
  obtain h2 l2 where "listRotateHeadToTail h1 l1 = Some (h2, l2)" "list_rep h2 l2 (ys @ [(t, v)])"
    using rotateHead_rep [OF 1(2) ne] by blast
  with 1 xs show ?thesis by auto
qed

theorem listRotate_roundtrip_witness:
  "\<exists>h1 l1 h2 l2. listRotateTailToHead ex_heap ex_list = Some (h1, l1) \<and> list_rep h1 l1 [(30, 3), (10, 1), (20, 2)] \<and>
    listRotateHeadToTail h1 l1 = Some (h2, l2)"
  using listRotate_roundtrip [OF ex_list_rep] by auto

text \<open>\<^verbatim>\<open>listDup\<close> makes a copy with the same values, or their duplicates, in fresh nodes, and
  leaves the original untouched.\<close>

theorem listDup_copies:
  fixes h :: "'v heap"
  assumes "list_rep h l xs" "\<And>j. news j = Some (f j)" "inj f" "\<And>j. h (f j) = None"
    "\<And>v. v \<in> snd ` set xs \<Longrightarrow> (case l_dup l of Some dup \<Rightarrow> dup v | None \<Rightarrow> Some v) = Some (g v)"
  shows "\<exists>h' c ys. listDup news h l = Some (Some c, h') \<and> list_rep h' c ys \<and> map snd ys = map (g \<circ> snd) xs \<and>
    list_rep h' l xs"
proof -
  let ?c = "listCreate\<lparr>l_dup := l_dup l, l_free := l_free l, l_match := l_match l\<rparr>"
  have "unat (l_len l) < 2 ^ 64" by (rule order.strict_trans2 [OF unsigned_less]) simp
  then have d: "dseg h None xs None" "length xs < 2 ^ 64" using assms(1) by (simp_all add: list_rep_def)
  have c: "list_rep h ?c []" by (simp add: list_rep_def listCreate_def)
  have it: "iter_next (listRewind l) = first xs None" "iter_direction (listRewind l) = AL_START_HEAD"
    using assms(1) by (simp_all add: listRewind_def list_rep_def)
  have "\<exists>h' c' zs. dup_loop news 0 (listRewind l) h ?c = Some (Some c', h') \<and> list_rep h' c' ([] @ zs) \<and>
      map snd zs = map g (map snd xs) \<and> frame (nodes ([] :: (addr \<times> 'v) list) \<union> f ` {0..}) h h'"
    by (rule dup_loop_copies [OF d(1) it c _ _ assms(2,3,4)]) (use d(2) assms(5) in simp_all)
  then obtain h' c zs where r: "listDup news h l = Some (Some c, h')" "list_rep h' c zs" "map snd zs = map g (map snd xs)"
    "frame (f ` {0..}) h h'" by (auto simp: listDup_def)
  have "f j \<notin> nodes xs" for j using dseg_alloc [OF d(1), of "f j"] assms(4) [of j] by auto
  then have "f ` {0..} \<inter> nodes xs = {}" by auto
  from frame_dseg [OF r(4) this, of None None] have "list_rep h' l xs" using assms(1) by (simp add: list_rep_def)
  with r show ?thesis by auto
qed

theorem listDup_copies_witness:
  "\<exists>h' c ys. listDup (\<lambda>j. Some (100 + j)) ex_heap ex_list = Some (Some c, h') \<and> list_rep h' c ys \<and> map snd ys = [1, 2, 3]"
proof -
  have "ex_heap (100 + j) = None" "l_dup ex_list = None" "inj ((+) (100 :: nat))" for j by (simp_all add: ex_heap_def ex_list_def)
  then have "\<exists>h' c ys. listDup (\<lambda>j. Some (100 + j)) ex_heap ex_list = Some (Some c, h') \<and> list_rep h' c ys \<and>
      map snd ys = map ((\<lambda>v. v) \<circ> snd) [(10 :: nat, 1 :: nat), (20, 2), (30, 3)] \<and> list_rep h' ex_list [(10, 1), (20, 2), (30, 3)]"
    by (intro listDup_copies [OF ex_list_rep, of _ "(+) 100"]) simp_all
  then show ?thesis unfolding list.map o_def snd_conv by (elim exE conjE) (intro exI conjI)
qed

end
