(* ===== verification/Slowlog.thy ===== *)
theory Slowlog
  imports Adlist_Correct Numstr_Correct
begin

text \<open>
  The slow log of \<^verbatim>\<open>redis/src/slowlog.c\<close>, a client of the linked lists: new entries at the head, the
  oldest ones dropped from the tail, listing from the head. Arguments of a command are strings;
  the clock and the client's names are arguments. The loops that shorten the list are
  verified once, against an interface that the lists implement.
\<close>

section \<open>Model\<close>

definition SLOWLOG_ENTRY_MAX_ARGC :: nat where "SLOWLOG_ENTRY_MAX_ARGC = 32"
definition SLOWLOG_ENTRY_MAX_STRING :: nat where "SLOWLOG_ENTRY_MAX_STRING = 128"

record slowlogEntry =
  se_argv :: "byte list list"
  se_id :: int
  se_duration :: int
  se_time :: int
  se_cname :: "byte list"
  se_peerid :: "byte list"

record slowlog_server =
  slowlog :: "slowlogEntry adlist"
  sl_heap :: "slowlogEntry heap"
  slowlog_entry_id :: int
  slowlog_log_slower_than :: int
  slowlog_max_len :: ulong
  sl_freed :: "slowlogEntry list"

text \<open>What the entry keeps of argument \<open>j\<close>.\<close>

definition log_arg :: "byte list list \<Rightarrow> nat \<Rightarrow> nat \<Rightarrow> byte list" where
  "log_arg argv slargc j =
     (if slargc \<noteq> length argv \<and> j = slargc - 1 then
        map of_char ''... ('' @ int_str (int (length argv) - int slargc + 1) @ map of_char '' more arguments)''
      else if length (argv ! j) > SLOWLOG_ENTRY_MAX_STRING then
        take SLOWLOG_ENTRY_MAX_STRING (argv ! j) @
        map of_char ''... ('' @ int_str (int (length (argv ! j)) - int SLOWLOG_ENTRY_MAX_STRING) @ map of_char '' more bytes)''
      else argv ! j)"

definition slowlogCreateEntry :: "byte list \<Rightarrow> byte list \<Rightarrow> int \<Rightarrow> byte list list \<Rightarrow> int \<Rightarrow> slowlog_server \<Rightarrow>
    slowlogEntry \<times> slowlog_server" where
  "slowlogCreateEntry peerid cname now argv duration srv =
     (let argc = length argv;
          slargc = (if argc > SLOWLOG_ENTRY_MAX_ARGC then SLOWLOG_ENTRY_MAX_ARGC else argc)
      in (\<lparr>se_argv = map (log_arg argv slargc) [0..<slargc], se_id = slowlog_entry_id srv, se_duration = duration,
           se_time = now, se_cname = cname, se_peerid = peerid\<rparr>,
          srv\<lparr>slowlog_entry_id := slowlog_entry_id srv + 1\<rparr>))"

definition slowlogInit :: "slowlog_server \<Rightarrow> slowlog_server" where
  "slowlogInit srv = srv\<lparr>slowlog := listCreate\<lparr>l_free := True\<rparr>, slowlog_entry_id := 0\<rparr>"

definition push_head :: "ptr \<Rightarrow> slowlogEntry \<Rightarrow> slowlog_server \<Rightarrow> slowlog_server option" where
  "push_head new e srv = do {
     (_, h, l) \<leftarrow> listAddNodeHead new e (sl_heap srv) (slowlog srv);
     Some (srv\<lparr>slowlog := l, sl_heap := h\<rparr>)
   }"

definition del_last :: "slowlog_server \<Rightarrow> slowlog_server option" where
  "del_last srv = do {
     (f, h, l) \<leftarrow> listDelNode (l_tail (slowlog srv)) (sl_heap srv) (slowlog srv);
     Some (srv\<lparr>slowlog := l, sl_heap := h, sl_freed := sl_freed srv @ f\<rparr>)
   }"

text \<open>\<^verbatim>\<open>while (listLength(server.slowlog) > max) listDelNode(server.slowlog,listLast(server.slowlog));\<close>\<close>

partial_function (option) trim_loop :: "('s \<Rightarrow> nat) \<Rightarrow> ('s \<Rightarrow> 's option) \<Rightarrow> nat \<Rightarrow> 's \<Rightarrow> 's option" where
  "trim_loop len del mx s =
     (if len s > mx then Option.bind (del s) (\<lambda>s. trim_loop len del mx s) else Some s)"

definition log_len :: "slowlog_server \<Rightarrow> nat" where
  "log_len srv = unat (l_len (slowlog srv))"

definition slowlogPushEntryIfNeeded :: "ptr \<Rightarrow> byte list \<Rightarrow> byte list \<Rightarrow> int \<Rightarrow> byte list list \<Rightarrow> int \<Rightarrow> slowlog_server \<Rightarrow>
    slowlog_server option" where
  "slowlogPushEntryIfNeeded new peerid cname now argv duration srv =
     (if slowlog_log_slower_than srv < 0 then Some srv
      else do {
        srv \<leftarrow> (if duration \<ge> slowlog_log_slower_than srv
                then let (e, srv) = slowlogCreateEntry peerid cname now argv duration srv in push_head new e srv
                else Some srv);
        trim_loop log_len del_last (unat (slowlog_max_len srv)) srv
      })"

definition slowlogReset :: "slowlog_server \<Rightarrow> slowlog_server option" where
  "slowlogReset srv = trim_loop log_len del_last 0 srv"

text \<open>The loop of \<^verbatim>\<open>SLOWLOG GET\<close>: a negative count never reaches 0.\<close>

partial_function (option) get_loop :: "int \<Rightarrow> listIter \<Rightarrow> 'v heap \<Rightarrow> 'v list option" where
  "get_loop cnt li h =
     (if cnt = 0 then Some []
      else Option.bind (listNext h li) (\<lambda>(ln, li).
        case ln of
          None \<Rightarrow> Some []
        | Some _ \<Rightarrow> Option.bind (load h ln) (\<lambda>n.
            Option.bind (get_loop (cnt - 1) li h) (\<lambda>es. Some (node_value n # es)))))"

datatype slowlog_reply = SlowlogOk | SlowlogLen nat | SlowlogEntries nat "slowlogEntry list"

datatype slowlog_sub = SLOWLOG_RESET | SLOWLOG_LEN | SLOWLOG_GET int

definition slowlogCommand :: "slowlog_sub \<Rightarrow> slowlog_server \<Rightarrow> (slowlog_reply \<times> slowlog_server) option" where
  "slowlogCommand sub srv =
     (case sub of
        SLOWLOG_RESET \<Rightarrow> do { srv \<leftarrow> slowlogReset srv; Some (SlowlogOk, srv) }
      | SLOWLOG_LEN \<Rightarrow> Some (SlowlogLen (log_len srv), srv)
      | SLOWLOG_GET cnt \<Rightarrow> do {
          es \<leftarrow> get_loop cnt (listRewind (slowlog srv)) (sl_heap srv);
          Some (SlowlogEntries (length es) es, srv)
        })"

section \<open>A log over a list with two ends\<close>

locale log_store =
  fixes rep :: "'s \<Rightarrow> 'v list \<Rightarrow> bool" and len :: "'s \<Rightarrow> nat" and del :: "'s \<Rightarrow> 's option"
  assumes len: "rep s vs \<Longrightarrow> len s = length vs"
    and del: "rep s (vs @ [v]) \<Longrightarrow> \<exists>s'. del s = Some s' \<and> rep s' vs"
begin

lemma trim: "rep s vs \<Longrightarrow> \<exists>s'. trim_loop len del mx s = Some s' \<and> rep s' (take mx vs)"
proof (induction vs arbitrary: s rule: rev_induct)
  case Nil
  then show ?case using len [OF Nil] by (subst trim_loop.simps) simp
next
  case (snoc v vs)
  show ?case
  proof (cases "length (vs @ [v]) > mx")
    case True
    obtain s1 where s1: "del s = Some s1" "rep s1 vs" using del [OF snoc.prems] by blast
    from snoc.IH [OF s1(2)] True s1(1) len [OF snoc.prems] show ?thesis by (subst trim_loop.simps) auto
  next
    case False
    with len [OF snoc.prems] snoc.prems show ?thesis by (subst trim_loop.simps) auto
  qed
qed

end

section \<open>The slow log\<close>

text \<open>The configuration and the id counter, which the list operations leave alone.\<close>

definition log_rep :: "int \<Rightarrow> int \<Rightarrow> ulong \<Rightarrow> slowlog_server \<Rightarrow> slowlogEntry list \<Rightarrow> bool" where
  "log_rep eid slower mx srv es \<longleftrightarrow> (\<exists>xs. list_rep (sl_heap srv) (slowlog srv) xs \<and> map snd xs = es) \<and>
     slowlog_entry_id srv = eid \<and> slowlog_log_slower_than srv = slower \<and> slowlog_max_len srv = mx"

lemma log_repE:
  assumes "log_rep eid slower mx srv es"
  obtains xs where "list_rep (sl_heap srv) (slowlog srv) xs" "map snd xs = es"
  using assms by (auto simp: log_rep_def)

lemma log_len_rep: "log_rep eid slower mx srv es \<Longrightarrow> log_len srv = length es"
  by (auto simp: log_rep_def log_len_def list_rep_def)

lemma del_last_rep:
  assumes "log_rep eid slower mx srv (es @ [e])"
  shows "\<exists>srv'. del_last srv = Some srv' \<and> log_rep eid slower mx srv' es"
proof -
  obtain xs where xs: "list_rep (sl_heap srv) (slowlog srv) xs" "map snd xs = es @ [e]"
    using assms by (rule log_repE)
  have "xs \<noteq> []" using xs(2) by auto
  then obtain ys a e' where "xs = ys @ [(a, e')]" by (metis rev_exhaust surj_pair)
  then have ys: "xs = ys @ [(a, e)]" "map snd ys = es" using xs(2) by simp_all
  have rep: "list_rep (sl_heap srv) (slowlog srv) (ys @ (a, e) # [])" using xs(1) ys(1) by simp
  have "l_tail (slowlog srv) = Some a" using rep by (simp add: list_rep_def)
  with delNode_rep [OF rep] ys(2) assms show ?thesis by (auto simp: del_last_def log_rep_def)
qed

interpretation sl: log_store "log_rep eid slower mx" log_len del_last for eid slower mx
  by unfold_locales (auto intro: log_len_rep del_last_rep)

lemma push_head_rep:
  assumes "log_rep eid slower mx srv es" "sl_heap srv a = None" "Suc (length es) < 2 ^ 64"
  shows "\<exists>srv'. push_head (Some a) e srv = Some srv' \<and> log_rep eid slower mx srv' (e # es)"
proof -
  obtain xs where xs: "list_rep (sl_heap srv) (slowlog srv) xs" "map snd xs = es"
    using assms(1) by (rule log_repE)
  have "Suc (length xs) < 2 ^ 64" using assms(3) xs(2) by auto
  from addHead_rep [OF xs(1) assms(2) this, of e] obtain h' l' where
    r: "listAddNodeHead (Some a) e (sl_heap srv) (slowlog srv) = Some (True, h', l')" "list_rep h' l' ((a, e) # xs)" by blast
  have "map snd ((a, e) # xs) = e # es" using xs(2) by simp
  with r assms(1) show ?thesis unfolding push_head_def log_rep_def by force
qed

lemma get_loop_takes:
  assumes "dseg h p xs None" "iter_next it = first xs None" "iter_direction it = AL_START_HEAD"
  shows "get_loop cnt it h = Some (if cnt < 0 then map snd xs else take (nat cnt) (map snd xs))"
  using assms
proof (induction xs arbitrary: p it cnt)
  case Nil
  then show ?case using listNext_head [OF Nil] by (subst get_loop.simps) simp
next
  case (Cons x xs)
  obtain a v where x: "x = (a, v)" by (cases x)
  have nx: "listNext h it = Some (Some a, it\<lparr>iter_next := first xs None\<rparr>)"
    using listNext_head [OF Cons.prems] x by simp
  have d: "dseg h (Some a) xs None" "h a = Some \<lparr>node_prev = p, node_next = first xs None, node_value = v\<rparr>"
    using Cons.prems(1) x by simp_all
  have "get_loop (cnt - 1) (it\<lparr>iter_next := first xs None\<rparr>) h =
      Some (if cnt - 1 < 0 then map snd xs else take (nat (cnt - 1)) (map snd xs))"
    using Cons.prems(3) by (intro Cons.IH [OF d(1)]) simp_all
  moreover have "nat cnt = Suc (nat (cnt - 1))" if "0 < cnt" using that by simp
  ultimately show ?case
    using nx d(2) x by (subst get_loop.simps) (cases "cnt = 0"; cases "cnt < 0"; auto simp: load_def)
qed

section \<open>Properties\<close>

text \<open>C36. While the log is enabled, after a command the slow log holds the newest entries, the latest first, and at most
  \<^verbatim>\<open>slowlog_max_len\<close> of them: a slow enough command is added in front with the next id, and whatever exceeds the configured
  length, also when that was lowered, is freed. While it is disabled, by a negative threshold, nothing changes: no entry is added
  or freed, also when the log is longer than a length lowered in the meantime.\<close>

theorem slowlogPushEntryIfNeeded_keeps_newest:
  assumes "log_rep eid slower mx srv es" "sl_heap srv a = None" "Suc (length es) < 2 ^ 64"
  shows "\<exists>srv'. slowlogPushEntryIfNeeded (Some a) peerid cname now argv duration srv = Some srv' \<and>
    (if slower < 0 then srv' = srv
     else if duration \<ge> slower
     then log_rep (eid + 1) slower mx srv'
       (take (unat mx) (fst (slowlogCreateEntry peerid cname now argv duration srv) # es))
     else log_rep eid slower mx srv' (take (unat mx) es))"
proof -
  consider "slower < 0" | "\<not> slower < 0" "duration \<ge> slower" | "\<not> slower < 0" "\<not> duration \<ge> slower" by blast
  then show ?thesis
  proof cases
    case 1
    with assms(1) show ?thesis by (simp add: slowlogPushEntryIfNeeded_def log_rep_def)
  next
    case 2
    define srv1 where "srv1 = srv\<lparr>slowlog_entry_id := eid + 1\<rparr>"
    define e where "e = fst (slowlogCreateEntry peerid cname now argv duration srv)"
    have e: "slowlogCreateEntry peerid cname now argv duration srv = (e, srv1)"
      using assms(1) by (simp add: e_def srv1_def slowlogCreateEntry_def Let_def log_rep_def)
    have "log_rep (eid + 1) slower mx srv1 es" "sl_heap srv1 a = None"
      using assms(1,2) by (simp_all add: log_rep_def srv1_def)
    from push_head_rep [OF this assms(3), of e] obtain srv2 where
      srv2: "push_head (Some a) e srv1 = Some srv2" "log_rep (eid + 1) slower mx srv2 (e # es)" by blast
    from sl.trim [OF srv2(2), of "unat mx"] srv2 2 assms(1) e show ?thesis
      by (auto simp: slowlogPushEntryIfNeeded_def log_rep_def)
  next
    case 3
    from sl.trim [OF assms(1), of "unat mx"] 3 assms(1) show ?thesis
      by (auto simp: slowlogPushEntryIfNeeded_def log_rep_def)
  qed
qed

definition ex_log :: slowlog_server where
  "ex_log = \<lparr>slowlog = listCreate\<lparr>l_free := True\<rparr>, sl_heap = Map.empty, slowlog_entry_id = 7,
     slowlog_log_slower_than = 10000, slowlog_max_len = 128, sl_freed = []\<rparr>"

lemma ex_log_rep: "log_rep 7 10000 128 ex_log []" "sl_heap ex_log a = None"
  by (simp_all add: log_rep_def ex_log_def list_rep_def listCreate_def)

theorem slowlogPushEntryIfNeeded_keeps_newest_witness:
  "\<exists>srv'. slowlogPushEntryIfNeeded (Some 5) [] [] 0 [[71, 69, 84], [120]] 20000 ex_log = Some srv' \<and>
    log_rep 8 10000 128 srv' [fst (slowlogCreateEntry [] [] 0 [[71, 69, 84], [120]] 20000 ex_log)]"
  using slowlogPushEntryIfNeeded_keeps_newest [OF ex_log_rep,
      of 5 "[]" "[]" 0 "[[71, 69, 84], [120]]" 20000] by simp

text \<open>\<^verbatim>\<open>SLOWLOG GET n\<close> lists the newest \<open>n\<close> entries, all of them when \<open>n\<close> is negative, and announces
  as many as it lists; \<^verbatim>\<open>SLOWLOG LEN\<close> is their number; \<^verbatim>\<open>SLOWLOG RESET\<close> empties the log.\<close>

theorem slowlogCommand_replies:
  assumes "log_rep eid slower mx srv es"
  shows "slowlogCommand (SLOWLOG_GET n) srv =
      Some (SlowlogEntries (if n < 0 then length es else min (length es) (nat n)) (if n < 0 then es else take (nat n) es), srv) \<and>
    slowlogCommand SLOWLOG_LEN srv = Some (SlowlogLen (length es), srv) \<and>
    (\<exists>srv'. slowlogCommand SLOWLOG_RESET srv = Some (SlowlogOk, srv') \<and> log_rep eid slower mx srv' [])"
proof (intro conjI)
  obtain xs where xs: "list_rep (sl_heap srv) (slowlog srv) xs" "map snd xs = es"
    using assms by (rule log_repE)
  have "get_loop n (listRewind (slowlog srv)) (sl_heap srv) = Some (if n < 0 then es else take (nat n) es)"
    using get_loop_takes [of "sl_heap srv" None xs "listRewind (slowlog srv)" n] xs by (simp add: list_rep_def listRewind_def)
  then show "slowlogCommand (SLOWLOG_GET n) srv =
      Some (SlowlogEntries (if n < 0 then length es else min (length es) (nat n)) (if n < 0 then es else take (nat n) es), srv)"
    by (simp add: slowlogCommand_def)
  show "slowlogCommand SLOWLOG_LEN srv = Some (SlowlogLen (length es), srv)"
    using log_len_rep [OF assms] by (simp add: slowlogCommand_def)
  show "\<exists>srv'. slowlogCommand SLOWLOG_RESET srv = Some (SlowlogOk, srv') \<and> log_rep eid slower mx srv' []"
    using sl.trim [OF assms, of 0] by (auto simp: slowlogCommand_def slowlogReset_def)
qed

theorem slowlogCommand_replies_witness:
  "slowlogCommand (SLOWLOG_GET (- 1)) ex_log = Some (SlowlogEntries 0 [], ex_log)"
  using slowlogCommand_replies [OF ex_log_rep(1), of "- 1"] by simp

end
