(* ===== verification/Sorts.thy ===== *)
theory Sorts
  imports Prelude
begin

text \<open>
  The sorting programs of \<^verbatim>\<open>code/\<close> and \<^verbatim>\<open>DS&Algo/src/sort/\<close>: bubble, insertion, selection, Shell, heap,
  quick and merge sort. Arrays are lists and every access is bounds-checked, an access outside
  of the array making the result \<^const>\<open>None\<close>. Element types are linear orders. Indices are \<^verbatim>\<open>int\<close>s: with a length that is one,
  the computations that can leave the type are \<^verbatim>\<open>Parent * 2 + 1\<close> of heap sort and \<^verbatim>\<open>Left + Right\<close> of quick sort, and they
  make the result \<^const>\<open>None\<close> then. Each loop is a recursion of its own.
\<close>

section \<open>Arrays\<close>

definition aget :: "'a list \<Rightarrow> nat \<Rightarrow> 'a option" where
  "aget A i = (if i < length A then Some (A ! i) else None)"

definition aput :: "'a list \<Rightarrow> nat \<Rightarrow> 'a \<Rightarrow> 'a list option" where
  "aput A i x = (if i < length A then Some (A[i := x]) else None)"

definition Swap :: "'a list \<Rightarrow> nat \<Rightarrow> nat \<Rightarrow> 'a list option" where
  "Swap A i j = do {
     x \<leftarrow> aget A i;
     y \<leftarrow> aget A j;
     A \<leftarrow> aput A i y;
     aput A j x
   }"

lemma Swap_length: "Swap A i j = Some A' \<Longrightarrow> length A' = length A"
  by (auto simp: Swap_def aget_def aput_def bind_eq_Some_conv split: if_splits)

section \<open>Bubble sort\<close>

text \<open>One pass from \<open>i\<close> to \<open>P\<close>; the result carries the flag that \<^verbatim>\<open>Swap\<close> was called. The file does not define
  \<^verbatim>\<open>Swap\<close>; the call \<^verbatim>\<open>Swap(A[i], A[i + 1])\<close> gives it the values of two elements, so that the array stays as it is.\<close>

function bubble_pass :: "'a::linorder list \<Rightarrow> nat \<Rightarrow> nat \<Rightarrow> bool \<Rightarrow> ('a list \<times> bool) option" where
  "bubble_pass A i P flag =
     (if i < P then do {
        x \<leftarrow> aget A i;
        y \<leftarrow> aget A (i + 1);
        bubble_pass A (i + 1) P (if x > y then True else flag)
      }
      else Some (A, flag))"
  by auto
termination by (relation "measure (\<lambda>(A, i, P, flag). P - i)") auto

declare bubble_pass.simps [simp del]

fun bubble_outer :: "'a::linorder list \<Rightarrow> nat \<Rightarrow> 'a list option" where
  "bubble_outer A 0 = Some A"
| "bubble_outer A (Suc P) = do {
     (A, flag) \<leftarrow> bubble_pass A 0 (Suc P) False;
     if \<not> flag then Some A else bubble_outer A P
   }"

definition Bubble_Sort :: "'a::linorder list \<Rightarrow> nat \<Rightarrow> 'a list option" where
  "Bubble_Sort A N = bubble_outer A (N - 1)"

section \<open>Insertion sort\<close>

text \<open>The array is \<open>A + off\<close>, as in the call from quick sort.\<close>

fun insertion_inner :: "'a::linorder list \<Rightarrow> nat \<Rightarrow> nat \<Rightarrow> 'a \<Rightarrow> 'a list option" where
  "insertion_inner A off 0 tmp = aput A off tmp"
| "insertion_inner A off (Suc j) tmp = do {
     x \<leftarrow> aget A (off + j);
     if x > tmp then do {
       A \<leftarrow> aput A (off + Suc j) x;
       insertion_inner A off j tmp
     }
     else aput A (off + Suc j) tmp
   }"

function insertion_outer :: "'a::linorder list \<Rightarrow> nat \<Rightarrow> nat \<Rightarrow> nat \<Rightarrow> 'a list option" where
  "insertion_outer A off i N =
     (if i < N then do {
        tmp \<leftarrow> aget A (off + i);
        A \<leftarrow> insertion_inner A off i tmp;
        insertion_outer A off (i + 1) N
      }
      else Some A)"
  by auto
termination by (relation "measure (\<lambda>(A, off, i, N). N - i)") auto

declare insertion_outer.simps [simp del]

definition InsertionSort :: "'a::linorder list \<Rightarrow> nat \<Rightarrow> nat \<Rightarrow> 'a list option" where
  "InsertionSort A off N = insertion_outer A off 1 N"

definition Insertion_Sort :: "'a::linorder list \<Rightarrow> nat \<Rightarrow> 'a list option" where
  "Insertion_Sort A N = insertion_outer A 0 1 N"

section \<open>Selection sort\<close>

function smallest_loop :: "'a::linorder list \<Rightarrow> nat \<Rightarrow> nat \<Rightarrow> nat \<Rightarrow> nat option" where
  "smallest_loop arr j N smallest_index =
     (if j < N then do {
        x \<leftarrow> aget arr j;
        y \<leftarrow> aget arr smallest_index;
        smallest_loop arr (j + 1) N (if x < y then j else smallest_index)
      }
      else Some smallest_index)"
  by auto
termination by (relation "measure (\<lambda>(arr, j, N, s). N - j)") auto

declare smallest_loop.simps [simp del]

function selection_outer :: "'a::linorder list \<Rightarrow> nat \<Rightarrow> nat \<Rightarrow> 'a list option" where
  "selection_outer arr i N =
     (if i < N - 1 then do {
        s \<leftarrow> smallest_loop arr (i + 1) N i;
        arr \<leftarrow> Swap arr i s;
        selection_outer arr (i + 1) N
      }
      else Some arr)"
  by auto
termination by (relation "measure (\<lambda>(arr, i, N). N - i)") auto

declare selection_outer.simps [simp del]

definition selection_sort :: "'a::linorder list \<Rightarrow> nat \<Rightarrow> 'a list option" where
  "selection_sort arr N = selection_outer arr 0 N"

section \<open>Shell sort\<close>

text \<open>The gap \<open>D\<close> is positive in every call.\<close>

function shell_inner :: "'a::linorder list \<Rightarrow> nat \<Rightarrow> nat \<Rightarrow> 'a \<Rightarrow> 'a list option" where
  "shell_inner A D j tmp =
     (if j \<ge> D \<and> D > 0 then do {
        x \<leftarrow> aget A (j - D);
        if x > tmp then do {
          A \<leftarrow> aput A j x;
          shell_inner A D (j - D) tmp
        }
        else aput A j tmp
      }
      else aput A j tmp)"
  by auto
termination by (relation "measure (\<lambda>(A, D, j, tmp). j)") auto

declare shell_inner.simps [simp del]

function shell_middle :: "'a::linorder list \<Rightarrow> nat \<Rightarrow> nat \<Rightarrow> nat \<Rightarrow> 'a list option" where
  "shell_middle A D i N =
     (if i < N then do {
        tmp \<leftarrow> aget A i;
        A \<leftarrow> shell_inner A D i tmp;
        shell_middle A D (i + 1) N
      }
      else Some A)"
  by auto
termination by (relation "measure (\<lambda>(A, D, i, N). N - i)") auto

declare shell_middle.simps [simp del]

fun shell_outer :: "'a::linorder list \<Rightarrow> nat \<Rightarrow> nat \<Rightarrow> 'a list option" where
  "shell_outer A D N =
     (if D > 0 then do {
        A \<leftarrow> shell_middle A D D N;
        shell_outer A (D div 2) N
      }
      else Some A)"

declare shell_outer.simps [simp del]

definition Shell_sort :: "'a::linorder list \<Rightarrow> nat \<Rightarrow> 'a list option" where
  "Shell_sort A N = shell_outer A (N div 2) N"

section \<open>Heap sort\<close>

function perc_loop :: "'a::linorder list \<Rightarrow> nat \<Rightarrow> nat \<Rightarrow> 'a \<Rightarrow> 'a list option" where
  "perc_loop A Parent N X =
     (if Parent * 2 + 1 \<ge> 2 ^ 31 then None
      else if Parent * 2 + 1 < N then do {
        let Child = Parent * 2 + 1;
        c \<leftarrow> aget A Child;
        Child \<leftarrow> (if Child \<noteq> N - 1 then map_option (\<lambda>c'. if c < c' then Child + 1 else Child) (aget A (Child + 1))
                  else Some Child);
        c \<leftarrow> aget A Child;
        if X \<ge> c then aput A Parent X
        else do {
          A \<leftarrow> aput A Parent c;
          perc_loop A Child N X
        }
      }
      else aput A Parent X)"
  by auto
termination
  by (relation "measure (\<lambda>(A, Parent, N, X). length A - Parent)") (auto simp: aget_def aput_def split: if_splits)

declare perc_loop.simps [simp del]

definition PercDown :: "'a::linorder list \<Rightarrow> nat \<Rightarrow> nat \<Rightarrow> 'a list option" where
  "PercDown A p N = do {
     X \<leftarrow> aget A p;
     perc_loop A p N X
   }"

fun build_heap :: "'a::linorder list \<Rightarrow> nat \<Rightarrow> nat \<Rightarrow> 'a list option" where
  "build_heap A 0 N = Some A"
| "build_heap A (Suc i) N = do { A \<leftarrow> PercDown A i N; build_heap A i N }"

fun drain_heap :: "'a::linorder list \<Rightarrow> nat \<Rightarrow> 'a list option" where
  "drain_heap A 0 = Some A"
| "drain_heap A (Suc i) = do {
     A \<leftarrow> Swap A 0 (Suc i);
     A \<leftarrow> PercDown A 0 (Suc i);
     drain_heap A i
   }"

definition HeapSort :: "'a::linorder list \<Rightarrow> nat \<Rightarrow> 'a list option" where
  "HeapSort A N = do {
     A \<leftarrow> build_heap A (N div 2) N;
     drain_heap A (N - 1)
   }"

section \<open>Merge sort\<close>

text \<open>The loop over both runs and the two loops that copy what is left of one of them.\<close>

function merge_both :: "'a::linorder list \<Rightarrow> 'a list \<Rightarrow> nat \<Rightarrow> nat \<Rightarrow> nat \<Rightarrow> nat \<Rightarrow> nat \<Rightarrow> ('a list \<times> nat \<times> nat \<times> nat) option" where
  "merge_both arr tmp i j k mid right =
     (if i \<le> mid \<and> j \<le> right then do {
        x \<leftarrow> aget arr i;
        y \<leftarrow> aget arr j;
        if x \<le> y then do { tmp \<leftarrow> aput tmp k x; merge_both arr tmp (i + 1) j (k + 1) mid right }
        else do { tmp \<leftarrow> aput tmp k y; merge_both arr tmp i (j + 1) (k + 1) mid right }
      }
      else Some (tmp, i, j, k))"
  by auto
termination by (relation "measure (\<lambda>(arr, tmp, i, j, k, mid, right). (Suc mid - i) + (Suc right - j))") auto

declare merge_both.simps [simp del]

function copy_run :: "'a list \<Rightarrow> 'a list \<Rightarrow> nat \<Rightarrow> nat \<Rightarrow> nat \<Rightarrow> ('a list \<times> nat) option" where
  "copy_run arr tmp i k lim =
     (if i \<le> lim then do {
        x \<leftarrow> aget arr i;
        tmp \<leftarrow> aput tmp k x;
        copy_run arr tmp (i + 1) (k + 1) lim
      }
      else Some (tmp, k))"
  by auto
termination by (relation "measure (\<lambda>(arr, tmp, i, k, lim). Suc lim - i)") auto

declare copy_run.simps [simp del]

text \<open>\<^verbatim>\<open>for (k = left; k <= right; k++) arr[k] = tmp[k];\<close>\<close>

function copy_back :: "'a list \<Rightarrow> 'a list \<Rightarrow> nat \<Rightarrow> nat \<Rightarrow> 'a list option" where
  "copy_back arr tmp k right =
     (if k \<le> right then do {
        x \<leftarrow> aget tmp k;
        arr \<leftarrow> aput arr k x;
        copy_back arr tmp (k + 1) right
      }
      else Some arr)"
  by auto
termination by (relation "measure (\<lambda>(arr, tmp, k, right). Suc right - k)") auto

declare copy_back.simps [simp del]

text \<open>\<^verbatim>\<open>tmp\<close> is passed by value: the changes stay local.\<close>

definition Merge :: "'a::linorder list \<Rightarrow> 'a list \<Rightarrow> nat \<Rightarrow> nat \<Rightarrow> nat \<Rightarrow> 'a list option" where
  "Merge arr tmp left mid right = do {
     (tmp, i, j, k) \<leftarrow> merge_both arr tmp left (mid + 1) left mid right;
     (tmp, k) \<leftarrow> copy_run arr tmp i k mid;
     (tmp, k) \<leftarrow> copy_run arr tmp j k right;
     copy_back arr tmp left right
   }"

function Msort :: "'a::linorder list \<Rightarrow> 'a list \<Rightarrow> int \<Rightarrow> int \<Rightarrow> 'a list option" where
  "Msort arr tmp left right =
     (if left < right then do {
        let mid = left + (right - left) div 2;
        arr \<leftarrow> Msort arr tmp left mid;
        arr \<leftarrow> Msort arr tmp (mid + 1) right;
        if left < 0 then None else Merge arr tmp (nat left) (nat mid) (nat right)
      }
      else Some arr)"
  by auto
termination by (relation "measure (\<lambda>(arr, tmp, left, right). nat (right - left))") auto

declare Msort.simps [simp del]

text \<open>\<open>zero\<close> is the value the elements of a new vector have.\<close>

definition MergeSort :: "'a::linorder \<Rightarrow> 'a list \<Rightarrow> 'a list option" where
  "MergeSort zero arr = Msort arr (replicate (length arr) zero) 0 (int (length arr) - 1)"

section \<open>Quick sort\<close>

definition swap_if :: "'a::linorder list \<Rightarrow> nat \<Rightarrow> nat \<Rightarrow> 'a list option" where
  "swap_if A i j = do {
     x \<leftarrow> aget A i;
     y \<leftarrow> aget A j;
     if x > y then Swap A i j else Some A
   }"

definition Median3 :: "'a::linorder list \<Rightarrow> nat \<Rightarrow> nat \<Rightarrow> ('a \<times> 'a list) option" where
  "Median3 A Lft Rgt = do {
     _ \<leftarrow> int32 (int Lft + int Rgt);
     let Center = (Lft + Rgt) div 2;
     A \<leftarrow> swap_if A Lft Center;
     A \<leftarrow> swap_if A Lft Rgt;
     A \<leftarrow> swap_if A Center Rgt;
     A \<leftarrow> Swap A Center (Rgt - 1);
     p \<leftarrow> aget A (Rgt - 1);
     Some (p, A)
   }"

text \<open>\<^verbatim>\<open>while (A[++Low] < Pivot);\<close> and \<^verbatim>\<open>while (A[--High] > Pivot);\<close>. Going below index 0 leaves the array.\<close>

function scan_up :: "'a::linorder list \<Rightarrow> nat \<Rightarrow> 'a \<Rightarrow> nat option" where
  "scan_up A Low Pivot = do {
     x \<leftarrow> aget A (Low + 1);
     if x < Pivot then scan_up A (Low + 1) Pivot else Some (Low + 1)
   }"
  by auto
termination by (relation "measure (\<lambda>(A, Low, Pivot). length A - Low)") (auto simp: aget_def split: if_splits)

declare scan_up.simps [simp del]

fun scan_down :: "'a::linorder list \<Rightarrow> nat \<Rightarrow> 'a \<Rightarrow> nat option" where
  "scan_down A 0 Pivot = None"
| "scan_down A (Suc High) Pivot = do {
     x \<leftarrow> aget A High;
     if x > Pivot then scan_down A High Pivot else Some High
   }"

lemma scan_up_lt: "scan_up A Low Pivot = Some l \<Longrightarrow> Low < l \<and> l < length A"
proof (induction A Low Pivot rule: scan_up.induct)
  case (1 A Low Pivot)
  show ?case
  proof (cases "Low + 1 < length A \<and> A ! (Low + 1) < Pivot")
    case True
    then have "aget A (Low + 1) = Some (A ! (Low + 1))" by (simp add: aget_def)
    with 1 True show ?thesis by (subst (asm) (2) scan_up.simps) fastforce
  next
    case False
    with "1.prems" show ?thesis by (subst (asm) scan_up.simps) (auto simp: aget_def bind_eq_Some_conv split: if_splits)
  qed
qed

function partition_loop :: "'a::linorder list \<Rightarrow> nat \<Rightarrow> nat \<Rightarrow> 'a \<Rightarrow> ('a list \<times> nat) option" where
  "partition_loop A Low High Pivot = do {
     l \<leftarrow> scan_up A Low Pivot;
     h \<leftarrow> scan_down A High Pivot;
     if l < h then do { A \<leftarrow> Swap A l h; partition_loop A l h Pivot } else Some (A, l)
   }"
  by auto
termination
proof (relation "measure (\<lambda>(A, Low, High, Pivot). length A - Low)", goal_cases)
  case (2 A Low High Pivot l h A')
  then have "Low < l" "l < length A" "length A' = length A" using scan_up_lt [of A Low Pivot l] Swap_length [of A l h A'] by auto
  then show ?case by auto
qed simp

declare partition_loop.simps [simp del]

definition Cutoff :: int where "Cutoff = 1000"

text \<open>The right bound of an empty part is one less than its left bound, -1 at the start of the array.\<close>

partial_function (option) Qsort :: "'a::linorder list \<Rightarrow> int \<Rightarrow> int \<Rightarrow> 'a list option" where
  "Qsort A Lft Rgt =
     (if Cutoff \<le> Rgt - Lft then
        Option.bind (Median3 A (nat Lft) (nat Rgt)) (\<lambda>(Pivot, A).
        Option.bind (partition_loop A (nat Lft) (nat Rgt - 1) Pivot) (\<lambda>(A, Low).
        Option.bind (Swap A Low (nat Rgt - 1)) (\<lambda>A.
        Option.bind (Qsort A Lft (int Low - 1)) (\<lambda>A.
        Qsort A (int Low + 1) Rgt))))
      else InsertionSort A (nat Lft) (nat (Rgt - Lft + 1)))"

definition QuickSort :: "'a::linorder list \<Rightarrow> nat \<Rightarrow> 'a list option" where
  "QuickSort A N = Qsort A 0 (int N - 1)"

end
