(* ===== verification/Sorts_Correct.thy ===== *)
theory Sorts_Correct
  imports Sorts
begin

text \<open>
  The sorting programs of the collection, bubble sort apart, return the sorted permutation of an array of at most \<open>2 ^ 30\<close>
  elements without leaving it. The contract is a locale that each of them implements, and from it follows that they all
  compute the same function. Bubble sort changes nothing.
\<close>

section \<open>The contract\<close>

locale sorting =
  fixes srt :: "'a::linorder list \<Rightarrow> 'a list option"
  assumes sorts: "length xs \<le> 2 ^ 30 \<Longrightarrow> \<exists>ys. srt xs = Some ys \<and> mset ys = mset xs \<and> sorted ys"
begin

lemma srt_sort: "length xs \<le> 2 ^ 30 \<Longrightarrow> srt xs = Some (sort xs)"
  by (metis sorts properties_for_sort)

end

section \<open>Array accesses\<close>

lemma aget_nth [simp]: "i < length A \<Longrightarrow> aget A i = Some (A ! i)"
  by (simp add: aget_def)

lemma aput_upd [simp]: "i < length A \<Longrightarrow> aput A i x = Some (A[i := x])"
  by (simp add: aput_def)

lemma Swap_upd: "i < length A \<Longrightarrow> j < length A \<Longrightarrow> Swap A i j = Some (A[i := A ! j, j := A ! i])"
  by (simp add: Swap_def)

lemma mset_swap_upd: "i < length A \<Longrightarrow> j < length A \<Longrightarrow> mset (A[i := A ! j, j := A ! i]) = mset A"
  by (rule mset_swap)

lemma take_upd_append: "length U = i \<Longrightarrow> (U @ x # V)[i := y] = U @ y # V"
  by (simp add: list_update_append)

section \<open>Bubble sort\<close>

lemma bubble_pass_same: "P < length A \<Longrightarrow> \<exists>f. bubble_pass A i P flag = Some (A, f)"
proof (induction "P - i" arbitrary: i flag)
  case 0
  then show ?case by (subst bubble_pass.simps) simp
next
  case (Suc n)
  then have "i < P" "n = P - (i + 1)" by simp_all
  with Suc.hyps(1) [of "i + 1"] Suc.prems show ?case by (subst bubble_pass.simps) auto
qed

lemma bubble_outer_same: "P < length A \<Longrightarrow> bubble_outer A P = Some A"
proof (induction P)
  case (Suc P)
  obtain f where "bubble_pass A 0 (Suc P) False = Some (A, f)" using bubble_pass_same [OF Suc.prems] by blast
  with Suc show ?case by simp
qed simp

lemma Bubble_Sort_same: "Bubble_Sort xs (length xs) = Some xs"
  by (cases xs) (simp_all add: Bubble_Sort_def bubble_outer_same)

section \<open>Insertion sort\<close>

lemma insertion_inner_inserts:
  "sorted xs \<Longrightarrow> length U = off \<Longrightarrow>
   insertion_inner (U @ xs @ h # Z) off (length xs) tmp =
     Some (U @ (takeWhile (\<lambda>x. x \<le> tmp) xs @ tmp # dropWhile (\<lambda>x. x \<le> tmp) xs) @ Z)"
proof (induction xs arbitrary: h Z rule: rev_induct)
  case Nil
  then show ?case by (simp add: list_update_append)
next
  case (snoc x xs)
  have g: "(U @ (xs @ [x]) @ h # Z) ! (off + length xs) = x" using snoc.prems(2) by (simp add: nth_append)
  have u: "(U @ (xs @ [x]) @ h # Z)[off + Suc (length xs) := y] = U @ xs @ x # y # Z" for y
    using snoc.prems(2) by (simp add: list_update_append)
  show ?case
  proof (cases "x > tmp")
    case True
    have "insertion_inner (U @ xs @ x # x # Z) off (length xs) tmp =
        Some (U @ (takeWhile (\<lambda>x. x \<le> tmp) xs @ tmp # dropWhile (\<lambda>x. x \<le> tmp) xs) @ x # Z)"
      using snoc.prems by (intro snoc.IH) (simp_all add: sorted_append)
    moreover have "takeWhile (\<lambda>x. x \<le> tmp) (xs @ [x]) = takeWhile (\<lambda>x. x \<le> tmp) xs"
      "dropWhile (\<lambda>x. x \<le> tmp) (xs @ [x]) = dropWhile (\<lambda>x. x \<le> tmp) xs @ [x]"
      using True takeWhile_tail [of "\<lambda>x. x \<le> tmp" x xs "[]"] dropWhile_append3 [of "\<lambda>x. x \<le> tmp" x xs "[]"] by simp_all
    ultimately show ?thesis using True g u snoc.prems(2) by simp
  next
    case False
    have "\<forall>y \<in> set (xs @ [x]). y \<le> tmp" using False snoc.prems(1) by (auto simp: sorted_append)
    then have "takeWhile (\<lambda>x. x \<le> tmp) (xs @ [x]) = xs @ [x]" "dropWhile (\<lambda>x. x \<le> tmp) (xs @ [x]) = []"
      by (simp_all add: takeWhile_eq_all_conv dropWhile_eq_Nil_conv)
    with False g u snoc.prems(2) show ?thesis by simp
  qed
qed

lemma sorted_insert_between: "sorted xs \<Longrightarrow> sorted (takeWhile (\<lambda>x. x \<le> t) xs @ t # dropWhile (\<lambda>x. x \<le> t) xs)"
proof (induction xs)
  case (Cons x xs)
  have "set (takeWhile (\<lambda>x. x \<le> t) xs @ t # dropWhile (\<lambda>x. x \<le> t) xs) = insert t (set xs)"
    using mset_eq_setD [of "takeWhile (\<lambda>x. x \<le> t) xs @ t # dropWhile (\<lambda>x. x \<le> t) xs" "t # xs"]
    unfolding mset_insert_before by simp
  with Cons show ?case by (cases "x \<le> t") auto
qed simp

lemma insertion_outer_sorts:
  "sorted L \<Longrightarrow> length U = off \<Longrightarrow> length L = i \<Longrightarrow> N = i + length R \<Longrightarrow>
   insertion_outer (U @ L @ R @ Z) off i N = Some (U @ sort (L @ R) @ Z)"
proof (induction R arbitrary: L i)
  case Nil
  then show ?case by (subst insertion_outer.simps) (simp add: sorted_sort_id)
next
  case (Cons r R)
  define L' where "L' = takeWhile (\<lambda>x. x \<le> r) L @ r # dropWhile (\<lambda>x. x \<le> r) L"
  have L': "sorted L'" "mset L' = add_mset r (mset L)"
    unfolding L'_def using sorted_insert_between [OF Cons.prems(1), of r] mset_insert_before [of "\<lambda>x. x \<le> r" L r] by blast+
  have "length L' = i + 1" using arg_cong [OF L'(2), of size] Cons.prems(3) by simp
  have "insertion_outer (U @ L' @ R @ Z) off (i + 1) N = Some (U @ sort (L' @ R) @ Z)"
    using Cons.prems \<open>length L' = i + 1\<close> L'(1) by (intro Cons.IH) simp_all
  moreover have "sort (L' @ R) = sort (L @ r # R)" using L'(2) by (intro properties_for_sort) simp_all
  moreover have "(U @ L @ (r # R) @ Z) ! (off + i) = r" using Cons.prems by (simp add: nth_append)
  ultimately show ?case
    using insertion_inner_inserts [OF Cons.prems(1,2), of r "R @ Z" r] Cons.prems
    by (subst insertion_outer.simps) (simp add: L'_def)
qed

lemma InsertionSort_slice:
  assumes "length U = off" "length W = N"
  shows "InsertionSort (U @ W @ Z) off N = Some (U @ sort W @ Z)"
proof (cases W)
  case Nil
  with assms show ?thesis unfolding InsertionSort_def by (subst insertion_outer.simps) simp
next
  case (Cons w W')
  then show ?thesis using insertion_outer_sorts [of "[w]" U off 1 N W' Z] assms by (simp add: InsertionSort_def)
qed

lemma Insertion_Sort_sorts: "\<exists>ys. Insertion_Sort xs (length xs) = Some ys \<and> mset ys = mset xs \<and> sorted ys"
  using InsertionSort_slice [of "[]" 0 xs "length xs" "[]"] by (simp add: Insertion_Sort_def InsertionSort_def)

section \<open>Selection sort\<close>

lemma in_set_drop: "x \<in> set (drop i A) \<longleftrightarrow> (\<exists>k. i \<le> k \<and> k < length A \<and> x = A ! k)"
proof
  assume "x \<in> set (drop i A)"
  then obtain j where "j < length (drop i A)" "x = drop i A ! j" by (auto simp: in_set_conv_nth)
  then show "\<exists>k. i \<le> k \<and> k < length A \<and> x = A ! k" by (intro exI [of _ "i + j"]) auto
next
  assume "\<exists>k. i \<le> k \<and> k < length A \<and> x = A ! k"
  then obtain k where "i \<le> k" "k < length A" "x = A ! k" by blast
  then show "x \<in> set (drop i A)" by (auto simp: in_set_conv_nth intro!: exI [of _ "k - i"])
qed

lemma smallest_loop_min:
  "m < length A \<Longrightarrow> j \<le> length A \<Longrightarrow>
   \<exists>s. smallest_loop A j (length A) m = Some s \<and> (s = m \<or> j \<le> s) \<and> s < length A \<and>
     A ! s \<le> A ! m \<and> (\<forall>k. j \<le> k \<and> k < length A \<longrightarrow> A ! s \<le> A ! k)"
proof (induction "length A - j" arbitrary: j m)
  case 0
  then show ?case by (subst smallest_loop.simps) auto
next
  case (Suc n)
  define m' where "m' = (if A ! j < A ! m then j else m)"
  have j: "j < length A" "m' < length A" using Suc by (auto simp: m'_def)
  have n: "n = length A - (j + 1)" "j + 1 \<le> length A" using Suc(2) by simp_all
  obtain s where s: "smallest_loop A (j + 1) (length A) m' = Some s" "s = m' \<or> j + 1 \<le> s" "s < length A"
    "A ! s \<le> A ! m'" "\<forall>k. j + 1 \<le> k \<and> k < length A \<longrightarrow> A ! s \<le> A ! k"
    using Suc(1) [OF n(1) j(2) n(2)] by blast
  have "A ! m' \<le> A ! m" "A ! m' \<le> A ! j" by (auto simp: m'_def)
  moreover have "A ! s \<le> A ! k" if "j \<le> k" "k < length A" for k
    using s(4,5) calculation(2) that by (cases "k = j") auto
  moreover have "smallest_loop A j (length A) m = Some s"
    using s(1) j Suc.prems(1) by (subst smallest_loop.simps) (simp add: m'_def)
  moreover have "A ! s \<le> A ! m" using s(4) calculation(1) by (rule order_trans)
  moreover have "s = m \<or> j \<le> s" using s(2) by (auto simp: m'_def split: if_splits)
  ultimately show ?case using s(3) by blast
qed

lemma selection_outer_sorts:
  "i \<le> length A \<Longrightarrow> sorted (take i A) \<Longrightarrow> \<forall>a \<in> set (take i A). \<forall>b \<in> set (drop i A). a \<le> b \<Longrightarrow>
   \<exists>ys. selection_outer A i (length A) = Some ys \<and> mset ys = mset A \<and> sorted ys"
proof (induction "length A - i" arbitrary: i A rule: less_induct)
  case less
  show ?case
  proof (cases "i < length A - 1")
    case False
    have "length (drop i A) \<le> 1" using False by simp
    then have "sorted (drop i A)" by (cases "drop i A"; cases "tl (drop i A)") auto
    then have "sorted (take i A @ drop i A)" using less.prems by (simp only: sorted_append)
    with False show ?thesis by (subst selection_outer.simps) simp
  next
    case True
    have i: "i < length A" "i + 1 \<le> length A" using True by simp_all
    obtain s where s: "smallest_loop A (i + 1) (length A) i = Some s" "s = i \<or> i + 1 \<le> s" "s < length A"
      "A ! s \<le> A ! i" "\<forall>k. i + 1 \<le> k \<and> k < length A \<longrightarrow> A ! s \<le> A ! k"
      using smallest_loop_min [OF i] by blast
    define B where "B = A[i := A ! s, s := A ! i]"
    have B: "Swap A i s = Some B" "length B = length A" "mset B = mset A"
      using True s(3) by (simp_all add: Swap_upd B_def mset_swap_upd)
    have tk: "take i B = take i A" using s(2) by (auto simp: B_def)
    have "mset (drop i B) = mset (drop i A)"
      using B(3) tk by (metis add_left_imp_eq append_take_drop_id mset_append)
    then have dr: "set (drop i B) = set (drop i A)" by (rule mset_eq_setD)
    have bi: "B ! i = A ! s" using True s(2,3) by (auto simp: B_def nth_list_update)
    have all: "A ! s \<le> b" if "b \<in> set (drop i A)" for b
    proof -
      from that obtain k where "i \<le> k" "k < length A" "b = A ! k" by (auto simp: in_set_drop)
      then show ?thesis using s(4,5) by (cases "k = i") auto
    qed
    have tS: "take (i + 1) B = take i A @ [A ! s]" using True B(2) tk bi by (simp add: take_Suc_conv_app_nth)
    have "A ! s \<in> set (drop i A)" using s(2,3) unfolding in_set_drop by (intro exI [of _ s]) auto
    then have "sorted (take (i + 1) B)" using less.prems(2,3) unfolding tS by (auto simp: sorted_append)
    moreover have "\<forall>a \<in> set (take (i + 1) B). \<forall>b \<in> set (drop (i + 1) B). a \<le> b"
    proof (intro ballI)
      fix a b assume a: "a \<in> set (take (i + 1) B)" and b: "b \<in> set (drop (i + 1) B)"
      have "b \<in> set (drop i B)" using b set_drop_subset_set_drop [of i "i + 1" B] by auto
      then have "b \<in> set (drop i A)" using dr by simp
      with a all less.prems(3) show "a \<le> b" unfolding tS by auto
    qed
    moreover have "length B - (i + 1) < length A - i" "i + 1 \<le> length B" using i B(2) by simp_all
    ultimately obtain ys where "selection_outer B (i + 1) (length B) = Some ys" "mset ys = mset B" "sorted ys"
      using less.hyps [of B "i + 1"] by blast
    with True s(1) B show ?thesis by (subst selection_outer.simps) simp
  qed
qed

lemma selection_sort_sorts: "\<exists>ys. selection_sort xs (length xs) = Some ys \<and> mset ys = mset xs \<and> sorted ys"
  using selection_outer_sorts [of 0 xs] by (simp add: selection_sort_def)

section \<open>Shell sort\<close>

lemma mset_move: "i < length A \<Longrightarrow> j < length A \<Longrightarrow> i \<noteq> j \<Longrightarrow> mset (A[j := A ! i, i := t]) = mset (A[j := t])"
  using mset_swap [of i "A[j := t]" j] by (simp add: list_update_swap)

lemma shell_inner_mset:
  "j < length A \<Longrightarrow> \<exists>B. shell_inner A D j tmp = Some B \<and> mset B = mset (A[j := tmp]) \<and> length B = length A"
proof (induction j arbitrary: A rule: less_induct)
  case (less j)
  show ?case
  proof (cases "j \<ge> D \<and> D > 0 \<and> A ! (j - D) > tmp")
    case True
    have jd: "j - D < j" "j - D < length A" using True less.prems by auto
    obtain B where "shell_inner (A[j := A ! (j - D)]) D (j - D) tmp = Some B"
      "mset B = mset (A[j := A ! (j - D), j - D := tmp])" "length B = length A"
      using less.IH [OF jd(1), of "A[j := A ! (j - D)]"] jd(2) by auto
    with True less.prems jd mset_move [of "j - D" A j tmp] show ?thesis by (subst shell_inner.simps) auto
  next
    case False
    with less.prems show ?thesis by (subst shell_inner.simps) auto
  qed
qed

lemma shell_middle_mset:
  "\<exists>B. shell_middle A D i (length A) = Some B \<and> mset B = mset A \<and> length B = length A"
proof (induction "length A - i" arbitrary: i A)
  case 0
  then show ?case by (subst shell_middle.simps) simp
next
  case (Suc n)
  then have i: "i < length A" by simp
  obtain B where B: "shell_inner A D i (A ! i) = Some B" "mset B = mset A" "length B = length A"
    using shell_inner_mset [OF i, of D "A ! i"] by auto
  have n: "n = length B - (i + 1)" using Suc(2) B(3) by simp
  from Suc(1) [OF n] B i show ?case by (subst shell_middle.simps) auto
qed

lemma shell_inner_1: "j < length A \<Longrightarrow> shell_inner A 1 j tmp = insertion_inner A 0 j tmp"
proof (induction j arbitrary: A)
  case 0
  then show ?case by (subst shell_inner.simps) simp
next
  case (Suc j)
  then show ?case by (subst shell_inner.simps) simp
qed

lemma shell_middle_1: "shell_middle A 1 i (length A) = insertion_outer A 0 i (length A)"
proof (induction "length A - i" arbitrary: i A)
  case 0
  then show ?case by (subst shell_middle.simps, subst insertion_outer.simps) simp
next
  case (Suc n)
  then have i: "i < length A" by simp
  obtain B where B: "shell_inner A 1 i (A ! i) = Some B" "length B = length A"
    using shell_inner_mset [OF i, of 1 "A ! i"] by auto
  have n: "n = length B - (i + 1)" using Suc(2) B(2) by simp
  have ins: "insertion_inner A 0 i (A ! i) = Some B" using B(1) shell_inner_1 [OF i, of "A ! i"] by simp
  from Suc(1) [OF n] B i ins show ?case
    by (subst shell_middle.simps, subst insertion_outer.simps) simp
qed

lemma shell_outer_sorts:
  "D > 0 \<Longrightarrow> \<exists>ys. shell_outer A D (length A) = Some ys \<and> mset ys = mset A \<and> sorted ys"
proof (induction D arbitrary: A rule: less_induct)
  case (less D)
  show ?case
  proof (cases "D = 1")
    case True
    have "shell_outer A 1 (length A) = Insertion_Sort A (length A)"
      unfolding Insertion_Sort_def by (subst shell_outer.simps) (simp add: shell_middle_1 [unfolded One_nat_def] shell_outer.simps [of _ 0])
    with Insertion_Sort_sorts [of A] True show ?thesis by simp
  next
    case False
    obtain B where "shell_middle A D D (length A) = Some B" "mset B = mset A" "length B = length A"
      using shell_middle_mset by blast
    moreover have "D div 2 < D" "D div 2 > 0" using False less.prems by auto
    ultimately show ?thesis using less.IH [of "D div 2" B] less.prems by (subst shell_outer.simps) auto
  qed
qed

lemma Shell_sort_sorts: "\<exists>ys. Shell_sort xs (length xs) = Some ys \<and> mset ys = mset xs \<and> sorted ys"
proof (cases "length xs div 2 > 0")
  case True
  then show ?thesis using shell_outer_sorts [of "length xs div 2" xs] by (simp add: Shell_sort_def)
next
  case False
  then have "sorted xs" by (cases xs; cases "tl xs") auto
  with False show ?thesis by (simp add: Shell_sort_def shell_outer.simps)
qed

section \<open>Merge sort\<close>

text \<open>\<open>xs\<close> is found in the array from index \<open>i\<close> on.\<close>

definition at :: "'a list \<Rightarrow> nat \<Rightarrow> 'a list \<Rightarrow> bool" where
  "at arr i xs \<longleftrightarrow> (\<exists>U Z. arr = U @ xs @ Z \<and> length U = i)"

lemma run_at_Cons: "at arr i (x # xs) \<Longrightarrow> aget arr i = Some x \<and> at arr (i + 1) xs"
proof -
  assume "at arr i (x # xs)"
  then obtain U Z where U: "arr = U @ (x # xs) @ Z" "length U = i" by (auto simp: at_def)
  then have "arr = (U @ [x]) @ xs @ Z" "length (U @ [x]) = i + 1" by simp_all
  then have "at arr (i + 1) xs" unfolding at_def by blast
  moreover have "aget arr i = Some x" using U by (simp add: nth_append)
  ultimately show ?thesis by simp
qed

fun merge_lists :: "'a::linorder list \<Rightarrow> 'a list \<Rightarrow> 'a list" where
  "merge_lists [] ys = ys"
| "merge_lists (x # xs) [] = x # xs"
| "merge_lists (x # xs) (y # ys) = (if x \<le> y then x # merge_lists xs (y # ys) else y # merge_lists (x # xs) ys)"

lemma merge_lists_mset: "mset (merge_lists xs ys) = mset xs + mset ys"
  by (induction xs ys rule: merge_lists.induct) auto

lemma merge_lists_sorted: "sorted xs \<Longrightarrow> sorted ys \<Longrightarrow> sorted (merge_lists xs ys)"
proof (induction xs ys rule: merge_lists.induct)
  case (3 x xs y ys)
  have "set (merge_lists a b) = set a \<union> set b" for a b :: "'a list"
    using mset_eq_setD [of "merge_lists a b" "a @ b"] merge_lists_mset [of a b] by simp
  with 3 show ?case by (cases "x \<le> y") auto
qed simp_all

lemma aput_next: "length T = k \<Longrightarrow> aput (T @ t # T') k x = Some ((T @ [x]) @ T')"
  by (simp add: list_update_append)

lemma copy_run_copies:
  "at arr i xs \<Longrightarrow> i + length xs = Suc lim \<Longrightarrow> length T = k \<Longrightarrow> length xs \<le> length T' \<Longrightarrow>
   copy_run arr (T @ T') i k lim = Some (T @ xs @ drop (length xs) T', k + length xs)"
proof (induction xs arbitrary: i k T T')
  case Nil
  then show ?case by (subst copy_run.simps) simp
next
  case (Cons x xs)
  then obtain t T'' where T': "T' = t # T''" by (cases T') auto
  have "copy_run arr ((T @ [x]) @ T'') (i + 1) (k + 1) lim = Some ((T @ [x]) @ xs @ drop (length xs) T'', k + 1 + length xs)"
    using Cons.prems T' run_at_Cons [OF Cons.prems(1)] by (intro Cons.IH) simp_all
  with run_at_Cons [OF Cons.prems(1)] Cons.prems(2) aput_next [OF Cons.prems(3), of t T'' x] T' show ?case
    by (subst copy_run.simps) simp
qed

lemma merge_runs:
  "at arr i xs \<Longrightarrow> at arr j ys \<Longrightarrow> i + length xs = Suc mid \<Longrightarrow> j + length ys = Suc right \<Longrightarrow> length T = k \<Longrightarrow>
   length xs + length ys \<le> length T' \<Longrightarrow>
   do {
     (tmp, i, j, k) \<leftarrow> merge_both arr (T @ T') i j k mid right;
     (tmp, k) \<leftarrow> copy_run arr tmp i k mid;
     copy_run arr tmp j k right
   } = Some (T @ merge_lists xs ys @ drop (length xs + length ys) T', k + length xs + length ys)"
proof (induction xs ys arbitrary: i j k T T' rule: merge_lists.induct)
  case (1 ys)
  then have "merge_both arr (T @ T') i j k mid right = Some (T @ T', i, j, k)" by (subst merge_both.simps) simp
  moreover have "copy_run arr (T @ T') i k mid = Some (T @ T', k)" using 1 by (subst copy_run.simps) simp
  ultimately show ?case using copy_run_copies [OF 1(2,4,5)] 1(6) by simp
next
  case (2 x xs)
  then have "merge_both arr (T @ T') i j k mid right = Some (T @ T', i, j, k)" by (subst merge_both.simps) simp
  moreover have "copy_run arr (T @ T') i k mid = Some (T @ (x # xs) @ drop (length (x # xs)) T', k + length (x # xs))"
    using 2 by (intro copy_run_copies) simp_all
  moreover have "copy_run arr Q j l right = Some (Q, l)" for Q l using 2 by (subst copy_run.simps) simp
  ultimately show ?case by simp
next
  case (3 x xs y ys)
  then obtain t T'' where T': "T' = t # T''" by (cases T') auto
  note a = run_at_Cons [OF 3(3)] run_at_Cons [OF 3(4)]
  have le: "i \<le> mid" "j \<le> right" using 3(5,6) by simp_all
  show ?case
  proof (cases "x \<le> y")
    case True
    have "merge_both arr (T @ T') i j k mid right = merge_both arr ((T @ [x]) @ T'') (i + 1) j (k + 1) mid right"
      using True a le aput_next [OF 3(7), of t T'' x] T' by (subst merge_both.simps) simp
    with 3(1) [OF True, of "i + 1" j "T @ [x]" "k + 1" T''] 3(4-) True a T' show ?thesis by simp
  next
    case False
    have "merge_both arr (T @ T') i j k mid right = merge_both arr ((T @ [y]) @ T'') i (j + 1) (k + 1) mid right"
      using False a le aput_next [OF 3(7), of t T'' y] T' by (subst merge_both.simps) simp
    with 3(2) [OF False, of i "j + 1" "T @ [y]" "k + 1" T''] 3(3-) False a T' show ?thesis by simp
  qed
qed

lemma copy_back_copies:
  "at tmp k M \<Longrightarrow> length U = k \<Longrightarrow> length V = length M \<Longrightarrow> k + length M = Suc right \<Longrightarrow>
   copy_back (U @ V @ Z) tmp k right = Some (U @ M @ Z)"
proof (induction M arbitrary: k U V)
  case Nil
  then show ?case by (subst copy_back.simps) simp
next
  case (Cons x M)
  then obtain v V' where V: "V = v # V'" by (cases V) auto
  have "copy_back ((U @ [x]) @ V' @ Z) tmp (k + 1) right = Some ((U @ [x]) @ M @ Z)"
    using Cons.prems V run_at_Cons [OF Cons.prems(1)] by (intro Cons.IH) simp_all
  with run_at_Cons [OF Cons.prems(1)] Cons.prems(4) aput_next [OF Cons.prems(2), of v "V' @ Z" x] V show ?case
    by (subst copy_back.simps) simp
qed

lemma Merge_merges:
  assumes "length U = left" "left + length X = Suc mid" "Suc mid + length Y = Suc right" "length tmp = length (U @ X @ Y @ Z)"
  shows "Merge (U @ X @ Y @ Z) tmp left mid right = Some (U @ merge_lists X Y @ Z)"
proof -
  let ?arr = "U @ X @ Y @ Z"
  define T T' where "T = take left tmp" and "T' = drop left tmp"
  have T: "tmp = T @ T'" "length T = left" "length X + length Y \<le> length T'"
    using assms by (simp_all add: T_def T'_def)
  have "at ?arr left X" unfolding at_def using assms(1) by blast
  moreover have "at ?arr (mid + 1) Y" unfolding at_def by (rule exI [of _ "U @ X"]) (use assms(1,2) in simp)
  moreover note assms(2)
  ultimately have m: "do {
     (tmp, i, j, k) \<leftarrow> merge_both ?arr tmp left (mid + 1) left mid right;
     (tmp, k) \<leftarrow> copy_run ?arr tmp i k mid;
     copy_run ?arr tmp j k right
   } = Some (T @ merge_lists X Y @ drop (length X + length Y) T', left + length X + length Y)"
    unfolding T(1) by (intro merge_runs) (use assms(3) T(2,3) in simp_all)
  have l: "length (merge_lists X Y) = length (X @ Y)" using arg_cong [OF merge_lists_mset [of X Y], of size] by simp
  have "at (T @ merge_lists X Y @ drop (length X + length Y) T') left (merge_lists X Y)"
    unfolding at_def using T(2) by blast
  from copy_back_copies [OF this assms(1), of "X @ Y" right Z] l assms(2,3)
  have "copy_back ?arr (T @ merge_lists X Y @ drop (length X + length Y) T') left right = Some (U @ merge_lists X Y @ Z)"
    by simp
  with m show ?thesis unfolding Merge_def by (auto simp: bind_eq_Some_conv split: prod.splits)
qed

lemma Msort_slice:
  "length tmp = length (U @ W @ Z) \<Longrightarrow>
   Msort (U @ W @ Z) tmp (int (length U)) (int (length U) + int (length W) - 1) = Some (U @ sort W @ Z)"
proof (induction "length W" arbitrary: U W Z rule: less_induct)
  case less
  show ?case
  proof (cases "length W \<le> 1")
    case True
    then have "sort W = W" by (cases W; cases "tl W") auto
    with True show ?thesis by (subst Msort.simps) simp
  next
    case False
    define n where "n = (length W - 1) div 2 + 1"
    define X Y where "X = take n W" and "Y = drop n W"
    have n: "n < length W" "0 < n" using False by (auto simp: n_def)
    have XY: "W = X @ Y" "length X = n" using n by (simp_all add: X_def Y_def)
    let ?l = "int (length U)" and ?r = "int (length U) + int (length W) - 1"
    have mid: "?l + (?r - ?l) div 2 = int (length U) + int (length X) - 1"
      using False XY(2) by (simp add: n_def)
    have 1: "Msort (U @ X @ (Y @ Z)) tmp ?l (?l + int (length X) - 1) = Some (U @ sort X @ (Y @ Z))"
      using less.prems n XY by (intro less.hyps) simp_all
    have 2: "Msort ((U @ sort X) @ Y @ Z) tmp (int (length (U @ sort X))) (int (length (U @ sort X)) + int (length Y) - 1) =
        Some ((U @ sort X) @ sort Y @ Z)"
      using less.prems n XY by (intro less.hyps) simp_all
    have 3: "Merge (U @ sort X @ sort Y @ Z) tmp (length U) (length U + length X - 1) (length U + length W - 1) =
        Some (U @ merge_lists (sort X) (sort Y) @ Z)"
      using less.prems n XY by (intro Merge_merges) auto
    have s: "merge_lists (sort X) (sort Y) = sort W"
      using merge_lists_sorted [of "sort X" "sort Y"] merge_lists_mset [of "sort X" "sort Y"] XY(1)
      by (intro properties_for_sort [symmetric]) simp_all
    have nats: "nat ?l = length U" "nat (?l + int (length X) - 1) = length U + length X - 1"
      "nat ?r = length U + length W - 1" "?l + int (length X) - 1 + 1 = int (length (U @ sort X))"
      "?r = int (length (U @ sort X)) + int (length Y) - 1"
      using n XY by auto
    have lt: "?l < ?r" using False by simp
    have "Msort (U @ W @ Z) tmp ?l ?r = do {
        arr \<leftarrow> Msort (U @ W @ Z) tmp ?l (?l + int (length X) - 1);
        arr \<leftarrow> Msort arr tmp (?l + int (length X) - 1 + 1) ?r;
        Merge arr tmp (nat ?l) (nat (?l + int (length X) - 1)) (nat ?r)
      }" using lt unfolding Msort.simps [of _ _ ?l ?r] Let_def mid by simp
    also have "\<dots> = Some (U @ sort W @ Z)"
      using 1 2 3 s unfolding nats(1,2,3,4) by (simp add: XY(1) nats add.assoc)
    finally show ?thesis .
  qed
qed

lemma MergeSort_sorts: "\<exists>ys. MergeSort zero xs = Some ys \<and> mset ys = mset xs \<and> sorted ys"
  using Msort_slice [of "replicate (length xs) zero" "[]" xs "[]"] by (simp add: MergeSort_def)

section \<open>Heap sort\<close>

definition child_of :: "nat \<Rightarrow> nat \<Rightarrow> bool" where
  "child_of i c \<longleftrightarrow> c = 2 * i + 1 \<or> c = 2 * i + 2"

definition heap_from :: "'a::linorder list \<Rightarrow> nat \<Rightarrow> nat \<Rightarrow> bool" where
  "heap_from A p N \<longleftrightarrow> (\<forall>i c. p \<le> i \<longrightarrow> child_of i c \<longrightarrow> c < N \<longrightarrow> A ! c \<le> A ! i)"

text \<open>The heap with a hole at \<open>q\<close> that is to receive \<open>X\<close>.\<close>

definition hole_heap :: "'a::linorder list \<Rightarrow> nat \<Rightarrow> nat \<Rightarrow> nat \<Rightarrow> 'a \<Rightarrow> bool" where
  "hole_heap A p N q X \<longleftrightarrow>
     (\<forall>i c. p \<le> i \<longrightarrow> child_of i c \<longrightarrow> c < N \<longrightarrow> i \<noteq> q \<longrightarrow>
        (if c = q then X \<le> A ! i \<and> (\<forall>d. child_of q d \<longrightarrow> d < N \<longrightarrow> A ! d \<le> A ! i) else A ! c \<le> A ! i))"

lemma child_lt: "child_of i c \<Longrightarrow> i < c"
  by (auto simp: child_of_def)

lemma child_parent: "child_of i c \<Longrightarrow> child_of j c \<Longrightarrow> i = j"
  unfolding child_of_def by presburger

lemma hole_fill:
  assumes h: "hole_heap A p N q X" and X: "\<And>c. child_of q c \<Longrightarrow> c < N \<Longrightarrow> A ! c \<le> X"
    and q: "q < length A" and N: "N \<le> length A"
  shows "heap_from (A[q := X]) p N"
  unfolding heap_from_def
proof (intro allI impI)
  fix i c assume a: "p \<le> i" "child_of i c" "c < N"
  have ic: "i < c" "c < length A" using child_lt [OF a(2)] a(3) N by simp_all
  show "A[q := X] ! c \<le> A[q := X] ! i"
  proof (cases "i = q")
    case True
    then show ?thesis using X [of c] a ic by (simp add: nth_list_update)
  next
    case False
    with h a have "if c = q then X \<le> A ! i \<and> (\<forall>d. child_of q d \<longrightarrow> d < N \<longrightarrow> A ! d \<le> A ! i) else A ! c \<le> A ! i"
      unfolding hole_heap_def by blast
    with False ic q show ?thesis by (auto simp: nth_list_update split: if_splits)
  qed
qed

lemma hole_move:
  assumes h: "hole_heap A p N q X" and c: "child_of q m" "m < N" "X \<le> A ! m"
    and mx: "\<And>c. child_of q c \<Longrightarrow> c < N \<Longrightarrow> A ! c \<le> A ! m" and q: "p \<le> q" "q < length A" and N: "N \<le> length A"
  shows "hole_heap (A[q := A ! m]) p N m X"
  unfolding hole_heap_def
proof (intro allI impI)
  fix i c' assume a: "p \<le> i" "child_of i c'" "c' < N" "i \<noteq> m"
  note lt = child_lt [OF c(1)] child_lt [OF a(2)]
  have down: "A ! d \<le> A ! m" if "child_of m d" "d < N" for d
  proof -
    have "m \<noteq> q" "d \<noteq> q" using lt child_lt [OF that(1)] by simp_all
    with h that q(1) lt show ?thesis unfolding hole_heap_def by (metis less_imp_le order_trans)
  qed
  show "if c' = m then X \<le> A[q := A ! m] ! i \<and> (\<forall>d. child_of m d \<longrightarrow> d < N \<longrightarrow> A[q := A ! m] ! d \<le> A[q := A ! m] ! i)
      else A[q := A ! m] ! c' \<le> A[q := A ! m] ! i"
  proof (cases "i = q")
    case True
    have "A[q := A ! m] ! d = A ! d" if "child_of m d" for d using lt child_lt [OF that] by simp
    with True c(3) mx [of c'] a(2,3) q(2) down lt show ?thesis by auto
  next
    case False
    then have "c' \<noteq> m" using child_parent [OF a(2)] c(1) by blast
    from h a False have "if c' = q then X \<le> A ! i \<and> (\<forall>d. child_of q d \<longrightarrow> d < N \<longrightarrow> A ! d \<le> A ! i) else A ! c' \<le> A ! i"
      unfolding hole_heap_def by blast
    with False \<open>c' \<noteq> m\<close> c(1,2) q(2) show ?thesis by (auto simp: nth_list_update split: if_splits)
  qed
qed

lemma perc_loop_heap:
  "hole_heap A p N q X \<Longrightarrow> p \<le> q \<Longrightarrow> q < N \<Longrightarrow> N \<le> length A \<Longrightarrow> length A \<le> 2 ^ 30 \<Longrightarrow>
   \<exists>B. perc_loop A q N X = Some B \<and> heap_from B p N \<and> mset B = mset (A[q := X]) \<and> drop N B = drop N A"
proof (induction "N - q" arbitrary: A q rule: less_induct)
  case less
  have q: "q < length A" "q * 2 + 1 < 2 ^ 31" using less.prems by simp_all
  show ?case
  proof (cases "q * 2 + 1 < N")
    case False
    then have "heap_from (A[q := X]) p N"
      using less.prems by (intro hole_fill [OF less.prems(1)]) (auto simp: child_of_def)
    with False q less.prems(3) show ?thesis by (subst perc_loop.simps) simp
  next
    case True
    define m where "m = (if q * 2 + 1 \<noteq> N - 1 \<and> A ! (q * 2 + 1) < A ! (q * 2 + 2) then q * 2 + 2 else q * 2 + 1)"
    have m: "child_of q m" "m < N" using True by (auto simp: m_def child_of_def)
    have mx: "A ! c \<le> A ! m" if "child_of q c" "c < N" for c
      using that True by (auto simp: m_def child_of_def mult.commute)
    have step: "perc_loop A q N X = (if X \<ge> A ! m then aput A q X else perc_loop (A[q := A ! m]) m N X)"
      using True m(2) less.prems(4) q by (subst perc_loop.simps) (auto simp: m_def Let_def)
    show ?thesis
    proof (cases "X \<ge> A ! m")
      case True
      have "heap_from (A[q := X]) p N"
      proof (intro hole_fill [OF less.prems(1) _ q(1) less.prems(4)])
        fix c assume "child_of q c" "c < N"
        from mx [OF this] True show "A ! c \<le> X" by simp
      qed
      with True step q less.prems(3) show ?thesis by simp
    next
      case False
      have qm: "q < m" "m < length A" using child_lt [OF m(1)] m(2) less.prems(4) by simp_all
      have "hole_heap (A[q := A ! m]) p N m X"
        using False mx by (intro hole_move [OF less.prems(1) m _ _ less.prems(2) q(1) less.prems(4)]) simp_all
      have "N - m < N - q" using qm(1) m(2) by simp
      from less.hyps [OF this \<open>hole_heap (A[q := A ! m]) p N m X\<close>] qm m(2) less.prems obtain B where
        B: "perc_loop (A[q := A ! m]) m N X = Some B" "heap_from B p N" "mset B = mset (A[q := A ! m, m := X])"
          "drop N B = drop N (A[q := A ! m])" by auto
      have "mset (A[q := A ! m, m := X]) = mset (A[q := X])" using mset_move [of m A q X] qm q by simp
      with False step B less.prems(3) show ?thesis by simp
    qed
  qed
qed

lemma PercDown_heap:
  assumes "heap_from A (Suc p) N" "p < N" "N \<le> length A" "length A \<le> 2 ^ 30"
  shows "\<exists>B. PercDown A p N = Some B \<and> heap_from B p N \<and> mset B = mset A \<and> drop N B = drop N A"
proof -
  have "hole_heap A p N p (A ! p)"
    using assms(1) unfolding hole_heap_def heap_from_def by (metis Suc_leI child_lt le_neq_implies_less not_less)
  from perc_loop_heap [OF this] assms show ?thesis by (simp add: PercDown_def)
qed

lemma build_heap_heap:
  "heap_from A i N \<Longrightarrow> i \<le> N \<Longrightarrow> N \<le> length A \<Longrightarrow> length A \<le> 2 ^ 30 \<Longrightarrow>
   \<exists>B. build_heap A i N = Some B \<and> heap_from B 0 N \<and> mset B = mset A"
proof (induction i arbitrary: A)
  case (Suc i)
  then obtain B where B: "PercDown A i N = Some B" "heap_from B i N" "mset B = mset A"
    using PercDown_heap [of A i N] by auto
  then have "length B = length A" using mset_eq_length by blast
  with Suc.IH [OF B(2)] Suc.prems B show ?case by auto
qed simp

lemma heap_root_max: "heap_from A 0 N \<Longrightarrow> i < N \<Longrightarrow> A ! i \<le> A ! 0"
proof (induction i rule: less_induct)
  case (less i)
  show ?case
  proof (cases "i = 0")
    case False
    have "child_of ((i - 1) div 2) i" using False unfolding child_of_def by presburger
    then have "A ! i \<le> A ! ((i - 1) div 2)" using less.prems unfolding heap_from_def by blast
    moreover have "A ! ((i - 1) div 2) \<le> A ! 0" using less False by auto
    ultimately show ?thesis by (rule order_trans)
  qed simp
qed

lemma drain_heap_sorts:
  "heap_from A 0 (Suc i) \<Longrightarrow> i < length A \<Longrightarrow> sorted (drop (Suc i) A) \<Longrightarrow> length A \<le> 2 ^ 30 \<Longrightarrow>
   \<forall>a \<in> set (take (Suc i) A). \<forall>b \<in> set (drop (Suc i) A). a \<le> b \<Longrightarrow>
   \<exists>ys. drain_heap A i = Some ys \<and> mset ys = mset A \<and> sorted ys"
proof (induction i arbitrary: A)
  case 0
  then have "sorted (take 1 A @ drop 1 A)" by (cases A) (auto simp: sorted_append)
  then show ?case by simp
next
  case (Suc i)
  define B where "B = A[0 := A ! Suc i, Suc i := A ! 0]"
  have z: "0 < length A" using Suc.prems(2) by linarith
  have B: "Swap A 0 (Suc i) = Some B" "length B = length A" "mset B = mset A" "B ! Suc i = A ! 0"
    "drop (Suc (Suc i)) B = drop (Suc (Suc i)) A"
    using Suc.prems(2) Swap_upd [OF z] mset_swap_upd [OF z] by (simp_all add: B_def)
  have same: "B ! k = A ! k" if "k \<noteq> 0" "k \<noteq> Suc i" for k using that by (simp add: B_def)
  have "heap_from B 1 (Suc i)"
    unfolding heap_from_def
  proof (intro allI impI)
    fix k c assume a: "1 \<le> k" "child_of k c" "c < Suc i"
    then have "A ! c \<le> A ! k" using Suc.prems(1) unfolding heap_from_def by simp
    with same [of c] same [of k] a child_lt [OF a(2)] show "B ! c \<le> B ! k" by simp
  qed
  then obtain C where C: "PercDown B 0 (Suc i) = Some C" "heap_from C 0 (Suc i)" "mset C = mset B" "drop (Suc i) C = drop (Suc i) B"
    using PercDown_heap [of B 0 "Suc i"] Suc.prems(2,4) B(2) by auto
  have dC: "drop (Suc i) C = A ! 0 # drop (Suc (Suc i)) A"
    using C(4) B Suc.prems(2) by (simp add: Cons_nth_drop_Suc [symmetric])
  have lC: "length C = length A" using mset_eq_length [OF C(3)] B(2) by simp
  have "mset (take (Suc i) C) + mset (drop (Suc i) C) = mset A"
    using C(3) B(3) by (metis append_take_drop_id mset_append)
  moreover have "mset A = mset (take (Suc (Suc i)) A) + mset (drop (Suc (Suc i)) A)"
    by (metis append_take_drop_id mset_append)
  ultimately have "add_mset (A ! 0) (mset (take (Suc i) C)) = mset (take (Suc (Suc i)) A)" by (simp add: dC)
  then have sub: "set (take (Suc i) C) \<subseteq> set (take (Suc (Suc i)) A)"
    by (metis insert_subset order_refl set_mset_add_mset_insert set_mset_mset)
  have mx: "a \<le> A ! 0" if "a \<in> set (take (Suc (Suc i)) A)" for a
    using that heap_root_max [OF Suc.prems(1)] by (auto simp: in_set_conv_nth)
  have a0: "A ! 0 \<in> set (take (Suc (Suc i)) A)" using Suc.prems(2) by (cases A) auto
  have "sorted (drop (Suc i) C)" unfolding dC using Suc.prems(3,5) a0 by auto
  moreover have "\<forall>a \<in> set (take (Suc i) C). \<forall>b \<in> set (drop (Suc i) C). a \<le> b"
    unfolding dC using sub mx Suc.prems(5) by auto
  ultimately obtain ys where "drain_heap C i = Some ys" "mset ys = mset C" "sorted ys"
    using Suc.IH [OF C(2)] lC Suc.prems(2,4) by auto
  with B C show ?case by simp
qed

lemma HeapSort_sorts: "length xs \<le> 2 ^ 30 \<Longrightarrow> \<exists>ys. HeapSort xs (length xs) = Some ys \<and> mset ys = mset xs \<and> sorted ys"
proof -
  assume n: "length xs \<le> 2 ^ 30"
  show ?thesis
  proof (cases "xs = []")
    case True
    then show ?thesis by (simp add: HeapSort_def)
  next
    case False
    have "heap_from xs (length xs div 2) (length xs)" by (auto simp: heap_from_def child_of_def)
    then obtain B where B: "build_heap xs (length xs div 2) (length xs) = Some B" "heap_from B 0 (length xs)" "mset B = mset xs"
      using build_heap_heap [of xs "length xs div 2" "length xs"] n by auto
    have l: "length B = length xs" "Suc (length xs - 1) = length xs" using mset_eq_length [OF B(3)] False by simp_all
    have "heap_from B 0 (Suc (length xs - 1))" using B(2) l(2) by simp
    from drain_heap_sorts [OF this] l n False B show ?thesis by (auto simp: HeapSort_def)
  qed
qed

section \<open>Quick sort\<close>

lemma scan_up_finds:
  "Low < k \<Longrightarrow> k < length A \<Longrightarrow> P \<le> A ! k \<Longrightarrow>
   \<exists>l. scan_up A Low P = Some l \<and> Low < l \<and> l \<le> k \<and> P \<le> A ! l \<and> (\<forall>m. Low < m \<longrightarrow> m < l \<longrightarrow> A ! m < P)"
proof (induction "k - Low" arbitrary: Low)
  case (Suc n)
  show ?case
  proof (cases "A ! Suc Low < P")
    case True
    then have "Suc Low < k" using Suc.prems by (metis Suc_leI le_neq_implies_less not_less)
    moreover have "n = k - Suc Low" using Suc.hyps(2) by simp
    ultimately obtain l where l: "scan_up A (Suc Low) P = Some l" "Suc Low < l" "l \<le> k" "P \<le> A ! l" "\<forall>m. Suc Low < m \<longrightarrow> m < l \<longrightarrow> A ! m < P"
      using Suc.hyps(1) [of "Suc Low"] Suc.prems by auto
    moreover have "scan_up A Low P = Some l" using l(1) True Suc.prems by (subst scan_up.simps) simp
    moreover have "\<forall>m. Low < m \<longrightarrow> m < l \<longrightarrow> A ! m < P" using l(5) True by (metis Suc_lessI)
    ultimately show ?thesis by auto
  next
    case False
    with Suc.prems show ?thesis by (subst scan_up.simps) auto
  qed
qed simp

lemma scan_down_finds:
  "k < High \<Longrightarrow> High \<le> length A \<Longrightarrow> A ! k \<le> P \<Longrightarrow>
   \<exists>h. scan_down A High P = Some h \<and> k \<le> h \<and> h < High \<and> A ! h \<le> P \<and> (\<forall>m. h < m \<longrightarrow> m < High \<longrightarrow> P < A ! m)"
proof (induction High)
  case (Suc High)
  show ?case
  proof (cases "P < A ! High")
    case True
    then have "k < High" using Suc.prems by (metis less_SucE not_less)
    then obtain h where h: "scan_down A High P = Some h" "k \<le> h" "h < High" "A ! h \<le> P" "\<forall>m. h < m \<longrightarrow> m < High \<longrightarrow> P < A ! m"
      using Suc by auto
    moreover have "\<forall>m. h < m \<longrightarrow> m < Suc High \<longrightarrow> P < A ! m" using h(5) True by (auto simp: less_Suc_eq)
    ultimately show ?thesis using True Suc.prems by auto
  next
    case False
    with Suc.prems show ?thesis by auto
  qed
qed simp

definition split_at :: "'a::linorder list \<Rightarrow> nat \<Rightarrow> nat \<Rightarrow> nat \<Rightarrow> nat \<Rightarrow> 'a \<Rightarrow> bool" where
  "split_at A L lo hi R P \<longleftrightarrow> (\<forall>k. L \<le> k \<longrightarrow> k < lo \<longrightarrow> A ! k \<le> P) \<and> (\<forall>k. hi \<le> k \<longrightarrow> k \<le> R \<longrightarrow> P \<le> A ! k)"

lemma partition_loop_splits:
  "split_at A L (Suc Low) High R P \<Longrightarrow> L \<le> Low \<Longrightarrow> Low < High \<Longrightarrow> High \<le> R \<Longrightarrow> R < length A \<Longrightarrow>
   \<exists>B l. partition_loop A Low High P = Some (B, l) \<and> mset B = mset A \<and> Low < l \<and> l \<le> High \<and>
     (\<forall>k. k \<le> Low \<or> High \<le> k \<longrightarrow> B ! k = A ! k) \<and> split_at B L l l R P"
proof (induction "High - Low" arbitrary: A Low High rule: less_induct)
  case less
  note s = less.prems(1) [unfolded split_at_def]
  have lo: "A ! Low \<le> P" and hi: "P \<le> A ! High" using s less.prems(2-4) by auto
  obtain l where l: "scan_up A Low P = Some l" "Low < l" "l \<le> High" "P \<le> A ! l" "\<forall>m. Low < m \<longrightarrow> m < l \<longrightarrow> A ! m < P"
    using scan_up_finds [of Low High A P] hi less.prems by auto
  obtain h where h: "scan_down A High P = Some h" "Low \<le> h" "h < High" "A ! h \<le> P" "\<forall>m. h < m \<longrightarrow> m < High \<longrightarrow> P < A ! m"
    using scan_down_finds [of Low High A P] lo less.prems by auto
  have below: "A ! k \<le> P" if "L \<le> k" "k < l" for k using that s l(5) by (metis less_Suc_eq_le less_imp_le not_less)
  have above: "P \<le> A ! k" if "h < k" "k \<le> R" for k using that s h(5) by (metis less_imp_le not_less)
  show ?case
  proof (cases "l < h")
    case False
    have "split_at A L l l R P" unfolding split_at_def using below above l(4) False by (metis le_neq_implies_less le_trans not_less)
    with False l h show ?thesis by (subst partition_loop.simps) auto
  next
    case True
    define B where "B = A[l := A ! h, h := A ! l]"
    have len: "l < length A" "h < length A" using l(3) h(3) less.prems by simp_all
    have B: "Swap A l h = Some B" "mset B = mset A" "length B = length A"
      using Swap_upd [OF len] mset_swap_upd [OF len] by (simp_all add: B_def)
    have nth: "B ! k = (if k = l then A ! h else if k = h then A ! l else A ! k)" for k
      using len True by (auto simp: B_def nth_list_update)
    have "split_at B L (Suc l) h R P"
      unfolding split_at_def nth using below above l(4) h(4) True by (auto simp: less_Suc_eq)
    moreover have "h - l < High - Low" using l h True by simp
    ultimately obtain C m where C: "partition_loop B l h P = Some (C, m)" "mset C = mset B" "l < m" "m \<le> h"
      "\<forall>k. k \<le> l \<or> h \<le> k \<longrightarrow> C ! k = B ! k" "split_at C L m m R P"
      using less.hyps [of h l B] True l h less.prems B(3) by auto
    have "\<forall>k. k \<le> Low \<or> High \<le> k \<longrightarrow> C ! k = A ! k" using C(5) l(2) h(3) True by (auto simp: nth)
    moreover have "partition_loop A Low High P = Some (C, m)" using l(1) h(1) True B(1) C(1) by (subst partition_loop.simps) simp
    ultimately show ?thesis using C B(2) l(2) h(3) by auto
  qed
qed

definition ordered :: "'a::linorder list \<Rightarrow> nat \<Rightarrow> nat \<Rightarrow> 'a list" where
  "ordered A i j = (if A ! i > A ! j then A[i := A ! j, j := A ! i] else A)"

lemma swap_if_ordered: "i < length A \<Longrightarrow> j < length A \<Longrightarrow> swap_if A i j = Some (ordered A i j)"
  by (simp add: swap_if_def ordered_def Swap_upd)

lemma ordered_length [simp]: "length (ordered A i j) = length A"
  by (simp add: ordered_def)

lemma ordered_mset: "i < length A \<Longrightarrow> j < length A \<Longrightarrow> mset (ordered A i j) = mset A"
  by (simp add: ordered_def mset_swap_upd)

lemma ordered_nth:
  "i < length A \<Longrightarrow> j < length A \<Longrightarrow> i \<noteq> j \<Longrightarrow>
   ordered A i j ! k = (if k = i then min (A ! i) (A ! j) else if k = j then max (A ! i) (A ! j) else A ! k)"
  by (auto simp: ordered_def nth_list_update min_def max_def)

lemma Median3_pivot:
  assumes "L + 2 \<le> R" "R < length A" "length A \<le> 2 ^ 30"
  shows "\<exists>B. Median3 A L R = Some (B ! (R - 1), B) \<and> mset B = mset A \<and> B ! L \<le> B ! (R - 1) \<and> B ! (R - 1) \<le> B ! R \<and>
    (\<forall>k. k < L \<or> R < k \<longrightarrow> B ! k = A ! k)"
proof -
  define c where "c = (L + R) div 2"
  have c: "L < c" "c < R" "c < length A" "L < length A" "c \<le> R - 1" "R - 1 < R" "L < R - 1" "R - 1 < length A"
    using assms by (auto simp: c_def)
  define D where "D = ordered (ordered (ordered A L c) L R) c R"
  have D: "length D = length A" "mset D = mset A" "D ! L \<le> D ! c" "D ! c \<le> D ! R" "\<forall>k. k < L \<or> R < k \<longrightarrow> D ! k = A ! k"
    using c assms(2) by (auto simp: D_def ordered_mset ordered_nth min_le_iff_disj le_max_iff_disj)
  define B where "B = D[c := D ! (R - 1), R - 1 := D ! c]"
  have "int32 (int L + int R) = Some (int L + int R)" using assms by (intro int32_Some) simp_all
  then have "Median3 A L R = Some (B ! (R - 1), B)"
    using c assms(2) D(1) by (simp add: Median3_def c_def [symmetric] swap_if_ordered D_def [symmetric] B_def Swap_upd)
  moreover have "mset B = mset A" using c D(1,2) by (simp add: B_def mset_swap_upd)
  moreover have "B ! k = D ! k" if "k \<noteq> c" "k \<noteq> R - 1" for k using that by (simp add: B_def)
  moreover have "B ! (R - 1) = D ! c" using c D(1) by (simp add: B_def)
  ultimately show ?thesis using D c by (intro exI [of _ B]) auto
qed

lemma slice_of:
  assumes "mset B = mset (U @ W @ Z)" "length U = off" "\<And>k. k < off \<or> off + length W \<le> k \<Longrightarrow> B ! k = (U @ W @ Z) ! k"
  shows "\<exists>V. B = U @ V @ Z \<and> mset V = mset W"
proof -
  have len: "length B = length (U @ W @ Z)" using mset_eq_length [OF assms(1)] .
  have "take off B = U" using assms(2,3) len by (intro nth_equalityI) (auto simp: nth_append)
  moreover have "drop (off + length W) B = Z" using assms(2,3) len by (intro nth_equalityI) (auto simp: nth_append)
  ultimately have "B = U @ take (length W) (drop off B) @ Z"
    by (metis append_take_drop_id drop_drop add.commute)
  with assms(1) show ?thesis by (metis add_left_cancel add_right_cancel mset_append)
qed

lemma sort_around:
  "\<forall>x \<in> set X. x \<le> p \<Longrightarrow> \<forall>y \<in> set Y. p \<le> y \<Longrightarrow> sort (X @ p # Y) = sort X @ p # sort Y"
  by (rule properties_for_sort) (auto simp: sorted_append intro: order_trans)

lemma Qsort_partition:
  assumes U: "length U = off" and n: "length W = Suc m" "2 \<le> m" and small: "length (U @ W @ Z) \<le> 2 ^ 30"
  shows "\<exists>X p Y D B. Median3 (U @ W @ Z) off (off + m) = Some (p, D) \<and>
    partition_loop D off (off + m - 1) p = Some (B, off + length X) \<and>
    Swap B (off + length X) (off + m - 1) = Some (U @ (X @ p # Y) @ Z) \<and> mset (X @ p # Y) = mset W \<and>
    (\<forall>x \<in> set X. x \<le> p) \<and> (\<forall>y \<in> set Y. p \<le> y)"
proof -
  let ?A = "U @ W @ Z" and ?R = "off + m"
  have R: "off + 2 \<le> ?R" "?R < length ?A" using assms by simp_all
  from Median3_pivot [OF R small] obtain D where D: "Median3 ?A off ?R = Some (D ! (?R - 1), D)" "mset D = mset ?A"
    "D ! off \<le> D ! (?R - 1)" "D ! (?R - 1) \<le> D ! ?R" "\<forall>k. k < off \<or> ?R < k \<longrightarrow> D ! k = ?A ! k" by blast
  define p where "p = D ! (?R - 1)"
  have lD: "length D = length ?A" using mset_eq_length [OF D(2)] .
  have "split_at D off (Suc off) (?R - 1) ?R p"
    unfolding split_at_def
  proof (intro conjI allI impI)
    fix k assume "off \<le> k" "k < Suc off"
    then have "k = off" by simp
    with D(3) show "D ! k \<le> p" by (simp add: p_def)
  next
    fix k assume "?R - 1 \<le> k" "k \<le> ?R"
    then have "k = ?R - 1 \<or> k = ?R" by linarith
    with D(4) show "p \<le> D ! k" by (auto simp: p_def)
  qed
  then obtain B l where B: "partition_loop D off (?R - 1) p = Some (B, l)" "mset B = mset D" "off < l" "l \<le> ?R - 1"
    "\<forall>k. k \<le> off \<or> ?R - 1 \<le> k \<longrightarrow> B ! k = D ! k" "split_at B off l l ?R p"
  proof -
    have "off < ?R - 1" "?R - 1 \<le> ?R" "?R < length D" using n(2) R lD by linarith+
    from partition_loop_splits [OF \<open>split_at D off (Suc off) (?R - 1) ?R p\<close> order_refl this] that show ?thesis by blast
  qed
  have lB: "length B = length ?A" using mset_eq_length [OF B(2)] lD by simp
  have ll: "l < length B" "?R - 1 < length B" using B(4) R lB by simp_all
  define C where "C = B[l := B ! (?R - 1), ?R - 1 := B ! l]"
  have C: "Swap B l (?R - 1) = Some C" "mset C = mset ?A" "length C = length ?A"
    using Swap_upd [OF ll] mset_swap_upd [OF ll] B(2) D(2) lB by (simp_all add: C_def)
  have nth: "C ! k = (if k = ?R - 1 then B ! l else if k = l then p else B ! k)" for k
    using ll B(5) by (auto simp: C_def p_def nth_list_update)
  obtain V where V: "C = U @ V @ Z" "mset V = mset W"
  proof -
    have "C ! k = ?A ! k" if "k < off \<or> off + length W \<le> k" for k
      using that nth [of k] B(3-5) D(5) n by auto
    from slice_of [OF C(2) U this] that show ?thesis by blast
  qed
  have lV: "length V = Suc m" using mset_eq_length [OF V(2)] n(1) by simp
  define X Y where "X = take (l - off) V" and "Y = drop (Suc (l - off)) V"
  have Vn: "V ! j = C ! (off + j)" if "j \<le> m" for j using that V(1) U lV by (simp add: nth_append)
  have i: "l - off \<le> m" "off + (l - off) = l" using B(3,4) by simp_all
  have "V ! (l - off) = p" using Vn [OF i(1)] nth [of l] B(5) by (auto simp: i(2) p_def)
  with i lV have Vp: "V = X @ p # Y" using id_take_nth_drop [of "l - off" V] by (simp add: X_def Y_def)
  have "\<forall>x \<in> set X. x \<le> p"
    using i lV B(3,4,6) by (auto simp: X_def in_set_conv_nth Vn nth split_at_def)
  moreover have "\<forall>y \<in> set Y. p \<le> y"
    using i lV B(3,4,6) by (auto simp: Y_def in_set_conv_nth Vn nth split_at_def)
  moreover have "length X = l - off" using i lV by (simp add: X_def)
  ultimately show ?thesis
    using D(1) B(1) C(1) V Vp i(2) unfolding p_def [symmetric] by (intro exI [of _ X] exI [of _ p] exI [of _ Y] exI conjI) auto
qed

lemma Qsort_slice:
  "length U = off \<Longrightarrow> length (U @ W @ Z) \<le> 2 ^ 30 \<Longrightarrow>
   Qsort (U @ W @ Z) (int off) (int off + int (length W) - 1) = Some (U @ sort W @ Z)"
proof (induction "length W" arbitrary: U W Z off rule: less_induct)
  case less
  show ?case
  proof (cases "1001 \<le> length W")
    case False
    have "Qsort (U @ W @ Z) (int off) (int off + int (length W) - 1) = InsertionSort (U @ W @ Z) off (length W)"
      using False by (subst Qsort.simps) (simp add: Cutoff_def)
    then show ?thesis by (simp add: InsertionSort_slice [OF less.prems(1)])
  next
    case True
    then obtain m where m: "length W = Suc m" "1000 \<le> m" by (cases "length W") auto
    then obtain X p Y D B where q: "Median3 (U @ W @ Z) off (off + m) = Some (p, D)"
      "partition_loop D off (off + m - 1) p = Some (B, off + length X)"
      "Swap B (off + length X) (off + m - 1) = Some (U @ (X @ p # Y) @ Z)"
      and W: "mset (X @ p # Y) = mset W" and le: "\<forall>x \<in> set X. x \<le> p" "\<forall>y \<in> set Y. p \<le> y"
      using Qsort_partition [OF less.prems(1) _ _ less.prems(2)] by auto
    have lW: "length W = Suc (length X + length Y)" using mset_eq_length [OF W] by simp
    have "Qsort (U @ X @ (p # Y @ Z)) (int off) (int off + int (length X) - 1) = Some (U @ sort X @ (p # Y @ Z))"
      using lW less.prems by (intro less.hyps) simp_all
    moreover have "Qsort ((U @ sort X @ [p]) @ Y @ Z) (int (off + length X + 1)) (int (off + length X + 1) + int (length Y) - 1)
        = Some ((U @ sort X @ [p]) @ sort Y @ Z)"
      using lW less.prems by (intro less.hyps) simp_all
    moreover have "nat (int off + int m) = off + m" by simp
    moreover have "int off + (int (length X) + int (length Y)) = int m + int off" using m(1) lW by simp
    moreover have "sort W = sort X @ p # sort Y"
    proof -
      have "sort W = sort (X @ p # Y)" using W by (intro properties_for_sort) simp_all
      with sort_around [OF le] show ?thesis by simp
    qed
    ultimately show ?thesis
      using q m lW by (subst Qsort.simps) (simp add: Cutoff_def algebra_simps)
  qed
qed

lemma QuickSort_sorts: "length xs \<le> 2 ^ 30 \<Longrightarrow> \<exists>ys. QuickSort xs (length xs) = Some ys \<and> mset ys = mset xs \<and> sorted ys"
  using Qsort_slice [of "[]" 0 xs "[]"] by (simp add: QuickSort_def)

section \<open>All but one of them sort\<close>

interpretation insertion: sorting "\<lambda>xs. Insertion_Sort xs (length xs)"
  by unfold_locales (rule Insertion_Sort_sorts)

interpretation selection: sorting "\<lambda>xs. selection_sort xs (length xs)"
  by unfold_locales (rule selection_sort_sorts)

interpretation shell: sorting "\<lambda>xs. Shell_sort xs (length xs)"
  by unfold_locales (rule Shell_sort_sorts)

interpretation heap: sorting "\<lambda>xs. HeapSort xs (length xs)"
  by unfold_locales (rule HeapSort_sorts)

interpretation merge: sorting "MergeSort zero"
  by unfold_locales (rule MergeSort_sorts)

interpretation quick: sorting "\<lambda>xs. QuickSort xs (length xs)"
  by unfold_locales (rule QuickSort_sorts)

text \<open>C39. On an array of at most \<open>2 ^ 30\<close> elements heap sort, quick sort, merge sort, Shell sort, insertion sort and selection
  sort end without leaving the array or the range of its indices and all return its sorted permutation. Bubble sort, which hands
  the values of two elements to \<^verbatim>\<open>Swap\<close>, ends with its array unchanged.\<close>

theorem sorts_agree:
  assumes "length xs \<le> 2 ^ 30"
  shows "HeapSort xs (length xs) = Some (sort xs) \<and> QuickSort xs (length xs) = Some (sort xs) \<and> MergeSort zero xs = Some (sort xs) \<and>
   Shell_sort xs (length xs) = Some (sort xs) \<and> Insertion_Sort xs (length xs) = Some (sort xs) \<and>
   selection_sort xs (length xs) = Some (sort xs) \<and> Bubble_Sort xs (length xs) = Some xs"
  by (intro conjI heap.srt_sort quick.srt_sort merge.srt_sort shell.srt_sort insertion.srt_sort selection.srt_sort assms Bubble_Sort_same)

theorem sorts_agree_witness:
  "HeapSort [3, 1, 2 :: int] 3 = Some [1, 2, 3] \<and> Bubble_Sort [3, 1, 2 :: int] 3 = Some [3, 1, 2]"
  using sorts_agree [of "[3, 1, 2 :: int]" 0] by (simp add: numeral_3_eq_3)

end
