(* ===== verification/Max_Heap.thy ===== *)
theory Max_Heap
  imports Sorts_Correct "HOL-Library.Option_ord"
begin

text \<open>
  The array heap of \<^verbatim>\<open>DS&Algo/src/max_heap/max_heap.h\<close>. The array holds \<^const>\<open>None\<close> where it has
  not been written. Reading such a cell or one outside the array is undefined and makes the operation
  \<^const>\<open>None\<close>.
\<close>

record 'a MaxHeap =
  capacity :: nat
  hsize :: nat
  heap :: "'a option list"

definition new_MaxHeap :: "nat \<Rightarrow> 'a MaxHeap" where
  "new_MaxHeap cap = \<lparr>capacity = cap, hsize = 0, heap = replicate cap None\<rparr>"

definition hget :: "'a option list \<Rightarrow> nat \<Rightarrow> 'a option" where
  "hget A i = Option.bind (aget A i) id"

definition getTop :: "'a MaxHeap \<Rightarrow> 'a option" where
  "getTop h = (if hsize h \<noteq> 0 then hget (heap h) 0 else None)"

function up_loop :: "'a::linorder option list \<Rightarrow> nat \<Rightarrow> 'a \<Rightarrow> 'a option list option" where
  "up_loop A index value =
     (if index > 0 then do {
        let indexParent = (index - 1) div 2;
        p \<leftarrow> hget A indexParent;
        if value < p then aput A index (Some value)
        else do {
          A \<leftarrow> aput A index (Some p);
          up_loop A indexParent value
        }
      }
      else aput A index (Some value))"
  by auto
termination by (relation "measure (\<lambda>(A, index, value). index)") auto

declare up_loop.simps [simp del]

definition filterUp :: "'a::linorder option list \<Rightarrow> nat \<Rightarrow> 'a option list option" where
  "filterUp A index = do {
     value \<leftarrow> hget A index;
     up_loop A index value
   }"

definition heap_insert :: "'a::linorder MaxHeap \<Rightarrow> 'a \<Rightarrow> ('a MaxHeap \<times> bool) option" where
  "heap_insert h val =
     (if hsize h = capacity h then Some (h, False)
      else do {
        A \<leftarrow> aput (heap h) (hsize h) (Some val);
        A \<leftarrow> filterUp A (hsize h);
        Some (h\<lparr>heap := A, hsize := hsize h + 1\<rparr>, True)
      })"

fun insert_all :: "'a::linorder MaxHeap \<Rightarrow> 'a list \<Rightarrow> 'a MaxHeap option" where
  "insert_all h [] = Some h"
| "insert_all h (a # as) = do { (h, _) \<leftarrow> heap_insert h a; insert_all h as }"

definition createMaxHeap :: "'a::linorder MaxHeap \<Rightarrow> 'a list \<Rightarrow> ('a MaxHeap \<times> bool) option" where
  "createMaxHeap h a =
     (if length a > capacity h then Some (h, False)
      else do { h \<leftarrow> insert_all h a; Some (h, True) })"

function down_loop :: "'a::linorder option list \<Rightarrow> nat \<Rightarrow> nat \<Rightarrow> nat \<Rightarrow> 'a \<Rightarrow> 'a option list option" where
  "down_loop A current child end value =
     (if child \<le> end then do {
        child \<leftarrow> (if child < end then do {
                    c \<leftarrow> hget A child;
                    c' \<leftarrow> hget A (child + 1);
                    Some (if c < c' then child + 1 else child)
                  } else Some child);
        c \<leftarrow> hget A child;
        if value > c then aput A current (Some value)
        else do {
          A \<leftarrow> aput A current (Some c);
          down_loop A child (child * 2 + 1) end value
        }
      }
      else aput A current (Some value))"
  by auto
termination
  by (relation "measure (\<lambda>(A, current, child, end, value). Suc end - child)")
     (auto split: if_splits option.splits simp: bind_eq_Some_conv)

declare down_loop.simps [simp del]

definition filterDown :: "'a::linorder option list \<Rightarrow> nat \<Rightarrow> nat \<Rightarrow> 'a option list option" where
  "filterDown A current end = do {
     value \<leftarrow> hget A current;
     down_loop A current (current * 2 + 1) end value
   }"

text \<open>The search loop stops at the first index that holds the value, or at \<^verbatim>\<open>size\<close>.\<close>

function index_of :: "'a option list \<Rightarrow> nat \<Rightarrow> nat \<Rightarrow> 'a \<Rightarrow> nat option" where
  "index_of A index sz data =
     (if index < sz then do {
        x \<leftarrow> hget A index;
        if x = data then Some index else index_of A (index + 1) sz data
      }
      else Some index)"
  by auto
termination by (relation "measure (\<lambda>(A, index, sz, data). sz - index)") auto

declare index_of.simps [simp del]

definition heap_remove :: "'a::linorder MaxHeap \<Rightarrow> 'a \<Rightarrow> ('a MaxHeap \<times> bool) option" where
  "heap_remove h data =
     (if hsize h = 0 then Some (h, False)
      else do {
        index \<leftarrow> index_of (heap h) 0 (hsize h) data;
        if index = hsize h then Some (h, False)
        else do {
          l \<leftarrow> hget (heap h) (hsize h - 1);
          A \<leftarrow> aput (heap h) index (Some l);
          A \<leftarrow> filterDown A index (hsize h);
          Some (h\<lparr>heap := A, hsize := hsize h - 1\<rparr>, True)
        }
      })"

section \<open>Insertion\<close>

text \<open>The elements of a heap, and the invariant: the array has the capacity's length, its first cells are
  written and no element is larger than its parent.\<close>

definition elems :: "'a MaxHeap \<Rightarrow> 'a list" where
  "elems h = map the (take (hsize h) (heap h))"

definition is_heap :: "'a::linorder MaxHeap \<Rightarrow> bool" where
  "is_heap h \<longleftrightarrow> length (heap h) = capacity h \<and> hsize h \<le> capacity h \<and> None \<notin> set (take (hsize h) (heap h)) \<and>
     heap_from (heap h) 0 (hsize h)"

text \<open>A hole at \<open>q\<close> that is to receive \<open>X\<close>, moving up.\<close>

definition up_heap :: "'a::linorder list \<Rightarrow> nat \<Rightarrow> nat \<Rightarrow> 'a \<Rightarrow> bool" where
  "up_heap A N q X \<longleftrightarrow>
     (\<forall>i c. child_of i c \<longrightarrow> c < N \<longrightarrow> c \<noteq> q \<longrightarrow>
        (if i = q then A ! c \<le> X \<and> (\<forall>g. child_of g q \<longrightarrow> A ! c \<le> A ! g) else A ! c \<le> A ! i))"

lemma child_half: "0 < q \<Longrightarrow> child_of ((q - 1) div 2) q"
  unfolding child_of_def by presburger

lemma up_fill:
  assumes h: "up_heap A N q X" and X: "\<And>g. child_of g q \<Longrightarrow> X \<le> A ! g" and q: "q < N" "N \<le> length A"
  shows "heap_from (A[q := X]) 0 N"
  unfolding heap_from_def
proof (intro allI impI)
  fix i c assume a: "child_of i c" "c < N"
  have "i < c" using child_lt [OF a(1)] .
  show "A[q := X] ! c \<le> A[q := X] ! i"
  proof (cases "c = q")
    case True
    with X [of i] a q \<open>i < c\<close> show ?thesis by simp
  next
    case False
    with h a have "if i = q then A ! c \<le> X \<and> (\<forall>g. child_of g q \<longrightarrow> A ! c \<le> A ! g) else A ! c \<le> A ! i"
      unfolding up_heap_def by blast
    with False q show ?thesis by (auto split: if_splits)
  qed
qed

lemma up_move:
  assumes h: "up_heap A N q X" and g: "child_of g q" "A ! g \<le> X" and q: "q < N" "N \<le> length A"
  shows "up_heap (A[q := A ! g]) N g X"
  unfolding up_heap_def
proof (intro allI impI)
  fix i c assume a: "child_of i c" "c < N" "c \<noteq> g"
  note lt = child_lt [OF g(1)] child_lt [OF a(1)]
  have up: "A ! g \<le> A ! f" if "child_of f g" for f
    using h that q lt child_lt [OF that] unfolding up_heap_def by (metis less_irrefl_nat less_trans)
  show "if i = g then A[q := A ! g] ! c \<le> X \<and> (\<forall>f. child_of f g \<longrightarrow> A[q := A ! g] ! c \<le> A[q := A ! g] ! f)
      else A[q := A ! g] ! c \<le> A[q := A ! g] ! i"
  proof (cases "c = q")
    case True
    then have "i = g" using child_parent a(1) g(1) by blast
    moreover have "A[q := A ! g] ! f = A ! f" if "child_of f g" for f using child_lt [OF that] lt by simp
    ultimately show ?thesis using True up g(2) q by simp
  next
    case False
    with h a have s: "if i = q then A ! c \<le> X \<and> (\<forall>g. child_of g q \<longrightarrow> A ! c \<le> A ! g) else A ! c \<le> A ! i"
      unfolding up_heap_def by blast
    have "A[q := A ! g] ! f = A ! f" if "child_of f g" for f using child_lt [OF that] lt by simp
    with s False up g q lt show ?thesis by (auto split: if_splits intro: order_trans)
  qed
qed

lemma hget_nth: "i < length A \<Longrightarrow> hget A i = A ! i"
  by (simp add: hget_def)

lemma up_loop_heap:
  "up_heap A N q (Some X) \<Longrightarrow> q < N \<Longrightarrow> N \<le> length A \<Longrightarrow> (\<And>k. k < N \<Longrightarrow> A ! k \<noteq> None) \<Longrightarrow>
   \<exists>B. up_loop A q X = Some B \<and> heap_from B 0 N \<and> mset B = mset (A[q := Some X]) \<and> drop N B = drop N A"
proof (induction q arbitrary: A rule: less_induct)
  case (less q)
  let ?g = "(q - 1) div 2"
  have put: "aput A q x = Some (A[q := x])" for x using less.prems(2,3) by (intro aput_upd) linarith
  show ?case
  proof (cases "q = 0")
    case True
    have "heap_from (A[q := Some X]) 0 N" using less.prems True by (intro up_fill) (auto simp: child_of_def)
    with True less.prems(2) put show ?thesis by (subst up_loop.simps) simp
  next
    case False
    then have g: "child_of ?g q" "?g < q" using child_half [of q] child_lt [of ?g q] by auto
    then obtain p where p: "A ! ?g = Some p" using less.prems(2) less.prems(4) [of ?g] by auto
    have get: "hget A ?g = Some p" using p g(2) less.prems by (simp add: hget_nth)
    show ?thesis
    proof (cases "X < p")
      case True
      have "Some X \<le> A ! f" if "child_of f q" for f using child_parent [OF that g(1)] p True by simp
      then have "heap_from (A[q := Some X]) 0 N" using less.prems by (intro up_fill) auto
      with True False get less.prems(2) put show ?thesis by (subst up_loop.simps) simp
    next
      case le: False
      have "up_heap (A[q := A ! ?g]) N ?g (Some X)" using less.prems le p by (intro up_move [OF _ g(1)]) auto
      moreover have "(A[q := A ! ?g]) ! k \<noteq> None" if "k < N" for k
        using less.prems(2,3) less.prems(4) [OF that] p by (auto simp: nth_list_update)
      ultimately obtain B where B: "up_loop (A[q := A ! ?g]) ?g X = Some B" "heap_from B 0 N"
        "mset B = mset (A[q := A ! ?g, ?g := Some X])" "drop N B = drop N (A[q := A ! ?g])"
        using less.IH [OF g(2), of "A[q := A ! ?g]"] g(2) less.prems(2,3) by auto
      have "mset (A[q := A ! ?g, ?g := Some X]) = mset (A[q := Some X])"
        using mset_move [of ?g A q "Some X"] g(2) less.prems(2,3) by simp
      with B le False get p less.prems(2) put show ?thesis by (subst up_loop.simps) simp
    qed
  qed
qed

lemma mset_take_eq: "mset B = mset A \<Longrightarrow> drop n B = drop n A \<Longrightarrow> mset (take n B) = mset (take n A)"
  by (metis add_right_cancel append_take_drop_id mset_append)

lemma heap_insert_inserts:
  assumes h: "is_heap h" and room: "hsize h < capacity h"
  shows "\<exists>h'. heap_insert h x = Some (h', True) \<and> is_heap h' \<and> mset (elems h') = add_mset x (mset (elems h)) \<and>
    capacity h' = capacity h \<and> hsize h' = Suc (hsize h)"
proof -
  let ?n = "hsize h" and ?A = "(heap h)[hsize h := Some x]"
  have len: "?n < length (heap h)" and full: "None \<notin> set (take ?n (heap h))" and heap: "heap_from (heap h) 0 ?n"
    using h room by (simp_all add: is_heap_def)
  have "up_heap ?A (Suc ?n) ?n (Some x)"
    unfolding up_heap_def
  proof (intro allI impI)
    fix i c assume a: "child_of i c" "c < Suc ?n" "c \<noteq> ?n"
    then have "heap h ! c \<le> heap h ! i" using heap unfolding heap_from_def by auto
    with a child_lt [OF a(1)] show "if i = ?n then ?A ! c \<le> Some x \<and> (\<forall>g. child_of g ?n \<longrightarrow> ?A ! c \<le> ?A ! g) else ?A ! c \<le> ?A ! i"
      by simp
  qed
  moreover have "?A ! k \<noteq> None" if "k < Suc ?n" for k
    using that full len by (auto simp: nth_list_update in_set_conv_nth less_Suc_eq)
  ultimately obtain B where B: "up_loop ?A ?n x = Some B" "heap_from B 0 (Suc ?n)" "mset B = mset ?A" "drop (Suc ?n) B = drop (Suc ?n) ?A"
    using up_loop_heap [of ?A "Suc ?n" ?n x] len by auto
  have "take (Suc ?n) ?A = take ?n (heap h) @ [Some x]" using len by (simp add: take_Suc_conv_app_nth)
  with mset_take_eq [OF B(3,4)] have t: "mset (take (Suc ?n) B) = add_mset (Some x) (mset (take ?n (heap h)))" by simp
  have "None \<notin> set (take (Suc ?n) B)" using full t by (metis insert_iff option.distinct(1) set_mset_add_mset_insert set_mset_mset)
  moreover have "mset (map the (take (Suc ?n) B)) = add_mset x (mset (elems h))" using t by (simp add: elems_def)
  moreover have "length B = length (heap h)" using mset_eq_length [OF B(3)] by simp
  moreover have "heap_insert h x = Some (h\<lparr>heap := B, hsize := Suc ?n\<rparr>, True)"
    using len room B(1) by (simp add: heap_insert_def filterUp_def hget_nth)
  ultimately show ?thesis using h room B(2) by (simp add: is_heap_def elems_def)
qed

lemma insert_all_inserts:
  "is_heap h \<Longrightarrow> hsize h + length a \<le> capacity h \<Longrightarrow>
   \<exists>h'. insert_all h a = Some h' \<and> is_heap h' \<and> mset (elems h') = mset a + mset (elems h)"
proof (induction a arbitrary: h)
  case (Cons x a)
  then obtain h' where h': "heap_insert h x = Some (h', True)" "is_heap h'" "mset (elems h') = add_mset x (mset (elems h))"
    "capacity h' = capacity h" "hsize h' = Suc (hsize h)" using heap_insert_inserts [of h x] by auto
  with Cons.IH [OF h'(2)] Cons.prems(2) show ?case by auto
qed simp

lemma getTop_Max: "is_heap h \<Longrightarrow> elems h \<noteq> [] \<Longrightarrow> getTop h = Some (Max (set (elems h)))"
proof -
  assume h: "is_heap h" and ne: "elems h \<noteq> []"
  have len: "hsize h \<le> length (heap h)" and n: "0 < hsize h" using h ne by (auto simp: is_heap_def elems_def)
  have full: "heap h ! k = Some (elems h ! k)" if "k < hsize h" for k
    using that h len by (fastforce simp: is_heap_def elems_def in_set_conv_nth)
  have "e \<le> elems h ! 0" if "e \<in> set (elems h)" for e
  proof -
    from that obtain k where k: "k < hsize h" "e = elems h ! k" using len by (auto simp: in_set_conv_nth elems_def)
    then show ?thesis using heap_root_max [of "heap h" "hsize h" k] h full [of k] full [OF n] by (simp add: is_heap_def)
  qed
  moreover have "elems h ! 0 \<in> set (elems h)" using ne by simp
  ultimately have "Max (set (elems h)) = elems h ! 0" by (intro Max_eqI) auto
  moreover have "hget (heap h) 0 = heap h ! 0" using n len by (intro hget_nth) linarith
  ultimately show ?thesis using full [OF n] n by (simp add: getTop_def)
qed

text \<open>Building a heap from an array that fits gives a heap with the array's elements, whose top is
  the largest of them.\<close>

theorem createMaxHeap_builds:
  assumes "length a \<le> cap"
  shows "\<exists>h. createMaxHeap (new_MaxHeap cap) a = Some (h, True) \<and> is_heap h \<and> mset (elems h) = mset a \<and>
    (getTop h = (if a = [] then None else Some (Max (set a))))"
proof -
  have "is_heap (new_MaxHeap cap :: 'a MaxHeap)" by (simp add: is_heap_def new_MaxHeap_def heap_from_def)
  from insert_all_inserts [OF this, of a] assms obtain h where
    h: "insert_all (new_MaxHeap cap) a = Some h" "is_heap h" "mset (elems h) = mset a" by (auto simp: new_MaxHeap_def elems_def)
  have "getTop h = (if a = [] then None else Some (Max (set a)))"
  proof (cases "a = []")
    case True
    then show ?thesis using h(1) by (auto simp: new_MaxHeap_def getTop_def)
  next
    case False
    then have "elems h \<noteq> []" using h(3) by auto
    moreover have "set (elems h) = set a" using mset_eq_setD [OF h(3)] .
    ultimately show ?thesis using getTop_Max [OF h(2)] False by simp
  qed
  moreover have "createMaxHeap (new_MaxHeap cap) a = Some (h, True)" using h(1) assms by (simp add: createMaxHeap_def new_MaxHeap_def)
  ultimately show ?thesis using h by blast
qed

theorem createMaxHeap_builds_witness:
  "\<exists>h. createMaxHeap (new_MaxHeap 3) [4, 9, 7 :: int] = Some (h, True) \<and> is_heap h \<and> mset (elems h) = mset [4, 9, 7 :: int] \<and>
    getTop h = Some (Max (set [4, 9, 7 :: int]))"
  using createMaxHeap_builds [of "[4, 9, 7 :: int]" 3] by simp

section \<open>Removal\<close>

text \<open>Removal sifts over one cell too many: it takes the cell behind the last element, which
  a previous removal left behind, for a child. Removing the largest of 5, 3, 4 and then 4 leaves the
  heap with the removed 4 and without 3. On a full array of two the read is outside the array.\<close>

theorem heap_remove_stale:
  "(do { (h, _) \<leftarrow> createMaxHeap (new_MaxHeap 4) [5, 3, 4 :: int]; (h, _) \<leftarrow> heap_remove h 5; (h, b) \<leftarrow> heap_remove h 4; Some (elems h, b) })
     = Some ([4], True) \<and>
   (do { (h, _) \<leftarrow> createMaxHeap (new_MaxHeap 2) [2, 1 :: int]; heap_remove h 2 }) = None"
  by (simp add: createMaxHeap_def new_MaxHeap_def heap_insert_def filterUp_def hget_def aget_def aput_def up_loop.simps
      heap_remove_def index_of.simps filterDown_def down_loop.simps elems_def numeral_eq_Suc)

end
