(* ===== verification/Search_Tree.thy ===== *)
theory Search_Tree
  imports Prelude "HOL-Library.Tree"
begin

text \<open>
  The binary search tree of \<^verbatim>\<open>DS&Algo/src/BST/BST.cc\<close>. A tree is a
  library tree of integers: \<^const>\<open>Leaf\<close> is \<^verbatim>\<open>NULL\<close>, \<^term>\<open>Node l v r\<close> a
  \<^verbatim>\<open>TreeNode\<close> with its \<^verbatim>\<open>left\<close>, \<^verbatim>\<open>val\<close> and \<^verbatim>\<open>right\<close> fields. Every pointer to a node is held
  by one parent only, so that an assignment to a child is the tree with that child replaced, and
  a returned pointer is the subtree it points to. Reading a field of \<^verbatim>\<open>NULL\<close> is \<^const>\<open>None\<close>.
\<close>

fun insert_bst :: "int tree \<Rightarrow> int \<Rightarrow> int tree" where
  "insert_bst Leaf val = Node Leaf val Leaf"
| "insert_bst (Node lft v rgt) val =
     (if val < v then Node (insert_bst lft val) v rgt
      else if val > v then Node lft v (insert_bst rgt val)
      else Node lft v rgt)"

fun find_recursion :: "int tree \<Rightarrow> int \<Rightarrow> int tree" where
  "find_recursion Leaf val = Leaf"
| "find_recursion (Node lft v rgt) val =
     (if val > v then find_recursion rgt val
      else if val < v then find_recursion lft val
      else Node lft v rgt)"

text \<open>The loop follows one path with the variable \<^verbatim>\<open>current\<close>.\<close>

partial_function (option) find_iteration :: "int tree \<Rightarrow> int \<Rightarrow> int tree option" where
  "find_iteration current val =
     (case current of
        Leaf \<Rightarrow> Some Leaf
      | Node lft v rgt \<Rightarrow>
          if val < v then find_iteration lft val
          else if val > v then find_iteration rgt val
          else Some current)"

fun FindMin :: "int tree \<Rightarrow> int tree" where
  "FindMin Leaf = Leaf"
| "FindMin (Node lft v rgt) = (if lft = Leaf then Node lft v rgt else FindMin lft)"

partial_function (option) max_loop :: "int tree \<Rightarrow> int tree option" where
  "max_loop root =
     (case root of
        Leaf \<Rightarrow> None
      | Node lft v rgt \<Rightarrow> if rgt \<noteq> Leaf then max_loop rgt else Some root)"

definition FindMax :: "int tree \<Rightarrow> int tree option" where
  "FindMax root = (if root \<noteq> Leaf then max_loop root else Some root)"

definition val_of :: "int tree \<Rightarrow> int option" where
  "val_of t = (case t of Leaf \<Rightarrow> None | Node lft v rgt \<Rightarrow> Some v)"

fun Delete :: "int tree \<Rightarrow> int \<Rightarrow> int tree option" where
  "Delete Leaf key = Some Leaf"
| "Delete (Node lft v rgt) key =
     (if key < v then do { lft \<leftarrow> Delete lft key; Some (Node lft v rgt) }
      else if key > v then do { rgt \<leftarrow> Delete rgt key; Some (Node lft v rgt) }
      else if lft \<noteq> Leaf \<and> rgt \<noteq> Leaf then do {
        v \<leftarrow> val_of (FindMin rgt);
        rgt \<leftarrow> Delete rgt v;
        Some (Node lft v rgt)
      }
      else if lft = Leaf then Some rgt
      else Some lft)"

section \<open>Lookup\<close>

text \<open>A search tree in the sense of the library: every value is larger than those of the lft
  subtree and smaller than those of the rgt one, so that values are distinct.\<close>

lemma find_iteration_eq: "find_iteration t x = Some (find_recursion t x)"
  by (induction t x rule: find_recursion.induct) (subst find_iteration.simps; auto)+

lemma find_recursion_iff: "bst t \<Longrightarrow> (find_recursion t x \<noteq> Leaf) \<longleftrightarrow> x \<in> set_tree t"
  by (induction t x rule: find_recursion.induct) auto

lemma find_recursion_value: "find_recursion t x = Node l v r \<Longrightarrow> v = x \<and> Node l v r \<in> subtrees t"
  by (induction t x rule: find_recursion.induct) (auto split: if_splits)

lemma FindMin_min: "bst t \<Longrightarrow> t \<noteq> Leaf \<Longrightarrow> \<exists>v r. FindMin t = Node Leaf v r \<and> v \<in> set_tree t \<and> (\<forall>x \<in> set_tree t. v \<le> x)"
proof (induction t rule: FindMin.induct)
  case (2 lft v rgt)
  show ?case
  proof (cases "lft = Leaf")
    case False
    then obtain w r where w: "FindMin lft = Node Leaf w r" "w \<in> set_tree lft" "\<forall>x \<in> set_tree lft. w \<le> x" using 2 by auto
    moreover have "w < v" using w(2) "2.prems"(1) by auto
    ultimately show ?thesis using False "2.prems"(1) by (force intro: less_imp_le less_trans)
  qed (use 2 in \<open>auto intro: less_imp_le\<close>)
qed simp

lemma max_loop_max:
  "bst t \<Longrightarrow> t \<noteq> Leaf \<Longrightarrow> \<exists>l v. max_loop t = Some (Node l v Leaf) \<and> v \<in> set_tree t \<and> (\<forall>x \<in> set_tree t. x \<le> v)"
proof (induction t)
  case (Node lft v rgt)
  show ?case
  proof (cases "rgt = Leaf")
    case False
    then obtain l w where w: "max_loop rgt = Some (Node l w Leaf)" "w \<in> set_tree rgt" "\<forall>x \<in> set_tree rgt. x \<le> w"
      using Node by auto
    moreover have "v < w" using w(2) Node.prems(1) by auto
    ultimately show ?thesis using False Node.prems(1)
      by (subst max_loop.simps) (force intro: less_imp_le less_trans)
  qed (use Node.prems in \<open>auto simp: max_loop.simps intro: less_imp_le\<close>)
qed simp

section \<open>Insertion and deletion\<close>

lemma set_insert_bst: "set_tree (insert_bst t x) = insert x (set_tree t)"
  by (induction t x rule: insert_bst.induct) auto

lemma bst_insert_bst: "bst t \<Longrightarrow> bst (insert_bst t x)"
  by (induction t x rule: insert_bst.induct) (auto simp: set_insert_bst)

lemma Delete_deletes: "bst t \<Longrightarrow> \<exists>t'. Delete t x = Some t' \<and> bst t' \<and> set_tree t' = set_tree t - {x}"
proof (induction t x rule: Delete.induct)
  case (2 lft v rgt key)
  have b: "bst lft" "bst rgt" "\<forall>x \<in> set_tree lft. x < v" "\<forall>x \<in> set_tree rgt. v < x" using "2.prems" by auto
  consider "key < v" | "key > v" | "key = v" "lft \<noteq> Leaf" "rgt \<noteq> Leaf" | "key = v" "lft = Leaf \<or> rgt = Leaf" by fastforce
  then show ?case
  proof cases
    case 1
    then obtain l' where "Delete lft key = Some l'" "bst l'" "set_tree l' = set_tree lft - {key}" using "2.IH"(1) b by auto
    with 1 b show ?thesis by auto
  next
    case 2
    then obtain r' where "Delete rgt key = Some r'" "bst r'" "set_tree r' = set_tree rgt - {key}" using "2.IH"(2) b by auto
    with 2 b show ?thesis by auto
  next
    case 3
    obtain w r where w: "FindMin rgt = Node Leaf w r" "w \<in> set_tree rgt" "\<forall>x \<in> set_tree rgt. w \<le> x"
      using FindMin_min [OF b(2) 3(3)] by blast
    then obtain r' where r': "Delete rgt w = Some r'" "bst r'" "set_tree r' = set_tree rgt - {w}"
      using "2.IH"(3) 3 b by (auto simp: val_of_def)
    have "\<forall>x \<in> set_tree lft. x < w" using b(3,4) w(2) by force
    moreover have "\<forall>x \<in> set_tree r'. w < x" using w(3) r'(3) by (force simp: order.order_iff_strict)
    ultimately have "bst (Node lft w r')" using b(1) r'(2) by simp
    moreover have "set_tree (Node lft w r') = set_tree (Node lft v rgt) - {key}" using r'(3) w(2) b(3,4) 3(1) by auto
    ultimately show ?thesis using 3 w(1) r'(1) by (simp add: val_of_def)
  next
    case 4
    with b show ?thesis by auto
  qed
qed simp

section \<open>The tree as a set\<close>

locale search_tree =
  fixes ins :: "'t \<Rightarrow> 'a \<Rightarrow> 't" and del :: "'t \<Rightarrow> 'a \<Rightarrow> 't option" and mem :: "'t \<Rightarrow> 'a \<Rightarrow> bool"
    and inv :: "'t \<Rightarrow> bool" and els :: "'t \<Rightarrow> 'a set"
  assumes ins: "inv t \<Longrightarrow> inv (ins t x) \<and> els (ins t x) = insert x (els t)"
    and del: "inv t \<Longrightarrow> \<exists>t'. del t x = Some t' \<and> inv t' \<and> els t' = els t - {x}"
    and mem: "inv t \<Longrightarrow> mem t x \<longleftrightarrow> x \<in> els t"
begin

lemma build: "inv t \<Longrightarrow> inv (foldl ins t xs) \<and> els (foldl ins t xs) = els t \<union> set xs"
proof (induction xs arbitrary: t)
  case (Cons x xs)
  with ins [OF Cons.prems, of x] Cons.IH [of "ins t x"] show ?case by auto
qed simp

lemma ins_del_mem: "inv t \<Longrightarrow> \<exists>t'. del (foldl ins t xs) x = Some t' \<and> inv t' \<and> (\<forall>y. mem t' y \<longleftrightarrow> y \<noteq> x \<and> (mem t y \<or> y \<in> set xs))"
  using build [of t xs] del [of "foldl ins t xs" x] mem by auto

end

interpretation bst: search_tree insert_bst Delete "\<lambda>t x. find_recursion t x \<noteq> Leaf" bst set_tree
  by unfold_locales (simp_all add: set_insert_bst bst_insert_bst Delete_deletes find_recursion_iff)

text \<open>C38. Insertions and a deletion on a search tree give a search tree that holds exactly the values
  inserted and not deleted. Both lookups answer by that set and give the same node.\<close>

theorem bst_refines_set:
  assumes "bst t"
  shows "\<exists>t'. Delete (foldl insert_bst t xs) x = Some t' \<and> bst t' \<and>
    (\<forall>y. find_recursion t' y \<noteq> Leaf \<longleftrightarrow> y \<noteq> x \<and> (find_recursion t y \<noteq> Leaf \<or> y \<in> set xs)) \<and>
    (\<forall>y. find_iteration t' y = Some (find_recursion t' y))"
  using bst.ins_del_mem [OF assms, of xs x] find_iteration_eq by auto

theorem bst_refines_set_witness:
  "\<exists>t'. Delete (foldl insert_bst Leaf [2, 1, 3]) 2 = Some t' \<and> bst t' \<and>
    (\<forall>y. find_recursion t' y \<noteq> Leaf \<longleftrightarrow> y \<noteq> 2 \<and> (find_recursion Leaf y \<noteq> Leaf \<or> y \<in> set [2, 1, 3])) \<and>
    (\<forall>y. find_iteration t' y = Some (find_recursion t' y))"
  using bst_refines_set [of Leaf "[2, 1, 3]" 2] by simp

end
