(* ===== verification/LRU_Cache.thy ===== *)
theory LRU_Cache
  imports Prelude
begin

text \<open>
  The cache of \<^verbatim>\<open>DS&Algo/src/LRUCache/LRUCache.h\<close>. A list node is named by a number, which is what an
  iterator to it holds. Erasing through an iterator to no node of the list, and \<^verbatim>\<open>back\<close>
  on an empty list, are undefined and make the operation \<^const>\<open>None\<close>. The capacity is an \<^verbatim>\<open>int\<close>, which the test for
  a full cache converts to the \<^verbatim>\<open>size_t\<close> of \<^verbatim>\<open>size()\<close>.
\<close>

record LRUCache =
  key_map :: "int \<rightharpoonup> nat"
  cache :: "(nat \<times> int \<times> int) list"
  cap :: int
  fresh :: nat

definition new_LRUCache :: "int \<Rightarrow> LRUCache" where
  "new_LRUCache capacity = \<lparr>key_map = Map.empty, cache = [], cap = capacity, fresh = 0\<rparr>"

definition deref :: "LRUCache \<Rightarrow> nat \<Rightarrow> (int \<times> int) option" where
  "deref c it = map_of (cache c) it"

definition erase :: "LRUCache \<Rightarrow> nat \<Rightarrow> LRUCache option" where
  "erase c it = (if map_of (cache c) it = None then None else Some (c\<lparr>cache := filter (\<lambda>(n, x). n \<noteq> it) (cache c)\<rparr>))"

definition emplace_front :: "LRUCache \<Rightarrow> int \<times> int \<Rightarrow> LRUCache" where
  "emplace_front c x = c\<lparr>cache := (fresh c, x) # cache c, fresh := Suc (fresh c)\<rparr>"

definition map_begin :: "LRUCache \<Rightarrow> int \<Rightarrow> LRUCache option" where
  "map_begin c key = (case cache c of [] \<Rightarrow> None | (n, x) # _ \<Rightarrow> Some (c\<lparr>key_map := (key_map c)(key \<mapsto> n)\<rparr>))"

definition evict_last :: "LRUCache \<Rightarrow> LRUCache option" where
  "evict_last c =
     (if cache c = [] then None
      else let (n, k, v) = last (cache c) in
        Some (c\<lparr>cache := butlast (cache c), key_map := (key_map c)(k := None)\<rparr>))"

definition lru_put :: "LRUCache \<Rightarrow> int \<Rightarrow> int \<Rightarrow> LRUCache option" where
  "lru_put c key value =
     (case key_map c key of
        Some it \<Rightarrow> do {
          c \<leftarrow> erase c it;
          map_begin (emplace_front c (key, value)) key
        }
      | None \<Rightarrow> do {
          c \<leftarrow> (if word_of_int (cap c) = (of_nat (length (cache c)) :: ulong) then evict_last c else Some c);
          map_begin (emplace_front c (key, value)) key
        })"

definition lru_get :: "LRUCache \<Rightarrow> int \<Rightarrow> (LRUCache \<times> int) option" where
  "lru_get c key =
     (case key_map c key of
        None \<Rightarrow> Some (c, -1)
      | Some it \<Rightarrow> do {
          (k, v) \<leftarrow> deref c it;
          c \<leftarrow> lru_put c key v;
          Some (c, v)
        })"

section \<open>The specification\<close>

text \<open>An abstract cache is the list of its pairs, the most recently used one first.\<close>

type_synonym recency = "(int \<times> int) list"

definition use :: "int \<Rightarrow> int \<Rightarrow> recency \<Rightarrow> recency" where
  "use k v ps = (k, v) # filter (\<lambda>p. fst p \<noteq> k) ps"

definition spec_put :: "nat \<Rightarrow> int \<Rightarrow> int \<Rightarrow> recency \<Rightarrow> recency" where
  "spec_put n k v ps = take n (use k v ps)"

definition spec_get :: "int \<Rightarrow> recency \<Rightarrow> recency \<times> int" where
  "spec_get k ps = (case map_of ps k of None \<Rightarrow> (ps, -1) | Some v \<Rightarrow> (use k v ps, v))"

definition pairs :: "LRUCache \<Rightarrow> recency" where
  "pairs c = map snd (cache c)"

text \<open>The bound that a capacity sets, a negative one by its conversion.\<close>

definition limit :: "int \<Rightarrow> nat" where
  "limit n = (if 0 \<le> n then nat n else nat (2 ^ 64 + n))"

definition lru_inv :: "LRUCache \<Rightarrow> bool" where
  "lru_inv c \<longleftrightarrow> - (2 ^ 31) \<le> cap c \<and> cap c < 2 ^ 31 \<and> cap c \<noteq> 0 \<and> length (cache c) \<le> limit (cap c) \<and> distinct (map fst (cache c)) \<and> (\<forall>n \<in> fst ` set (cache c). n < fresh c) \<and>
     distinct (map fst (pairs c)) \<and> (\<forall>k n. key_map c k = Some n \<longleftrightarrow> (\<exists>v. (n, k, v) \<in> set (cache c)))"

section \<open>Refinement\<close>

lemma limit_word: "- (2 ^ 31) \<le> n \<Longrightarrow> n < 2 ^ 31 \<Longrightarrow> uint (word_of_int n :: ulong) = int (limit n)"
proof -
  assume n: "- (2 ^ 31) \<le> n" "n < 2 ^ 31"
  have "n mod 2 ^ 64 = int (limit n)"
  proof (cases "0 \<le> n")
    case False
    have "n mod 2 ^ 64 = (2 ^ 64 + n) mod 2 ^ 64" by (rule mod_add_self1 [symmetric])
    also have "\<dots> = 2 ^ 64 + n" using n False by (intro mod_pos_pos_trivial) simp_all
    finally show ?thesis using n False by (simp add: limit_def)
  qed (use n in \<open>simp add: limit_def\<close>)
  then show ?thesis by (simp add: uint_word_of_int)
qed

lemma limit_pos: "lru_inv c \<Longrightarrow> 0 < limit (cap c)"
  by (auto simp: lru_inv_def limit_def)

lemma lru_full: "lru_inv c \<Longrightarrow> word_of_int (cap c) = (of_nat (length (cache c)) :: ulong) \<longleftrightarrow> limit (cap c) = length (cache c)"
proof -
  assume h: "lru_inv c"
  then have "length (cache c) < 2 ^ 64" by (auto simp: lru_inv_def limit_def split: if_splits)
  then have "uint (of_nat (length (cache c)) :: ulong) = int (length (cache c))"
    by (simp add: uint_nat unat_of_nat)
  moreover have "uint (word_of_int (cap c) :: ulong) = int (limit (cap c))" using h by (intro limit_word) (simp_all add: lru_inv_def)
  ultimately show ?thesis by (simp add: word_uint_eq_iff)
qed


lemma lru_inv_key: "lru_inv c \<Longrightarrow> key_map c k = None \<longleftrightarrow> k \<notin> fst ` set (pairs c)"
proof -
  assume "lru_inv c"
  then have "(\<exists>n. key_map c k = Some n) \<longleftrightarrow> (\<exists>n v. (n, k, v) \<in> set (cache c))" by (simp add: lru_inv_def)
  also have "\<dots> \<longleftrightarrow> k \<in> fst ` set (pairs c)" by (force simp: pairs_def)
  finally show ?thesis by (cases "key_map c k") auto
qed

lemma lru_inv_hit: "lru_inv c \<Longrightarrow> key_map c k = Some n \<Longrightarrow> \<exists>v. map_of (cache c) n = Some (k, v) \<and> map_of (pairs c) k = Some v"
proof -
  assume h: "lru_inv c" "key_map c k = Some n"
  then obtain v where v: "(n, k, v) \<in> set (cache c)" by (auto simp: lru_inv_def)
  then have "(k, v) \<in> set (pairs c)" by (force simp: pairs_def)
  with v h(1) show ?thesis by (auto simp: lru_inv_def)
qed

text \<open>Removing the node of a key from the list and the key from the map keeps the two in step.\<close>

lemma filter_node_key:
  assumes "lru_inv c" "(n, k, v) \<in> set (cache c)"
  shows "filter (\<lambda>(m, x). m \<noteq> n) (cache c) = filter (\<lambda>(m, j, w). j \<noteq> k) (cache c)"
proof (rule filter_cong [OF refl], clarify)
  fix m j w assume m: "(m, j, w) \<in> set (cache c)"
  have "m = n \<longleftrightarrow> j = k"
  proof
    assume "m = n"
    with m assms show "j = k" unfolding lru_inv_def by (metis eq_key_imp_eq_value prod.inject)
  next
    assume "j = k"
    with m assms show "m = n" unfolding lru_inv_def by (metis option.inject)
  qed
  then show "(m \<noteq> n) = (j \<noteq> k)" by simp
qed

definition drop_key :: "LRUCache \<Rightarrow> int \<Rightarrow> LRUCache" where
  "drop_key c k = c\<lparr>cache := filter (\<lambda>(m, j, w). j \<noteq> k) (cache c), key_map := (key_map c)(k := None)\<rparr>"

lemma cap_drop_key [simp]: "cap (drop_key c k) = cap c"
  by (simp add: drop_key_def)

lemma pairs_drop_key: "pairs (drop_key c k) = filter (\<lambda>p. fst p \<noteq> k) (pairs c)"
  by (simp add: pairs_def drop_key_def filter_map comp_def case_prod_unfold)

lemma drop_key_inv: "lru_inv c \<Longrightarrow> lru_inv (drop_key c k)"
proof -
  assume h: "lru_inv c"
  have "length (cache (drop_key c k)) \<le> limit (cap c)" using h by (auto simp: drop_key_def lru_inv_def intro: order_trans [OF length_filter_le])
  moreover have "distinct (map fst (cache (drop_key c k)))" using h by (auto simp: drop_key_def lru_inv_def distinct_map_filter)
  moreover have "distinct (map fst (pairs (drop_key c k)))" using h by (simp add: pairs_drop_key lru_inv_def distinct_map_filter)
  ultimately show ?thesis using h by (auto simp: lru_inv_def drop_key_def)
qed

lemma front_inv:
  assumes h: "lru_inv c" and k: "k \<notin> fst ` set (pairs c)" and room: "length (cache c) < limit (cap c)"
  shows "\<exists>c'. map_begin (emplace_front c (k, v)) k = Some c' \<and> lru_inv c' \<and> pairs c' = (k, v) # pairs c \<and> cap c' = cap c"
  using assms by (auto simp: map_begin_def emplace_front_def lru_inv_def pairs_def image_iff)

lemma length_pairs: "length (pairs c) = length (cache c)"
  by (simp add: pairs_def)

lemma put_hit:
  assumes h: "lru_inv c" and n: "key_map c k = Some n"
  shows "\<exists>c'. lru_put c k v = Some c' \<and> lru_inv c' \<and> pairs c' = use k v (pairs c) \<and> cap c' = cap c"
proof -
  obtain w where w: "map_of (cache c) n = Some (k, w)" using lru_inv_hit [OF h n] by blast
  then have mem: "(n, k, w) \<in> set (cache c)" by (rule map_of_SomeD)
  have "lru_put c k v = map_begin (emplace_front (drop_key c k) (k, v)) k"
    using n w filter_node_key [OF h mem] by (simp add: lru_put_def erase_def map_begin_def emplace_front_def drop_key_def)
  moreover have "length (cache (drop_key c k)) < limit (cap c)"
  proof -
    have "length (cache (drop_key c k)) < length (cache c)"
      using length_filter_less [OF mem, of "\<lambda>(m, j, w). j \<noteq> k"] by (simp add: drop_key_def)
    with h show ?thesis by (simp add: lru_inv_def)
  qed
  moreover have "k \<notin> fst ` set (pairs (drop_key c k))" by (auto simp: pairs_drop_key)
  ultimately show ?thesis using front_inv [OF drop_key_inv [OF h, of k], of k v] by (simp add: pairs_drop_key use_def)
qed

lemma evict_last_drop:
  assumes h: "lru_inv c" and ps: "pairs c = ps @ [(k, v)]"
  shows "evict_last c = Some (drop_key c k)" "pairs (drop_key c k) = ps"
proof -
  have k: "k \<notin> fst ` set ps" using h ps by (auto simp: lru_inv_def)
  then have "filter (\<lambda>p. fst p \<noteq> k) ps = ps" by (auto intro!: filter_True)
  then show "pairs (drop_key c k) = ps" by (simp add: pairs_drop_key ps)
  from ps obtain xs n where xs: "cache c = xs @ [(n, k, v)]" "map snd xs = ps"
    unfolding pairs_def by (cases "cache c" rule: rev_cases) auto
  have "filter (\<lambda>(m, j, w). j \<noteq> k) xs = xs" using k xs(2) by (force intro!: filter_True)
  then show "evict_last c = Some (drop_key c k)" using xs by (simp add: evict_last_def drop_key_def)
qed

lemma put_miss:
  assumes h: "lru_inv c" and n: "key_map c k = None"
  shows "\<exists>c'. lru_put c k v = Some c' \<and> lru_inv c' \<and> pairs c' = take (limit (cap c)) ((k, v) # pairs c) \<and> cap c' = cap c"
proof (cases "limit (cap c) = length (cache c)")
  case False
  then have "length (cache c) < limit (cap c)" using h by (simp add: lru_inv_def)
  moreover have "k \<notin> fst ` set (pairs c)" using n lru_inv_key [OF h, of k] by simp
  ultimately show ?thesis using front_inv [OF h, of k v] n False by (simp add: lru_put_def lru_full [OF h] length_pairs)
next
  case True
  then obtain ps j w where ps: "pairs c = ps @ [(j, w)]"
    using h by (cases "pairs c" rule: rev_cases) (auto simp: pairs_def dest: limit_pos)
  note e = evict_last_drop [OF h ps]
  have "k \<notin> fst ` set ps" using n lru_inv_key [OF h, of k] by (simp add: ps)
  moreover have l: "length ps = limit (cap c) - 1" "0 < limit (cap c)" using True limit_pos [OF h] length_pairs [of c] by (simp_all add: ps)
  moreover have "length (cache (drop_key c j)) < limit (cap c)" using e(2) l length_pairs [of "drop_key c j"] by simp
  ultimately obtain c' where "map_begin (emplace_front (drop_key c j) (k, v)) k = Some c'" "lru_inv c'" "pairs c' = (k, v) # ps" "cap c' = cap c"
    using front_inv [OF drop_key_inv [OF h, of j], of k v] e(2) by auto
  moreover have "take (limit (cap c)) ((k, v) # pairs c) = (k, v) # ps" using l by (cases "limit (cap c)") (simp_all add: ps)
  ultimately show ?thesis using n True e(1) by (simp add: lru_put_def lru_full [OF h])
qed

lemma lru_put_spec:
  assumes "lru_inv c"
  shows "\<exists>c'. lru_put c k v = Some c' \<and> lru_inv c' \<and> pairs c' = spec_put (limit (cap c)) k v (pairs c) \<and> cap c' = cap c"
proof (cases "key_map c k")
  case None
  then have "filter (\<lambda>p. fst p \<noteq> k) (pairs c) = pairs c" using lru_inv_key [OF assms] by (force intro!: filter_True)
  with put_miss [OF assms None, of v] show ?thesis by (simp add: spec_put_def use_def)
next
  case (Some n)
  then obtain c' where c': "lru_put c k v = Some c'" "lru_inv c'" "pairs c' = use k v (pairs c)" "cap c' = cap c"
    using put_hit [OF assms, of k n v] by blast
  then have "length (use k v (pairs c)) \<le> limit (cap c)" using length_pairs [of c'] by (simp add: lru_inv_def)
  with c' show ?thesis by (simp add: spec_put_def)
qed

lemma lru_get_spec:
  assumes "lru_inv c"
  shows "\<exists>c'. lru_get c k = Some (c', snd (spec_get k (pairs c))) \<and> lru_inv c' \<and> pairs c' = fst (spec_get k (pairs c)) \<and> cap c' = cap c"
proof (cases "key_map c k")
  case None
  then have "map_of (pairs c) k = None" using lru_inv_key [OF assms] by (simp add: map_of_eq_None_iff)
  with None assms show ?thesis by (simp add: lru_get_def spec_get_def)
next
  case (Some n)
  then obtain v where v: "map_of (cache c) n = Some (k, v)" "map_of (pairs c) k = Some v" using lru_inv_hit [OF assms] by blast
  with put_hit [OF assms Some, of v] Some show ?thesis by (auto simp: lru_get_def deref_def spec_get_def)
qed

section \<open>Sequences of operations\<close>

datatype lru_op = Get int | Put int int

text \<open>The values that the gets of a sequence return.\<close>

fun lru_run :: "LRUCache \<Rightarrow> lru_op list \<Rightarrow> (LRUCache \<times> int list) option" where
  "lru_run c [] = Some (c, [])"
| "lru_run c (Put k v # ops) = do { c \<leftarrow> lru_put c k v; lru_run c ops }"
| "lru_run c (Get k # ops) = do { (c, v) \<leftarrow> lru_get c k; (c, vs) \<leftarrow> lru_run c ops; Some (c, v # vs) }"

fun spec_run :: "nat \<Rightarrow> recency \<Rightarrow> lru_op list \<Rightarrow> recency \<times> int list" where
  "spec_run n ps [] = (ps, [])"
| "spec_run n ps (Put k v # ops) = spec_run n (spec_put n k v ps) ops"
| "spec_run n ps (Get k # ops) =
     (let (ps, v) = spec_get k ps; (ps, vs) = spec_run n ps ops in (ps, v # vs))"

lemma lru_run_spec:
  "lru_inv c \<Longrightarrow> \<exists>c'. lru_run c ops = Some (c', snd (spec_run (limit (cap c)) (pairs c) ops)) \<and> lru_inv c' \<and>
     pairs c' = fst (spec_run (limit (cap c)) (pairs c) ops) \<and> cap c' = cap c"
proof (induction c ops rule: lru_run.induct)
  case (2 c k v ops)
  obtain c' where c': "lru_put c k v = Some c'" "lru_inv c'" "pairs c' = spec_put (limit (cap c)) k v (pairs c)" "cap c' = cap c"
    using lru_put_spec [OF "2.prems"] by blast
  with "2.IH" [OF c'(1,2)] show ?case by auto
next
  case (3 c k ops)
  obtain c' where c': "lru_get c k = Some (c', snd (spec_get k (pairs c)))" "lru_inv c'" "pairs c' = fst (spec_get k (pairs c))" "cap c' = cap c"
    using lru_get_spec [OF "3.prems"] by blast
  with "3.IH" [OF c'(1) refl c'(2)] show ?case by (auto simp: case_prod_unfold Let_def)
qed simp

text \<open>C37. From an empty cache every sequence of gets and puts returns the values of the recency list that keeps the most
  recently used pairs, and the cache holds that list, for every capacity but 0. A positive capacity is the bound of the list; a
  negative one is converted to \<^verbatim>\<open>size_t\<close> and bounds it by 2^64 less its absolute value. With capacity 0 the first put is undefined.\<close>

theorem lru_refines:
  assumes "- (2 ^ 31) \<le> n" "n < 2 ^ 31"
  shows "if n = 0 then lru_put (new_LRUCache n) k v = None
    else \<exists>c. lru_run (new_LRUCache n) ops = Some (c, snd (spec_run (limit n) [] ops)) \<and> pairs c = fst (spec_run (limit n) [] ops) \<and>
      length (pairs c) \<le> limit n"
proof (cases "n = 0")
  case True
  then show ?thesis by (simp add: lru_put_def new_LRUCache_def evict_last_def)
next
  case False
  then have "lru_inv (new_LRUCache n)" using assms by (simp add: lru_inv_def new_LRUCache_def pairs_def)
  from lru_run_spec [OF this, of ops] False show ?thesis
    by (auto simp: new_LRUCache_def pairs_def lru_inv_def)
qed

theorem lru_refines_witness:
  "(\<exists>c. lru_run (new_LRUCache 2) [Put 1 10, Put 2 20, Get 1, Put 3 30, Get 2] = Some (c, [10, -1]) \<and>
    pairs c = [(3, 30), (1, 10)] \<and> length (pairs c) \<le> 2) \<and>
   lru_put (new_LRUCache 0) 1 10 = None"
  using lru_refines [of 2 _ _ "[Put 1 10, Put 2 20, Get 1, Put 3 30, Get 2]"] lru_refines [of 0 1 10]
  by (simp add: spec_put_def spec_get_def use_def limit_def numeral_2_eq_2)

end
