(* ===== verification/Skiplist.thy ===== *)
theory Skiplist
  imports Dict
begin

text \<open>
  The skip list of \<^verbatim>\<open>redis/src/t_zset.c\<close> over an explicit store. A heap maps addresses to nodes; a
  pointer is an optional address, \<^verbatim>\<open>NULL\<close> being \<^const>\<open>None\<close>. Following a pointer that is not allocated,
  a level that a node does not have and a failed \<^verbatim>\<open>serverAssert\<close> make the result \<^const>\<open>None\<close>. Spans are 64-bit
  words and the ranks of \<^verbatim>\<open>zslInsert\<close> are 32-bit words, as in the code. Scores are the elements of a
  linear order: doubles without NaN, which the callers reject. The address of a new node is an argument, and so are
  the bytes an allocation leaves uninitialised.
\<close>

section \<open>Strings\<close>

text \<open>\<^verbatim>\<open>memcmp\<close> gives the difference of the first bytes that differ.\<close>

fun memcmp :: "byte list \<Rightarrow> byte list \<Rightarrow> nat \<Rightarrow> int" where
  "memcmp (a # s) (b # t) (Suc n) = (if a = b then memcmp s t n else uint a - uint b)"
| "memcmp s t n = 0"

definition sdscmp :: "byte list \<Rightarrow> byte list \<Rightarrow> int" where
  "sdscmp s1 s2 =
     (let l1 = length s1; l2 = length s2;
          minlen = (if l1 < l2 then l1 else l2);
          cmp = memcmp s1 s2 minlen
      in if cmp = 0 then (if l1 > l2 then 1 else if l1 < l2 then -1 else 0) else cmp)"

section \<open>Data\<close>

type_synonym zptr = "nat option"

record zskiplistLevel =
  forward :: zptr
  span :: ulong

record 's zskiplistNode =
  zn_ele :: "byte list option"
  zn_score :: 's
  zn_backward :: zptr
  zn_level :: "zskiplistLevel list"

record zskiplist =
  z_header :: nat
  z_tail :: zptr
  z_length :: ulong
  z_level :: nat

type_synonym 's zheap = "nat \<rightharpoonup> 's zskiplistNode"

definition ZSKIPLIST_MAXLEVEL :: nat where "ZSKIPLIST_MAXLEVEL = 32"

section \<open>Memory\<close>

definition zlev :: "'s zheap \<Rightarrow> nat \<Rightarrow> nat \<Rightarrow> zskiplistLevel option" where
  "zlev h a i = do {
     n \<leftarrow> h a;
     if i < length (zn_level n) then Some (zn_level n ! i) else None
   }"

definition upd_lev :: "'s zheap \<Rightarrow> nat \<Rightarrow> nat \<Rightarrow> (zskiplistLevel \<Rightarrow> zskiplistLevel) \<Rightarrow> 's zheap option" where
  "upd_lev h a i f = do {
     n \<leftarrow> h a;
     if i < length (zn_level n) then Some (h(a \<mapsto> n\<lparr>zn_level := (zn_level n)[i := f (zn_level n ! i)]\<rparr>)) else None
   }"

definition set_forward :: "'s zheap \<Rightarrow> nat \<Rightarrow> nat \<Rightarrow> zptr \<Rightarrow> 's zheap option" where
  "set_forward h a i p = upd_lev h a i (forward_update (\<lambda>_. p))"

definition set_span :: "'s zheap \<Rightarrow> nat \<Rightarrow> nat \<Rightarrow> ulong \<Rightarrow> 's zheap option" where
  "set_span h a i s = upd_lev h a i (span_update (\<lambda>_. s))"

definition set_backward :: "'s zheap \<Rightarrow> nat \<Rightarrow> zptr \<Rightarrow> 's zheap option" where
  "set_backward h a p = do { n \<leftarrow> h a; Some (h(a \<mapsto> n\<lparr>zn_backward := p\<rparr>)) }"

section \<open>Creation and release\<close>

definition zslCreateNode :: "zptr \<Rightarrow> zskiplistLevel \<Rightarrow> nat \<Rightarrow> 's \<Rightarrow> byte list option \<Rightarrow> 's zskiplistNode" where
  "zslCreateNode junk_ptr junk level score ele =
     \<lparr>zn_ele = ele, zn_score = score, zn_backward = junk_ptr, zn_level = replicate level junk\<rparr>"

fun init_levels :: "'s zheap \<Rightarrow> nat \<Rightarrow> nat \<Rightarrow> nat \<Rightarrow> 's zheap option" where
  "init_levels h a j 0 = Some h"
| "init_levels h a j (Suc n) = do {
     h \<leftarrow> set_forward h a j None;
     h \<leftarrow> set_span h a j 0;
     init_levels h a (Suc j) n
   }"

definition zslCreate :: "zptr \<Rightarrow> zskiplistLevel \<Rightarrow> 's \<Rightarrow> nat \<Rightarrow> 's zheap \<Rightarrow> ('s zheap \<times> zskiplist) option" where
  "zslCreate junk_ptr junk zero a h = do {
     let h = h(a \<mapsto> zslCreateNode junk_ptr junk ZSKIPLIST_MAXLEVEL zero None);
     h \<leftarrow> init_levels h a 0 ZSKIPLIST_MAXLEVEL;
     h \<leftarrow> set_backward h a None;
     Some (h, \<lparr>z_header = a, z_tail = None, z_length = 0, z_level = 1\<rparr>)
   }"

definition zslFreeNode :: "'s zheap \<Rightarrow> nat \<Rightarrow> 's zheap option" where
  "zslFreeNode h a = (if h a = None then None else Some (h(a := None)))"

partial_function (option) free_loop :: "'s zheap \<Rightarrow> zptr \<Rightarrow> 's zheap option" where
  "free_loop h node =
     (case node of
        None \<Rightarrow> Some h
      | Some a \<Rightarrow>
          Option.bind (zlev h a 0) (\<lambda>l.
          Option.bind (zslFreeNode h a) (\<lambda>h. free_loop h (forward l))))"

definition zslFree :: "'s zheap \<Rightarrow> zskiplist \<Rightarrow> 's zheap option" where
  "zslFree h zsl = do {
     l \<leftarrow> zlev h (z_header zsl) 0;
     h \<leftarrow> zslFreeNode h (z_header zsl);
     free_loop h (forward l)
   }"

text \<open>\<open>rnd k\<close> is the value of the call \<open>k\<close> of \<^verbatim>\<open>random()\<close>. The test against \<^verbatim>\<open>ZSKIPLIST_P * 0xFFFF\<close>, with
  \<^verbatim>\<open>ZSKIPLIST_P\<close> a quarter, is multiplied by four.\<close>

partial_function (option) level_loop :: "(nat \<Rightarrow> nat) \<Rightarrow> nat \<Rightarrow> nat \<Rightarrow> nat option" where
  "level_loop rnd k level =
     (if 4 * (rnd k mod 65536) < 65535 then level_loop rnd (Suc k) (level + 1) else Some level)"

definition zslRandomLevel :: "(nat \<Rightarrow> nat) \<Rightarrow> nat option" where
  "zslRandomLevel rnd = do {
     level \<leftarrow> level_loop rnd 0 1;
     Some (if level < ZSKIPLIST_MAXLEVEL then level else ZSKIPLIST_MAXLEVEL)
   }"

section \<open>Searching\<close>

text \<open>The inner loop that all searches share: follow level \<open>i\<close> while the next node satisfies the condition,
  adding up the spans in the caller's counter. The condition sees the counter as it would be after the step.\<close>

partial_function (option) walk ::
    "('w::len word \<Rightarrow> 's zskiplistNode \<Rightarrow> bool) \<Rightarrow> 's zheap \<Rightarrow> nat \<Rightarrow> nat \<Rightarrow> 'w word \<Rightarrow> (nat \<times> 'w word) option" where
  "walk cond h i x t =
     Option.bind (zlev h x i) (\<lambda>l.
       case forward l of
         None \<Rightarrow> Some (x, t)
       | Some y \<Rightarrow>
           Option.bind (h y) (\<lambda>n.
             if cond (t + ucast (span l)) n then walk cond h i y (t + ucast (span l)) else Some (x, t)))"

text \<open>The outer loop from the highest level down. The result has the node reached, the counter, and the arrays
  \<^verbatim>\<open>update\<close> and \<^verbatim>\<open>rank\<close> as one list of pairs.\<close>

fun descend ::
    "('w::len word \<Rightarrow> 's zskiplistNode \<Rightarrow> bool) \<Rightarrow> 's zheap \<Rightarrow> nat \<Rightarrow> nat \<Rightarrow> 'w word \<Rightarrow>
     (nat \<times> 'w word \<times> (nat \<times> 'w word) list) option" where
  "descend cond h 0 x t = Some (x, t, [])"
| "descend cond h (Suc i) x t = do {
     (x, t) \<leftarrow> walk cond h i x t;
     (y, u, update) \<leftarrow> descend cond h i x t;
     Some (y, u, update @ [(x, t)])
   }"

definition before :: "'s::linorder \<Rightarrow> byte list \<Rightarrow> 's zskiplistNode \<Rightarrow> bool" where
  "before score ele n =
     (zn_score n < score \<or> zn_score n = score \<and> (case zn_ele n of None \<Rightarrow> False | Some e \<Rightarrow> sdscmp e ele < 0))"

section \<open>Insertion\<close>

fun raise_loop :: "'s zheap \<Rightarrow> zskiplist \<Rightarrow> nat \<Rightarrow> nat \<Rightarrow> (nat \<times> uint) list \<Rightarrow> ('s zheap \<times> (nat \<times> uint) list) option" where
  "raise_loop h zsl i 0 update = Some (h, update)"
| "raise_loop h zsl i (Suc n) update = do {
     h \<leftarrow> set_span h (z_header zsl) i (z_length zsl);
     raise_loop h zsl (Suc i) n (update @ [(z_header zsl, 0)])
   }"

definition nth_opt :: "'a list \<Rightarrow> nat \<Rightarrow> 'a option" where
  "nth_opt xs i = (if i < length xs then Some (xs ! i) else None)"

text \<open>One level of the new node: its links, then the two spans. The rank differences, and the span computed from one, are 32-bit.\<close>

definition link_level :: "'s zheap \<Rightarrow> nat \<Rightarrow> (nat \<times> uint) list \<Rightarrow> nat \<Rightarrow> 's zheap option" where
  "link_level h x update i = do {
     (u, r) \<leftarrow> nth_opt update i;
     (_, r0) \<leftarrow> nth_opt update 0;
     l \<leftarrow> zlev h u i;
     h \<leftarrow> set_forward h x i (forward l);
     h \<leftarrow> set_forward h u i (Some x);
     h \<leftarrow> set_span h x i (span l - ucast (r0 - r));
     set_span h u i (ucast (r0 - r + 1))
   }"

fun link_loop :: "'s zheap \<Rightarrow> nat \<Rightarrow> (nat \<times> uint) list \<Rightarrow> nat \<Rightarrow> nat \<Rightarrow> 's zheap option" where
  "link_loop h x update i 0 = Some h"
| "link_loop h x update i (Suc n) = do {
     h \<leftarrow> link_level h x update i;
     link_loop h x update (Suc i) n
   }"

fun untouched_loop :: "'s zheap \<Rightarrow> (nat \<times> uint) list \<Rightarrow> nat \<Rightarrow> nat \<Rightarrow> 's zheap option" where
  "untouched_loop h update i 0 = Some h"
| "untouched_loop h update i (Suc n) = do {
     (u, _) \<leftarrow> nth_opt update i;
     l \<leftarrow> zlev h u i;
     h \<leftarrow> set_span h u i (span l + 1);
     untouched_loop h update (Suc i) n
   }"

definition zslInsert ::
    "zptr \<Rightarrow> zskiplistLevel \<Rightarrow> (nat \<Rightarrow> nat) \<Rightarrow> nat \<Rightarrow> 's zheap \<Rightarrow> zskiplist \<Rightarrow> 's::linorder \<Rightarrow> byte list \<Rightarrow>
     ('s zheap \<times> zskiplist \<times> nat) option" where
  "zslInsert junk_ptr junk rnd x h zsl score ele = do {
     (_, _, update) \<leftarrow> descend (\<lambda>_. before score ele) h (z_level zsl) (z_header zsl) 0;
     level \<leftarrow> zslRandomLevel rnd;
     (h, update) \<leftarrow> (if level > z_level zsl then raise_loop h zsl (z_level zsl) (level - z_level zsl) update else Some (h, update));
     let zsl = (if level > z_level zsl then zsl\<lparr>z_level := level\<rparr> else zsl);
     let h = h(x \<mapsto> zslCreateNode junk_ptr junk level score (Some ele));
     h \<leftarrow> link_loop h x update 0 level;
     h \<leftarrow> untouched_loop h update level (z_level zsl - level);
     (u, _) \<leftarrow> nth_opt update 0;
     h \<leftarrow> set_backward h x (if u = z_header zsl then None else Some u);
     l \<leftarrow> zlev h x 0;
     (h, zsl) \<leftarrow> (case forward l of
        Some y \<Rightarrow> do { h \<leftarrow> set_backward h y (Some x); Some (h, zsl) }
      | None \<Rightarrow> Some (h, zsl\<lparr>z_tail := Some x\<rparr>));
     Some (h, zsl\<lparr>z_length := z_length zsl + 1\<rparr>, x)
   }"

section \<open>Deletion\<close>

definition unlink_level :: "'s zheap \<Rightarrow> nat \<Rightarrow> nat list \<Rightarrow> nat \<Rightarrow> 's zheap option" where
  "unlink_level h x update i = do {
     u \<leftarrow> nth_opt update i;
     l \<leftarrow> zlev h u i;
     if forward l = Some x then do {
       m \<leftarrow> zlev h x i;
       h \<leftarrow> set_span h u i (span l + (span m - 1));
       m \<leftarrow> zlev h x i;
       set_forward h u i (forward m)
     }
     else set_span h u i (span l - 1)
   }"

fun unlink_loop :: "'s zheap \<Rightarrow> nat \<Rightarrow> nat list \<Rightarrow> nat \<Rightarrow> nat \<Rightarrow> 's zheap option" where
  "unlink_loop h x update i 0 = Some h"
| "unlink_loop h x update i (Suc n) = do {
     h \<leftarrow> unlink_level h x update i;
     unlink_loop h x update (Suc i) n
   }"

fun lower_loop :: "'s zheap \<Rightarrow> nat \<Rightarrow> nat \<Rightarrow> nat option" where
  "lower_loop h hdr 0 = Some 0"
| "lower_loop h hdr (Suc level) =
     (if Suc level > 1 then do {
        l \<leftarrow> zlev h hdr level;
        if forward l = None then lower_loop h hdr level else Some (Suc level)
      }
      else Some (Suc level))"

definition zslDeleteNode :: "'s zheap \<Rightarrow> zskiplist \<Rightarrow> nat \<Rightarrow> nat list \<Rightarrow> ('s zheap \<times> zskiplist) option" where
  "zslDeleteNode h zsl x update = do {
     h \<leftarrow> unlink_loop h x update 0 (z_level zsl);
     l \<leftarrow> zlev h x 0;
     n \<leftarrow> h x;
     (h, zsl) \<leftarrow> (case forward l of
        Some y \<Rightarrow> do { h \<leftarrow> set_backward h y (zn_backward n); Some (h, zsl) }
      | None \<Rightarrow> Some (h, zsl\<lparr>z_tail := zn_backward n\<rparr>));
     level \<leftarrow> lower_loop h (z_header zsl) (z_level zsl);
     Some (h, zsl\<lparr>z_level := level, z_length := z_length zsl - 1\<rparr>)
   }"

definition next_node :: "'s zheap \<Rightarrow> nat \<Rightarrow> (nat \<times> 's zskiplistNode) option option" where
  "next_node h x = do {
     l \<leftarrow> zlev h x 0;
     (case forward l of
        None \<Rightarrow> Some None
      | Some y \<Rightarrow> do { n \<leftarrow> h y; Some (Some (y, n)) })
   }"

definition is_key :: "'s \<Rightarrow> byte list \<Rightarrow> 's zskiplistNode \<Rightarrow> bool" where
  "is_key score ele n = (zn_score n = score \<and> (case zn_ele n of None \<Rightarrow> False | Some e \<Rightarrow> sdscmp e ele = 0))"

text \<open>The result of \<^verbatim>\<open>zslDelete\<close> is the unlinked node; it is freed unless the caller keeps it.\<close>

definition zslDelete ::
    "'s zheap \<Rightarrow> zskiplist \<Rightarrow> 's::linorder \<Rightarrow> byte list \<Rightarrow> bool \<Rightarrow> ('s zheap \<times> zskiplist \<times> nat option) option" where
  "zslDelete h zsl score ele keep = do {
     (x, _, update) \<leftarrow> descend (\<lambda>_ :: ulong. before score ele) h (z_level zsl) (z_header zsl) 0;
     y \<leftarrow> next_node h x;
     (case y of
        None \<Rightarrow> Some (h, zsl, None)
      | Some (x, n) \<Rightarrow>
          if is_key score ele n then do {
            (h, zsl) \<leftarrow> zslDeleteNode h zsl x (map fst update);
            h \<leftarrow> (if keep then Some h else zslFreeNode h x);
            Some (h, zsl, Some x)
          }
          else Some (h, zsl, None))
   }"

definition zslUpdateScore ::
    "zptr \<Rightarrow> zskiplistLevel \<Rightarrow> (nat \<Rightarrow> nat) \<Rightarrow> nat \<Rightarrow> 's zheap \<Rightarrow> zskiplist \<Rightarrow> 's::linorder \<Rightarrow> byte list \<Rightarrow> 's \<Rightarrow>
     ('s zheap \<times> zskiplist \<times> nat) option" where
  "zslUpdateScore junk_ptr junk rnd new h zsl curscore ele newscore = do {
     (x, _, update) \<leftarrow> descend (\<lambda>_ :: ulong. before curscore ele) h (z_level zsl) (z_header zsl) 0;
     y \<leftarrow> next_node h x;
     (x, n) \<leftarrow> y;
     if \<not> is_key curscore ele n then None
     else do {
       low \<leftarrow> (case zn_backward n of None \<Rightarrow> Some True | Some b \<Rightarrow> do { m \<leftarrow> h b; Some (zn_score m < newscore) });
       f \<leftarrow> next_node h x;
       let high = (case f of None \<Rightarrow> True | Some (_, m) \<Rightarrow> zn_score m > newscore);
       if low \<and> high then Some (h(x \<mapsto> n\<lparr>zn_score := newscore\<rparr>), zsl, x)
       else do {
         (h, zsl) \<leftarrow> zslDeleteNode h zsl x (map fst update);
         e \<leftarrow> zn_ele n;
         (h, zsl, y) \<leftarrow> zslInsert junk_ptr junk rnd new h zsl newscore e;
         h \<leftarrow> zslFreeNode h x;
         Some (h, zsl, y)
       }
     }
   }"

section \<open>Ranks\<close>

definition upto_key :: "'s::linorder \<Rightarrow> byte list \<Rightarrow> 's zskiplistNode \<Rightarrow> bool" where
  "upto_key score ele n =
     (zn_score n < score \<or> zn_score n = score \<and> (case zn_ele n of None \<Rightarrow> False | Some e \<Rightarrow> sdscmp e ele \<le> 0))"

fun rank_loop :: "'s::linorder \<Rightarrow> byte list \<Rightarrow> 's zheap \<Rightarrow> nat \<Rightarrow> nat \<Rightarrow> ulong \<Rightarrow> ulong option" where
  "rank_loop score ele h 0 x rank = Some 0"
| "rank_loop score ele h (Suc i) x rank = do {
     (x, rank) \<leftarrow> walk (\<lambda>_. upto_key score ele) h i x rank;
     n \<leftarrow> h x;
     if (case zn_ele n of None \<Rightarrow> False | Some e \<Rightarrow> sdscmp e ele = 0) then Some rank
     else rank_loop score ele h i x rank
   }"

definition zslGetRank :: "'s::linorder zheap \<Rightarrow> zskiplist \<Rightarrow> 's \<Rightarrow> byte list \<Rightarrow> ulong option" where
  "zslGetRank h zsl score ele = rank_loop score ele h (z_level zsl) (z_header zsl) 0"

fun elem_loop :: "ulong \<Rightarrow> 's zheap \<Rightarrow> nat \<Rightarrow> nat \<Rightarrow> ulong \<Rightarrow> nat option option" where
  "elem_loop rank h 0 x traversed = Some None"
| "elem_loop rank h (Suc i) x traversed = do {
     (x, traversed) \<leftarrow> walk (\<lambda>t _. t \<le> rank) h i x traversed;
     if traversed = rank then Some (Some x) else elem_loop rank h i x traversed
   }"

definition zslGetElementByRank :: "'s zheap \<Rightarrow> zskiplist \<Rightarrow> ulong \<Rightarrow> nat option option" where
  "zslGetElementByRank h zsl rank = elem_loop rank h (z_level zsl) (z_header zsl) 0"

section \<open>Ranges of scores\<close>

record 's zrangespec =
  r_min :: 's
  r_max :: 's
  r_minex :: bool
  r_maxex :: bool

definition zslValueGteMin :: "'s::linorder \<Rightarrow> 's zrangespec \<Rightarrow> bool" where
  "zslValueGteMin value spec = (if r_minex spec then value > r_min spec else value \<ge> r_min spec)"

definition zslValueLteMax :: "'s::linorder \<Rightarrow> 's zrangespec \<Rightarrow> bool" where
  "zslValueLteMax value spec = (if r_maxex spec then value < r_max spec else value \<le> r_max spec)"

definition zslIsInRange :: "'s::linorder zheap \<Rightarrow> zskiplist \<Rightarrow> 's zrangespec \<Rightarrow> bool option" where
  "zslIsInRange h zsl rng =
     (if r_min rng > r_max rng \<or> r_min rng = r_max rng \<and> (r_minex rng \<or> r_maxex rng) then Some False
      else (case z_tail zsl of
        None \<Rightarrow> Some False
      | Some t \<Rightarrow> do {
          n \<leftarrow> h t;
          if \<not> zslValueGteMin (zn_score n) rng then Some False
          else do {
            f \<leftarrow> next_node h (z_header zsl);
            Some (case f of None \<Rightarrow> False | Some (_, n) \<Rightarrow> zslValueLteMax (zn_score n) rng)
          }
        }))"

definition zslFirstInRange :: "'s::linorder zheap \<Rightarrow> zskiplist \<Rightarrow> 's zrangespec \<Rightarrow> nat option option" where
  "zslFirstInRange h zsl rng = do {
     b \<leftarrow> zslIsInRange h zsl rng;
     if \<not> b then Some None
     else do {
       (x, _, _) \<leftarrow> descend (\<lambda>(_ :: ulong) n. \<not> zslValueGteMin (zn_score n) rng) h (z_level zsl) (z_header zsl) 0;
       f \<leftarrow> next_node h x;
       (x, n) \<leftarrow> f;
       Some (if zslValueLteMax (zn_score n) rng then Some x else None)
     }
   }"

definition zslLastInRange :: "'s::linorder zheap \<Rightarrow> zskiplist \<Rightarrow> 's zrangespec \<Rightarrow> nat option option" where
  "zslLastInRange h zsl rng = do {
     b \<leftarrow> zslIsInRange h zsl rng;
     if \<not> b then Some None
     else do {
       (x, _, _) \<leftarrow> descend (\<lambda>(_ :: ulong) n. zslValueLteMax (zn_score n) rng) h (z_level zsl) (z_header zsl) 0;
       n \<leftarrow> h x;
       Some (if zslValueGteMin (zn_score n) rng then Some x else None)
     }
   }"

section \<open>Ranges of strings\<close>

text \<open>A bound is a string or one of the two shared objects that stand for the ends of the order. The code
  tells these by their addresses.\<close>

datatype lexbound = Minstring | Maxstring | Str "byte list"

record zlexrangespec =
  lx_min :: lexbound
  lx_max :: lexbound
  lx_minex :: bool
  lx_maxex :: bool

text \<open>The bytes are followed by a terminator; \<^const>\<open>None\<close> is \<^verbatim>\<open>C_ERR\<close>.\<close>

definition zslParseLexRangeItem :: "byte list \<Rightarrow> (lexbound \<times> bool) option" where
  "zslParseLexRangeItem c =
     (let c0 = (c @ [0]) ! 0; c1 = (c @ [0, 0]) ! 1
      in if c0 = chr CHR ''+'' then (if c1 \<noteq> 0 then None else Some (Maxstring, True))
         else if c0 = chr CHR ''-'' then (if c1 \<noteq> 0 then None else Some (Minstring, True))
         else if c0 = chr CHR ''('' then Some (Str (tl c), True)
         else if c0 = chr CHR ''['' then Some (Str (tl c), False)
         else None)"

datatype range_arg = Int_encoded | Sds_encoded "byte list"

definition zslParseLexRange :: "range_arg \<Rightarrow> range_arg \<Rightarrow> zlexrangespec option" where
  "zslParseLexRange mn mx =
     (case (mn, mx) of
        (Sds_encoded a, Sds_encoded b) \<Rightarrow> do {
          (l, lex) \<leftarrow> zslParseLexRangeItem a;
          (u, uex) \<leftarrow> zslParseLexRangeItem b;
          Some \<lparr>lx_min = l, lx_max = u, lx_minex = lex, lx_maxex = uex\<rparr>
        }
      | _ \<Rightarrow> None)"

text \<open>Two strings at the same address are equal, so that the first test of \<^verbatim>\<open>sdscmplex\<close> agrees with \<^verbatim>\<open>sdscmp\<close> on them.\<close>

definition sdscmplex :: "lexbound \<Rightarrow> lexbound \<Rightarrow> int" where
  "sdscmplex a b =
     (if a = b then 0
      else if a = Minstring \<or> b = Maxstring then -1
      else if a = Maxstring \<or> b = Minstring then 1
      else (case (a, b) of (Str s, Str t) \<Rightarrow> sdscmp s t | _ \<Rightarrow> 0))"

definition zslLexValueGteMin :: "byte list \<Rightarrow> zlexrangespec \<Rightarrow> bool" where
  "zslLexValueGteMin value spec =
     (if lx_minex spec then sdscmplex (Str value) (lx_min spec) > 0 else sdscmplex (Str value) (lx_min spec) \<ge> 0)"

definition zslLexValueLteMax :: "byte list \<Rightarrow> zlexrangespec \<Rightarrow> bool" where
  "zslLexValueLteMax value spec =
     (if lx_maxex spec then sdscmplex (Str value) (lx_max spec) < 0 else sdscmplex (Str value) (lx_max spec) \<le> 0)"

text \<open>Comparing the header's missing element, which no caller does, is undefined.\<close>

definition ele_test :: "(byte list \<Rightarrow> bool) \<Rightarrow> 's zskiplistNode \<Rightarrow> bool" where
  "ele_test P n = (case zn_ele n of None \<Rightarrow> False | Some e \<Rightarrow> P e)"

definition zslIsInLexRange :: "'s zheap \<Rightarrow> zskiplist \<Rightarrow> zlexrangespec \<Rightarrow> bool option" where
  "zslIsInLexRange h zsl rng =
     (let cmp = sdscmplex (lx_min rng) (lx_max rng)
      in if cmp > 0 \<or> cmp = 0 \<and> (lx_minex rng \<or> lx_maxex rng) then Some False
      else (case z_tail zsl of
        None \<Rightarrow> Some False
      | Some t \<Rightarrow> do {
          n \<leftarrow> h t;
          e \<leftarrow> zn_ele n;
          if \<not> zslLexValueGteMin e rng then Some False
          else do {
            f \<leftarrow> next_node h (z_header zsl);
            (case f of
               None \<Rightarrow> Some False
             | Some (_, n) \<Rightarrow> do { e \<leftarrow> zn_ele n; Some (zslLexValueLteMax e rng) })
          }
        }))"

definition zslFirstInLexRange :: "'s zheap \<Rightarrow> zskiplist \<Rightarrow> zlexrangespec \<Rightarrow> nat option option" where
  "zslFirstInLexRange h zsl rng = do {
     b \<leftarrow> zslIsInLexRange h zsl rng;
     if \<not> b then Some None
     else do {
       (x, _, _) \<leftarrow> descend (\<lambda>_ :: ulong. ele_test (\<lambda>e. \<not> zslLexValueGteMin e rng)) h (z_level zsl) (z_header zsl) 0;
       f \<leftarrow> next_node h x;
       (x, n) \<leftarrow> f;
       e \<leftarrow> zn_ele n;
       Some (if zslLexValueLteMax e rng then Some x else None)
     }
   }"

definition zslLastInLexRange :: "'s zheap \<Rightarrow> zskiplist \<Rightarrow> zlexrangespec \<Rightarrow> nat option option" where
  "zslLastInLexRange h zsl rng = do {
     b \<leftarrow> zslIsInLexRange h zsl rng;
     if \<not> b then Some None
     else do {
       (x, _, _) \<leftarrow> descend (\<lambda>_ :: ulong. ele_test (\<lambda>e. zslLexValueLteMax e rng)) h (z_level zsl) (z_header zsl) 0;
       n \<leftarrow> h x;
       e \<leftarrow> zn_ele n;
       Some (if zslLexValueGteMin e rng then Some x else None)
     }
   }"

section \<open>Deleting ranges\<close>

text \<open>The hash table of a sorted set maps an element to its node's score, here the node's address. The loop that
  the three functions share: the condition sees how many nodes were removed and the next node.\<close>

type_synonym zdict = "(byte list, nat) dict"

partial_function (option) range_loop ::
    "(ulong \<Rightarrow> 's zskiplistNode \<Rightarrow> bool) \<Rightarrow> nat list \<Rightarrow> zptr \<Rightarrow> 's zheap \<Rightarrow> zskiplist \<Rightarrow> zdict \<Rightarrow> ulong \<Rightarrow>
     ('s zheap \<times> zskiplist \<times> zdict \<times> ulong) option" where
  "range_loop cond update x h zsl d removed =
     (case x of
        None \<Rightarrow> Some (h, zsl, d, removed)
      | Some a \<Rightarrow>
          Option.bind (h a) (\<lambda>n.
            if cond removed n then
              Option.bind (zlev h a 0) (\<lambda>l.
              Option.bind (zslDeleteNode h zsl a update) (\<lambda>(h, zsl).
              Option.bind (zn_ele n) (\<lambda>e.
              Option.bind (dictDelete d e) (\<lambda>(_, d).
              Option.bind (zslFreeNode h a) (\<lambda>h.
              range_loop cond update (forward l) h zsl d (removed + 1))))))
            else Some (h, zsl, d, removed)))"

definition zslDeleteRangeByScore ::
    "'s::linorder zheap \<Rightarrow> zskiplist \<Rightarrow> 's zrangespec \<Rightarrow> zdict \<Rightarrow> ('s zheap \<times> zskiplist \<times> zdict \<times> ulong) option" where
  "zslDeleteRangeByScore h zsl rng d = do {
     (x, _, update) \<leftarrow> descend (\<lambda>(_ :: ulong) n. if r_minex rng then zn_score n \<le> r_min rng else zn_score n < r_min rng)
        h (z_level zsl) (z_header zsl) 0;
     l \<leftarrow> zlev h x 0;
     range_loop (\<lambda>_ n. if r_maxex rng then zn_score n < r_max rng else zn_score n \<le> r_max rng)
        (map fst update) (forward l) h zsl d 0
   }"

definition zslDeleteRangeByLex ::
    "'s::linorder zheap \<Rightarrow> zskiplist \<Rightarrow> zlexrangespec \<Rightarrow> zdict \<Rightarrow> ('s zheap \<times> zskiplist \<times> zdict \<times> ulong) option" where
  "zslDeleteRangeByLex h zsl rng d = do {
     (x, _, update) \<leftarrow> descend (\<lambda>_ :: ulong. ele_test (\<lambda>e. \<not> zslLexValueGteMin e rng)) h (z_level zsl) (z_header zsl) 0;
     l \<leftarrow> zlev h x 0;
     range_loop (\<lambda>_. ele_test (\<lambda>e. zslLexValueLteMax e rng)) (map fst update) (forward l) h zsl d 0
   }"

text \<open>\<^verbatim>\<open>traversed\<close> grows with \<^verbatim>\<open>removed\<close> in the loop.\<close>

definition zslDeleteRangeByRank ::
    "'s::linorder zheap \<Rightarrow> zskiplist \<Rightarrow> uint \<Rightarrow> uint \<Rightarrow> zdict \<Rightarrow> ('s zheap \<times> zskiplist \<times> zdict \<times> ulong) option" where
  "zslDeleteRangeByRank h zsl start end d = do {
     (x, traversed, update) \<leftarrow> descend (\<lambda>(t :: ulong) _. t < ucast start) h (z_level zsl) (z_header zsl) 0;
     let traversed = traversed + 1;
     l \<leftarrow> zlev h x 0;
     range_loop (\<lambda>removed _. traversed + removed \<le> ucast end) (map fst update) (forward l) h zsl d 0
   }"

end
