(* ===== verification/Skiplist_Levels.thy ===== *)
theory Skiplist_Levels
  imports Skiplist
begin

text \<open>
  The skip list refines a sorted list. A list of addresses with their heights determines the links and spans of
  every level, and the operations are shown to keep the heap in that shape.
\<close>

section \<open>Levels\<close>

text \<open>The next node of level \<open>i\<close> in a list of addresses and heights, with its distance. When there is none,
  the distance is that to the end.\<close>

fun nxt :: "nat \<Rightarrow> (nat \<times> nat) list \<Rightarrow> zptr \<times> nat" where
  "nxt i [] = (None, 0)"
| "nxt i ((a, k) # ps) = (if i < k then (Some a, 1) else (fst (nxt i ps), Suc (snd (nxt i ps))))"

definition low :: "nat \<Rightarrow> (nat \<times> nat) list \<Rightarrow> bool" where
  "low i ps \<longleftrightarrow> (\<forall>(a, k) \<in> set ps. k \<le> i)"

lemma low_simps [simp]: "low i []" "low i ((a, k) # ps) \<longleftrightarrow> k \<le> i \<and> low i ps" "low i (ps @ qs) \<longleftrightarrow> low i ps \<and> low i qs"
  by (auto simp: low_def)

lemma nxt_low: "low i ps \<Longrightarrow> nxt i (ps @ qs) = (fst (nxt i qs), length ps + snd (nxt i qs))"
  by (induction ps) auto

lemma nxt_hit: "low i ps \<Longrightarrow> i < k \<Longrightarrow> nxt i (ps @ (a, k) # qs) = (Some a, Suc (length ps))"
  by (simp add: nxt_low)

lemma nxt_none: "low i ps \<Longrightarrow> nxt i ps = (None, length ps)"
  using nxt_low [of i ps "[]"] by simp

lemma nxt_high: "\<not> low i ps \<Longrightarrow> nxt i (ps @ qs) = nxt i ps"
  by (induction ps) auto

lemma low_split: "\<not> low i ps \<Longrightarrow> \<exists>A a k B. ps = A @ (a, k) # B \<and> low i A \<and> i < k"
proof (induction ps)
  case (Cons p ps)
  obtain a k where p: "p = (a, k)" by force
  show ?case
  proof (cases "i < k")
    case True
    with p show ?thesis by (intro exI [of _ "[]"]) auto
  next
    case False
    with Cons p obtain A b j B where "ps = A @ (b, j) # B" "low i A" "i < j" by auto
    with p False show ?thesis by (intro exI [of _ "p # A"]) auto
  qed
qed simp

lemma low_last: "\<not> low i ps \<Longrightarrow> \<exists>A a k B. ps = A @ (a, k) # B \<and> low i B \<and> i < k"
proof (induction ps rule: rev_induct)
  case (snoc p ps)
  obtain a k where p: "p = (a, k)" by force
  show ?case
  proof (cases "i < k")
    case True
    with p show ?thesis by (intro exI [of _ ps]) auto
  next
    case False
    with snoc p obtain A b j B where "ps = A @ (b, j) # B" "low i B" "i < j" by auto
    with p False show ?thesis by (intro exI [of _ A]) auto
  qed
qed simp

lemma low_mono: "low i ps \<Longrightarrow> i \<le> j \<Longrightarrow> low j ps"
  by (auto simp: low_def)

lemma nxt_le: "snd (nxt i ps) \<le> length ps"
  by (induction ps) auto

section \<open>The heap\<close>

text \<open>A node of height \<open>k\<close> whose level \<open>i\<close> has the link and span \<open>E i\<close>. Spans at and above the list's
  level are not determined.\<close>

definition node_ok :: "'s zheap \<Rightarrow> nat \<Rightarrow> nat \<Rightarrow> nat \<Rightarrow> (nat \<Rightarrow> zptr \<times> nat) \<Rightarrow> bool" where
  "node_ok h zl a k E \<longleftrightarrow>
     (\<exists>n. h a = Some n \<and> length (zn_level n) = k \<and>
        (\<forall>i < k. forward (zn_level n ! i) = fst (E i) \<and> (i < zl \<longrightarrow> span (zn_level n ! i) = of_nat (snd (E i)))))"

text \<open>The nodes of \<open>us\<close>, followed by \<open>B\<close> at the levels below \<open>m\<close> and by \<open>A\<close> at the others.\<close>

definition lvs :: "'s zheap \<Rightarrow> nat \<Rightarrow> (nat \<times> nat) list \<Rightarrow> (nat \<times> nat) list \<Rightarrow> (nat \<times> nat) list \<Rightarrow> nat \<Rightarrow> bool" where
  "lvs h zl us A B m \<longleftrightarrow>
     (\<forall>us1 a k us2. us = us1 @ (a, k) # us2 \<longrightarrow> node_ok h zl a k (\<lambda>i. nxt i (us2 @ (if i < m then B else A))))"

lemma lvsD: "lvs h zl us A B m \<Longrightarrow> us = us1 @ (a, k) # us2 \<Longrightarrow> node_ok h zl a k (\<lambda>i. nxt i (us2 @ (if i < m then B else A)))"
  unfolding lvs_def by blast

abbreviation lvs0 :: "'s zheap \<Rightarrow> nat \<Rightarrow> (nat \<times> nat) list \<Rightarrow> (nat \<times> nat) list \<Rightarrow> bool" where
  "lvs0 h zl us A \<equiv> lvs h zl us A A 0"

lemma lvs0D: "lvs0 h zl us A \<Longrightarrow> us = us1 @ (a, k) # us2 \<Longrightarrow> node_ok h zl a k (\<lambda>i. nxt i (us2 @ A))"
  using lvsD [of h zl us A A 0] by simp

lemma lvs_start: "lvs h zl us A B 0 = lvs0 h zl us A"
  by (simp add: lvs_def)

lemma node_ok_cong: "node_ok h zl a k E \<Longrightarrow> (\<And>i. i < k \<Longrightarrow> fst (E i) = fst (E' i)) \<Longrightarrow>
    (\<And>i. i < k \<Longrightarrow> i < zl' \<Longrightarrow> i < zl \<and> snd (E i) = snd (E' i)) \<Longrightarrow> h' a = h a \<Longrightarrow> node_ok h' zl' a k E'"
  unfolding node_ok_def by force

lemma lvs0_append: "lvs0 h zl (us @ vs) A \<longleftrightarrow> lvs0 h zl us (vs @ A) \<and> lvs0 h zl vs A"
proof
  assume *: "lvs0 h zl (us @ vs) A"
  have "lvs0 h zl us (vs @ A)"
    unfolding lvs_def
  proof (intro allI impI)
    fix us1 a k us2 assume "us = us1 @ (a, k) # us2"
    then have "us @ vs = us1 @ (a, k) # us2 @ vs" by simp
    from lvs0D [OF * this] show "node_ok h zl a k (\<lambda>i. nxt i (us2 @ (if i < 0 then vs @ A else vs @ A)))" by simp
  qed
  moreover have "lvs0 h zl vs A"
    unfolding lvs_def
  proof (intro allI impI)
    fix us1 a k us2 assume "vs = us1 @ (a, k) # us2"
    then have "us @ vs = (us @ us1) @ (a, k) # us2" by simp
    from lvs0D [OF * this] show "node_ok h zl a k (\<lambda>i. nxt i (us2 @ (if i < 0 then A else A)))" by simp
  qed
  ultimately show "lvs0 h zl us (vs @ A) \<and> lvs0 h zl vs A" by blast
next
  assume *: "lvs0 h zl us (vs @ A) \<and> lvs0 h zl vs A"
  show "lvs0 h zl (us @ vs) A"
    unfolding lvs_def
  proof (intro allI impI)
    fix us1 a k us2 assume s: "us @ vs = us1 @ (a, k) # us2"
    then consider (l) w where "us = us1 @ (a, k) # w" "us2 = w @ vs" | (r) w where "vs = w @ (a, k) # us2" "us1 = us @ w"
      by (auto simp: append_eq_append_conv2 append_eq_Cons_conv Cons_eq_append_conv)
    then show "node_ok h zl a k (\<lambda>i. nxt i (us2 @ (if i < 0 then A else A)))"
    proof cases
      case l
      then show ?thesis using * lvs0D [of h zl us "vs @ A" us1 a k w] by simp
    next
      case r
      then show ?thesis using * lvs0D [of h zl vs A w a k us2] by simp
    qed
  qed
qed

lemma zlev_node_ok:
  "node_ok h zl a k E \<Longrightarrow> i < k \<Longrightarrow> \<exists>l. zlev h a i = Some l \<and> forward l = fst (E i) \<and> (i < zl \<longrightarrow> span l = of_nat (snd (E i)))"
  by (auto simp: node_ok_def zlev_def)

text \<open>Writing one level of the last node above it moves the boundary between the two suffixes.\<close>

lemma lvs_step:
  assumes l: "lvs h zl us A B m" and u: "us = us1 @ (u, k) # us2" "m < k" "low m us2" and d: "distinct (map fst us)"
    and w: "f (zn_level n ! m) = l'" "h u = Some n" "forward l' = fst (nxt m (us2 @ B))" "m < zl \<longrightarrow> span l' = of_nat (snd (nxt m (us2 @ B)))"
  shows "upd_lev h u m f = Some (h(u \<mapsto> n\<lparr>zn_level := (zn_level n)[m := l']\<rparr>))"
    and "lvs (h(u \<mapsto> n\<lparr>zn_level := (zn_level n)[m := l']\<rparr>)) zl us A B (Suc m)"
proof -
  have ok: "length (zn_level n) = k" "\<forall>i < k. forward (zn_level n ! i) = fst (nxt i (us2 @ (if i < m then B else A))) \<and>
      (i < zl \<longrightarrow> span (zn_level n ! i) = of_nat (snd (nxt i (us2 @ (if i < m then B else A)))))"
    using lvsD [OF l u(1)] w(2) unfolding node_ok_def by auto
  show "upd_lev h u m f = Some (h(u \<mapsto> n\<lparr>zn_level := (zn_level n)[m := l']\<rparr>))" using ok(1) u(2) w by (simp add: upd_lev_def)
  show "lvs (h(u \<mapsto> n\<lparr>zn_level := (zn_level n)[m := l']\<rparr>)) zl us A B (Suc m)" (is "lvs ?h _ _ _ _ _")
    unfolding lvs_def
  proof (intro allI impI)
    fix vs1 a j vs2 assume s: "us = vs1 @ (a, j) # vs2"
    show "node_ok ?h zl a j (\<lambda>i. nxt i (vs2 @ (if i < Suc m then B else A)))"
    proof (cases "a = u")
      case True
      have "vs1 = us1 \<and> vs2 = us2 \<and> j = k"
      proof -
        have "map fst us1 @ u # map fst us2 = map fst vs1 @ u # map fst vs2" using s u(1) True by (metis fst_conv list.simps(9) map_append)
        moreover have "u \<notin> set (map fst us1)" "u \<notin> set (map fst us2)" using d u(1) by auto
        moreover have "u \<notin> set (map fst vs1)" using d s True by auto
        ultimately have "length vs1 = length us1" by (metis append_Cons_eq_iff length_map)
        with s u(1) True show ?thesis by (metis append_eq_append_conv list.inject prod.inject)
      qed
      with ok w(3,4) True show ?thesis
        unfolding node_ok_def by (auto simp: nth_list_update less_Suc_eq)
    next
      case False
      have "nxt i (vs2 @ (if i < m then B else A)) = nxt i (vs2 @ (if i < Suc m then B else A))" if "i < j" for i
      proof (cases "i = m")
        case True
        have "\<not> low m vs2"
        proof -
          from s u(1) False consider w where "us1 = vs1 @ (a, j) # w" "vs2 = w @ (u, k) # us2" | w where "us2 = w @ (a, j) # vs2"
            by (auto simp: append_eq_append_conv2 append_eq_Cons_conv Cons_eq_append_conv)
          then show ?thesis using u(2,3) that True by cases auto
        qed
        with True show ?thesis by (simp add: nxt_high)
      qed (simp add: less_Suc_eq)
      then show ?thesis using node_ok_cong [OF lvsD [OF l s]] False by auto
    qed
  qed
qed

section \<open>Searching\<close>

text \<open>The search condition holds for the nodes of \<open>us\<close> after the header and for no node of \<open>vs\<close>.\<close>

definition cuts :: "('w::len word \<Rightarrow> 's zskiplistNode \<Rightarrow> bool) \<Rightarrow> 's zheap \<Rightarrow> (nat \<times> nat) list \<Rightarrow> (nat \<times> nat) list \<Rightarrow> bool" where
  "cuts cond h us vs \<longleftrightarrow>
     (\<forall>P a k Q n. us @ vs = P @ (a, k) # Q \<longrightarrow> P \<noteq> [] \<longrightarrow> h a = Some n \<longrightarrow>
        (cond (of_nat (length P)) n \<longleftrightarrow> length P < length us))"

lemma ucast_of_nat: "d < 2 ^ 64 \<Longrightarrow> ucast (of_nat d :: ulong) = (of_nat d :: 'w::len word)"
  by (simp add: unsigned_of_nat take_bit_nat_eq_self)

lemma walk_stops:
  assumes l: "lvs0 h zl (us @ vs) []" and c: "cuts cond h us vs" and len: "length (us @ vs) < 2 ^ 64"
    and i: "i < zl"
  shows "us = us1 @ (x, k) # us2 \<Longrightarrow> i < k \<Longrightarrow>
    \<exists>us1' y k' us2'. us = us1' @ (y, k') # us2' \<and> i < k' \<and> low i us2' \<and>
      walk cond h i x (of_nat (length us1)) = Some (y, of_nat (length us1'))"
proof (induction "length us2" arbitrary: us1 x k us2 rule: less_induct)
  case less
  have "us @ vs = us1 @ (x, k) # us2 @ vs" using less.prems(1) by simp
  from zlev_node_ok [OF lvs0D [OF l this] less.prems(2)] i obtain lv where
    lv: "zlev h x i = Some lv" "forward lv = fst (nxt i (us2 @ vs))" "span lv = of_nat (snd (nxt i (us2 @ vs)))" by auto
  have sp: "ucast (span lv) = (of_nat (snd (nxt i (us2 @ vs))) :: 'b word)"
  proof -
    have "length (us2 @ vs) < 2 ^ 64" using len less.prems(1) by simp
    with nxt_le [of i "us2 @ vs"] have "snd (nxt i (us2 @ vs)) < 2 ^ 64" by linarith
    then show ?thesis unfolding lv(3) by (rule ucast_of_nat)
  qed
  have node: "\<exists>n. h a = Some n \<and> (cond (of_nat (length P)) n \<longleftrightarrow> length P < length us)" if s: "us @ vs = P @ (a, j) # Q" "P \<noteq> []" for P a j Q
  proof -
    obtain n where "h a = Some n" using lvs0D [OF l s(1)] unfolding node_ok_def by blast
    with c s show ?thesis unfolding cuts_def by blast
  qed
  show ?case
  proof (cases "low i us2")
    case False
    then obtain A y j B where s: "us2 = A @ (y, j) # B" "low i A" "i < j" using low_split by blast
    let ?P = "us1 @ (x, k) # A"
    have us: "us = ?P @ (y, j) # B" using less.prems(1) s(1) by simp
    then have "us @ vs = ?P @ (y, j) # (B @ vs)" by simp
    from node [OF this] us obtain n where n: "h y = Some n" "cond (of_nat (length ?P)) n" by auto
    have nx: "nxt i (us2 @ vs) = (Some y, Suc (length A))" using nxt_hit [OF s(2,3)] s(1) by simp
    have t: "of_nat (length us1) + ucast (span lv) = (of_nat (length ?P) :: 'b word)" unfolding sp by (simp add: nx)
    have "walk cond h i x (of_nat (length us1)) = walk cond h i y (of_nat (length ?P))"
      using lv(1,2) nx n t by (subst walk.simps) (simp add: ac_simps)
    moreover have "length B < length us2" using s(1) by simp
    from less.hyps [OF this us s(3)] obtain us1' z k' us2' where "us = us1' @ (z, k') # us2'" "i < k'" "low i us2'"
      "walk cond h i y (of_nat (length ?P)) = Some (z, of_nat (length us1'))" by blast
    ultimately show ?thesis by auto
  next
    case True
    have "walk cond h i x (of_nat (length us1)) = Some (x, of_nat (length us1))"
    proof (cases "low i vs")
      case v: True
      then show ?thesis using lv(1,2) nxt_none [of i "us2 @ vs"] True by (subst walk.simps) simp
    next
      case False
      then obtain A y j B where s: "vs = A @ (y, j) # B" "low i A" "i < j" using low_split by blast
      let ?P = "us @ A"
      have "us @ vs = ?P @ (y, j) # B" using s(1) by simp
      moreover have "?P \<noteq> []" using less.prems(1) by simp
      ultimately obtain n where n: "h y = Some n" "\<not> cond (of_nat (length ?P)) n" using node [of ?P y j B] by auto
      have nx: "nxt i (us2 @ vs) = (Some y, Suc (length (us2 @ A)))" using nxt_hit [of i "us2 @ A" j y B] s True by simp
      have t: "of_nat (length us1) + ucast (span lv) = (of_nat (length ?P) :: 'b word)"
        unfolding sp using less.prems(1) by (simp add: nx)
      show ?thesis using lv(1,2) nx n t by (subst walk.simps) (simp add: ac_simps)
    qed
    with less.prems True show ?thesis by auto
  qed
qed

text \<open>The entries of the update array: at level \<open>i\<close> the last node of \<open>us\<close> that has this level, and its rank.\<close>

definition upd_ok :: "(nat \<times> nat) list \<Rightarrow> nat \<Rightarrow> nat \<Rightarrow> nat \<Rightarrow> bool" where
  "upd_ok us i a r \<longleftrightarrow> (\<exists>us1 k us2. us = us1 @ (a, k) # us2 \<and> i < k \<and> low i us2 \<and> r = length us1)"

lemma descend_finds:
  assumes l: "lvs0 h zl (us @ vs) []" and c: "cuts cond h us vs" and len: "length (us @ vs) < 2 ^ 64"
  shows "z \<le> zl \<Longrightarrow> us = us1 @ (x, k) # us2 \<Longrightarrow> z \<le> k \<Longrightarrow>
    \<exists>y t update. descend cond h z x (of_nat (length us1)) = Some (y, t, update) \<and> length update = z \<and>
      (\<forall>i < z. \<exists>r. snd (update ! i) = of_nat r \<and> upd_ok us i (fst (update ! i)) r) \<and>
      (y, t) = (if z = 0 then (x, of_nat (length us1)) else update ! 0)"
proof (induction z arbitrary: us1 x k us2)
  case (Suc i)
  obtain us1' y k' us2' where s: "us = us1' @ (y, k') # us2'" "i < k'" "low i us2'"
    "walk cond h i x (of_nat (length us1)) = Some (y, of_nat (length us1'))"
    using walk_stops [OF l c len _ Suc.prems(2), of i] Suc.prems by auto
  from Suc.IH [OF _ s(1)] Suc.prems(1) s(2) obtain z t update where d:
    "descend cond h i y (of_nat (length us1')) = Some (z, t, update)" "length update = i"
    "\<forall>j < i. \<exists>r. snd (update ! j) = of_nat r \<and> upd_ok us j (fst (update ! j)) r"
    "(z, t) = (if i = 0 then (y, of_nat (length us1')) else update ! 0)" by auto
  have u: "upd_ok us i y (length us1')" unfolding upd_ok_def using s by blast
  let ?U = "update @ [(y, of_nat (length us1'))]"
  have "\<forall>j < Suc i. \<exists>r. snd (?U ! j) = of_nat r \<and> upd_ok us j (fst (?U ! j)) r"
    using d(2,3) u by (auto simp: nth_append less_Suc_eq)
  moreover have "descend cond h (Suc i) x (of_nat (length us1)) = Some (z, t, ?U)" using s(4) d(1) by simp
  moreover have "(z, t) = ?U ! 0" using d(2,4) by (auto simp: nth_append)
  ultimately show ?case using d(2) by (intro exI conjI) auto
qed simp

lemma upd_ok_last:
  assumes "upd_ok us 0 a r" and pos: "\<And>b k. (b, k) \<in> set us \<Longrightarrow> 0 < k"
  shows "r = length us - 1 \<and> a = fst (last us)"
proof -
  obtain us1 k us2 where u: "us = us1 @ (a, k) # us2" "low 0 us2" "r = length us1" using assms(1) unfolding upd_ok_def by blast
  have "us2 = []"
  proof (cases us2)
    case (Cons p ps)
    obtain b j where "p = (b, j)" by force
    then show ?thesis using Cons u(1,2) pos [of b j] by simp
  qed
  with u show ?thesis by simp
qed

section \<open>Loops over the levels\<close>

text \<open>What the loops leave alone: all but the levels of a node, and all nodes but those named.\<close>

definition same_data :: "'s zheap \<Rightarrow> 's zheap \<Rightarrow> bool" where
  "same_data h h' \<longleftrightarrow> (\<forall>a. map_option (\<lambda>n. (zn_ele n, zn_score n, zn_backward n)) (h' a) =
     map_option (\<lambda>n. (zn_ele n, zn_score n, zn_backward n)) (h a))"

definition frame_on :: "nat set \<Rightarrow> 's zheap \<Rightarrow> 's zheap \<Rightarrow> bool" where
  "frame_on S h h' \<longleftrightarrow> (\<forall>a. a \<notin> S \<longrightarrow> h' a = h a)"

lemma same_data_refl [simp]: "same_data h h"
  by (simp add: same_data_def)

lemma same_data_trans: "same_data h h' \<Longrightarrow> same_data h' h'' \<Longrightarrow> same_data h h''"
  by (simp add: same_data_def)

lemma same_data_upd: "h a = Some n \<Longrightarrow> same_data h (h(a \<mapsto> n\<lparr>zn_level := ls\<rparr>))"
  by (simp add: same_data_def)

lemma frame_on_refl [simp]: "frame_on S h h"
  by (simp add: frame_on_def)

lemma frame_on_trans: "frame_on S h h' \<Longrightarrow> frame_on S h' h'' \<Longrightarrow> frame_on S h h''"
  by (simp add: frame_on_def)

lemma frame_on_upd: "a \<in> S \<Longrightarrow> frame_on S h (h(a \<mapsto> n))"
  by (auto simp: frame_on_def)

lemma node_ok_upd: "b \<noteq> a \<Longrightarrow> node_ok (h(b \<mapsto> n)) zl a k E = node_ok h zl a k E"
  by (simp add: node_ok_def)

lemma lvs_frame:
  assumes "lvs h zl us A B m" "frame_on S h h'" "S \<inter> fst ` set us = {}"
  shows "lvs h' zl us A B m"
  unfolding lvs_def
proof (intro allI impI)
  fix us1 a k us2 assume s: "us = us1 @ (a, k) # us2"
  then have "h' a = h a" using assms(2,3) by (auto simp: frame_on_def)
  with lvsD [OF assms(1) s] show "node_ok h' zl a k (\<lambda>i. nxt i (us2 @ (if i < m then B else A)))" by (simp add: node_ok_def)
qed

lemma lvs_upd: "lvs h zl us A B m \<Longrightarrow> x \<notin> fst ` set us \<Longrightarrow> lvs (h(x \<mapsto> n)) zl us A B m"
  by (rule lvs_frame [of h zl us A B m "{x}"]) (simp_all add: frame_on_upd)

lemma upd_lev_eq: "h a = Some n \<Longrightarrow> i < length (zn_level n) \<Longrightarrow>
    upd_lev h a i f = Some (h(a \<mapsto> n\<lparr>zn_level := (zn_level n)[i := f (zn_level n ! i)]\<rparr>))"
  by (simp add: upd_lev_def)

lemma upd_ok_node:
  assumes "lvs h zl us A B m" "upd_ok us m u r"
  shows "\<exists>us1 k us2 n. us = us1 @ (u, k) # us2 \<and> r = length us1 \<and> m < k \<and> low m us2 \<and> h u = Some n \<and> length (zn_level n) = k \<and>
    forward (zn_level n ! m) = fst (nxt m A) \<and> (m < zl \<longrightarrow> span (zn_level n ! m) = of_nat (length us2 + snd (nxt m A)))"
proof -
  obtain us1 k us2 where u: "us = us1 @ (u, k) # us2" "m < k" "low m us2" "r = length us1" using assms(2) unfolding upd_ok_def by blast
  from lvsD [OF assms(1) u(1)] u(2) obtain n where n: "h u = Some n" "length (zn_level n) = k"
    "forward (zn_level n ! m) = fst (nxt m (us2 @ A)) \<and> (m < zl \<longrightarrow> span (zn_level n ! m) = of_nat (snd (nxt m (us2 @ A))))"
    unfolding node_ok_def by auto
  with u show ?thesis by (auto simp: nxt_low)
qed

lemma lev_both [simp]:
  "l\<lparr>forward := p, span := s\<rparr> = \<lparr>forward = p, span = s\<rparr>" "l\<lparr>span := s, forward := p\<rparr> = \<lparr>forward = p, span = s\<rparr>"
  for l :: zskiplistLevel
  by (cases l; simp)+

text \<open>The levels of the new node that are already linked.\<close>

definition linked :: "'s zheap \<Rightarrow> nat \<Rightarrow> nat \<Rightarrow> nat \<Rightarrow> (nat \<times> nat) list \<Rightarrow> bool" where
  "linked h x k m vs \<longleftrightarrow>
     (\<exists>n. h x = Some n \<and> length (zn_level n) = k \<and>
        (\<forall>i < m. forward (zn_level n ! i) = fst (nxt i vs) \<and> span (zn_level n ! i) = of_nat (snd (nxt i vs))))"

lemma ucast_of_nat_uint: "d < 2 ^ 32 \<Longrightarrow> ucast (of_nat d :: uint) = (of_nat d :: ulong)"
  by (simp add: unsigned_of_nat take_bit_nat_eq_self)

lemma link_level_ok:
  assumes l: "lvs h zl us vs ((x, k) # vs) m" and m: "m < k" "k \<le> zl" and x: "linked h x k m vs" "x \<notin> fst ` set us"
    and d: "distinct (map fst us)" and u: "nth_opt update m = Some (u, of_nat r)" "upd_ok us m u r"
    and r0: "nth_opt update 0 = Some (u0, of_nat (length us - 1))" and len: "length us < 2 ^ 32"
  shows "\<exists>h'. link_level h x update m = Some h' \<and> lvs h' zl us vs ((x, k) # vs) (Suc m) \<and> linked h' x k (Suc m) vs \<and>
    same_data h h' \<and> frame_on (insert x (fst ` set us)) h h'"
proof -
  obtain us1 j us2 n where s: "us = us1 @ (u, j) # us2" "r = length us1" "m < j" "low m us2" "h u = Some n" "length (zn_level n) = j"
    "forward (zn_level n ! m) = fst (nxt m vs)" "span (zn_level n ! m) = of_nat (length us2 + snd (nxt m vs))"
    using upd_ok_node [OF l u(2)] m by auto
  obtain y where y: "h x = Some y" "length (zn_level y) = k"
    "\<forall>i < m. forward (zn_level y ! i) = fst (nxt i vs) \<and> span (zn_level y ! i) = of_nat (snd (nxt i vs))"
    using x(1) unfolding linked_def by blast
  have ux: "u \<noteq> x" "x \<noteq> u" using x(2) s(1) by auto
  have diff: "ucast (of_nat (length us - 1) - of_nat r :: uint) = (of_nat (length us2) :: ulong)"
  proof -
    have "of_nat (length us - 1) - of_nat r = (of_nat (length us2) :: uint)" using s(1,2) by (simp add: of_nat_diff)
    moreover have "length us2 < 2 ^ 32" using len s(1) by simp
    ultimately show ?thesis by (simp only: ucast_of_nat_uint)
  qed
  have diff1: "ucast (of_nat (length us - 1) - of_nat r + 1 :: uint) = (of_nat (Suc (length us2)) :: ulong)"
  proof -
    have "of_nat (length us - 1) - of_nat r + 1 = (of_nat (Suc (length us2)) :: uint)" using s(1,2) by (simp add: of_nat_diff)
    moreover have "Suc (length us2) < 2 ^ 32" using len s(1) by simp
    ultimately show ?thesis by (simp only: ucast_of_nat_uint)
  qed
  let ?nx = "\<lparr>forward = fst (nxt m vs), span = of_nat (snd (nxt m vs))\<rparr>" and ?nu = "\<lparr>forward = Some x, span = of_nat (Suc (length us2))\<rparr>"
  let ?y = "y\<lparr>zn_level := (zn_level y)[m := ?nx]\<rparr>" and ?n = "n\<lparr>zn_level := (zn_level n)[m := ?nu]\<rparr>"
  have w: "link_level h x update m = Some (h(x \<mapsto> ?y, u \<mapsto> ?n))"
    unfolding link_level_def set_forward_def set_span_def
    using u(1) r0 s(3,5-8) y(1,2) m ux diff diff1 by (auto simp: zlev_def upd_lev_eq fun_upd_twist add.commute)
  have "lvs (h(x \<mapsto> ?y)) zl us vs ((x, k) # vs) m" using l x(2) by (rule lvs_upd)
  from lvs_step(2) [OF this s(1,3,4) d, of "\<lambda>_. ?nu" n ?nu] s(5) ux nxt_hit [OF s(4) m(1), of x vs]
  have "lvs (h(x \<mapsto> ?y, u \<mapsto> ?n)) zl us vs ((x, k) # vs) (Suc m)" by simp
  moreover have "linked (h(x \<mapsto> ?y, u \<mapsto> ?n)) x k (Suc m) vs"
    using y m ux unfolding linked_def by (auto simp: nth_list_update less_Suc_eq)
  moreover have "same_data h (h(x \<mapsto> ?y, u \<mapsto> ?n))" using s(5) y(1) ux by (simp add: same_data_def)
  moreover have "frame_on (insert x (fst ` set us)) h (h(x \<mapsto> ?y, u \<mapsto> ?n))" using s(1) by (auto simp: frame_on_def)
  ultimately show ?thesis using w by blast
qed

lemma link_loop_ok:
  assumes k: "k \<le> zl" and d: "distinct (map fst us)" "x \<notin> fst ` set us" and len: "length us < 2 ^ 32"
    and u: "\<And>i. i < k \<Longrightarrow> \<exists>u r. nth_opt update i = Some (u, of_nat r) \<and> upd_ok us i u r"
    and r0: "nth_opt update 0 = Some (u0, of_nat (length us - 1))"
  shows "lvs h zl us vs ((x, k) # vs) m \<Longrightarrow> linked h x k m vs \<Longrightarrow> m + n = k \<Longrightarrow>
    \<exists>h'. link_loop h x update m n = Some h' \<and> lvs h' zl us vs ((x, k) # vs) k \<and> linked h' x k k vs \<and>
      same_data h h' \<and> frame_on (insert x (fst ` set us)) h h'"
proof (induction n arbitrary: h m)
  case (Suc n)
  then have m: "m < k" by simp
  obtain u r where "nth_opt update m = Some (u, of_nat r)" "upd_ok us m u r" using u [OF m] by blast
  from link_level_ok [OF Suc.prems(1) m k Suc.prems(2) d(2,1) this r0 len] obtain h1 where
    h1: "link_level h x update m = Some h1" "lvs h1 zl us vs ((x, k) # vs) (Suc m)" "linked h1 x k (Suc m) vs"
      "same_data h h1" "frame_on (insert x (fst ` set us)) h h1" by blast
  from Suc.IH [OF h1(2,3)] Suc.prems(3) obtain h2 where
    "link_loop h1 x update (Suc m) n = Some h2" "lvs h2 zl us vs ((x, k) # vs) k" "linked h2 x k k vs"
      "same_data h1 h2" "frame_on (insert x (fst ` set us)) h1 h2" by auto
  with h1 show ?case by (auto intro: same_data_trans frame_on_trans)
qed auto

lemma untouched_loop_ok:
  assumes d: "distinct (map fst us)"
    and u: "\<And>i. i < zl \<Longrightarrow> \<exists>u r. nth_opt update i = Some (u, r) \<and> (\<exists>q. upd_ok us i u q)"
  shows "lvs h zl us vs ((x, k) # vs) m \<Longrightarrow> k \<le> m \<Longrightarrow> m + n = zl \<Longrightarrow>
    \<exists>h'. untouched_loop h update m n = Some h' \<and> lvs h' zl us vs ((x, k) # vs) zl \<and> same_data h h' \<and> frame_on (fst ` set us) h h'"
proof (induction n arbitrary: h m)
  case (Suc n)
  then have m: "m < zl" by simp
  obtain u r q where ur: "nth_opt update m = Some (u, r)" "upd_ok us m u q" using u [OF m] by blast
  obtain us1 j us2 y where s: "us = us1 @ (u, j) # us2" "m < j" "low m us2" "h u = Some y" "length (zn_level y) = j"
    "forward (zn_level y ! m) = fst (nxt m vs)" "span (zn_level y ! m) = of_nat (length us2 + snd (nxt m vs))"
    using upd_ok_node [OF Suc.prems(1) ur(2)] m by auto
  let ?l = "(zn_level y ! m)\<lparr>span := span (zn_level y ! m) + 1\<rparr>"
  define g where "g = h(u \<mapsto> y\<lparr>zn_level := (zn_level y)[m := ?l]\<rparr>)"
  have nx: "nxt m (us2 @ (x, k) # vs) = (fst (nxt m vs), length us2 + Suc (snd (nxt m vs)))"
    using nxt_low [of m "us2 @ [(x, k)]" vs] s(3) Suc.prems(2) by simp
  have h1: "set_span h u m (span (zn_level y ! m) + 1) = Some g" "lvs g zl us vs ((x, k) # vs) (Suc m)"
    using lvs_step [OF Suc.prems(1) s(1-3) d, where l' = ?l and n = y and f = "span_update (\<lambda>_. span (zn_level y ! m) + 1)"] s(4,6,7) nx
    by (simp_all add: set_span_def g_def)
  from Suc.IH [OF h1(2)] Suc.prems(2,3) obtain h2 where
    h2: "untouched_loop g update (Suc m) n = Some h2" "lvs h2 zl us vs ((x, k) # vs) zl" "same_data g h2" "frame_on (fst ` set us) g h2"
    by auto
  have "untouched_loop h update m (Suc n) = Some h2" using ur(1) s(2,4,5) h1(1) h2(1) by (simp add: zlev_def)
  moreover have "same_data h h2" using same_data_upd [of h u y, OF s(4)] h2(3) unfolding g_def by (rule same_data_trans)
  moreover have "frame_on (fst ` set us) h h2" using frame_on_upd [of u "fst ` set us" h] h2(4) s(1) unfolding g_def by (auto intro: frame_on_trans)
  ultimately show ?case using h2(2) by blast
qed auto

lemma raise_step:
  assumes l: "lvs0 h i ((hdr, K) # ps) []" and i: "i < K" "low i ps" "hdr \<notin> fst ` set ps"
  shows "\<exists>h'. set_span h hdr i (of_nat (length ps)) = Some h' \<and> lvs0 h' (Suc i) ((hdr, K) # ps) [] \<and> same_data h h' \<and> frame_on {hdr} h h'"
proof -
  from lvs0D [OF l, of "[]" hdr K ps] obtain n where n: "h hdr = Some n" "length (zn_level n) = K"
    "\<forall>j < K. forward (zn_level n ! j) = fst (nxt j ps) \<and> (j < i \<longrightarrow> span (zn_level n ! j) = of_nat (snd (nxt j ps)))"
    unfolding node_ok_def by auto
  define n' where "n' = n\<lparr>zn_level := (zn_level n)[i := (zn_level n ! i)\<lparr>span := of_nat (length ps)\<rparr>]\<rparr>"
  have n': "length (zn_level n') = K" "\<forall>j < K. forward (zn_level n' ! j) = fst (nxt j ps) \<and> (j < Suc i \<longrightarrow> span (zn_level n' ! j) = of_nat (snd (nxt j ps)))"
    using n(2,3) i(1) nxt_none [OF i(2)] by (auto simp: n'_def nth_list_update less_Suc_eq)
  let ?h = "h(hdr \<mapsto> n')"
  have "lvs0 ?h (Suc i) ((hdr, K) # ps) []"
    unfolding lvs_def
  proof (intro allI impI)
    fix us1 a k us2 assume s: "(hdr, K) # ps = us1 @ (a, k) # us2"
    then consider "us1 = []" "a = hdr" "k = K" "us2 = ps" | w where "ps = w @ (a, k) # us2" unfolding Cons_eq_append_conv by blast
    then show "node_ok ?h (Suc i) a k (\<lambda>i. nxt i (us2 @ (if i < 0 then [] else [])))"
    proof cases
      case 1
      with n' show ?thesis unfolding node_ok_def by simp
    next
      case 2
      then have "k \<le> i" "a \<noteq> hdr" using i(2,3) by auto
      with lvs0D [OF l s] show ?thesis by (auto simp: node_ok_def)
    qed
  qed
  moreover have "set_span h hdr i (of_nat (length ps)) = Some ?h" using n i(1) by (simp add: set_span_def upd_lev_eq n'_def)
  moreover have "same_data h ?h" unfolding n'_def using n(1) by (rule same_data_upd)
  ultimately show ?thesis using frame_on_upd [of hdr "{hdr}"] by blast
qed

lemma raise_loop_ok:
  assumes z: "z_length zsl = of_nat (length ps)" "z_header zsl = hdr" and hdr: "hdr \<notin> fst ` set ps"
  shows "lvs0 h i ((hdr, K) # ps) [] \<Longrightarrow> low i ps \<Longrightarrow> i + n \<le> K \<Longrightarrow>
    \<exists>h'. raise_loop h zsl i n update = Some (h', update @ replicate n (hdr, 0)) \<and> lvs0 h' (i + n) ((hdr, K) # ps) [] \<and>
      same_data h h' \<and> frame_on {hdr} h h'"
proof (induction n arbitrary: h i update)
  case (Suc n)
  obtain h1 where h1: "set_span h hdr i (of_nat (length ps)) = Some h1" "lvs0 h1 (Suc i) ((hdr, K) # ps) []" "same_data h h1" "frame_on {hdr} h h1"
    using raise_step [OF Suc.prems(1) _ Suc.prems(2) hdr] Suc.prems(3) by auto
  have "low (Suc i) ps" using Suc.prems(2) by (rule low_mono) simp
  from Suc.IH [OF h1(2) this, of "update @ [(hdr, 0)]"] Suc.prems(3) obtain h2 where
    "raise_loop h1 zsl (Suc i) n (update @ [(hdr, 0)]) = Some (h2, (update @ [(hdr, 0)]) @ replicate n (hdr, 0))"
    "lvs0 h2 (Suc i + n) ((hdr, K) # ps) []" "same_data h1 h2" "frame_on {hdr} h1 h2" by auto
  with h1 z show ?case by (auto intro: same_data_trans frame_on_trans)
qed simp

lemma unlink_level_ok:
  assumes l: "lvs h zl us ((x, k) # vs) vs m" and m: "m < zl" and x: "node_ok h zl x k (\<lambda>i. nxt i vs)" "x \<notin> fst ` set us" "x \<notin> fst ` set vs"
    and d: "distinct (map fst us)" and u: "nth_opt update m = Some u" "upd_ok us m u r"
  shows "\<exists>h'. unlink_level h x update m = Some h' \<and> lvs h' zl us ((x, k) # vs) vs (Suc m) \<and> same_data h h' \<and> frame_on (fst ` set us) h h'"
proof -
  obtain us1 j us2 n where s: "us = us1 @ (u, j) # us2" "m < j" "low m us2" "h u = Some n" "length (zn_level n) = j"
    "forward (zn_level n ! m) = fst (nxt m ((x, k) # vs))" "span (zn_level n ! m) = of_nat (length us2 + snd (nxt m ((x, k) # vs)))"
    using upd_ok_node [OF l u(2)] m by auto
  have nx: "nxt m (us2 @ vs) = (fst (nxt m vs), length us2 + snd (nxt m vs))" using nxt_low [OF s(3)] .
  have ux: "u \<noteq> x" using x(2) s(1) by auto
  let ?l = "\<lparr>forward = fst (nxt m vs), span = of_nat (length us2 + snd (nxt m vs))\<rparr>"
  let ?h = "h(u \<mapsto> n\<lparr>zn_level := (zn_level n)[m := ?l]\<rparr>)"
  have "lvs ?h zl us ((x, k) # vs) vs (Suc m)"
    using lvs_step(2) [OF l s(1-3) d, of "\<lambda>_. ?l" n ?l] s(4) nx by simp
  moreover have "unlink_level h x update m = Some ?h"
  proof (cases "m < k")
    case True
    from x(1) True m obtain y where y: "h x = Some y" "m < length (zn_level y)" "forward (zn_level y ! m) = fst (nxt m vs)" "span (zn_level y ! m) = of_nat (snd (nxt m vs))"
      unfolding node_ok_def by auto
    with True u(1) s(2,4-7) ux show ?thesis
      unfolding unlink_level_def set_forward_def set_span_def by (auto simp: zlev_def upd_lev_eq)
  next
    case False
    have "fst (nxt m vs) \<noteq> Some x" using x(3) by (induction vs) (auto split: if_splits)
    moreover obtain f sp where "zn_level n ! m = \<lparr>forward = f, span = sp\<rparr>" by (cases "zn_level n ! m") simp
    ultimately show ?thesis using False u(1) s(2,4-7)
      unfolding unlink_level_def set_forward_def set_span_def by (auto simp: zlev_def upd_lev_eq)
  qed
  moreover have "frame_on (fst ` set us) h ?h" using s(1) by (auto simp: frame_on_def)
  ultimately show ?thesis using same_data_upd [of h u n, OF s(4)] by blast
qed

lemma unlink_loop_ok:
  assumes d: "distinct (map fst us)" and x: "x \<notin> fst ` set us" "x \<notin> fst ` set vs"
    and u: "\<And>i. i < zl \<Longrightarrow> \<exists>u r. nth_opt update i = Some u \<and> upd_ok us i u r"
  shows "lvs h zl us ((x, k) # vs) vs m \<Longrightarrow> node_ok h zl x k (\<lambda>i. nxt i vs) \<Longrightarrow> m + n = zl \<Longrightarrow>
    \<exists>h'. unlink_loop h x update m n = Some h' \<and> lvs h' zl us ((x, k) # vs) vs zl \<and> same_data h h' \<and> frame_on (fst ` set us) h h'"
proof (induction n arbitrary: h m)
  case (Suc n)
  then have m: "m < zl" by simp
  obtain u r where "nth_opt update m = Some u" "upd_ok us m u r" using u [OF m] by blast
  from unlink_level_ok [OF Suc.prems(1) m Suc.prems(2) x d this] obtain h1 where
    h1: "unlink_level h x update m = Some h1" "lvs h1 zl us ((x, k) # vs) vs (Suc m)" "same_data h h1" "frame_on (fst ` set us) h h1" by blast
  have "node_ok h1 zl x k (\<lambda>i. nxt i vs)" using Suc.prems(2) h1(4) x(1) by (simp add: node_ok_def frame_on_def)
  from Suc.IH [OF h1(2) this] Suc.prems(3) obtain h2 where
    "unlink_loop h1 x update (Suc m) n = Some h2" "lvs h2 zl us ((x, k) # vs) vs zl" "same_data h1 h2" "frame_on (fst ` set us) h1 h2" by auto
  with h1 show ?case by (auto intro: same_data_trans frame_on_trans)
qed auto

end
