(* ===== verification/Skiplist_Insert.thy ===== *)
theory Skiplist_Insert
  imports Skiplist_Levels "HOL-Library.List_Lexorder"
begin

text \<open>
  The representation of a sorted list by a skip list, the search by score and element, and \<^verbatim>\<open>zslInsert\<close>:
  every level is linked with the right spans, and the nodes stay ordered.
\<close>

section \<open>String order\<close>

lemma sdscmp_simps [simp]:
  "sdscmp [] [] = 0" "sdscmp [] (b # t) = -1" "sdscmp (a # s) [] = 1"
  "sdscmp (a # s) (b # t) = (if a = b then sdscmp s t else uint a - uint b)"
proof -
  have "uint a - uint b \<noteq> 0" if "a \<noteq> b" using that by (simp add: word_uint_eq_iff)
  then show "sdscmp (a # s) (b # t) = (if a = b then sdscmp s t else uint a - uint b)" by (simp add: sdscmp_def Let_def)
qed (simp_all add: sdscmp_def)

lemma sdscmp_less: "sdscmp s t < 0 \<longleftrightarrow> s < t"
proof (induction s arbitrary: t)
  case Nil
  then show ?case by (cases t) auto
next
  case (Cons a s)
  then show ?case by (cases t) (auto simp: word_less_def)
qed

lemma sdscmp_eq: "sdscmp s t = 0 \<longleftrightarrow> s = t"
proof (induction s arbitrary: t)
  case Nil
  then show ?case by (cases t) auto
next
  case (Cons a s)
  then show ?case by (cases t) (auto simp: word_uint_eq_iff)
qed

lemma sdscmp_le: "sdscmp s t \<le> 0 \<longleftrightarrow> s \<le> t"
  using sdscmp_less [of s t] sdscmp_eq [of s t] by (auto simp: order.order_iff_strict)

section \<open>Representation\<close>

text \<open>An abstract node has the address, the score, the element and the height.\<close>

datatype 's zn = Zn (za: nat) (zs: 's) (ze: "byte list") (zh: nat)

abbreviation keyof :: "'s zn \<Rightarrow> 's \<times> byte list" where
  "keyof x \<equiv> (zs x, ze x)"

definition klt :: "'s::linorder \<times> byte list \<Rightarrow> 's \<times> byte list \<Rightarrow> bool" where
  "klt p q \<longleftrightarrow> fst p < fst q \<or> fst p = fst q \<and> snd p < snd q"

lemma klt_trans: "klt p q \<Longrightarrow> klt q r \<Longrightarrow> klt p r"
  by (auto simp: klt_def)

lemma klt_irrefl [simp]: "\<not> klt p p"
  by (simp add: klt_def)

lemma klt_linear: "klt p q \<or> p = q \<or> klt q p"
  by (cases p; cases q) (auto simp: klt_def)

definition ahs :: "'s zn list \<Rightarrow> (nat \<times> nat) list" where
  "ahs xs = map (\<lambda>x. (za x, zh x)) xs"

lemma ahs_simps [simp]: "ahs [] = []" "ahs (x # xs) = (za x, zh x) # ahs xs" "ahs (xs @ ys) = ahs xs @ ahs ys"
    "length (ahs xs) = length xs"
  by (simp_all add: ahs_def)

lemma ahs_fst [simp]: "fst ` set (ahs xs) = za ` set xs" "map fst (ahs xs) = map za xs"
  by (auto simp: ahs_def image_image comp_def)

lemma low_ahs: "low i (ahs xs) \<longleftrightarrow> (\<forall>x \<in> set xs. zh x \<le> i)"
  by (induction xs) auto

definition hdl :: "zskiplist \<Rightarrow> nat \<times> nat" where
  "hdl zsl = (z_header zsl, ZSKIPLIST_MAXLEVEL)"

definition zn_ok :: "'s zheap \<Rightarrow> zptr \<Rightarrow> 's zn \<Rightarrow> bool" where
  "zn_ok h prev x \<longleftrightarrow> (\<exists>n. h (za x) = Some n \<and> zn_ele n = Some (ze x) \<and> zn_score n = zs x \<and> zn_backward n = prev)"

fun chain :: "'s zheap \<Rightarrow> zptr \<Rightarrow> 's zn list \<Rightarrow> bool" where
  "chain h prev [] = True"
| "chain h prev (x # xs) = (zn_ok h prev x \<and> chain h (Some (za x)) xs)"

definition final_ptr :: "zptr \<Rightarrow> 's zn list \<Rightarrow> zptr" where
  "final_ptr p xs = (if xs = [] then p else Some (za (last xs)))"

lemma final_ptr_simps [simp]: "final_ptr p [] = p" "final_ptr p (xs @ [x]) = Some (za x)" "final_ptr p (x # xs) = final_ptr (Some (za x)) xs"
  by (simp_all add: final_ptr_def)

lemma chain_append [simp]: "chain h p (xs @ ys) \<longleftrightarrow> chain h p xs \<and> chain h (final_ptr p xs) ys"
  by (induction xs arbitrary: p) auto

definition levels_bound :: "nat \<Rightarrow> 's zn list \<Rightarrow> bool" where
  "levels_bound zl xs \<longleftrightarrow> (\<forall>x \<in> set xs. 0 < zh x \<and> zh x \<le> zl)"

text \<open>The skip list holds the nodes \<open>xs\<close>: links and spans at every level, back pointers, distinct addresses, length,
  tail, the level, and the order of scores and elements.\<close>

definition zsl_rep :: "'s::linorder zheap \<Rightarrow> zskiplist \<Rightarrow> 's zn list \<Rightarrow> bool" where
  "zsl_rep h zsl xs \<longleftrightarrow>
     lvs0 h (z_level zsl) (hdl zsl # ahs xs) [] \<and> distinct (z_header zsl # map za xs) \<and> chain h None xs \<and>
     (\<exists>n. h (z_header zsl) = Some n \<and> zn_ele n = None) \<and>
     z_tail zsl = final_ptr None xs \<and> z_length zsl = of_nat (length xs) \<and> length xs < 2 ^ 63 \<and>
     levels_bound (z_level zsl) xs \<and> 1 \<le> z_level zsl \<and> z_level zsl \<le> ZSKIPLIST_MAXLEVEL \<and>
     (z_level zsl = 1 \<or> (\<exists>x \<in> set xs. zh x = z_level zsl)) \<and>
     sorted_wrt klt (map keyof xs)"

lemma zsl_repD:
  assumes "zsl_rep h zsl xs"
  shows "lvs0 h (z_level zsl) (hdl zsl # ahs xs) []" "z_header zsl \<notin> za ` set xs" "distinct (map za xs)" "chain h None xs"
    "\<exists>n. h (z_header zsl) = Some n \<and> zn_ele n = None" "z_tail zsl = final_ptr None xs" "z_length zsl = of_nat (length xs)" "length xs < 2 ^ 63"
    "levels_bound (z_level zsl) xs" "1 \<le> z_level zsl" "z_level zsl \<le> ZSKIPLIST_MAXLEVEL"
    "z_level zsl = 1 \<or> (\<exists>x \<in> set xs. zh x = z_level zsl)" "sorted_wrt klt (map keyof xs)"
  using assms by (auto simp: zsl_rep_def)

lemma chain_same: "chain h p xs \<Longrightarrow> same_data h h' \<Longrightarrow> chain h' p xs"
proof (induction xs arbitrary: p)
  case (Cons x xs)
  then obtain n where n: "h (za x) = Some n" "zn_ele n = Some (ze x)" "zn_score n = zs x" "zn_backward n = p" by (auto simp: zn_ok_def)
  have "map_option (\<lambda>n. (zn_ele n, zn_score n, zn_backward n)) (h' (za x)) = Some (Some (ze x), zs x, p)"
    using Cons.prems(2) n unfolding same_data_def by simp
  then have "zn_ok h' p x" by (auto simp: zn_ok_def)
  with Cons show ?case by simp
qed simp

lemma chain_frame: "chain h p xs \<Longrightarrow> frame_on S h h' \<Longrightarrow> S \<inter> za ` set xs = {} \<Longrightarrow> chain h' p xs"
  by (induction xs arbitrary: p) (auto simp: zn_ok_def frame_on_def)

lemma chain_node: "chain h p (A @ x # B) \<Longrightarrow> \<exists>n. h (za x) = Some n \<and> zn_ele n = Some (ze x) \<and> zn_score n = zs x \<and> zn_backward n = final_ptr p A"
  by (simp add: zn_ok_def)

lemma zsl_rep_fresh:
  assumes r: "zsl_rep h zsl xs" and x: "h x = None"
  shows "x \<noteq> z_header zsl" "x \<notin> za ` set xs"
proof -
  note R = zsl_repD [OF r]
  show "x \<noteq> z_header zsl" using x R(5) by auto
  have "h (za z) \<noteq> None" if "z \<in> set xs" for z
    using that R(4) split_list [OF that] chain_node [of h None _ z] by fastforce
  with x show "x \<notin> za ` set xs" by blast
qed

section \<open>Searching\<close>

lemma ahs_split: "ahs xs = P @ (a, k) # Q \<Longrightarrow> \<exists>A x B. xs = A @ x # B \<and> P = ahs A \<and> Q = ahs B \<and> za x = a \<and> zh x = k"
  unfolding ahs_def by (auto simp: map_eq_append_conv)

text \<open>A condition on score and element that holds for a prefix of the nodes.\<close>

lemma cuts_prefix:
  assumes c: "chain h None (A @ B)"
    and Q: "\<And>x n t. x \<in> set (A @ B) \<Longrightarrow> zn_ele n = Some (ze x) \<Longrightarrow> zn_score n = zs x \<Longrightarrow> cond t n \<longleftrightarrow> Q x"
    and A: "\<forall>x \<in> set A. Q x" and B: "\<forall>x \<in> set B. \<not> Q x"
  shows "cuts cond h (hdr # ahs A) (ahs B)"
  unfolding cuts_def
proof (intro allI impI)
  fix P a k R n assume s: "(hdr # ahs A) @ ahs B = P @ (a, k) # R" "P \<noteq> []" "h a = Some n"
  then obtain P' where P: "P = hdr # P'" "ahs (A @ B) = P' @ (a, k) # R" by (cases P) auto
  then obtain C x D where x: "A @ B = C @ x # D" "P' = ahs C" "za x = a" using ahs_split by blast
  from chain_node [of h None C x D] c x s(3) have n: "zn_ele n = Some (ze x)" "zn_score n = zs x" by auto
  have "cond (of_nat (length P)) n \<longleftrightarrow> Q x" using Q [OF _ n] x(1) by simp
  also have "\<dots> \<longleftrightarrow> length C < length A"
  proof -
    from x(1) consider W where "A = C @ x # W" | W where "B = W @ x # D" "C = A @ W"
      by (auto simp: append_eq_append_conv2 append_eq_Cons_conv Cons_eq_append_conv)
    then show ?thesis using A B by cases auto
  qed
  finally show "cond (of_nat (length P)) n \<longleftrightarrow> length P < length (hdr # ahs A)" using P(1) x(2) by simp
qed

text \<open>The search by key ends behind the nodes with a smaller key.\<close>

lemma dropWhile_klt: "sorted_wrt klt (map keyof xs) \<Longrightarrow> x \<in> set (dropWhile (\<lambda>x. klt (keyof x) p) xs) \<Longrightarrow> \<not> klt (keyof x) p"
proof (induction xs)
  case (Cons y ys)
  show ?case
  proof (cases "klt (keyof y) p")
    case True
    then have "x \<in> set (dropWhile (\<lambda>x. klt (keyof x) p) ys)" using Cons.prems(2) by simp
    with Cons.IH Cons.prems(1) show ?thesis by simp
  next
    case False
    then have "x = y \<or> x \<in> set ys" using Cons.prems(2) by simp
    with False Cons.prems(1) klt_trans [of "keyof y" "keyof x" p] show ?thesis by auto
  qed
qed simp

lemma split_klt:
  assumes "sorted_wrt klt (map keyof xs)"
  obtains A B where "xs = A @ B" "\<forall>x \<in> set A. klt (keyof x) p" "\<forall>x \<in> set B. \<not> klt (keyof x) p"
proof
  show "xs = takeWhile (\<lambda>x. klt (keyof x) p) xs @ dropWhile (\<lambda>x. klt (keyof x) p) xs" by simp
  show "\<forall>x \<in> set (takeWhile (\<lambda>x. klt (keyof x) p) xs). klt (keyof x) p" by (meson set_takeWhileD)
  show "\<forall>x \<in> set (dropWhile (\<lambda>x. klt (keyof x) p) xs). \<not> klt (keyof x) p" using dropWhile_klt [OF assms] by blast
qed

lemma search_descends:
  assumes r: "zsl_rep h zsl (A @ B)" and c: "cuts cond h (hdl zsl # ahs A) (ahs B)"
  shows "\<exists>y t update. descend cond h (z_level zsl) (z_header zsl) 0 = Some (y, t, update) \<and> length update = z_level zsl \<and>
    (\<forall>i < z_level zsl. \<exists>r. snd (update ! i) = of_nat r \<and> upd_ok (hdl zsl # ahs A) i (fst (update ! i)) r) \<and>
    y = fst (last (hdl zsl # ahs A)) \<and> update ! 0 = (y, of_nat (length A))"
proof -
  have l: "lvs0 h (z_level zsl) ((hdl zsl # ahs A) @ ahs B) []" and len: "length ((hdl zsl # ahs A) @ ahs B) < 2 ^ 64"
    and z: "1 \<le> z_level zsl" "z_level zsl \<le> ZSKIPLIST_MAXLEVEL" and lb: "levels_bound (z_level zsl) (A @ B)"
    using r by (simp_all add: zsl_rep_def)
  have "\<exists>y t update. descend cond h (z_level zsl) (z_header zsl) (of_nat (length ([] :: (nat \<times> nat) list))) = Some (y, t, update) \<and> length update = z_level zsl \<and>
      (\<forall>i < z_level zsl. \<exists>r. snd (update ! i) = of_nat r \<and> upd_ok (hdl zsl # ahs A) i (fst (update ! i)) r) \<and>
      (y, t) = (if z_level zsl = 0 then (z_header zsl, of_nat (length ([] :: (nat \<times> nat) list))) else update ! 0)"
    using z by (intro descend_finds [OF l c len order_refl, where k = ZSKIPLIST_MAXLEVEL]) (auto simp: hdl_def)
  then obtain y t update where d: "descend cond h (z_level zsl) (z_header zsl) 0 = Some (y, t, update)" "length update = z_level zsl"
    "\<forall>i < z_level zsl. \<exists>r. snd (update ! i) = of_nat r \<and> upd_ok (hdl zsl # ahs A) i (fst (update ! i)) r" "(y, t) = update ! 0"
    using z by auto
  from z have "0 < z_level zsl" by simp
  with d(3) obtain q where "snd (update ! 0) = of_nat q" "upd_ok (hdl zsl # ahs A) 0 (fst (update ! 0)) q" by blast
  then have q: "t = of_nat q" "upd_ok (hdl zsl # ahs A) 0 y q" unfolding d(4) [symmetric] by simp_all
  have "0 < k" if "(b, k) \<in> set (hdl zsl # ahs A)" for b k
    using that lb by (auto simp: hdl_def ZSKIPLIST_MAXLEVEL_def ahs_def levels_bound_def)
  from upd_ok_last [OF q(2) this] have "q = length A \<and> y = fst (last (hdl zsl # ahs A))" by simp
  with d q(1) show ?thesis by auto
qed

section \<open>Insertion\<close>

lemma lvs_finish:
  assumes l: "lvs h zl (hdr # us) A B zl" and low: "low zl us" "low zl A" "low zl B" and h: "\<And>a k. (a, k) \<in> set us \<Longrightarrow> k \<le> zl"
  shows "lvs0 h zl (hdr # us) B"
  unfolding lvs_def
proof (intro allI impI)
  fix us1 a k us2 assume s: "hdr # us = us1 @ (a, k) # us2"
  have "low zl us2" using s low(1) unfolding Cons_eq_append_conv by auto
  then have "fst (nxt i (us2 @ A)) = fst (nxt i (us2 @ B))" if "\<not> i < zl" for i
    using that low_mono [of zl _ i] low by (simp add: nxt_none nxt_low)
  with lvsD [OF l s] show "node_ok h zl a k (\<lambda>i. nxt i (us2 @ (if i < 0 then B else B)))"
    by (auto simp: node_ok_def)
qed

lemma lvs_singleton: "node_ok h zl x k (\<lambda>i. nxt i vs) \<Longrightarrow> lvs0 h zl [(x, k)] vs"
  by (auto simp: lvs_def Cons_eq_append_conv)

definition same_levels :: "'s zheap \<Rightarrow> 's zheap \<Rightarrow> bool" where
  "same_levels h h' \<longleftrightarrow> (\<forall>a. map_option zn_level (h' a) = map_option zn_level (h a))"

lemma node_ok_levels: "node_ok h zl a k E \<Longrightarrow> same_levels h h' \<Longrightarrow> node_ok h' zl a k E"
proof -
  assume n: "node_ok h zl a k E" and "same_levels h h'"
  then have "map_option zn_level (h' a) = map_option zn_level (h a)" by (simp add: same_levels_def)
  with n show ?thesis unfolding node_ok_def by (cases "h' a") auto
qed

lemma lvs_levels: "lvs h zl us A B m \<Longrightarrow> same_levels h h' \<Longrightarrow> lvs h' zl us A B m"
  unfolding lvs_def using node_ok_levels by blast

lemma frame_on_mono: "frame_on S h h' \<Longrightarrow> S \<subseteq> T \<Longrightarrow> frame_on T h h'"
  unfolding frame_on_def by blast

lemma insert_links:
  assumes l: "lvs0 h zl ((hdr # us) @ vs) []" and d: "distinct (map fst ((hdr # us) @ (x, k) # vs))"
    and low: "low zl (us @ vs)" and k: "k \<le> zl" "0 < k" and len: "length (hdr # us) < 2 ^ 32"
    and u: "\<And>i. i < zl \<Longrightarrow> \<exists>u r. nth_opt update i = Some (u, of_nat r) \<and> upd_ok (hdr # us) i u r"
    and r0: "nth_opt update 0 = Some (u0, of_nat (length us))" and n: "length (zn_level n) = k"
  shows "\<exists>h2 h3. link_loop (h(x \<mapsto> n)) x update 0 k = Some h2 \<and> untouched_loop h2 update k (zl - k) = Some h3 \<and>
    lvs0 h3 zl ((hdr # us) @ (x, k) # vs) [] \<and> same_data (h(x \<mapsto> n)) h3 \<and> frame_on (insert x (fst ` set (hdr # us))) (h(x \<mapsto> n)) h3"
proof -
  let ?us = "hdr # us" and ?S = "insert x (fst ` set (hdr # us))"
  have x: "x \<notin> fst ` set ?us" "x \<notin> fst ` set vs" and d': "distinct (map fst ?us)" and dis: "fst ` set ?us \<inter> fst ` set vs = {}"
    using d by auto
  have "lvs0 h zl ?us vs" "lvs0 h zl vs []" using l unfolding lvs0_append by simp_all
  then have l1: "lvs (h(x \<mapsto> n)) zl ?us vs ((x, k) # vs) 0" and v1: "lvs0 (h(x \<mapsto> n)) zl vs []"
    unfolding lvs_start [of _ _ _ _ "(x, k) # vs"] using x by (simp_all add: lvs_upd)
  have u': "\<exists>u r. nth_opt update i = Some (u, of_nat r) \<and> upd_ok ?us i u r" if "i < k" for i using u that k by simp
  have "linked (h(x \<mapsto> n)) x k 0 vs" using n by (simp add: linked_def)
  from link_loop_ok [OF k(1) d' x(1) len u' _ l1 this, of u0 k] r0 obtain h2 where
    h2: "link_loop (h(x \<mapsto> n)) x update 0 k = Some h2" "lvs h2 zl ?us vs ((x, k) # vs) k" "linked h2 x k k vs"
      "same_data (h(x \<mapsto> n)) h2" "frame_on ?S (h(x \<mapsto> n)) h2" by auto
  from untouched_loop_ok [OF d' _ h2(2) order_refl, of update "zl - k"] u k(1) obtain h3 where
    h3: "untouched_loop h2 update k (zl - k) = Some h3" "lvs h3 zl ?us vs ((x, k) # vs) zl" "same_data h2 h3" "frame_on (fst ` set ?us) h2 h3"
    by (metis le_add_diff_inverse)
  have fr: "frame_on ?S (h(x \<mapsto> n)) h3" by (rule frame_on_trans [OF h2(5) frame_on_mono [OF h3(4)]]) auto
  have "node_ok h3 zl x k (\<lambda>i. nxt i vs)" using h2(3) h3(4) x(1) unfolding linked_def node_ok_def frame_on_def by auto
  then have "lvs0 h3 zl [(x, k)] vs" by (rule lvs_singleton)
  moreover have "lvs0 h3 zl vs []" using lvs_frame [OF v1 fr] x dis by auto
  moreover have "lvs0 h3 zl ?us ((x, k) # vs)"
    using lvs_finish [OF h3(2)] low k(1) by (auto simp: low_def)
  ultimately have "lvs0 h3 zl (?us @ [(x, k)] @ vs) []" unfolding lvs0_append by simp
  then have "lvs0 h3 zl (?us @ (x, k) # vs) []" by simp
  moreover have "same_data (h(x \<mapsto> n)) h3" using h2(4) h3(3) by (rule same_data_trans)
  ultimately show ?thesis using h2(1) h3(1) fr by blast
qed

definition first_ptr :: "'s zn list \<Rightarrow> zptr" where
  "first_ptr xs = (case xs of [] \<Rightarrow> None | x # _ \<Rightarrow> Some (za x))"

lemma nxt_0_ahs: "levels_bound zl B \<Longrightarrow> fst (nxt 0 (ahs B)) = first_ptr B"
  by (cases B) (auto simp: levels_bound_def first_ptr_def)

lemma chain_upd: "chain h p xs \<Longrightarrow> a \<notin> za ` set xs \<Longrightarrow> chain (h(a \<mapsto> n)) p xs"
  by (rule chain_frame [of h p xs "{a}"]) (auto simp: frame_on_def)

text \<open>Setting the back pointer of the first of the following nodes, when there is one.\<close>

definition reback :: "'s zheap \<Rightarrow> 's zn list \<Rightarrow> zptr \<Rightarrow> 's zheap option" where
  "reback h B p = (case B of [] \<Rightarrow> Some h | b # _ \<Rightarrow> set_backward h (za b) p)"

lemma reback_chain:
  assumes "chain h p B" "distinct (map za B)"
  shows "\<exists>h'. reback h B q = Some h' \<and> chain h' q B \<and> same_levels h h' \<and> frame_on (za ` set B) h h'"
proof (cases B)
  case Nil
  then show ?thesis by (simp add: reback_def same_levels_def)
next
  case (Cons b B')
  with assms obtain n where n: "h (za b) = Some n" "zn_ele n = Some (ze b)" "zn_score n = zs b" "chain h (Some (za b)) B'" "za b \<notin> za ` set B'"
    by (auto simp: zn_ok_def)
  let ?h = "h(za b \<mapsto> n\<lparr>zn_backward := q\<rparr>)"
  have "reback h B q = Some ?h" using Cons n(1) by (simp add: reback_def set_backward_def)
  moreover have "chain ?h q B" using Cons n chain_upd [OF n(4,5)] by (simp add: zn_ok_def)
  moreover have "same_levels h ?h" "frame_on (za ` set B) h ?h" using n(1) Cons by (auto simp: same_levels_def frame_on_def)
  ultimately show ?thesis by blast
qed

lemma back_links:
  assumes c: "chain g None A" "chain g p B" and d: "distinct (x # map za (A @ B))"
    and n: "g x = Some n" "zn_ele n = Some e" "zn_score n = s" "0 < length (zn_level n)"
  shows "\<exists>g1 l g2. set_backward g x (final_ptr None A) = Some g1 \<and> zlev g1 x 0 = Some l \<and> l = zn_level n ! 0 \<and>
    reback g1 B (Some x) = Some g2 \<and> chain g2 None (A @ Zn x s e k # B) \<and> same_levels g g2 \<and> frame_on (insert x (za ` set B)) g g2"
proof -
  let ?n = "n\<lparr>zn_backward := final_ptr None A\<rparr>"
  let ?g = "g(x \<mapsto> ?n)"
  have x: "x \<notin> za ` set A" "x \<notin> za ` set B" and dB: "distinct (map za B)" "za ` set A \<inter> za ` set B = {}" using d by auto
  have "chain ?g p B" using chain_upd [OF c(2) x(2)] .
  from reback_chain [OF this dB(1), of "Some x"] obtain g2 where
    g2: "reback ?g B (Some x) = Some g2" "chain g2 (Some x) B" "same_levels ?g g2" "frame_on (za ` set B) ?g g2" by blast
  have "chain g2 None A" using chain_frame [OF chain_upd [OF c(1) x(1)] g2(4)] dB(2) by blast
  moreover have "g2 x = Some ?n" using g2(4) x(2) by (simp add: frame_on_def)
  ultimately have "chain g2 None (A @ Zn x s e k # B)" using g2(2) n by (simp add: zn_ok_def)
  moreover have "same_levels g g2" using g2(3) n(1) by (auto simp: same_levels_def split: if_splits)
  moreover have "frame_on (insert x (za ` set B)) g g2" using g2(4) by (auto simp: frame_on_def)
  moreover have "set_backward g x (final_ptr None A) = Some ?g" using n(1) by (simp add: set_backward_def)
  moreover have "zlev ?g x 0 = Some (zn_level n ! 0)" using n(4) by (simp add: zlev_def)
  ultimately show ?thesis using g2(1) by blast
qed

text \<open>Raising the level of the list, when the new node is higher.\<close>

definition raised :: "zskiplist \<Rightarrow> nat \<Rightarrow> zskiplist" where
  "raised zsl k = (if k > z_level zsl then zsl\<lparr>z_level := k\<rparr> else zsl)"

lemma raise_if:
  assumes r: "zsl_rep h zsl (A @ B)" and k: "k \<le> ZSKIPLIST_MAXLEVEL"
    and u: "length update = z_level zsl" "\<forall>i < z_level zsl. \<exists>r. snd (update ! i) = of_nat r \<and> upd_ok (hdl zsl # ahs A) i (fst (update ! i)) r"
    and zl: "zl = z_level (raised zsl k)"
  shows "\<exists>h1 update1. (if k > z_level zsl then raise_loop h zsl (z_level zsl) (k - z_level zsl) update else Some (h, update)) = Some (h1, update1) \<and>
    lvs0 h1 zl (hdl zsl # ahs (A @ B)) [] \<and> same_data h h1 \<and> frame_on {z_header zsl} h h1 \<and>
    (\<forall>i < zl. \<exists>u r. nth_opt update1 i = Some (u, of_nat r) \<and> upd_ok (hdl zsl # ahs A) i u r) \<and> nth_opt update1 0 = Some (update ! 0)"
proof (cases "k > z_level zsl")
  case False
  then have z: "zl = z_level zsl" using zl by (simp add: raised_def)
  have "\<exists>v r. nth_opt update i = Some (v, of_nat r) \<and> upd_ok (hdl zsl # ahs A) i v r" if "i < z_level zsl" for i
    using u(2) that u(1) by (metis nth_opt_def prod.collapse)
  with False z r u(1) show ?thesis by (auto simp: zsl_rep_def nth_opt_def)
next
  case True
  have zl': "zl = k" using True zl by (simp add: raised_def)
  have hdr: "z_header zsl \<notin> fst ` set (ahs (A @ B))" and len: "z_length zsl = of_nat (length (ahs (A @ B)))"
    and l: "lvs0 h (z_level zsl) ((z_header zsl, ZSKIPLIST_MAXLEVEL) # ahs (A @ B)) []" and low: "low (z_level zsl) (ahs (A @ B))"
    and z1: "1 \<le> z_level zsl"
    using zsl_repD [OF r] by (simp_all add: hdl_def low_ahs levels_bound_def image_Un)
  have "z_level zsl + (k - z_level zsl) \<le> ZSKIPLIST_MAXLEVEL" using k True by simp
  from raise_loop_ok [OF len refl hdr l low this, of update] True obtain h1 where
    h1: "raise_loop h zsl (z_level zsl) (k - z_level zsl) update = Some (h1, update @ replicate (k - z_level zsl) (z_header zsl, 0))"
      "lvs0 h1 k (hdl zsl # ahs (A @ B)) []" "same_data h h1" "frame_on {z_header zsl} h h1" by (auto simp: hdl_def)
  have "\<exists>v r. nth_opt (update @ replicate (k - z_level zsl) (z_header zsl, 0)) i = Some (v, of_nat r) \<and> upd_ok (hdl zsl # ahs A) i v r" if i: "i < k" for i
  proof (cases "i < z_level zsl")
    case True
    then show ?thesis using u i by (metis length_append length_replicate nth_append nth_opt_def prod.collapse trans_less_add1)
  next
    case False
    have "low i (ahs A)" using low False by (auto simp: low_ahs)
    then have "upd_ok (hdl zsl # ahs A) i (z_header zsl) 0" unfolding upd_ok_def hdl_def using i k by (intro exI [of _ "[]"]) auto
    with False i u(1) True show ?thesis by (intro exI [of _ "z_header zsl"] exI [of _ 0]) (auto simp: nth_opt_def nth_append)
  qed
  then show ?thesis using True h1 zl' u(1) z1 by (auto simp: nth_opt_def nth_append)
qed

lemma level_loop_ge:
  assumes "level_loop rnd k level = Some l"
  shows "level \<le> l"
proof (rule level_loop.raw_induct [OF _ assms, where P = "\<lambda>_ _ level l. level \<le> l"])
  fix f rnd k level l
  assume "\<And>rnd k level l. f rnd k level = Some l \<Longrightarrow> level \<le> (l :: nat)"
    and "(if 4 * (rnd k mod 65536) < 65535 then f rnd (Suc k) (level + 1) else Some level) = Some l"
  then show "level \<le> l" by (force split: if_splits)
qed

lemma zslRandomLevel_range: "zslRandomLevel rnd = Some k \<Longrightarrow> 1 \<le> k \<and> k \<le> ZSKIPLIST_MAXLEVEL"
  using level_loop_ge [of rnd 0 1] by (auto simp: zslRandomLevel_def ZSKIPLIST_MAXLEVEL_def bind_eq_Some_conv)

lemma before_klt: "zn_ele n \<noteq> None \<Longrightarrow> before score ele n \<longleftrightarrow> klt (zn_score n, the (zn_ele n)) (score, ele)"
  by (auto simp: before_def klt_def sdscmp_less)

lemma search_before:
  assumes r: "zsl_rep h zsl xs"
  obtains A B where "xs = A @ B" "\<forall>x \<in> set A. klt (keyof x) (score, ele)" "\<forall>x \<in> set B. \<not> klt (keyof x) (score, ele)"
    "cuts (\<lambda>_ :: 'w::len word. before score ele) h (hdl zsl # ahs A) (ahs B)"
proof -
  obtain A B where s: "xs = A @ B" "\<forall>x \<in> set A. klt (keyof x) (score, ele)" "\<forall>x \<in> set B. \<not> klt (keyof x) (score, ele)"
    using split_klt [OF zsl_repD(13) [OF r]] by blast
  have "cuts (\<lambda>_ :: 'w word. before score ele) h (hdl zsl # ahs A) (ahs B)"
    using zsl_repD(4) [OF r] s
    by (intro cuts_prefix [where Q = "\<lambda>x. klt (keyof x) (score, ele)"]) (auto simp: before_klt)
  with s that show ?thesis by blast
qed

lemma sorted_insert:
  assumes "sorted_wrt klt (map keyof (A @ B))" "\<forall>x \<in> set A. klt (keyof x) p" "\<forall>x \<in> set B. \<not> klt (keyof x) p" "p \<notin> keyof ` set B" "keyof y = p"
  shows "sorted_wrt klt (map keyof (A @ y # B))"
proof -
  have "klt p (keyof x)" if "x \<in> set B" for x
    using klt_linear [of p "keyof x"] assms(3,4) that by blast
  with assms(1,2,5) show ?thesis by (auto simp: sorted_wrt_append)
qed

lemma last_hdl: "fst (last (hdl zsl # ahs A)) = (if A = [] then z_header zsl else za (last A))"
  by (auto simp: hdl_def ahs_def last_map)

lemma levels_raised: "levels_bound (z_level zsl) xs \<Longrightarrow> levels_bound (z_level (raised zsl k)) xs"
  by (auto simp: levels_bound_def raised_def)

lemma insert_heap:
  assumes r: "zsl_rep h zsl (A @ B)" and x: "h x = None" and k: "1 \<le> k" "k \<le> ZSKIPLIST_MAXLEVEL" and len: "length (A @ B) < 2 ^ 32 - 1"
    and u: "length update = z_level zsl" "\<forall>i < z_level zsl. \<exists>r. snd (update ! i) = of_nat r \<and> upd_ok (hdl zsl # ahs A) i (fst (update ! i)) r"
      "update ! 0 = (y, of_nat (length A))" "y = fst (last (hdl zsl # ahs A))"
    and n: "length (zn_level n) = k" "zn_ele n = Some e" "zn_score n = s"
  shows "\<exists>h1 update1 h2 h3 h4 l h5.
    (if k > z_level zsl then raise_loop h zsl (z_level zsl) (k - z_level zsl) update else Some (h, update)) = Some (h1, update1) \<and>
    link_loop (h1(x \<mapsto> n)) x update1 0 k = Some h2 \<and> untouched_loop h2 update1 k (z_level (raised zsl k) - k) = Some h3 \<and>
    nth_opt update1 0 = Some (y, of_nat (length A)) \<and> set_backward h3 x (if y = z_header zsl then None else Some y) = Some h4 \<and>
    zlev h4 x 0 = Some l \<and> forward l = first_ptr B \<and> reback h4 B (Some x) = Some h5 \<and>
    lvs0 h5 (z_level (raised zsl k)) (hdl zsl # ahs (A @ Zn x s e k # B)) [] \<and> chain h5 None (A @ Zn x s e k # B) \<and>
    (\<exists>n. h5 (z_header zsl) = Some n \<and> zn_ele n = None) \<and> frame_on (insert x (insert (z_header zsl) (za ` set (A @ B)))) h h5"
proof -
  let ?zl = "z_level (raised zsl k)" and ?X = "Zn x s e k"
  note R = zsl_repD [OF r]
  obtain h1 update1 where h1: "(if k > z_level zsl then raise_loop h zsl (z_level zsl) (k - z_level zsl) update else Some (h, update)) = Some (h1, update1)"
    "lvs0 h1 ?zl (hdl zsl # ahs (A @ B)) []" "same_data h h1" "frame_on {z_header zsl} h h1"
    "\<forall>i < ?zl. \<exists>u r. nth_opt update1 i = Some (u, of_nat r) \<and> upd_ok (hdl zsl # ahs A) i u r" "nth_opt update1 0 = Some (y, of_nat (length A))"
    using raise_if [OF r k(2) u(1,2) refl] u(3) by auto
  note xn = zsl_rep_fresh [OF r x]
  have d: "distinct (map fst ((hdl zsl # ahs A) @ (x, k) # ahs B))" using R(2,3) xn by (auto simp: hdl_def image_Un)
  have low: "low ?zl (ahs A @ ahs B)" using levels_raised [OF R(9), of k] by (simp add: levels_bound_def low_ahs ball_Un)
  have k': "k \<le> ?zl" "0 < k" using k by (auto simp: raised_def)
  have l1: "lvs0 h1 ?zl ((hdl zsl # ahs A) @ ahs B) []" using h1(2) by simp
  have r0: "nth_opt update1 0 = Some (y, of_nat (length (ahs A)))" using h1(6) by simp
  have len': "length (hdl zsl # ahs A) < 2 ^ 32" using len by simp
  obtain h2 h3 where h3: "link_loop (h1(x \<mapsto> n)) x update1 0 k = Some h2" "untouched_loop h2 update1 k (?zl - k) = Some h3"
    "lvs0 h3 ?zl ((hdl zsl # ahs A) @ (x, k) # ahs B) []" "same_data (h1(x \<mapsto> n)) h3"
    "frame_on (insert x (fst ` set (hdl zsl # ahs A))) (h1(x \<mapsto> n)) h3"
    using insert_links [OF l1 d low k' len' _ r0 n(1)] h1(5) by blast
  let ?g = "h1(x \<mapsto> n)"
  have xA: "x \<notin> za ` set A" "x \<notin> za ` set B" using xn(2) by auto
  have c: "chain h None A" "chain h (final_ptr None A) B" using R(4) by simp_all
  have c3: "chain h3 None A" "chain h3 (final_ptr None A) B"
    using chain_same [OF chain_upd [OF chain_same [OF c(1) h1(3)] xA(1)] h3(4)] chain_same [OF chain_upd [OF chain_same [OF c(2) h1(3)] xA(2)] h3(4)]
    by simp_all
  have "node_ok h3 ?zl x k (\<lambda>i. nxt i (ahs B @ []))" using lvs0D [OF h3(3)] by blast
  then obtain n3 where n3: "h3 x = Some n3" "length (zn_level n3) = k" "forward (zn_level n3 ! 0) = fst (nxt 0 (ahs B))"
    using k'(2) unfolding node_ok_def by auto
  have dat: "map_option (\<lambda>n. (zn_ele n, zn_score n, zn_backward n)) (h3 a) = map_option (\<lambda>n. (zn_ele n, zn_score n, zn_backward n)) (?g a)" for a
    using h3(4) unfolding same_data_def by blast
  have n3': "zn_ele n3 = Some e" "zn_score n3 = s" using dat [of x] n3(1) n by simp_all
  have "za (last A) \<noteq> z_header zsl" if "A \<noteq> []" using R(2) last_in_set [OF that] by (metis UnI1 imageI set_append)
  then have fp: "(if y = z_header zsl then None else Some y) = final_ptr None A"
    using u(4) unfolding last_hdl by (auto simp: final_ptr_def)
  have dx: "distinct (x # map za (A @ B))" using R(3) xn(2) by (simp add: image_Un)
  have k3: "0 < length (zn_level n3)" using n3(2) k'(2) by simp
  obtain h4 l h5 where h5: "set_backward h3 x (final_ptr None A) = Some h4" "zlev h4 x 0 = Some l" "l = zn_level n3 ! 0"
    "reback h4 B (Some x) = Some h5" "chain h5 None (A @ ?X # B)" "same_levels h3 h5" "frame_on (insert x (za ` set B)) h3 h5"
    using back_links [OF c3 dx n3(1) n3' k3] by blast
  have "forward l = first_ptr B" using h5(3) n3(3) nxt_0_ahs [of "z_level zsl" B] R(9) by (simp add: levels_bound_def)
  moreover have "lvs0 h5 ?zl (hdl zsl # ahs (A @ ?X # B)) []" using lvs_levels [OF h3(3) h5(6)] by simp
  moreover have "\<exists>n. h5 (z_header zsl) = Some n \<and> zn_ele n = None"
  proof -
    have "map_option zn_ele (h1 (z_header zsl)) = Some None" using R(5) h1(3) unfolding same_data_def by (metis (no_types, lifting) map_option_eq_Some option.map_comp comp_def fst_conv)
    then have "map_option zn_ele (h3 (z_header zsl)) = Some None" using dat [of "z_header zsl"] xn(1) by (cases "h3 (z_header zsl)") auto
    moreover have "h5 (z_header zsl) = h3 (z_header zsl)" using h5(7) xn(1) R(2) by (auto simp: frame_on_def)
    ultimately show ?thesis by auto
  qed
  moreover have "frame_on (insert x (insert (z_header zsl) (za ` set (A @ B)))) h h5"
  proof -
    let ?S = "insert x (insert (z_header zsl) (za ` set (A @ B)))"
    have "frame_on ?S h h1" "frame_on ?S h1 ?g" "frame_on ?S ?g h3" "frame_on ?S h3 h5"
      using frame_on_mono [OF h1(4), of ?S] frame_on_upd [of x ?S h1 n] frame_on_mono [OF h3(5), of ?S] frame_on_mono [OF h5(7), of ?S]
      by (auto simp: hdl_def)
    then show ?thesis by (meson frame_on_trans)
  qed
  ultimately show ?thesis using h1(1,6) h3(1,2) h5(1,2,4,5) unfolding fp by blast
qed

lemma zsl_rep_raised:
  assumes r: "zsl_rep h zsl (A @ B)" and k: "1 \<le> k" "k \<le> ZSKIPLIST_MAXLEVEL"
  shows "levels_bound (z_level (raised zsl k)) (A @ Zn x s e k # B)" "1 \<le> z_level (raised zsl k)" "z_level (raised zsl k) \<le> ZSKIPLIST_MAXLEVEL"
    "z_level (raised zsl k) = 1 \<or> (\<exists>y \<in> set (A @ Zn x s e k # B). zh y = z_level (raised zsl k))"
proof -
  note R = zsl_repD [OF r]
  show "levels_bound (z_level (raised zsl k)) (A @ Zn x s e k # B)"
    using levels_raised [OF R(9), of k] k by (auto simp: levels_bound_def raised_def)
  show "1 \<le> z_level (raised zsl k)" "z_level (raised zsl k) \<le> ZSKIPLIST_MAXLEVEL" using R(10,11) k by (auto simp: raised_def)
  show "z_level (raised zsl k) = 1 \<or> (\<exists>y \<in> set (A @ Zn x s e k # B). zh y = z_level (raised zsl k))"
    using R(12) by (auto simp: raised_def)
qed

lemma zslInsert_inserts:
  assumes r: "zsl_rep h zsl xs" and x: "h x = None" and rnd: "zslRandomLevel rnd = Some k" and len: "length xs < 2 ^ 32 - 1"
    and new: "(score, ele) \<notin> keyof ` set xs"
  shows "\<exists>h' zsl' A B. zslInsert junk_ptr junk rnd x h zsl score ele = Some (h', zsl', x) \<and> xs = A @ B \<and>
    zsl_rep h' zsl' (A @ Zn x score ele k # B) \<and> z_header zsl' = z_header zsl \<and>
    frame_on (insert x (insert (z_header zsl) (za ` set xs))) h h'"
proof -
  note k = zslRandomLevel_range [OF rnd]
  obtain A B where s: "xs = A @ B" "\<forall>x \<in> set A. klt (keyof x) (score, ele)" "\<forall>x \<in> set B. \<not> klt (keyof x) (score, ele)"
    "cuts (\<lambda>_ :: uint. before score ele) h (hdl zsl # ahs A) (ahs B)" using search_before [OF r] by blast
  note rAB = r [unfolded s(1)]
  note R = zsl_repD [OF rAB]
  obtain y t update where d: "descend (\<lambda>_. before score ele) h (z_level zsl) (z_header zsl) (0 :: uint) = Some (y, t, update)" "length update = z_level zsl"
    "\<forall>i < z_level zsl. \<exists>r. snd (update ! i) = of_nat r \<and> upd_ok (hdl zsl # ahs A) i (fst (update ! i)) r"
    "y = fst (last (hdl zsl # ahs A))" "update ! 0 = (y, of_nat (length A))"
    using search_descends [OF rAB s(4)] by blast
  let ?n = "zslCreateNode junk_ptr junk k score (Some ele)" and ?X = "Zn x score ele k"
  have n: "length (zn_level ?n) = k" "zn_ele ?n = Some ele" "zn_score ?n = score" by (simp_all add: zslCreateNode_def)
  have lenAB: "length (A @ B) < 2 ^ 32 - 1" using len s(1) by simp
  obtain h1 update1 h2 h3 h4 l h5 where w:
    "(if k > z_level zsl then raise_loop h zsl (z_level zsl) (k - z_level zsl) update else Some (h, update)) = Some (h1, update1)"
    "link_loop (h1(x \<mapsto> ?n)) x update1 0 k = Some h2" "untouched_loop h2 update1 k (z_level (raised zsl k) - k) = Some h3"
    "nth_opt update1 0 = Some (y, of_nat (length A))" "set_backward h3 x (if y = z_header zsl then None else Some y) = Some h4"
    "zlev h4 x 0 = Some l" "forward l = first_ptr B" "reback h4 B (Some x) = Some h5"
    and H: "lvs0 h5 (z_level (raised zsl k)) (hdl zsl # ahs (A @ ?X # B)) []" "chain h5 None (A @ ?X # B)"
    "\<exists>n. h5 (z_header zsl) = Some n \<and> zn_ele n = None" "frame_on (insert x (insert (z_header zsl) (za ` set (A @ B)))) h h5"
    using insert_heap [OF rAB x _ _ lenAB d(2,3,5,4) n] k by blast
  let ?z = "(raised zsl k)\<lparr>z_tail := (if B = [] then Some x else z_tail zsl), z_length := z_length zsl + 1\<rparr>"
  have hd: "z_header (raised zsl k) = z_header zsl" "z_tail (raised zsl k) = z_tail zsl" "z_length (raised zsl k) = z_length zsl"
    by (simp_all add: raised_def)
  have "zslInsert junk_ptr junk rnd x h zsl score ele = Some (h5, ?z, x)"
    using d(1) rnd w hd unfolding zslInsert_def raised_def [symmetric]
    by (cases B) (simp_all add: first_ptr_def reback_def)
  moreover have "zsl_rep h5 ?z (A @ ?X # B)"
  proof -
    have "distinct (z_header zsl # map za (A @ ?X # B))" using R(2,3) zsl_rep_fresh [OF rAB x] by (auto simp: image_Un)
    moreover have "sorted_wrt klt (map keyof (A @ ?X # B))"
      using new s(1) by (intro sorted_insert [OF R(13) s(2,3)]) (simp_all add: image_Un)
    moreover have "final_ptr None (A @ ?X # B) = (if B = [] then Some x else z_tail zsl)"
      using R(6) by (auto simp: final_ptr_def)
    moreover have "length (A @ ?X # B) < 2 ^ 63" using lenAB by simp
    moreover have "levels_bound (z_level (raised zsl k)) (A @ ?X # B)" "1 \<le> z_level (raised zsl k)" "z_level (raised zsl k) \<le> ZSKIPLIST_MAXLEVEL"
      "z_level (raised zsl k) = 1 \<or> (\<exists>y \<in> set (A @ ?X # B). zh y = z_level (raised zsl k))"
      using zsl_rep_raised [OF rAB conjunct1 [OF k] conjunct2 [OF k]] by blast+
    ultimately show ?thesis unfolding zsl_rep_def using H(1-3) R(7) hd by (simp add: hdl_def)
  qed
  moreover have "z_header ?z = z_header zsl" using hd by simp
  ultimately show ?thesis using s(1) H(4) by blast
qed

end
