(* ===== verification/Skiplist_Delete.thy ===== *)
theory Skiplist_Delete
  imports Skiplist_Insert
begin

text \<open>
  Unlinking a node from a skip list, and the operations that delete or move one: \<^verbatim>\<open>zslDelete\<close> and
  \<^verbatim>\<open>zslUpdateScore\<close>.
\<close>

section \<open>Unlinking\<close>

lemma delete_links:
  assumes l: "lvs0 h zl ((hdr # us) @ (x, k) # vs) []" and d: "distinct (map fst ((hdr # us) @ (x, k) # vs))"
    and low: "low zl (us @ (x, k) # vs)"
    and u: "\<And>i. i < zl \<Longrightarrow> \<exists>u r. nth_opt update i = Some u \<and> upd_ok (hdr # us) i u r"
  shows "\<exists>h'. unlink_loop h x update 0 zl = Some h' \<and> lvs0 h' zl ((hdr # us) @ vs) [] \<and> same_data h h' \<and>
    frame_on (fst ` set (hdr # us)) h h'"
proof -
  let ?us = "hdr # us"
  have x: "x \<notin> fst ` set ?us" "x \<notin> fst ` set vs" and d': "distinct (map fst ?us)" and dis: "fst ` set ?us \<inter> fst ` set vs = {}"
    using d by auto
  have l1: "lvs0 h zl ?us ((x, k) # vs)" and l2: "lvs0 h zl ((x, k) # vs) []" using l unfolding lvs0_append by simp_all
  have l3: "lvs0 h zl vs []" using l2 lvs0_append [of h zl "[(x, k)]" vs "[]"] by simp
  have "node_ok h zl x k (\<lambda>i. nxt i vs)" using lvs0D [OF l2, of "[]" x k vs] by simp
  from unlink_loop_ok [OF d' x u _ this, of 0 zl] l1 obtain h' where
    h': "unlink_loop h x update 0 zl = Some h'" "lvs h' zl ?us ((x, k) # vs) vs zl" "same_data h h'" "frame_on (fst ` set ?us) h h'"
    unfolding lvs_start [of _ _ _ _ vs] by auto
  have "lvs0 h' zl ?us vs" using lvs_finish [OF h'(2)] low by (auto simp: low_def)
  moreover have "lvs0 h' zl vs []" using lvs_frame [OF l3 h'(4)] dis by blast
  ultimately have "lvs0 h' zl (?us @ vs) []" unfolding lvs0_append by simp
  with h' show ?thesis by blast
qed

lemma lower_loop_ok:
  assumes l: "lvs0 h zl ((hdr, K) # ps) []"
  shows "1 \<le> z \<Longrightarrow> z \<le> K \<Longrightarrow> low z ps \<Longrightarrow>
    \<exists>z'. lower_loop h hdr z = Some z' \<and> 1 \<le> z' \<and> z' \<le> z \<and> low z' ps \<and> (z' = 1 \<or> \<not> low (z' - 1) ps)"
proof (induction z)
  case (Suc z)
  show ?case
  proof (cases "z = 0")
    case False
    have "z < K" using Suc.prems by simp
    from zlev_node_ok [OF lvs0D [OF l, of "[]" hdr K ps] this] obtain lv where lv: "zlev h hdr z = Some lv" "forward lv = fst (nxt z ps)" by auto
    show ?thesis
    proof (cases "low z ps")
      case True
      then have "forward lv = None" using lv(2) nxt_none by simp
      with Suc.IH Suc.prems True False lv(1) show ?thesis by auto
    next
      case high: False
      then obtain A a k B where "ps = A @ (a, k) # B" "low z A" "z < k" using low_split by blast
      then have "forward lv \<noteq> None" using lv(2) nxt_hit by simp
      with high lv(1) Suc.prems False show ?thesis by auto
    qed
  qed (use Suc.prems in auto)
qed simp

lemma node_ok_lower: "node_ok h zl a k E \<Longrightarrow> z \<le> zl \<Longrightarrow> node_ok h z a k E"
  by (auto simp: node_ok_def)

lemma lvs0_lower: "lvs0 h zl us A \<Longrightarrow> z \<le> zl \<Longrightarrow> lvs0 h z us A"
  unfolding lvs_def using node_ok_lower by blast

definition upd_all :: "zskiplist \<Rightarrow> 's zn list \<Rightarrow> nat list \<Rightarrow> bool" where
  "upd_all zsl A update \<longleftrightarrow> (\<forall>i < z_level zsl. \<exists>u r. nth_opt update i = Some u \<and> upd_ok (hdl zsl # ahs A) i u r)"

lemma zslDeleteNode_ok:
  assumes r: "zsl_rep h zsl (A @ X # B)" and u: "upd_all zsl A update"
  shows "\<exists>h' zsl'. zslDeleteNode h zsl (za X) update = Some (h', zsl') \<and> zsl_rep h' zsl' (A @ B) \<and> z_header zsl' = z_header zsl \<and>
    z_level zsl' \<le> z_level zsl \<and> h' (za X) = h (za X) \<and> frame_on (insert (z_header zsl) (za ` set (A @ B))) h h'"
proof -
  note R = zsl_repD [OF r]
  let ?zl = "z_level zsl" and ?x = "za X"
  have d: "distinct (map fst ((hdl zsl # ahs A) @ (?x, zh X) # ahs B))" using R(2,3) by (auto simp: hdl_def)
  have low: "low ?zl (ahs A @ (?x, zh X) # ahs B)" using R(9) by (auto simp: levels_bound_def low_ahs)
  have l: "lvs0 h ?zl ((hdl zsl # ahs A) @ (?x, zh X) # ahs B) []" using R(1) by simp
  obtain h1 where h1: "unlink_loop h ?x update 0 ?zl = Some h1" "lvs0 h1 ?zl ((hdl zsl # ahs A) @ ahs B) []" "same_data h h1"
    "frame_on (fst ` set (hdl zsl # ahs A)) h h1"
    using delete_links [OF l d low] u unfolding upd_all_def by blast
  have x: "?x \<notin> za ` set A" "?x \<notin> za ` set B" "?x \<noteq> z_header zsl" using R(2,3) by auto
  have eq: "h1 ?x = h ?x" using h1(4) x by (auto simp: frame_on_def hdl_def)
  obtain n where n: "h ?x = Some n" "zn_backward n = final_ptr None A" using chain_node [OF R(4)] by blast
  have "node_ok h ?zl ?x (zh X) (\<lambda>i. nxt i (ahs B @ []))" using lvs0D [OF l] by blast
  then have n0: "0 < length (zn_level n)" "forward (zn_level n ! 0) = first_ptr B"
    using n(1) R(9) nxt_0_ahs [of ?zl B] unfolding node_ok_def by (auto simp: levels_bound_def)
  have c1: "chain h1 None A" "chain h1 (Some ?x) B" using chain_same [OF R(4) h1(3)] by simp_all
  have dB: "distinct (map za B)" "za ` set A \<inter> za ` set B = {}" "z_header zsl \<notin> za ` set B" using R(2,3) by auto
  obtain h2 where h2: "reback h1 B (final_ptr None A) = Some h2" "chain h2 (final_ptr None A) B" "same_levels h1 h2" "frame_on (za ` set B) h1 h2"
    using reback_chain [OF c1(2) dB(1)] by blast
  have c2: "chain h2 None (A @ B)" using chain_frame [OF c1(1) h2(4)] dB(2) h2(2) by auto
  have l2: "lvs0 h2 ?zl ((z_header zsl, ZSKIPLIST_MAXLEVEL) # ahs (A @ B)) []" using lvs_levels [OF h1(2) h2(3)] by (simp add: hdl_def)
  have lowAB: "low ?zl (ahs (A @ B))" using low by simp
  from lower_loop_ok [OF l2 R(10,11) lowAB] obtain z where z: "lower_loop h2 (z_header zsl) ?zl = Some z" "1 \<le> z" "z \<le> ?zl" "low z (ahs (A @ B))"
    "z = 1 \<or> \<not> low (z - 1) (ahs (A @ B))" by blast
  let ?z = "zsl\<lparr>z_tail := (if B = [] then final_ptr None A else z_tail zsl), z_level := z, z_length := z_length zsl - 1\<rparr>"
  have "zslDeleteNode h zsl ?x update = Some (h2, ?z)"
    using h1(1) eq n n0 h2(1) z(1)
    by (cases B) (simp_all add: zslDeleteNode_def zlev_def first_ptr_def reback_def)
  moreover have "zsl_rep h2 ?z (A @ B)"
  proof -
    have "levels_bound z (A @ B)" using z(4) R(9) by (auto simp: levels_bound_def low_ahs)
    moreover have "z = 1 \<or> (\<exists>y \<in> set (A @ B). zh y = z)"
    proof (cases "z = 1")
      case False
      with z(5) obtain y where "y \<in> set (A @ B)" "\<not> zh y \<le> z - 1" by (auto simp: low_ahs)
      moreover from this z(4) have "zh y \<le> z" by (auto simp: low_ahs)
      ultimately show ?thesis by (intro disjI2 bexI [of _ y]) auto
    qed simp
    moreover have "lvs0 h2 z (hdl zsl # ahs (A @ B)) []" using lvs0_lower [OF l2 z(3)] by (simp add: hdl_def)
    moreover have "\<exists>n. h2 (z_header zsl) = Some n \<and> zn_ele n = None"
    proof -
      have "map_option zn_ele (h1 (z_header zsl)) = Some None" using R(5) h1(3) unfolding same_data_def by (metis (no_types, lifting) map_option_eq_Some option.map_comp comp_def fst_conv)
      then show ?thesis using h2(4) dB(3) by (auto simp: frame_on_def)
    qed
    moreover have "final_ptr None (A @ B) = (if B = [] then final_ptr None A else z_tail zsl)" using R(6) by (auto simp: final_ptr_def)
    moreover have "sorted_wrt klt (map keyof (A @ B))" using R(13) by (auto simp: sorted_wrt_append)
    moreover have "distinct (z_header zsl # map za (A @ B))" using R(2,3) by auto
    ultimately show ?thesis unfolding zsl_rep_def using c2 z(2,3) R(7,8,11) by (simp add: hdl_def)
  qed
  moreover have "h2 ?x = h ?x" using h2(4) x(2) eq by (simp add: frame_on_def)
  moreover have "frame_on (insert (z_header zsl) (za ` set (A @ B))) h h2"
    using frame_on_mono [OF h1(4)] frame_on_mono [OF h2(4)] by (rule frame_on_trans) (auto simp: hdl_def)
  ultimately show ?thesis using z(3) by auto
qed

lemma zsl_rep_frame:
  assumes r: "zsl_rep h zsl xs" and f: "frame_on S h h'" and S: "S \<inter> insert (z_header zsl) (za ` set xs) = {}"
  shows "zsl_rep h' zsl xs"
proof -
  note R = zsl_repD [OF r]
  have "lvs0 h' (z_level zsl) (hdl zsl # ahs xs) []" using lvs_frame [OF R(1) f] S by (auto simp: hdl_def)
  moreover have "chain h' None xs" using chain_frame [OF R(4) f] S by blast
  moreover have "h' (z_header zsl) = h (z_header zsl)" using f S by (auto simp: frame_on_def)
  ultimately show ?thesis unfolding zsl_rep_def using R by simp
qed

lemma zslFreeNode_rep:
  assumes "zsl_rep h zsl xs" "h a = Some n" "a \<notin> insert (z_header zsl) (za ` set xs)"
  shows "zslFreeNode h a = Some (h(a := None)) \<and> zsl_rep (h(a := None)) zsl xs"
  using assms zsl_rep_frame [of h zsl xs "{a}" "h(a := None)"] by (simp add: zslFreeNode_def frame_on_def)

section \<open>Following the lowest level\<close>

abbreviation pos :: "zskiplist \<Rightarrow> 's zn list \<Rightarrow> nat" where
  "pos zsl A \<equiv> fst (last (hdl zsl # ahs A))"

lemma pos_level:
  assumes r: "zsl_rep h zsl (A @ B)"
  shows "\<exists>l. zlev h (pos zsl A) 0 = Some l \<and> forward l = first_ptr B"
proof -
  note R = zsl_repD [OF r]
  have B: "fst (nxt 0 (ahs B)) = first_ptr B" using nxt_0_ahs [of "z_level zsl" B] R(9) by (simp add: levels_bound_def)
  show ?thesis
  proof (cases A rule: rev_cases)
    case Nil
    from lvs0D [OF R(1), of "[]" "z_header zsl" ZSKIPLIST_MAXLEVEL "ahs B"] Nil
    have "node_ok h (z_level zsl) (z_header zsl) ZSKIPLIST_MAXLEVEL (\<lambda>i. nxt i (ahs B))" by (simp add: hdl_def)
    from zlev_node_ok [OF this, of 0] B Nil show ?thesis by (auto simp: ZSKIPLIST_MAXLEVEL_def hdl_def)
  next
    case (snoc A' a)
    from lvs0D [OF R(1), of "hdl zsl # ahs A'" "za a" "zh a" "ahs B"] snoc
    have "node_ok h (z_level zsl) (za a) (zh a) (\<lambda>i. nxt i (ahs B))" by simp
    moreover have "0 < zh a" using R(9) snoc by (auto simp: levels_bound_def)
    ultimately have "\<exists>l. zlev h (za a) 0 = Some l \<and> forward l = fst (nxt 0 (ahs B))" using zlev_node_ok by blast
    with B snoc show ?thesis by simp
  qed
qed

lemma pos_node:
  assumes r: "zsl_rep h zsl (A @ b # B)"
  shows "\<exists>n. h (za b) = Some n \<and> zn_ele n = Some (ze b) \<and> zn_score n = zs b \<and> zn_backward n = final_ptr None A"
  using chain_node [OF zsl_repD(4) [OF r]] .

lemma next_pos_Nil: "zsl_rep h zsl A \<Longrightarrow> next_node h (pos zsl A) = Some None"
  using pos_level [of h zsl A "[]"] by (auto simp: next_node_def first_ptr_def)

lemma next_pos_Cons:
  assumes r: "zsl_rep h zsl (A @ b # B)" and "h (za b) = Some n"
  shows "next_node h (pos zsl A) = Some (Some (za b, n))"
  using pos_level [OF r] assms(2) by (auto simp: next_node_def first_ptr_def)

section \<open>Deletion\<close>

lemma descend_length: "descend cond h z x t = Some (y, u, update) \<Longrightarrow> length update = z"
  by (induction z arbitrary: x t y u update) (auto simp: bind_eq_Some_conv)

lemma descend_head: "descend cond h z x t = Some (y, u, update) \<Longrightarrow> 0 < z \<Longrightarrow> (y, u) = update ! 0"
proof (induction z arbitrary: x t y u update)
  case (Suc z)
  then obtain x' t' y' u' update' where w: "walk cond h z x t = Some (x', t')" "descend cond h z x' t' = Some (y', u', update')"
    and e: "y = y'" "u = u'" "update = update' @ [(x', t')]"
    by (auto simp: bind_eq_Some_conv)
  show ?case
  proof (cases z)
    case 0
    with w(2) e show ?thesis by simp
  next
    case (Suc z')
    have "length update' = z" using w(2) by (rule descend_length)
    with Suc.IH [OF w(2)] e \<open>z = Suc z'\<close> show ?thesis by (simp add: nth_append)
  qed
qed simp

lemma search_upd_all:
  assumes "length update = z_level zsl" "\<forall>i < z_level zsl. \<exists>r. snd (update ! i) = of_nat r \<and> upd_ok (hdl zsl # ahs A) i (fst (update ! i)) r"
  shows "upd_all zsl A (map fst update)"
  using assms by (auto simp: upd_all_def nth_opt_def)

text \<open>A search ends at the last node of the prefix and has the right update array.\<close>

lemma search_pos:
  assumes r: "zsl_rep h zsl (A @ B)" and c: "cuts cond h (hdl zsl # ahs A) (ahs B)"
  shows "\<exists>update. descend cond h (z_level zsl) (z_header zsl) 0 = Some (pos zsl A, of_nat (length A), update) \<and> upd_all zsl A (map fst update)"
proof -
  obtain y t update where d: "descend cond h (z_level zsl) (z_header zsl) 0 = Some (y, t, update)" "length update = z_level zsl"
    "\<forall>i < z_level zsl. \<exists>r. snd (update ! i) = of_nat r \<and> upd_ok (hdl zsl # ahs A) i (fst (update ! i)) r"
    "y = pos zsl A" "update ! 0 = (y, of_nat (length A))"
    using search_descends [OF r c] by blast
  have "(y, t) = update ! 0"
    using descend_head [OF d(1)] zsl_repD(10) [OF r] by simp
  with d search_upd_all [OF d(2,3)] show ?thesis by auto
qed

lemma is_key_eq: "zn_ele n = Some e \<Longrightarrow> is_key score ele n \<longleftrightarrow> (zn_score n, e) = (score, ele)"
  by (auto simp: is_key_def sdscmp_eq)

text \<open>Splitting the nodes at a key: if it is there, it is the first that is not smaller.\<close>

lemma split_at_key:
  assumes s: "sorted_wrt klt (map keyof (A @ B))" "\<forall>x \<in> set A. klt (keyof x) p" "\<forall>x \<in> set B. \<not> klt (keyof x) p"
    and p: "p \<in> keyof ` set (A @ B)"
  shows "\<exists>X B'. B = X # B' \<and> keyof X = p"
proof -
  from p s(2) obtain Y where Y: "Y \<in> set B" "keyof Y = p" by auto
  then obtain X B' where B: "B = X # B'" by (cases B) auto
  have "keyof X = p"
  proof (cases "Y = X")
    case False
    then have "klt (keyof X) p" using s(1) Y B by (auto simp: sorted_wrt_append)
    with s(3) B show ?thesis by simp
  qed (use Y in simp)
  with B show ?thesis by blast
qed

text \<open>The search that \<^verbatim>\<open>zslDelete\<close> and \<^verbatim>\<open>zslUpdateScore\<close> begin with, when the key is there.\<close>

lemma search_key:
  assumes r: "zsl_rep h zsl xs" and p: "(score, ele) \<in> keyof ` set xs"
  obtains A X B update n where "xs = A @ X # B" "keyof X = (score, ele)" "zsl_rep h zsl (A @ X # B)"
    "descend (\<lambda>_. before score ele) h (z_level zsl) (z_header zsl) (0 :: ulong) = Some (pos zsl A, of_nat (length A), update)"
    "upd_all zsl A (map fst update)" "next_node h (pos zsl A) = Some (Some (za X, n))" "h (za X) = Some n" "is_key score ele n"
    "zn_ele n = Some ele" "zn_backward n = final_ptr None A" "keyof ` set xs - {(score, ele)} = keyof ` set (A @ B)"
proof -
  obtain A B where s: "xs = A @ B" "\<forall>x \<in> set A. klt (keyof x) (score, ele)" "\<forall>x \<in> set B. \<not> klt (keyof x) (score, ele)"
    "cuts (\<lambda>_ :: ulong. before score ele) h (hdl zsl # ahs A) (ahs B)" using search_before [OF r] by blast
  note rAB = r [unfolded s(1)]
  obtain X B' where B: "B = X # B'" "keyof X = (score, ele)"
    using split_at_key [OF zsl_repD(13) [OF rAB] s(2,3)] p s(1) by auto
  note rX = rAB [unfolded B(1)]
  obtain n where n: "h (za X) = Some n" "zn_ele n = Some (ze X)" "zn_score n = zs X" "zn_backward n = final_ptr None A" using pos_node [OF rX] by blast
  have "is_key score ele n" using is_key_eq [OF n(2)] n(3) B(2) by simp
  moreover have "keyof ` set xs - {(score, ele)} = keyof ` set (A @ B')"
  proof -
    have "(score, ele) \<notin> keyof ` set (A @ B')" using zsl_repD(13) [OF rX] B(2) by (fastforce simp: sorted_wrt_append)
    then show ?thesis using s(1) B by auto
  qed
  moreover have "xs = A @ X # B'" "zn_ele n = Some ele" using s(1) B n(2) by simp_all
  moreover obtain update where "descend (\<lambda>_. before score ele) h (z_level zsl) (z_header zsl) (0 :: ulong) = Some (pos zsl A, of_nat (length A), update)"
    "upd_all zsl A (map fst update)" using search_pos [OF rAB s(4)] by blast
  ultimately show thesis using B(2) rX n(1,4) next_pos_Cons [OF rX n(1)] by (intro that)
qed

lemma zslDelete_found:
  assumes r: "zsl_rep h zsl xs" and p: "(score, ele) \<in> keyof ` set xs"
  shows "\<exists>A X B h' zsl'. xs = A @ X # B \<and> keyof X = (score, ele) \<and> zslDelete h zsl score ele keep = Some (h', zsl', Some (za X)) \<and>
    zsl_rep h' zsl' (A @ B) \<and> z_header zsl' = z_header zsl \<and> h' (za X) = (if keep then h (za X) else None) \<and>
    frame_on (insert (z_header zsl) (za ` set xs)) h h'"
proof -
  obtain A X B update n where s: "xs = A @ X # B" "keyof X = (score, ele)" "zsl_rep h zsl (A @ X # B)"
    and d: "descend (\<lambda>_. before score ele) h (z_level zsl) (z_header zsl) (0 :: ulong) = Some (pos zsl A, of_nat (length A), update)"
      "upd_all zsl A (map fst update)" "next_node h (pos zsl A) = Some (Some (za X, n))"
    and n: "h (za X) = Some n" "is_key score ele n"
    by (rule search_key [OF r p])
  obtain h' zsl' where h': "zslDeleteNode h zsl (za X) (map fst update) = Some (h', zsl')" "zsl_rep h' zsl' (A @ B)" "z_header zsl' = z_header zsl"
    "h' (za X) = h (za X)" "frame_on (insert (z_header zsl) (za ` set (A @ B))) h h'"
    using zslDeleteNode_ok [OF s(3) d(2)] by blast
  have x: "za X \<notin> insert (z_header zsl') (za ` set (A @ B))" using zsl_repD(2,3) [OF s(3)] h'(3) by auto
  have fr: "zslFreeNode h' (za X) = Some (h'(za X := None)) \<and> zsl_rep (h'(za X := None)) zsl' (A @ B)"
    using zslFreeNode_rep [OF h'(2) _ x] h'(4) n(1) by simp
  let ?h = "if keep then h' else h'(za X := None)"
  have "zslDelete h zsl score ele keep = Some (?h, zsl', Some (za X))" using d n(2) h'(1) fr by (auto simp: zslDelete_def)
  moreover have "zsl_rep ?h zsl' (A @ B)" using fr h'(2) by simp
  moreover have "frame_on (insert (z_header zsl) (za ` set xs)) h ?h" using h'(5) s(1) by (auto simp: frame_on_def)
  ultimately show ?thesis using s(1,2) h'(3,4) by (intro exI [of _ A] exI [of _ X] exI [of _ B] exI [of _ ?h] exI [of _ zsl']) auto
qed

lemma zslDelete_missing:
  assumes r: "zsl_rep h zsl xs" and p: "(score, ele) \<notin> keyof ` set xs"
  shows "zslDelete h zsl score ele keep = Some (h, zsl, None)"
proof -
  obtain A B where s: "xs = A @ B" "\<forall>x \<in> set A. klt (keyof x) (score, ele)" "\<forall>x \<in> set B. \<not> klt (keyof x) (score, ele)"
    "cuts (\<lambda>_ :: ulong. before score ele) h (hdl zsl # ahs A) (ahs B)" using search_before [OF r] by blast
  note rAB = r [unfolded s(1)]
  obtain update where d: "descend (\<lambda>_. before score ele) h (z_level zsl) (z_header zsl) (0 :: ulong) = Some (pos zsl A, of_nat (length A), update)"
    using search_pos [OF rAB s(4)] by blast
  show ?thesis
  proof (cases B)
    case Nil
    then show ?thesis using d next_pos_Nil [of h zsl A] rAB by (simp add: zslDelete_def)
  next
    case (Cons b B')
    note rb = rAB [unfolded Cons]
    obtain n where n: "h (za b) = Some n" "zn_ele n = Some (ze b)" "zn_score n = zs b" using pos_node [OF rb] by blast
    have "\<not> is_key score ele n" using is_key_eq [OF n(2)] n(3) p s(1) Cons by auto
    then show ?thesis using d next_pos_Cons [OF rb n(1)] by (simp add: zslDelete_def)
  qed
qed

section \<open>Changing a score\<close>

lemma chain_rescore: "chain h p (A @ X # B) \<Longrightarrow> distinct (map za (A @ X # B)) \<Longrightarrow> h (za X) = Some n \<Longrightarrow>
    chain (h(za X \<mapsto> n\<lparr>zn_score := s\<rparr>)) p (A @ Zn (za X) s (ze X) (zh X) # B)"
  by (auto simp: zn_ok_def intro: chain_upd)

lemma rescore_rep:
  assumes r: "zsl_rep h zsl (A @ X # B)" and n: "h (za X) = Some n"
    and A: "\<forall>a \<in> set A. zs a < s" and B: "\<forall>b \<in> set B. s < zs b"
  shows "zsl_rep (h(za X \<mapsto> n\<lparr>zn_score := s\<rparr>)) zsl (A @ Zn (za X) s (ze X) (zh X) # B)" (is "zsl_rep ?h zsl ?ys")
proof -
  note R = zsl_repD [OF r]
  have "same_levels h ?h" using n by (auto simp: same_levels_def)
  from lvs_levels [OF R(1) this] have "lvs0 ?h (z_level zsl) (hdl zsl # ahs ?ys) []" by simp
  moreover have "chain ?h None ?ys" using chain_rescore [OF R(4,3) n] .
  moreover have "sorted_wrt klt (map keyof ?ys)" using R(13) A B by (auto simp: sorted_wrt_append klt_def)
  moreover have "z_tail zsl = final_ptr None ?ys" using R(6) by (auto simp: final_ptr_def)
  moreover have "levels_bound (z_level zsl) ?ys" "z_level zsl = 1 \<or> (\<exists>x \<in> set ?ys. zh x = z_level zsl)" using R(9,12) by (auto simp: levels_bound_def)
  moreover have "z_header zsl \<noteq> za X" using R(2) by auto
  ultimately show ?thesis unfolding zsl_rep_def using R(2,3,5,7,8,10,11) by (simp add: image_Un)
qed

lemma scores_sorted: "sorted_wrt klt (map keyof (A @ X # B)) \<Longrightarrow> a \<in> set A \<Longrightarrow> zs a \<le> zs X"
  "sorted_wrt klt (map keyof (A @ X # B)) \<Longrightarrow> b \<in> set B \<Longrightarrow> zs X \<le> zs b"
  by (auto simp: sorted_wrt_append klt_def)

text \<open>The two neighbours decide whether the node keeps its place.\<close>

lemma back_test:
  assumes r: "zsl_rep h zsl (A @ X # B)"
  shows "(case final_ptr None A of None \<Rightarrow> Some True | Some b \<Rightarrow> do { m \<leftarrow> h b; Some (zn_score m < s) }) = Some (\<forall>a \<in> set A. zs a < s)"
proof (cases A rule: rev_cases)
  case (snoc A' a)
  note R = zsl_repD [OF r]
  obtain m where m: "h (za a) = Some m" "zn_score m = zs a" using chain_node [of h None A' a "X # B"] R(4) snoc by auto
  have "zs c \<le> zs a" if "c \<in> set A'" for c using scores_sorted(1) [of A' a "X # B"] R(13) snoc that by simp
  then have "(\<forall>c \<in> set A. zs c < s) \<longleftrightarrow> zs a < s" using snoc by (auto intro: le_less_trans)
  with m snoc show ?thesis by simp
qed simp

lemma next_test:
  assumes r: "zsl_rep h zsl (A @ X # B)"
  shows "\<exists>f. next_node h (za X) = Some f \<and> (case f of None \<Rightarrow> True | Some (_, m) \<Rightarrow> zn_score m > s) = (\<forall>b \<in> set B. s < zs b)"
proof (cases B)
  case Nil
  then show ?thesis using next_pos_Nil [of h zsl "A @ [X]"] r by simp
next
  case (Cons b B')
  have rb: "zsl_rep h zsl ((A @ [X]) @ b # B')" using r Cons by simp
  obtain m where m: "h (za b) = Some m" "zn_score m = zs b" using pos_node [OF rb] by blast
  have "zs b \<le> zs c" if "c \<in> set B'" for c using scores_sorted(2) [of "A @ [X]" b B'] zsl_repD(13) [OF rb] that by simp
  then have "(\<forall>c \<in> set B. s < zs c) \<longleftrightarrow> s < zs b" using Cons by (auto intro: less_le_trans)
  with m next_pos_Cons [OF rb m(1)] show ?thesis by simp
qed

text \<open>Unlinking a node, inserting its element with another score and freeing it.\<close>

lemma move_node:
  assumes r: "zsl_rep h zsl (A @ X # B)" and u: "upd_all zsl A update" and new: "h y = None" and rnd: "zslRandomLevel rnd = Some k"
    and len: "length (A @ B) < 2 ^ 32 - 1" and q: "(s, ele) \<notin> keyof ` set (A @ B)"
  shows "\<exists>h1 zsl1 h2 zsl2 ys. zslDeleteNode h zsl (za X) update = Some (h1, zsl1) \<and>
    zslInsert junk_ptr junk rnd y h1 zsl1 s ele = Some (h2, zsl2, y) \<and> zslFreeNode h2 (za X) = Some (h2(za X := None)) \<and>
    zsl_rep (h2(za X := None)) zsl2 ys \<and> set ys = insert (Zn y s ele k) (set (A @ B)) \<and> z_header zsl2 = z_header zsl \<and>
    frame_on (insert y (insert (z_header zsl) (za ` set (A @ X # B)))) h (h2(za X := None))"
proof -
  note R = zsl_repD [OF r]
  obtain h1 zsl1 where h1: "zslDeleteNode h zsl (za X) update = Some (h1, zsl1)" "zsl_rep h1 zsl1 (A @ B)" "z_header zsl1 = z_header zsl"
    "h1 (za X) = h (za X)" "frame_on (insert (z_header zsl) (za ` set (A @ B))) h h1"
    using zslDeleteNode_ok [OF r u] by blast
  note fresh = zsl_rep_fresh [OF r new]
  have y: "h1 y = None" using h1(5) fresh new by (auto simp: frame_on_def)
  obtain h2 zsl2 C D where h2: "zslInsert junk_ptr junk rnd y h1 zsl1 s ele = Some (h2, zsl2, y)" "A @ B = C @ D"
    "zsl_rep h2 zsl2 (C @ Zn y s ele k # D)" "z_header zsl2 = z_header zsl1"
    "frame_on (insert y (insert (z_header zsl1) (za ` set (A @ B)))) h1 h2"
    using zslInsert_inserts [OF h1(2) y rnd len q] by blast
  let ?ys = "C @ Zn y s ele k # D"
  have setys: "set ?ys = insert (Zn y s ele k) (set (A @ B))" unfolding h2(2) by auto
  have x: "za X \<noteq> y" "za X \<noteq> z_header zsl" "za X \<notin> za ` set (A @ B)" using fresh R(2,3) by auto
  obtain n where n: "h (za X) = Some n" using pos_node [OF r] by blast
  have "h2 (za X) = Some n" using h2(5) h1(3,4) n x by (auto simp: frame_on_def)
  moreover have "za X \<notin> insert (z_header zsl2) (za ` set ?ys)" using x h1(3) h2(4) unfolding setys by auto
  ultimately have "zslFreeNode h2 (za X) = Some (h2(za X := None)) \<and> zsl_rep (h2(za X := None)) zsl2 ?ys"
    using zslFreeNode_rep [OF h2(3)] by blast
  moreover have "frame_on (insert y (insert (z_header zsl) (za ` set (A @ X # B)))) h (h2(za X := None))"
    using h1(3,5) h2(5) by (auto simp: frame_on_def)
  moreover have "z_header zsl2 = z_header zsl" using h1(3) h2(4) by simp
  ultimately show ?thesis using h1(1) h2(1) setys by blast
qed

lemma zslUpdateScore_moves:
  assumes r: "zsl_rep h zsl xs" and p: "(curscore, ele) \<in> keyof ` set xs" and new: "h y = None" and rnd: "zslRandomLevel rnd = Some k"
    and len: "length xs < 2 ^ 32 - 1" and q: "newscore = curscore \<or> (newscore, ele) \<notin> keyof ` set xs"
  shows "\<exists>h' zsl' ys A X B Y. xs = A @ X # B \<and> keyof X = (curscore, ele) \<and>
    zslUpdateScore junk_ptr junk rnd y h zsl curscore ele newscore = Some (h', zsl', za Y) \<and> zsl_rep h' zsl' ys \<and>
    z_header zsl' = z_header zsl \<and> set ys = insert Y (set (A @ B)) \<and> keyof Y = (newscore, ele) \<and>
    frame_on (insert y (insert (z_header zsl) (za ` set xs))) h h'"
proof -
  obtain A X B update n where s: "xs = A @ X # B" "keyof X = (curscore, ele)" "zsl_rep h zsl (A @ X # B)"
    and d: "descend (\<lambda>_. before curscore ele) h (z_level zsl) (z_header zsl) (0 :: ulong) = Some (pos zsl A, of_nat (length A), update)"
      "upd_all zsl A (map fst update)" "next_node h (pos zsl A) = Some (Some (za X, n))"
    and n: "h (za X) = Some n" "is_key curscore ele n" "zn_ele n = Some ele" "zn_backward n = final_ptr None A"
    and keys: "keyof ` set xs - {(curscore, ele)} = keyof ` set (A @ B)"
    by (rule search_key [OF r p])
  note low = back_test [OF s(3), of newscore, folded n(4)]
  obtain f where f: "next_node h (za X) = Some f" "(case f of None \<Rightarrow> True | Some (_, m) \<Rightarrow> zn_score m > newscore) = (\<forall>b \<in> set B. newscore < zs b)"
    using next_test [OF s(3)] by blast
  show ?thesis
  proof (cases "(\<forall>a \<in> set A. zs a < newscore) \<and> (\<forall>b \<in> set B. newscore < zs b)")
    case True
    let ?h = "h(za X \<mapsto> n\<lparr>zn_score := newscore\<rparr>)" and ?ys = "A @ Zn (za X) newscore (ze X) (zh X) # B"
    have "zslUpdateScore junk_ptr junk rnd y h zsl curscore ele newscore = Some (?h, zsl, za X)"
      using d n(2) low f True by (simp add: zslUpdateScore_def)
    moreover have "zsl_rep ?h zsl ?ys" using rescore_rep [OF s(3) n(1)] True by blast
    moreover have "frame_on (insert y (insert (z_header zsl) (za ` set xs))) h ?h" using s(1) by (auto simp: frame_on_def)
    ultimately show ?thesis using s(1,2)
      by (intro exI [of _ ?h] exI [of _ zsl] exI [of _ ?ys] exI [of _ A] exI [of _ X] exI [of _ B] exI [of _ "Zn (za X) newscore (ze X) (zh X)"]) simp
  next
    case False
    have q': "(newscore, ele) \<notin> keyof ` set (A @ B)" using q unfolding keys [symmetric] by auto
    have len': "length (A @ B) < 2 ^ 32 - 1" using len s(1) by simp
    obtain h1 zsl1 h2 zsl2 ys where m: "zslDeleteNode h zsl (za X) (map fst update) = Some (h1, zsl1)"
      "zslInsert junk_ptr junk rnd y h1 zsl1 newscore ele = Some (h2, zsl2, y)" "zslFreeNode h2 (za X) = Some (h2(za X := None))"
      "zsl_rep (h2(za X := None)) zsl2 ys" "set ys = insert (Zn y newscore ele k) (set (A @ B))" "z_header zsl2 = z_header zsl"
      "frame_on (insert y (insert (z_header zsl) (za ` set (A @ X # B)))) h (h2(za X := None))"
      using move_node [OF s(3) d(2) new rnd len' q'] by blast
    have "zslUpdateScore junk_ptr junk rnd y h zsl curscore ele newscore = Some (h2(za X := None), zsl2, y)"
      using d n(2,3) low f False m(1-3) by (auto simp: zslUpdateScore_def)
    then show ?thesis using s(1,2) m(4-7)
      by (intro exI [of _ "h2(za X := None)"] exI [of _ zsl2] exI [of _ ys] exI [of _ A] exI [of _ X] exI [of _ B] exI [of _ "Zn y newscore ele k"]) simp
  qed
qed

lemma zsl_rep_distinct:
  assumes "zsl_rep h zsl xs"
  shows "distinct (map keyof xs)"
  using zsl_repD(13) [OF assms] by (induction xs) (auto simp: klt_def)

lemma zsl_rep_without: "zsl_rep h zsl (A @ X # B) \<Longrightarrow> keyof ` set (A @ B) = keyof ` set (A @ X # B) - {keyof X}"
  using zsl_rep_distinct [of h zsl "A @ X # B"] by (auto simp: image_Un)

lemma zslUpdateScore_updates:
  assumes r: "zsl_rep h zsl xs" and p: "(curscore, ele) \<in> keyof ` set xs" and new: "h y = None" and rnd: "zslRandomLevel rnd = Some k"
    and len: "length xs < 2 ^ 32 - 1" and q: "newscore = curscore \<or> (newscore, ele) \<notin> keyof ` set xs"
  shows "\<exists>h' zsl' ys a. zslUpdateScore junk_ptr junk rnd y h zsl curscore ele newscore = Some (h', zsl', a) \<and> zsl_rep h' zsl' ys \<and>
    z_header zsl' = z_header zsl \<and> keyof ` set ys = insert (newscore, ele) (keyof ` set xs - {(curscore, ele)}) \<and>
    (\<exists>Y \<in> set ys. za Y = a \<and> keyof Y = (newscore, ele)) \<and> frame_on (insert y (insert (z_header zsl) (za ` set xs))) h h'"
proof -
  obtain h' zsl' ys A X B Y where m: "xs = A @ X # B" "keyof X = (curscore, ele)"
    "zslUpdateScore junk_ptr junk rnd y h zsl curscore ele newscore = Some (h', zsl', za Y)" "zsl_rep h' zsl' ys"
    "z_header zsl' = z_header zsl" "set ys = insert Y (set (A @ B))" "keyof Y = (newscore, ele)"
    "frame_on (insert y (insert (z_header zsl) (za ` set xs))) h h'"
    using zslUpdateScore_moves [OF assms, of junk_ptr junk] by (elim exE conjE) (rule that)
  have "keyof ` set ys = insert (newscore, ele) (keyof ` set xs - {(curscore, ele)})"
    using zsl_rep_without [of h zsl A X B] r m(7) unfolding m(1,2,6) by simp
  moreover have "Y \<in> set ys" unfolding m(6) by simp
  ultimately show ?thesis using m(3-5,7,8) by blast
qed

end
