(* ===== verification/Skiplist_Search.thy ===== *)
theory Skiplist_Search
  imports Skiplist_Delete
begin

text \<open>
  Creation and release of a skip list, ranks, and the first and last node of a range.
\<close>

section \<open>Creation and release\<close>

lemma init_levels_ok:
  "h a = Some n \<Longrightarrow> length (zn_level n) = j + m \<Longrightarrow>
   (\<forall>i < j. zn_level n ! i = \<lparr>forward = None, span = 0\<rparr>) \<Longrightarrow>
   \<exists>n'. init_levels h a j m = Some (h(a \<mapsto> n')) \<and> zn_level n' = replicate (j + m) \<lparr>forward = None, span = 0\<rparr> \<and>
     zn_ele n' = zn_ele n \<and> zn_score n' = zn_score n"
proof (induction m arbitrary: h n j)
  case 0
  then have "zn_level n = replicate j \<lparr>forward = None, span = 0\<rparr>" by (intro nth_equalityI) auto
  moreover have "h(a \<mapsto> n) = h" using 0 by auto
  ultimately show ?case by (intro exI [of _ n]) simp
next
  case (Suc m)
  let ?n = "n\<lparr>zn_level := (zn_level n)[j := \<lparr>forward = None, span = 0\<rparr>]\<rparr>"
  have j: "j < length (zn_level n)" using Suc.prems(2) by simp
  have s: "do { h \<leftarrow> set_forward h a j None; set_span h a j 0 } = Some (h(a \<mapsto> ?n))"
    using Suc.prems(1,2) by (simp add: set_forward_def set_span_def upd_lev_eq)
  then have e: "init_levels h a j (Suc m) = init_levels (h(a \<mapsto> ?n)) a (Suc j) m" by (auto simp: bind_eq_Some_conv)
  have "\<exists>n'. init_levels (h(a \<mapsto> ?n)) a (Suc j) m = Some ((h(a \<mapsto> ?n))(a \<mapsto> n')) \<and>
      zn_level n' = replicate (Suc j + m) \<lparr>forward = None, span = 0\<rparr> \<and> zn_ele n' = zn_ele ?n \<and> zn_score n' = zn_score ?n"
    using Suc.prems(2,3) j by (intro Suc.IH) (auto simp: nth_list_update less_Suc_eq)
  then obtain n' where "init_levels (h(a \<mapsto> ?n)) a (Suc j) m = Some (h(a \<mapsto> n'))" "zn_level n' = replicate (Suc j + m) \<lparr>forward = None, span = 0\<rparr>"
    "zn_ele n' = zn_ele n" "zn_score n' = zn_score n" by auto
  then show ?case unfolding e by (intro exI [of _ n']) (simp add: fun_upd_def)
qed

lemma zslCreate_rep:
  "\<exists>h' zsl. zslCreate junk_ptr junk zero a h = Some (h', zsl) \<and> zsl_rep h' zsl [] \<and> z_header zsl = a \<and> frame_on {a} h h'"
proof -
  let ?n = "zslCreateNode junk_ptr junk ZSKIPLIST_MAXLEVEL zero None"
  have "\<exists>n'. init_levels (h(a \<mapsto> ?n)) a 0 ZSKIPLIST_MAXLEVEL = Some ((h(a \<mapsto> ?n))(a \<mapsto> n')) \<and>
      zn_level n' = replicate (0 + ZSKIPLIST_MAXLEVEL) \<lparr>forward = None, span = 0\<rparr> \<and> zn_ele n' = zn_ele ?n \<and> zn_score n' = zn_score ?n"
    by (rule init_levels_ok) (simp_all add: zslCreateNode_def)
  then obtain n where n: "init_levels (h(a \<mapsto> ?n)) a 0 ZSKIPLIST_MAXLEVEL = Some (h(a \<mapsto> n))"
    "zn_level n = replicate ZSKIPLIST_MAXLEVEL \<lparr>forward = None, span = 0\<rparr>" "zn_ele n = None"
    by (auto simp: zslCreateNode_def)
  let ?h = "h(a \<mapsto> n\<lparr>zn_backward := None\<rparr>)" and ?z = "\<lparr>z_header = a, z_tail = None, z_length = 0, z_level = 1\<rparr>"
  have "zslCreate junk_ptr junk zero a h = Some (?h, ?z)" using n(1) by (simp add: zslCreate_def set_backward_def Let_def)
  moreover have "lvs0 ?h 1 [hdl ?z] []"
    using n(2) by (auto simp: hdl_def intro!: lvs_singleton simp: node_ok_def)
  then have "zsl_rep ?h ?z []"
    using n(3) by (simp add: zsl_rep_def levels_bound_def ZSKIPLIST_MAXLEVEL_def)
  ultimately show ?thesis by (auto simp: frame_on_def)
qed

lemma free_loop_frees:
  "chain h p xs \<Longrightarrow> distinct (map za xs) \<Longrightarrow> lvs0 h zl (ahs xs) [] \<Longrightarrow> (\<forall>x \<in> set xs. 0 < zh x) \<Longrightarrow>
   free_loop h (first_ptr xs) = Some (\<lambda>a. if a \<in> za ` set xs then None else h a)"
proof (induction xs arbitrary: h p)
  case Nil
  then show ?case by (simp add: first_ptr_def free_loop.simps)
next
  case (Cons x xs)
  let ?h = "h(za x := None)"
  obtain n where n: "h (za x) = Some n" using Cons.prems(1) by (auto simp: zn_ok_def)
  have x: "za x \<notin> za ` set xs" using Cons.prems(2) by simp
  have l: "lvs0 h zl (ahs xs) []" using Cons.prems(3) lvs0_append [of h zl "[(za x, zh x)]" "ahs xs" "[]"] by simp
  have "node_ok h zl (za x) (zh x) (\<lambda>i. nxt i (ahs xs))" using lvs0D [OF Cons.prems(3), of "[]"] by simp
  moreover have "fst (nxt 0 (ahs xs)) = first_ptr xs" using Cons.prems(4) by (cases xs) (auto simp: first_ptr_def)
  ultimately obtain lv where lv: "zlev h (za x) 0 = Some lv" "forward lv = first_ptr xs"
    using zlev_node_ok [of h zl "za x" "zh x" _ 0] Cons.prems(4) by fastforce
  have f: "frame_on {za x} h ?h" by (simp add: frame_on_def)
  have "chain ?h (Some (za x)) xs" "distinct (map za xs)" "lvs0 ?h zl (ahs xs) []" "\<forall>x \<in> set xs. 0 < zh x"
    using Cons.prems x chain_frame [OF _ f] lvs_frame [OF l f] by auto
  from Cons.IH [OF this] have "free_loop h (first_ptr (x # xs)) = Some (\<lambda>a. if a \<in> za ` set xs then None else ?h a)"
    using n lv by (subst free_loop.simps) (simp add: first_ptr_def zslFreeNode_def fun_upd_def)
  then show ?case by (auto simp: fun_eq_iff)
qed

lemma zslFree_frees:
  assumes r: "zsl_rep h zsl xs"
  shows "zslFree h zsl = Some (\<lambda>a. if a \<in> insert (z_header zsl) (za ` set xs) then None else h a)"
proof -
  note R = zsl_repD [OF r]
  let ?h = "h(z_header zsl := None)"
  have f: "frame_on {z_header zsl} h ?h" by (simp add: frame_on_def)
  obtain n where n: "h (z_header zsl) = Some n" using R(5) by blast
  obtain lv where lv: "zlev h (z_header zsl) 0 = Some lv" "forward lv = first_ptr xs" using pos_level [of h zsl "[]" xs] r by (auto simp: hdl_def)
  have l: "lvs0 h (z_level zsl) (ahs xs) []" using R(1) lvs0_append [of h "z_level zsl" "[hdl zsl]" "ahs xs" "[]"] by simp
  have "free_loop ?h (first_ptr xs) = Some (\<lambda>a. if a \<in> za ` set xs then None else ?h a)"
  proof -
    have "chain ?h None xs" "lvs0 ?h (z_level zsl) (ahs xs) []" "\<forall>x \<in> set xs. 0 < zh x"
      using R(2,9) chain_frame [OF R(4) f] lvs_frame [OF l f] by (auto simp: levels_bound_def)
    from free_loop_frees [OF this(1) R(3) this(2,3)] show ?thesis .
  qed
  then show ?thesis using n lv by (auto simp: zslFree_def zslFreeNode_def fun_upd_def)
qed

section \<open>Ranks\<close>

lemma walk_pos:
  assumes r: "zsl_rep h zsl (A @ B)" and c: "cuts cond h (hdl zsl # ahs A) (ahs B)" and i: "i < z_level zsl"
    and s: "hdl zsl # ahs A = us1 @ (x, k) # us2" "i < k"
  shows "\<exists>C y k' us2'. hdl zsl # ahs A = C @ (y, k') # us2' \<and> i < k' \<and> low i us2' \<and>
    walk cond h i x (of_nat (length us1)) = Some (y, of_nat (length C))"
proof -
  have l: "lvs0 h (z_level zsl) ((hdl zsl # ahs A) @ ahs B) []" and len: "length ((hdl zsl # ahs A) @ ahs B) < 2 ^ 64"
    using zsl_repD(1,8) [OF r] by simp_all
  from walk_stops [OF l c len i s] show ?thesis by blast
qed

text \<open>The node at a position of the list with the header in front.\<close>

lemma hdl_ahs_node:
  assumes r: "zsl_rep h zsl (A @ B)" and s: "hdl zsl # ahs A = C @ (y, k) # us2"
  shows "(C = [] \<and> y = z_header zsl \<and> (\<exists>n. h y = Some n \<and> zn_ele n = None)) \<or>
    (\<exists>x n. length C \<le> length A \<and> A ! (length C - 1) = x \<and> 0 < length C \<and> za x = y \<and> h y = Some n \<and> zn_ele n = Some (ze x) \<and> zn_score n = zs x)"
proof (cases C)
  case Nil
  then show ?thesis using s zsl_repD(5) [OF r] by (auto simp: hdl_def)
next
  case (Cons c C')
  with s have "ahs A = C' @ (y, k) # us2" by simp
  from ahs_split [OF this] obtain D x E where x: "A = D @ x # E" "C' = ahs D" "za x = y" by blast
  have "zsl_rep h zsl (D @ x # (E @ B))" using r x(1) by simp
  from pos_node [OF this] obtain n where "h (za x) = Some n" "zn_ele n = Some (ze x)" "zn_score n = zs x" by blast
  with x Cons show ?thesis by (intro disjI2 exI [of _ x] exI [of _ n]) (auto simp: nth_append)
qed

lemma low_0_end: "levels_bound zl A \<Longrightarrow> hdl zsl # ahs A = C @ (y, k) # us2 \<Longrightarrow> low 0 us2 \<Longrightarrow> us2 = []"
proof (rule ccontr)
  assume a: "levels_bound zl A" "hdl zsl # ahs A = C @ (y, k) # us2" "low 0 us2" "us2 \<noteq> []"
  then obtain p where "p \<in> set us2" by (cases us2) auto
  then have "p \<in> set (ahs A)" using a(2) unfolding Cons_eq_append_conv by auto
  with a(1,3) \<open>p \<in> set us2\<close> show False by (fastforce simp: ahs_def levels_bound_def low_def)
qed

lemma upto_klt: "zn_ele n \<noteq> None \<Longrightarrow> upto_key score ele n \<longleftrightarrow> \<not> klt (score, ele) (zn_score n, the (zn_ele n))"
  by (auto simp: upto_key_def klt_def sdscmp_le)

text \<open>A search whose condition holds for a prefix of the nodes.\<close>

lemma dropWhile_down: "sorted_wrt (\<lambda>x y. Q y \<longrightarrow> Q x) xs \<Longrightarrow> x \<in> set (dropWhile Q xs) \<Longrightarrow> \<not> Q x"
proof (induction xs)
  case (Cons y ys)
  show ?case
  proof (cases "Q y")
    case False
    with Cons.prems show ?thesis by auto
  qed (use Cons in simp)
qed simp

lemma split_down:
  assumes r: "zsl_rep h zsl xs" and down: "sorted_wrt (\<lambda>x y. Q y \<longrightarrow> Q x) xs"
    and Q: "\<And>x n t. x \<in> set xs \<Longrightarrow> zn_ele n = Some (ze x) \<Longrightarrow> zn_score n = zs x \<Longrightarrow> cond t n \<longleftrightarrow> Q x"
  obtains A B where "xs = A @ B" "zsl_rep h zsl (A @ B)" "\<forall>x \<in> set A. Q x" "\<forall>x \<in> set B. \<not> Q x" "cuts cond h (hdl zsl # ahs A) (ahs B)"
proof -
  have AB: "xs = takeWhile Q xs @ dropWhile Q xs" by simp
  have A: "\<forall>x \<in> set (takeWhile Q xs). Q x" by (meson set_takeWhileD)
  have B: "\<forall>x \<in> set (dropWhile Q xs). \<not> Q x" using dropWhile_down [OF down] by blast
  have "cuts cond h (hdl zsl # ahs (takeWhile Q xs)) (ahs (dropWhile Q xs))"
  proof (rule cuts_prefix [where Q = Q])
    show "chain h None (takeWhile Q xs @ dropWhile Q xs)" using zsl_repD(4) [OF r] by simp
  qed (use A B Q in \<open>simp_all del: set_append\<close>)
  with AB A B r that show thesis by (metis (no_types))
qed

lemma split_upto:
  assumes r: "zsl_rep h zsl xs"
  obtains A B where "xs = A @ B" "zsl_rep h zsl (A @ B)" "\<forall>x \<in> set A. \<not> klt (score, ele) (keyof x)" "\<forall>x \<in> set B. klt (score, ele) (keyof x)"
    "cuts (\<lambda>_ :: ulong. upto_key score ele) h (hdl zsl # ahs A) (ahs B)"
proof -
  have down: "sorted_wrt (\<lambda>x y. \<not> klt (score, ele) (keyof y) \<longrightarrow> \<not> klt (score, ele) (keyof x)) xs"
    using zsl_repD(13) [OF r] unfolding sorted_wrt_map by (rule sorted_wrt_mono_rel [rotated]) (meson klt_trans)
  show thesis
  proof (rule split_down [OF r down])
    fix x :: "'a zn" and n :: "'a zskiplistNode" and t :: ulong assume "zn_ele n = Some (ze x)" "zn_score n = zs x"
    then show "upto_key score ele n \<longleftrightarrow> \<not> klt (score, ele) (keyof x)" by (simp add: upto_klt)
  qed (use that in auto)
qed

text \<open>The loop stops at the first level on which the walk ends at the element.\<close>

lemma rank_loop_found:
  assumes r: "zsl_rep h zsl (A @ B)" and c: "cuts (\<lambda>_ :: ulong. upto_key score ele) h (hdl zsl # ahs A) (ahs B)"
    and d: "distinct (map ze A)" and X: "A = A' @ [X]" "ze X = ele"
  shows "0 < z \<Longrightarrow> z \<le> z_level zsl \<Longrightarrow> hdl zsl # ahs A = us1 @ (x, k) # us2 \<Longrightarrow> z \<le> k \<Longrightarrow>
    rank_loop score ele h z x (of_nat (length us1)) = Some (of_nat (length A))"
proof (induction z arbitrary: us1 x k us2)
  case (Suc i)
  obtain C y k' us2' where w: "hdl zsl # ahs A = C @ (y, k') # us2'" "i < k'" "low i us2'"
    "walk (\<lambda>_ :: ulong. upto_key score ele) h i x (of_nat (length us1)) = Some (y, of_nat (length C))"
    using walk_pos [OF r c _ Suc.prems(3), of i] Suc.prems by auto
  have len: "length C + length us2' = length A" using arg_cong [OF w(1), of length] by simp
  obtain n where n: "h y = Some n" "(case zn_ele n of None \<Rightarrow> False | Some e \<Rightarrow> sdscmp e ele = 0) \<longleftrightarrow> length C = length A"
    using hdl_ahs_node [OF r w(1)]
  proof (elim disjE exE conjE)
    fix n assume "C = []" "h y = Some n" "zn_ele n = None"
    then show thesis using that [of n] X by auto
  next
    fix v n assume v: "length C \<le> length A" "A ! (length C - 1) = v" "0 < length C" "h y = Some n" "zn_ele n = Some (ze v)"
    have b: "length C - 1 < length (map ze A)" "length A - 1 < length (map ze A)" unfolding length_map using v(1,3) by linarith+
    have "ele = map ze A ! (length A - 1)" using X by (simp add: nth_append)
    then have "ze v = ele \<longleftrightarrow> length C - 1 = length A - 1" using nth_eq_iff_index_eq [OF d b] v(2) b by auto
    also have "\<dots> \<longleftrightarrow> length C = length A" using v(1,3) by linarith
    finally show thesis using that [of n] v(4,5) by (simp add: sdscmp_eq)
  qed
  show ?case
  proof (cases "length C = length A")
    case True
    with w(4) n show ?thesis by simp
  next
    case False
    have "i \<noteq> 0"
    proof
      assume "i = 0"
      then have "us2' = []" using low_0_end [OF _ w(1)] w(3) zsl_repD(9) [OF r] by (auto simp: levels_bound_def)
      with len False show False by simp
    qed
    then have "rank_loop score ele h i y (of_nat (length C)) = Some (of_nat (length A))"
      using Suc.IH [OF _ _ w(1)] Suc.prems(2) w(2) by simp
    with w(4) n False show ?thesis by simp
  qed
qed simp

lemma rank_loop_absent:
  assumes r: "zsl_rep h zsl (A @ B)" and c: "cuts (\<lambda>_ :: ulong. upto_key score ele) h (hdl zsl # ahs A) (ahs B)" and e: "ele \<notin> ze ` set A"
  shows "z \<le> z_level zsl \<Longrightarrow> hdl zsl # ahs A = us1 @ (x, k) # us2 \<Longrightarrow> z \<le> k \<Longrightarrow>
    rank_loop score ele h z x (of_nat (length us1)) = Some 0"
proof (induction z arbitrary: us1 x k us2)
  case (Suc i)
  obtain C y k' us2' where w: "hdl zsl # ahs A = C @ (y, k') # us2'" "i < k'"
    "walk (\<lambda>_ :: ulong. upto_key score ele) h i x (of_nat (length us1)) = Some (y, of_nat (length C))"
    using walk_pos [OF r c _ Suc.prems(2), of i] Suc.prems by auto
  obtain n where n: "h y = Some n" "\<not> (case zn_ele n of None \<Rightarrow> False | Some e \<Rightarrow> sdscmp e ele = 0)"
    using hdl_ahs_node [OF r w(1)]
  proof (elim disjE exE conjE)
    fix v n assume v: "length C \<le> length A" "A ! (length C - 1) = v" "0 < length C" "h y = Some n" "zn_ele n = Some (ze v)"
    then have "v \<in> set A" by (metis Suc_pred' less_eq_Suc_le nth_mem)
    with v e show thesis using that [of n] by (auto simp: sdscmp_eq)
  qed (use that in auto)
  have "rank_loop score ele h i y (of_nat (length C)) = Some 0" using Suc.IH [OF _ w(1)] Suc.prems(1) w(2) by simp
  with w(3) n show ?case by simp
qed simp

lemma zslGetRank_found:
  assumes r: "zsl_rep h zsl xs" and d: "distinct (map ze xs)" and i: "i < length xs"
  shows "zslGetRank h zsl (zs (xs ! i)) (ze (xs ! i)) = Some (of_nat (Suc i))"
proof -
  let ?s = "zs (xs ! i)" and ?e = "ze (xs ! i)"
  obtain A B where s: "xs = A @ B" "zsl_rep h zsl (A @ B)" "\<forall>x \<in> set A. \<not> klt (?s, ?e) (keyof x)" "\<forall>x \<in> set B. klt (?s, ?e) (keyof x)"
    "cuts (\<lambda>_ :: ulong. upto_key ?s ?e) h (hdl zsl # ahs A) (ahs B)" by (rule split_upto [OF r])
  have "\<not> Suc i < length A"
  proof
    assume a: "Suc i < length A"
    then have "xs ! Suc i \<in> set A" using s(1) by (simp add: nth_append)
    moreover have "klt (keyof (xs ! i)) (keyof (xs ! Suc i))"
      using sorted_wrt_nth_less [OF zsl_repD(13) [OF r], of i "Suc i"] a arg_cong [OF s(1), of length] by simp
    ultimately show False using s(3) by blast
  qed
  moreover have "i < length A"
  proof (rule ccontr)
    assume "\<not> i < length A"
    then have "xs ! i \<in> set B" using i s(1) by (simp add: nth_append)
    with s(4) show False by auto
  qed
  ultimately have len: "length A = Suc i" by simp
  then have X: "A = take i xs @ [xs ! i]" using s(1) take_Suc_conv_app_nth [OF i] by (metis append_eq_conv_conj)
  have "distinct (map ze A)" using d s(1) by simp
  from rank_loop_found [OF s(2,5) this X refl, of "z_level zsl" "[]" "z_header zsl" ZSKIPLIST_MAXLEVEL "ahs A"]
  show ?thesis using zsl_repD(10,11) [OF r] len by (simp add: zslGetRank_def hdl_def)
qed

lemma zslGetRank_absent:
  assumes r: "zsl_rep h zsl xs" and e: "ele \<notin> ze ` set xs"
  shows "zslGetRank h zsl score ele = Some 0"
proof -
  obtain A B where s: "xs = A @ B" "zsl_rep h zsl (A @ B)" "cuts (\<lambda>_ :: ulong. upto_key score ele) h (hdl zsl # ahs A) (ahs B)"
    by (rule split_upto [OF r])
  have "ele \<notin> ze ` set A" using e s(1) by auto
  from rank_loop_absent [OF s(2,3) this, of "z_level zsl" "[]" "z_header zsl" ZSKIPLIST_MAXLEVEL "ahs A"]
  show ?thesis using zsl_repD(11) [OF r] by (simp add: zslGetRank_def hdl_def)
qed

lemma nat_word_le: "k < 2 ^ 64 \<Longrightarrow> of_nat k \<le> w \<longleftrightarrow> k \<le> unat w" for w :: ulong
  by (simp add: word_le_nat_alt unat_of_nat_64)

lemma nat_word_less: "k < 2 ^ 64 \<Longrightarrow> of_nat k < w \<longleftrightarrow> k < unat w" for w :: ulong
  by (simp add: word_less_nat_alt unat_of_nat_64)

text \<open>Searching by rank: the condition holds for the nodes up to a position.\<close>

lemma cuts_rank:
  assumes r: "zsl_rep h zsl xs" and c: "\<And>k n. k \<le> length xs \<Longrightarrow> cond (of_nat k :: ulong) n \<longleftrightarrow> k \<le> m"
  shows "cuts cond h (hdl zsl # ahs (take m xs)) (ahs (drop m xs))"
  unfolding cuts_def
proof (intro allI impI)
  fix P a k Q n assume s: "(hdl zsl # ahs (take m xs)) @ ahs (drop m xs) = P @ (a, k) # Q" "P \<noteq> []" "h a = Some n"
  have "length P + Suc (length Q) = Suc (length xs)" using arg_cong [OF s(1), of length] by simp
  then have "length P \<le> length xs" by simp
  with c [of "length P" n] show "cond (of_nat (length P)) n \<longleftrightarrow> length P < length (hdl zsl # ahs (take m xs))" by auto
qed

lemma elem_loop_finds:
  assumes r: "zsl_rep h zsl xs" and c: "cuts (\<lambda>(t :: ulong) _. t \<le> rank) h (hdl zsl # ahs (take (unat rank) xs)) (ahs (drop (unat rank) xs))"
  shows "0 < z \<Longrightarrow> z \<le> z_level zsl \<Longrightarrow> hdl zsl # ahs (take (unat rank) xs) = us1 @ (x, k) # us2 \<Longrightarrow> z \<le> k \<Longrightarrow>
    elem_loop rank h z x (of_nat (length us1)) = Some (if unat rank \<le> length xs then Some (pos zsl (take (unat rank) xs)) else None)"
proof (induction z arbitrary: us1 x k us2)
  case (Suc i)
  let ?A = "take (unat rank) xs"
  have rAB: "zsl_rep h zsl (?A @ drop (unat rank) xs)" using r by simp
  obtain C y k' us2' where w: "hdl zsl # ahs ?A = C @ (y, k') # us2'" "i < k'" "low i us2'"
    "walk (\<lambda>(t :: ulong) _. t \<le> rank) h i x (of_nat (length us1)) = Some (y, of_nat (length C))"
    using walk_pos [OF rAB c _ Suc.prems(3), of i] Suc.prems by auto
  have len: "length C + length us2' = length ?A" using arg_cong [OF w(1), of length] by simp
  have "length xs < 2 ^ 64" using zsl_repD(8) [OF r] by simp
  then have eq: "of_nat (length C) = rank \<longleftrightarrow> length C = unat rank" using len by (auto simp: unat_of_nat_64)
  show ?case
  proof (cases "length C = unat rank")
    case True
    then have "length us2' = 0" "unat rank \<le> length xs" using len unfolding length_take by linarith+
    then have "us2' = []" "unat rank \<le> length xs" by simp_all
    moreover from this have "y = pos zsl ?A" unfolding w(1) by simp
    ultimately show ?thesis using w(4) eq True by simp
  next
    case False
    show ?thesis
    proof (cases "i = 0")
      case True
      then have "us2' = []" using low_0_end [OF _ w(1)] w(3) zsl_repD(9) [OF rAB] by (auto simp: levels_bound_def dest: in_set_takeD)
      with len False have "\<not> unat rank \<le> length xs" by auto
      with w(4) eq False True show ?thesis by simp
    next
      case i: False
      then have "elem_loop rank h i y (of_nat (length C)) = Some (if unat rank \<le> length xs then Some (pos zsl ?A) else None)"
        using Suc.IH [OF _ _ w(1)] Suc.prems(2) w(2) by simp
      with w(4) eq False show ?thesis by simp
    qed
  qed
qed simp

lemma zslGetElementByRank_nth:
  assumes r: "zsl_rep h zsl xs" and k: "1 \<le> unat rank"
  shows "zslGetElementByRank h zsl rank = Some (if unat rank \<le> length xs then Some (za (xs ! (unat rank - 1))) else None)"
proof -
  have "cuts (\<lambda>(t :: ulong) _. t \<le> rank) h (hdl zsl # ahs (take (unat rank) xs)) (ahs (drop (unat rank) xs))"
    using zsl_repD(8) [OF r] by (intro cuts_rank [OF r]) (simp add: nat_word_le)
  from elem_loop_finds [OF r this, of "z_level zsl" "[]" "z_header zsl" ZSKIPLIST_MAXLEVEL "ahs (take (unat rank) xs)"]
  have "zslGetElementByRank h zsl rank = Some (if unat rank \<le> length xs then Some (pos zsl (take (unat rank) xs)) else None)"
    using zsl_repD(10,11) [OF r] by (simp add: zslGetElementByRank_def hdl_def)
  moreover have "pos zsl (take (unat rank) xs) = za (xs ! (unat rank - 1))" if "unat rank \<le> length xs"
    using that k unfolding last_hdl by (auto simp: last_conv_nth min_def)
  ultimately show ?thesis by simp
qed

section \<open>First and last of a range\<close>

text \<open>\<open>G\<close> holds from some node on and \<open>L\<close> up to some node.\<close>

lemma find_first:
  assumes "\<forall>x \<in> set A. \<not> G x" "\<forall>x \<in> set B. G x" "sorted_wrt (\<lambda>x y. L y \<longrightarrow> L x) (A @ B)"
  shows "List.find (\<lambda>x. G x \<and> L x) (A @ B) = (case B of [] \<Rightarrow> None | b # _ \<Rightarrow> if L b then Some b else None)"
proof -
  have "List.find (\<lambda>x. G x \<and> L x) (A @ B) = List.find (\<lambda>x. G x \<and> L x) B" using assms(1) by (induction A) auto
  also have "\<dots> = (case B of [] \<Rightarrow> None | b # _ \<Rightarrow> if L b then Some b else None)"
  proof (cases B)
    case (Cons b B')
    have "List.find (\<lambda>x. G x \<and> L x) B' = None" if "\<not> L b" using assms(3) Cons that by (auto simp: find_None_iff sorted_wrt_append)
    with Cons assms(2) show ?thesis by auto
  qed simp
  finally show ?thesis .
qed

lemma find_last:
  assumes "\<forall>x \<in> set A. L x" "\<forall>x \<in> set B. \<not> L x" "sorted_wrt (\<lambda>x y. G x \<longrightarrow> G y) (A @ B)"
  shows "List.find (\<lambda>x. G x \<and> L x) (rev (A @ B)) = (if A = [] then None else if G (last A) then Some (last A) else None)"
proof -
  have "sorted_wrt (\<lambda>x y. G y \<longrightarrow> G x) (rev A)" using assms(3) by (simp add: sorted_wrt_append sorted_wrt_rev)
  then have "sorted_wrt (\<lambda>x y. G y \<longrightarrow> G x) (rev B @ rev A)"
    using assms(3) by (simp add: sorted_wrt_append sorted_wrt_rev)
  with assms(1,2) find_first [of "rev B" L "rev A" G] show ?thesis
    by (cases A rule: rev_cases) (auto simp: conj_commute)
qed

lemma first_search:
  assumes r: "zsl_rep h zsl xs" and up: "sorted_wrt (\<lambda>x y. G x \<longrightarrow> G y) xs" and down: "sorted_wrt (\<lambda>x y. L y \<longrightarrow> L x) xs"
    and g: "\<And>x n. x \<in> set xs \<Longrightarrow> zn_ele n = Some (ze x) \<Longrightarrow> zn_score n = zs x \<Longrightarrow> c n \<longleftrightarrow> \<not> G x"
    and ne: "xs \<noteq> []" "G (last xs)"
  obtains p t u b n where "descend (\<lambda>_. c) h (z_level zsl) (z_header zsl) (0 :: ulong) = Some (p, t, u)" "next_node h p = Some (Some (za b, n))"
    "zn_ele n = Some (ze b)" "zn_score n = zs b" "List.find (\<lambda>x. G x \<and> L x) xs = (if L b then Some b else None)"
proof -
  have "sorted_wrt (\<lambda>x y. \<not> G y \<longrightarrow> \<not> G x) xs" using up by (rule sorted_wrt_mono_rel [rotated]) blast
  then obtain A B where s: "xs = A @ B" "zsl_rep h zsl (A @ B)" "\<forall>x \<in> set A. \<not> G x" "\<forall>x \<in> set B. \<not> \<not> G x"
    "cuts (\<lambda>_ :: ulong. c) h (hdl zsl # ahs A) (ahs B)"
    by (rule split_down [OF r, where cond = "\<lambda>_ :: ulong. c"]) (use g in \<open>blast+\<close>)
  obtain b B' where B: "B = b # B'" using ne s(1,3) last_in_set [of A] by (cases B) auto
  note rb = s(2) [unfolded B]
  obtain n where n: "h (za b) = Some n" "zn_ele n = Some (ze b)" "zn_score n = zs b" using pos_node [OF rb] by blast
  obtain u where "descend (\<lambda>_. c) h (z_level zsl) (z_header zsl) (0 :: ulong) = Some (pos zsl A, of_nat (length A), u)"
    using search_pos [OF s(2,5)] by blast
  moreover have "List.find (\<lambda>x. G x \<and> L x) xs = (if L b then Some b else None)"
    using find_first [of A G B L] s(1,3,4) down B by simp
  ultimately show thesis using next_pos_Cons [OF rb n(1)] n by (intro that)
qed

lemma last_search:
  assumes r: "zsl_rep h zsl xs" and up: "sorted_wrt (\<lambda>x y. G x \<longrightarrow> G y) xs" and down: "sorted_wrt (\<lambda>x y. L y \<longrightarrow> L x) xs"
    and l: "\<And>x n. x \<in> set xs \<Longrightarrow> zn_ele n = Some (ze x) \<Longrightarrow> zn_score n = zs x \<Longrightarrow> c n \<longleftrightarrow> L x"
    and ne: "xs \<noteq> []" "L (hd xs)"
  obtains t u b n where "descend (\<lambda>_. c) h (z_level zsl) (z_header zsl) (0 :: ulong) = Some (za b, t, u)" "h (za b) = Some n"
    "zn_ele n = Some (ze b)" "zn_score n = zs b" "List.find (\<lambda>x. G x \<and> L x) (rev xs) = (if G b then Some b else None)"
proof -
  obtain A B where s: "xs = A @ B" "zsl_rep h zsl (A @ B)" "\<forall>x \<in> set A. L x" "\<forall>x \<in> set B. \<not> L x"
    "cuts (\<lambda>_ :: ulong. c) h (hdl zsl # ahs A) (ahs B)"
    by (rule split_down [OF r down, where cond = "\<lambda>_ :: ulong. c"]) (use l in \<open>blast+\<close>)
  obtain A' b where A: "A = A' @ [b]" using ne s(1,4) hd_in_set [of B] by (cases A rule: rev_cases) auto
  have rb: "zsl_rep h zsl (A' @ b # B)" using s(2) A by simp
  obtain n where n: "h (za b) = Some n" "zn_ele n = Some (ze b)" "zn_score n = zs b" using pos_node [OF rb] by blast
  obtain u where "descend (\<lambda>_. c) h (z_level zsl) (z_header zsl) (0 :: ulong) = Some (pos zsl A, of_nat (length A), u)"
    using search_pos [OF s(2,5)] by blast
  then have "descend (\<lambda>_. c) h (z_level zsl) (z_header zsl) (0 :: ulong) = Some (za b, of_nat (length A), u)" using A by simp
  moreover have "List.find (\<lambda>x. G x \<and> L x) (rev xs) = (if G b then Some b else None)"
    using find_last [of A L B G] s(1,3,4) up A by simp
  ultimately show thesis using n by (intro that)
qed

lemma tail_node:
  assumes r: "zsl_rep h zsl xs" and "xs \<noteq> []"
  shows "\<exists>n. z_tail zsl = Some (za (last xs)) \<and> h (za (last xs)) = Some n \<and> zn_ele n = Some (ze (last xs)) \<and> zn_score n = zs (last xs)"
proof -
  have "zsl_rep h zsl (butlast xs @ last xs # [])" using r assms(2) by simp
  from pos_node [OF this] show ?thesis using zsl_repD(6) [OF r] assms(2) by (auto simp: final_ptr_def)
qed

lemma head_node:
  assumes r: "zsl_rep h zsl xs" and "xs \<noteq> []"
  shows "\<exists>n. next_node h (z_header zsl) = Some (Some (za (hd xs), n)) \<and> zn_ele n = Some (ze (hd xs)) \<and> zn_score n = zs (hd xs)"
proof -
  have rb: "zsl_rep h zsl ([] @ hd xs # tl xs)" using r assms(2) by simp
  from pos_node [OF rb] next_pos_Cons [OF rb] show ?thesis by (auto simp: hdl_def)
qed

lemma range_outside:
  assumes "sorted_wrt (\<lambda>x y. G x \<longrightarrow> G y) xs" "sorted_wrt (\<lambda>x y. L y \<longrightarrow> L x) xs" "xs = [] \<or> \<not> G (last xs) \<or> \<not> L (hd xs)"
  shows "\<forall>x \<in> set xs. \<not> (G x \<and> L x)"
proof (cases "xs = []")
  case False
  have "G (last xs)" if "x \<in> set xs" "G x" for x
    using that assms(1) False by (cases xs rule: rev_cases) (auto simp: sorted_wrt_append)
  moreover have "L (hd xs)" if "x \<in> set xs" "L x" for x
    using that assms(2) False by (cases xs) auto
  ultimately show ?thesis using assms(3) False by blast
qed simp

lemma find_none: "\<forall>x \<in> set xs. \<not> P x \<Longrightarrow> List.find P xs = None \<and> List.find P (rev xs) = None"
  by (simp add: find_None_iff)

section \<open>Ranges of scores\<close>

definition in_range :: "'s::linorder zrangespec \<Rightarrow> 's zn \<Rightarrow> bool" where
  "in_range r x \<longleftrightarrow> zslValueGteMin (zs x) r \<and> zslValueLteMax (zs x) r"

lemma score_mono:
  assumes r: "zsl_rep h zsl xs"
  shows "sorted_wrt (\<lambda>x y. zslValueGteMin (zs x) r \<longrightarrow> zslValueGteMin (zs y) r) xs"
    "sorted_wrt (\<lambda>x y. zslValueLteMax (zs y) r \<longrightarrow> zslValueLteMax (zs x) r) xs"
proof -
  have "sorted_wrt (\<lambda>x y. zs x \<le> zs y) xs"
    using zsl_repD(13) [OF r] unfolding sorted_wrt_map by (rule sorted_wrt_mono_rel [rotated]) (auto simp: klt_def)
  then show "sorted_wrt (\<lambda>x y. zslValueGteMin (zs x) r \<longrightarrow> zslValueGteMin (zs y) r) xs"
    "sorted_wrt (\<lambda>x y. zslValueLteMax (zs y) r \<longrightarrow> zslValueLteMax (zs x) r) xs"
    by (auto simp: zslValueGteMin_def zslValueLteMax_def elim!: sorted_wrt_mono_rel [rotated])
qed

lemma zslIsInRange_eq:
  assumes r: "zsl_rep h zsl xs"
  shows "\<exists>b. zslIsInRange h zsl r = Some b \<and> (b \<longrightarrow> xs \<noteq> [] \<and> zslValueGteMin (zs (last xs)) r \<and> zslValueLteMax (zs (hd xs)) r) \<and>
    (\<not> b \<longrightarrow> (\<forall>x \<in> set xs. \<not> in_range r x))"
proof -
  let ?empty = "r_min r > r_max r \<or> r_min r = r_max r \<and> (r_minex r \<or> r_maxex r)"
  have e: "\<not> in_range r x" if ?empty for x
    using that by (auto simp: in_range_def zslValueGteMin_def zslValueLteMax_def split: if_splits)
  note out = range_outside [OF score_mono [OF r, of r]]
  show ?thesis
  proof (cases "xs = []")
    case True
    then show ?thesis using zsl_repD(6) [OF r] by (intro exI [of _ False]) (simp add: zslIsInRange_def)
  next
    case False
    let ?b = "\<not> ?empty \<and> zslValueGteMin (zs (last xs)) r \<and> zslValueLteMax (zs (hd xs)) r"
    have "zslIsInRange h zsl r = Some ?b" using tail_node [OF r False] head_node [OF r False] by (auto simp: zslIsInRange_def)
    moreover have "\<forall>x \<in> set xs. \<not> in_range r x" if "\<not> ?b" using that e out unfolding in_range_def by blast
    ultimately show ?thesis using False by blast
  qed
qed

lemma zslFirstInRange_find:
  assumes r: "zsl_rep h zsl xs"
  shows "zslFirstInRange h zsl r = Some (map_option za (List.find (in_range r) xs))"
proof -
  obtain b where b: "zslIsInRange h zsl r = Some b" "b \<longrightarrow> xs \<noteq> [] \<and> zslValueGteMin (zs (last xs)) r" "\<not> b \<longrightarrow> (\<forall>x \<in> set xs. \<not> in_range r x)"
    using zslIsInRange_eq [OF r, of r] by blast
  show ?thesis
  proof (cases b)
    case False
    with b find_none [of xs "in_range r"] show ?thesis by (simp add: zslFirstInRange_def)
  next
    case True
    with b have ne: "xs \<noteq> []" "zslValueGteMin (zs (last xs)) r" by simp_all
    obtain p t u x n where f: "descend (\<lambda>_ n. \<not> zslValueGteMin (zn_score n) r) h (z_level zsl) (z_header zsl) (0 :: ulong) = Some (p, t, u)"
      "next_node h p = Some (Some (za x, n))" "zn_score n = zs x"
      "List.find (\<lambda>x. zslValueGteMin (zs x) r \<and> zslValueLteMax (zs x) r) xs = (if zslValueLteMax (zs x) r then Some x else None)"
      by (rule first_search [OF r score_mono [OF r, of r], where c = "\<lambda>n. \<not> zslValueGteMin (zn_score n) r"]) (use ne in auto)
    then show ?thesis using b(1) True by (simp add: zslFirstInRange_def in_range_def [abs_def])
  qed
qed

lemma zslLastInRange_find:
  assumes r: "zsl_rep h zsl xs"
  shows "zslLastInRange h zsl r = Some (map_option za (List.find (in_range r) (rev xs)))"
proof -
  obtain b where b: "zslIsInRange h zsl r = Some b" "b \<longrightarrow> xs \<noteq> [] \<and> zslValueLteMax (zs (hd xs)) r" "\<not> b \<longrightarrow> (\<forall>x \<in> set xs. \<not> in_range r x)"
    using zslIsInRange_eq [OF r, of r] by blast
  show ?thesis
  proof (cases b)
    case False
    with b find_none [of xs "in_range r"] show ?thesis by (simp add: zslLastInRange_def)
  next
    case True
    with b have ne: "xs \<noteq> []" "zslValueLteMax (zs (hd xs)) r" by simp_all
    obtain t u x n where f: "descend (\<lambda>_ n. zslValueLteMax (zn_score n) r) h (z_level zsl) (z_header zsl) (0 :: ulong) = Some (za x, t, u)"
      "h (za x) = Some n" "zn_score n = zs x"
      "List.find (\<lambda>x. zslValueGteMin (zs x) r \<and> zslValueLteMax (zs x) r) (rev xs) = (if zslValueGteMin (zs x) r then Some x else None)"
      by (rule last_search [OF r score_mono [OF r, of r], where c = "\<lambda>n. zslValueLteMax (zn_score n) r"]) (use ne in auto)
    then show ?thesis using b(1) True by (simp add: zslLastInRange_def in_range_def [abs_def])
  qed
qed

section \<open>Ranges of strings\<close>

definition above :: "lexbound \<Rightarrow> bool \<Rightarrow> byte list \<Rightarrow> bool" where
  "above b ex v \<longleftrightarrow> (case b of Minstring \<Rightarrow> True | Maxstring \<Rightarrow> False | Str t \<Rightarrow> if ex then t < v else t \<le> v)"

definition below :: "lexbound \<Rightarrow> bool \<Rightarrow> byte list \<Rightarrow> bool" where
  "below b ex v \<longleftrightarrow> (case b of Minstring \<Rightarrow> False | Maxstring \<Rightarrow> True | Str t \<Rightarrow> if ex then v < t else v \<le> t)"

lemma sdscmp_greater: "sdscmp s t > 0 \<longleftrightarrow> t < s" "sdscmp s t \<ge> 0 \<longleftrightarrow> t \<le> s"
  using sdscmp_less [of s t] sdscmp_eq [of s t] by (auto simp: not_less [symmetric] order.order_iff_strict)

lemma lex_tests:
  "zslLexValueGteMin v r \<longleftrightarrow> above (lx_min r) (lx_minex r) v"
  "zslLexValueLteMax v r \<longleftrightarrow> below (lx_max r) (lx_maxex r) v"
proof -
  show "zslLexValueGteMin v r \<longleftrightarrow> above (lx_min r) (lx_minex r) v"
    by (cases "lx_min r") (auto simp: zslLexValueGteMin_def above_def sdscmplex_def sdscmp_greater)
  show "zslLexValueLteMax v r \<longleftrightarrow> below (lx_max r) (lx_maxex r) v"
    by (cases "lx_max r") (auto simp: zslLexValueLteMax_def below_def sdscmplex_def sdscmp_less sdscmp_le)
qed

definition in_lex_range :: "zlexrangespec \<Rightarrow> 's zn \<Rightarrow> bool" where
  "in_lex_range r x \<longleftrightarrow> zslLexValueGteMin (ze x) r \<and> zslLexValueLteMax (ze x) r"

lemma lex_empty:
  assumes "sdscmplex (lx_min r) (lx_max r) > 0 \<or> sdscmplex (lx_min r) (lx_max r) = 0 \<and> (lx_minex r \<or> lx_maxex r)"
  shows "\<not> in_lex_range r x"
  using assms
  by (cases "lx_min r"; cases "lx_max r")
     (auto simp: in_lex_range_def lex_tests above_def below_def sdscmplex_def sdscmp_greater sdscmp_eq split: if_splits)

lemma lex_mono:
  assumes r: "zsl_rep h zsl xs" and e: "\<forall>x \<in> set xs. zs x = s"
  shows "sorted_wrt (\<lambda>x y. zslLexValueGteMin (ze x) r \<longrightarrow> zslLexValueGteMin (ze y) r) xs"
    "sorted_wrt (\<lambda>x y. zslLexValueLteMax (ze y) r \<longrightarrow> zslLexValueLteMax (ze x) r) xs"
proof -
  have "sorted_wrt (\<lambda>x y. klt (keyof x) (keyof y)) xs" using zsl_repD(13) [OF r] unfolding sorted_wrt_map .
  then have "sorted_wrt (\<lambda>x y. ze x < ze y) xs" by (rule sorted_wrt_mono_rel [rotated]) (use e in \<open>auto simp: klt_def\<close>)
  then show "sorted_wrt (\<lambda>x y. zslLexValueGteMin (ze x) r \<longrightarrow> zslLexValueGteMin (ze y) r) xs"
    "sorted_wrt (\<lambda>x y. zslLexValueLteMax (ze y) r \<longrightarrow> zslLexValueLteMax (ze x) r) xs"
    by (auto simp: lex_tests above_def below_def split: lexbound.splits elim!: sorted_wrt_mono_rel [rotated])
qed

lemma zslIsInLexRange_eq:
  assumes r: "zsl_rep h zsl xs" and e: "\<forall>x \<in> set xs. zs x = s"
  shows "\<exists>b. zslIsInLexRange h zsl r = Some b \<and> (b \<longrightarrow> xs \<noteq> [] \<and> zslLexValueGteMin (ze (last xs)) r \<and> zslLexValueLteMax (ze (hd xs)) r) \<and>
    (\<not> b \<longrightarrow> (\<forall>x \<in> set xs. \<not> in_lex_range r x))"
proof -
  let ?c = "sdscmplex (lx_min r) (lx_max r)"
  let ?empty = "?c > 0 \<or> ?c = 0 \<and> (lx_minex r \<or> lx_maxex r)"
  note out = range_outside [OF lex_mono [OF r e, of r]]
  show ?thesis
  proof (cases "xs = []")
    case True
    then show ?thesis using zsl_repD(6) [OF r] by (intro exI [of _ False]) (simp add: zslIsInLexRange_def Let_def)
  next
    case False
    let ?b = "\<not> ?empty \<and> zslLexValueGteMin (ze (last xs)) r \<and> zslLexValueLteMax (ze (hd xs)) r"
    have "zslIsInLexRange h zsl r = Some ?b" using tail_node [OF r False] head_node [OF r False] by (auto simp: zslIsInLexRange_def Let_def)
    moreover have "\<forall>x \<in> set xs. \<not> in_lex_range r x" if "\<not> ?b" using that lex_empty [of r] out unfolding in_lex_range_def by blast
    ultimately show ?thesis using False by blast
  qed
qed

lemma zslFirstInLexRange_find:
  assumes r: "zsl_rep h zsl xs" and e: "\<forall>x \<in> set xs. zs x = s"
  shows "zslFirstInLexRange h zsl r = Some (map_option za (List.find (in_lex_range r) xs))"
proof -
  obtain b where b: "zslIsInLexRange h zsl r = Some b" "b \<longrightarrow> xs \<noteq> [] \<and> zslLexValueGteMin (ze (last xs)) r" "\<not> b \<longrightarrow> (\<forall>x \<in> set xs. \<not> in_lex_range r x)"
    using zslIsInLexRange_eq [OF r e, of r] by blast
  show ?thesis
  proof (cases b)
    case False
    with b find_none [of xs "in_lex_range r"] show ?thesis by (simp add: zslFirstInLexRange_def)
  next
    case True
    with b have ne: "xs \<noteq> []" "zslLexValueGteMin (ze (last xs)) r" by simp_all
    obtain p t u x n where f: "descend (\<lambda>_. ele_test (\<lambda>e. \<not> zslLexValueGteMin e r)) h (z_level zsl) (z_header zsl) (0 :: ulong) = Some (p, t, u)"
      "next_node h p = Some (Some (za x, n))" "zn_ele n = Some (ze x)"
      "List.find (\<lambda>x. zslLexValueGteMin (ze x) r \<and> zslLexValueLteMax (ze x) r) xs = (if zslLexValueLteMax (ze x) r then Some x else None)"
      by (rule first_search [OF r lex_mono [OF r e, of r], where c = "ele_test (\<lambda>e. \<not> zslLexValueGteMin e r)"]) (use ne in \<open>auto simp: ele_test_def\<close>)
    then show ?thesis using b(1) True by (simp add: zslFirstInLexRange_def in_lex_range_def [abs_def])
  qed
qed

lemma zslLastInLexRange_find:
  assumes r: "zsl_rep h zsl xs" and e: "\<forall>x \<in> set xs. zs x = s"
  shows "zslLastInLexRange h zsl r = Some (map_option za (List.find (in_lex_range r) (rev xs)))"
proof -
  obtain b where b: "zslIsInLexRange h zsl r = Some b" "b \<longrightarrow> xs \<noteq> [] \<and> zslLexValueLteMax (ze (hd xs)) r" "\<not> b \<longrightarrow> (\<forall>x \<in> set xs. \<not> in_lex_range r x)"
    using zslIsInLexRange_eq [OF r e, of r] by blast
  show ?thesis
  proof (cases b)
    case False
    with b find_none [of xs "in_lex_range r"] show ?thesis by (simp add: zslLastInLexRange_def)
  next
    case True
    with b have ne: "xs \<noteq> []" "zslLexValueLteMax (ze (hd xs)) r" by simp_all
    obtain t u x n where f: "descend (\<lambda>_. ele_test (\<lambda>e. zslLexValueLteMax e r)) h (z_level zsl) (z_header zsl) (0 :: ulong) = Some (za x, t, u)"
      "h (za x) = Some n" "zn_ele n = Some (ze x)"
      "List.find (\<lambda>x. zslLexValueGteMin (ze x) r \<and> zslLexValueLteMax (ze x) r) (rev xs) = (if zslLexValueGteMin (ze x) r then Some x else None)"
      by (rule last_search [OF r lex_mono [OF r e, of r], where c = "ele_test (\<lambda>e. zslLexValueLteMax e r)"]) (use ne in \<open>auto simp: ele_test_def\<close>)
    then show ?thesis using b(1) True by (simp add: zslLastInLexRange_def in_lex_range_def [abs_def])
  qed
qed

end
