(* ===== verification/Zset.thy ===== *)
theory Zset
  imports Skiplist Set_Type
begin

text \<open>
  The sorted set type of \<^verbatim>\<open>redis/src/t_zset.c\<close> in its skip list encoding: a hash table from elements to their scores
  and a skip list that orders them. The hash table holds pointers to the \<^verbatim>\<open>score\<close> fields of the nodes, here the
  addresses of the nodes. A score that is not a number is \<^const>\<open>None\<close>; the sum of two scores, a double or not a
  number, is a parameter. Scores that compare equal, as the two zeros do, are one value.
\<close>

unbundle bit_operations_syntax

section \<open>Data\<close>

definition zsetDictType :: "(byte list \<Rightarrow> ulong) \<Rightarrow> (byte list, nat) dictType" where
  "zsetDictType hash = \<lparr>hashFunction = hash, keyDup = None, valDup = None, keyCompare = Some dictSdsKeyCompare\<rparr>"

record zset =
  zs_dict :: zdict
  zs_zsl :: zskiplist

definition ZADD_INCR :: uint where "ZADD_INCR = 1"
definition ZADD_NX :: uint where "ZADD_NX = 2"
definition ZADD_XX :: uint where "ZADD_XX = 4"
definition ZADD_NOP :: uint where "ZADD_NOP = 8"
definition ZADD_NAN :: uint where "ZADD_NAN = 16"
definition ZADD_ADDED :: uint where "ZADD_ADDED = 32"
definition ZADD_UPDATED :: uint where "ZADD_UPDATED = 64"

text \<open>\<^verbatim>\<open>*(double*)dictGetVal(de)\<close> and the assignment \<^verbatim>\<open>dictGetVal(de) = ...\<close>.\<close>

definition score_at :: "'s zheap \<Rightarrow> nat option \<Rightarrow> 's option" where
  "score_at h v = do { a \<leftarrow> v; n \<leftarrow> h a; Some (zn_score n) }"

definition set_ptr :: "zdict \<Rightarrow> entry_ref \<Rightarrow> nat \<Rightarrow> zdict" where
  "set_ptr d r a = (case r of (n, i, p) \<Rightarrow>
     if n = 0 then d\<lparr>ht0 := ht_set_val (ht0 d) i p a\<rparr> else d\<lparr>ht1 := ht_set_val (ht1 d) i p a\<rparr>)"

section \<open>Operations\<close>

definition createZsetObject :: "(byte list \<Rightarrow> ulong) \<Rightarrow> zptr \<Rightarrow> zskiplistLevel \<Rightarrow> 's \<Rightarrow> nat \<Rightarrow> 's zheap \<Rightarrow> ('s zheap \<times> zset) option" where
  "createZsetObject hash junk_ptr junk zero a h = do {
     let d = dictCreate (zsetDictType hash);
     (h, zsl) \<leftarrow> zslCreate junk_ptr junk zero a h;
     Some (h, \<lparr>zs_dict = d, zs_zsl = zsl\<rparr>)
   }"

definition zsetLength :: "zset \<Rightarrow> ulong" where
  "zsetLength zs = z_length (zs_zsl zs)"

definition zsetScore :: "'s zheap \<Rightarrow> zset \<Rightarrow> byte list \<Rightarrow> ('s option \<times> zset) option" where
  "zsetScore h zs member = do {
     (de, d) \<leftarrow> dictFind (zs_dict zs) member;
     (case de of
        None \<Rightarrow> Some (None, zs\<lparr>zs_dict := d\<rparr>)
      | Some r \<Rightarrow> do {
          score \<leftarrow> score_at h (entry_val (deref d r));
          Some (Some score, zs\<lparr>zs_dict := d\<rparr>)
        })
   }"

text \<open>The result is the return value, the flags, the value written through \<^verbatim>\<open>newscore\<close> if any, and the new state.\<close>

definition zsetAdd ::
    "('s::linorder \<Rightarrow> 's \<Rightarrow> 's option) \<Rightarrow> bool \<Rightarrow> zptr \<Rightarrow> zskiplistLevel \<Rightarrow> (nat \<Rightarrow> nat) \<Rightarrow> nat \<Rightarrow> 's zheap \<Rightarrow> zset \<Rightarrow>
     's option \<Rightarrow> byte list \<Rightarrow> uint \<Rightarrow> (bool \<times> uint \<times> 's option \<times> 's zheap \<times> zset) option" where
  "zsetAdd plus_score can_resize junk_ptr junk rnd new h zs score ele flags =
     (let incr = flags AND ZADD_INCR \<noteq> 0;
          nx = flags AND ZADD_NX \<noteq> 0;
          xx = flags AND ZADD_XX \<noteq> 0
      in case score of
           None \<Rightarrow> Some (False, ZADD_NAN, None, h, zs)
         | Some score \<Rightarrow> do {
             (de, d) \<leftarrow> dictFind (zs_dict zs) ele;
             (case de of
                Some r \<Rightarrow>
                  if nx then Some (True, ZADD_NOP, None, h, zs\<lparr>zs_dict := d\<rparr>)
                  else do {
                    curscore \<leftarrow> score_at h (entry_val (deref d r));
                    (case (if incr then plus_score score curscore else Some score) of
                       None \<Rightarrow> Some (False, ZADD_NAN, None, h, zs\<lparr>zs_dict := d\<rparr>)
                     | Some score \<Rightarrow>
                         let newscore = (if incr then Some score else None)
                         in if score \<noteq> curscore then do {
                              (h, zsl, znode) \<leftarrow> zslUpdateScore junk_ptr junk rnd new h (zs_zsl zs) curscore ele score;
                              Some (True, ZADD_UPDATED, newscore, h, \<lparr>zs_dict = set_ptr d r znode, zs_zsl = zsl\<rparr>)
                            }
                            else Some (True, 0, newscore, h, zs\<lparr>zs_dict := d\<rparr>))
                  }
              | None \<Rightarrow>
                  if \<not> xx then do {
                    (h, zsl, znode) \<leftarrow> zslInsert junk_ptr junk rnd new h (zs_zsl zs) score ele;
                    (st, d) \<leftarrow> dictAdd can_resize d ele znode;
                    if st = DICT_OK then Some (True, ZADD_ADDED, Some score, h, \<lparr>zs_dict = d, zs_zsl = zsl\<rparr>) else None
                  }
                  else Some (True, ZADD_NOP, None, h, zs\<lparr>zs_dict := d\<rparr>))
           })"

definition zsetDel :: "bool \<Rightarrow> 's::linorder zheap \<Rightarrow> zset \<Rightarrow> byte list \<Rightarrow> (bool \<times> 's zheap \<times> zset) option" where
  "zsetDel can_resize h zs ele = do {
     (de, d) \<leftarrow> dictUnlink (zs_dict zs) ele;
     (case de of
        None \<Rightarrow> Some (False, h, zs\<lparr>zs_dict := d\<rparr>)
      | Some e \<Rightarrow> do {
          score \<leftarrow> score_at h (entry_val e);
          (h, zsl, retval) \<leftarrow> zslDelete h (zs_zsl zs) score ele False;
          if retval = None then None
          else if htNeedsResize d then do {
            (_, d) \<leftarrow> dictResize can_resize d;
            Some (True, h, \<lparr>zs_dict = d, zs_zsl = zsl\<rparr>)
          }
          else Some (True, h, \<lparr>zs_dict = d, zs_zsl = zsl\<rparr>)
        })
   }"

text \<open>The difference of two \<^verbatim>\<open>unsigned long\<close> values is returned as a \<^verbatim>\<open>long\<close>.\<close>

definition zsetRank :: "'s::linorder zheap \<Rightarrow> zset \<Rightarrow> byte list \<Rightarrow> bool \<Rightarrow> (int \<times> zset) option" where
  "zsetRank h zs ele reverse = do {
     let llen = zsetLength zs;
     (de, d) \<leftarrow> dictFind (zs_dict zs) ele;
     (case de of
        Some r \<Rightarrow> do {
          score \<leftarrow> score_at h (entry_val (deref d r));
          rank \<leftarrow> zslGetRank h (zs_zsl zs) score ele;
          if rank = 0 then None
          else Some (if reverse then sint (llen - rank) else sint (rank - 1), zs\<lparr>zs_dict := d\<rparr>)
        }
      | None \<Rightarrow> Some (-1, zs\<lparr>zs_dict := d\<rparr>))
   }"

text \<open>The loop of \<^verbatim>\<open>zremCommand\<close> over its arguments, for any sorted set with a deletion and a length: the number of
  members deleted, and whether the set became empty.\<close>

fun zrem_loop :: "('st \<Rightarrow> byte list \<Rightarrow> (bool \<times> 'st) option) \<Rightarrow> ('st \<Rightarrow> ulong) \<Rightarrow> 'st \<Rightarrow> byte list list \<Rightarrow> nat \<Rightarrow>
    (nat \<times> bool \<times> 'st) option" where
  "zrem_loop del len st [] deleted = Some (deleted, False, st)"
| "zrem_loop del len st (e # es) deleted = do {
     (r, st) \<leftarrow> del st e;
     let deleted = (if r then deleted + 1 else deleted);
     if len st = 0 then Some (deleted, True, st) else zrem_loop del len st es deleted
   }"

end
