(* ===== verification/Skiplist_Correct.thy ===== *)
theory Skiplist_Correct
  imports Skiplist_Search Dict_Correct Zset
begin

text \<open>
  Deleting ranges from a sorted set, whose skip list and hash table stay in step, and what the skip list promises to
  its callers.
\<close>

section \<open>The hash table of a sorted set\<close>

definition zd_ok :: "(byte list \<Rightarrow> ulong) \<Rightarrow> zdict \<Rightarrow> bool" where
  "zd_ok hash d \<longleftrightarrow> dict_inv d \<and> dict_small d \<and> dict_type d = zsetDictType hash"

lemma keq_zset [simp]: "keq (zsetDictType hash) a b \<longleftrightarrow> a = b"
  by (auto simp: keq_def dictCompareKeys_def zsetDictType_def dictSdsKeyCompare_def list.rel_eq)

lemma zsetDictType_wf: "wf_type (zsetDictType hash)"
  unfolding wf_type_def keq_zset by (simp add: dictSetKey_def zsetDictType_def)

lemma zd_ok_create: "zd_ok hash (dictCreate (zsetDictType hash))"
  by (simp add: zd_ok_def dictCreate_def dict_inv_def zsetDictType_wf dict_entries_def dict_small_def
      key_classes_def dictIsRehashing_def)

lemma zd_card:
  assumes "dict_inv d" "dict_type d = zsetDictType hash"
  shows "card {k. dict_map d k \<noteq> None} = length (dict_entries d)" "finite {k. dict_map d k \<noteq> None}"
proof -
  have w: "wf_type (zsetDictType hash)" using assms by (simp add: dict_inv_def)
  have e: "{k. dict_map d k \<noteq> None} = entry_key ` set (dict_entries d)"
    using dict_map_absent [OF assms(1)] assms(2) by auto
  have "distinct (map entry_key (dict_entries d))"
    using assms by (simp add: dict_inv_def key_classes_def distinct_map inj_on_def kclass_eq_iff [OF w])
  from distinct_card [OF this] show "card {k. dict_map d k \<noteq> None} = length (dict_entries d)" unfolding e by simp
  show "finite {k. dict_map d k \<noteq> None}" unfolding e by simp
qed

lemma zd_delete:
  assumes ok: "zd_ok hash d"
  shows "\<exists>st d'. dictDelete d k = Some (st, d') \<and> zd_ok hash d' \<and> dict_map d' = (dict_map d)(k := None)"
proof -
  have d: "dict_inv d" "dict_small d" "dict_type d = zsetDictType hash" using ok by (simp_all add: zd_ok_def)
  obtain he d' where d': "dictGenericDelete d k = Some (he, d')" "dict_inv d'" "dict_type d' = dict_type d"
    "\<forall>k'. dict_map d' k' = (if keq (dict_type d) k' k then None else dict_map d k')"
    using dictGenericDelete_correct [OF d(1,2)] by blast
  have m: "dict_map d' = (dict_map d)(k := None)" using d'(4) d(3) by (auto simp: fun_eq_iff)
  have t: "dict_type d' = zsetDictType hash" using d'(3) d(3) by simp
  have "card {k. dict_map d' k \<noteq> None} \<le> card {k. dict_map d k \<noteq> None}"
    unfolding m by (rule card_mono [OF zd_card(2) [OF d(1,3)]]) auto
  then have "dict_small d'" using d(2) zd_card(1) [OF d(1,3)] zd_card(1) [OF d'(2) t] by (simp add: dict_small_def)
  with d' m t show ?thesis by (auto simp: zd_ok_def dictDelete_def)
qed

section \<open>The loop\<close>

definition without :: "('k \<Rightarrow> 'v option) \<Rightarrow> 'k set \<Rightarrow> 'k \<Rightarrow> 'v option" where
  "without m S k = (if k \<in> S then None else m k)"

lemma upd_all_mono: "upd_all zsl A u \<Longrightarrow> z_header zsl' = z_header zsl \<Longrightarrow> z_level zsl' \<le> z_level zsl \<Longrightarrow> upd_all zsl' A u"
  by (simp add: upd_all_def hdl_def)

text \<open>The condition holds for the nodes \<open>M\<close> in turn and not for the first of \<open>C\<close>.\<close>

definition goes :: "(ulong \<Rightarrow> 's zskiplistNode \<Rightarrow> bool) \<Rightarrow> ulong \<Rightarrow> 's zn list \<Rightarrow> bool" where
  "goes cond k M \<longleftrightarrow> (\<forall>j n. j < length M \<longrightarrow> zn_ele n = Some (ze (M ! j)) \<longrightarrow> zn_score n = zs (M ! j) \<longrightarrow> cond (k + of_nat j) n)"

definition stops :: "(ulong \<Rightarrow> 's zskiplistNode \<Rightarrow> bool) \<Rightarrow> ulong \<Rightarrow> 's zn list \<Rightarrow> bool" where
  "stops cond k C \<longleftrightarrow> (\<forall>b C' n. C = b # C' \<longrightarrow> zn_ele n = Some (ze b) \<longrightarrow> zn_score n = zs b \<longrightarrow> \<not> cond k n)"

lemma range_loop_deletes:
  assumes "zsl_rep h zsl (A @ M @ C)" "upd_all zsl A update" "zd_ok hash d"
    "goes cond rem M" "stops cond (rem + of_nat (length M)) C"
  shows "\<exists>h' zsl' d'. range_loop cond update (first_ptr (M @ C)) h zsl d rem = Some (h', zsl', d', rem + of_nat (length M)) \<and>
    zsl_rep h' zsl' (A @ C) \<and> z_header zsl' = z_header zsl \<and> zd_ok hash d' \<and> dict_map d' = without (dict_map d) (ze ` set M) \<and>
    (\<forall>x \<in> set M. h' (za x) = None) \<and> frame_on (insert (z_header zsl) (za ` set (A @ M @ C))) h h'"
  using assms
proof (induction M arbitrary: h zsl d rem)
  case Nil
  have "range_loop cond update (first_ptr C) h zsl d rem = Some (h, zsl, d, rem)"
  proof (cases C)
    case Nil
    then show ?thesis by (simp add: range_loop.simps first_ptr_def)
  next
    case (Cons b C')
    have rb: "zsl_rep h zsl (A @ b # C')" using Nil.prems(1) Cons by simp
    obtain n where n: "h (za b) = Some n" "zn_ele n = Some (ze b)" "zn_score n = zs b" using pos_node [OF rb] by blast
    have "\<not> cond rem n" using Nil.prems(5) Cons n(2,3) by (simp add: stops_def)
    with n(1) Cons show ?thesis by (simp add: range_loop.simps first_ptr_def)
  qed
  moreover have "without (dict_map d) {} = dict_map d" by (simp add: without_def fun_eq_iff)
  ultimately show ?case using Nil.prems(1,3) by simp
next
  case (Cons X M)
  have rX: "zsl_rep h zsl (A @ X # (M @ C))" using Cons.prems(1) by simp
  note R = zsl_repD [OF rX]
  obtain n where n: "h (za X) = Some n" "zn_ele n = Some (ze X)" "zn_score n = zs X" using pos_node [OF rX] by blast
  have c: "cond rem n" using Cons.prems(4) n unfolding goes_def by force
  have "zsl_rep h zsl ((A @ [X]) @ (M @ C))" using rX by simp
  from pos_level [OF this] obtain l where l: "zlev h (za X) 0 = Some l" "forward l = first_ptr (M @ C)" by auto
  obtain h1 zsl1 where h1: "zslDeleteNode h zsl (za X) update = Some (h1, zsl1)" "zsl_rep h1 zsl1 (A @ M @ C)" "z_header zsl1 = z_header zsl"
    "z_level zsl1 \<le> z_level zsl" "h1 (za X) = h (za X)" "frame_on (insert (z_header zsl) (za ` set (A @ M @ C))) h h1"
    using zslDeleteNode_ok [OF rX Cons.prems(2)] by auto
  obtain st d1 where d1: "dictDelete d (ze X) = Some (st, d1)" "zd_ok hash d1" "dict_map d1 = (dict_map d)(ze X := None)"
    using zd_delete [OF Cons.prems(3)] by blast
  have x: "za X \<notin> insert (z_header zsl1) (za ` set (A @ M @ C))" using R(2,3) h1(3) by auto
  have h2: "zslFreeNode h1 (za X) = Some (h1(za X := None))" "zsl_rep (h1(za X := None)) zsl1 (A @ M @ C)"
    using zslFreeNode_rep [OF h1(2) _ x] h1(5) n(1) by auto
  have u1: "upd_all zsl1 A update" using Cons.prems(2) h1(3,4) by (rule upd_all_mono)
  have c1: "goes cond (rem + 1) M"
    unfolding goes_def
  proof (intro allI impI)
    fix j and n :: "'a zskiplistNode" assume "j < length M" "zn_ele n = Some (ze (M ! j))" "zn_score n = zs (M ! j)"
    moreover have "Suc j < length (X # M) \<longrightarrow> zn_ele n = Some (ze ((X # M) ! Suc j)) \<longrightarrow> zn_score n = zs ((X # M) ! Suc j) \<longrightarrow> cond (rem + of_nat (Suc j)) n"
      using Cons.prems(4) unfolding goes_def by blast
    ultimately show "cond (rem + 1 + of_nat j) n" by (simp add: ac_simps)
  qed
  have c2: "stops cond (rem + 1 + of_nat (length M)) C" using Cons.prems(5) by (simp add: ac_simps)
  obtain h' zsl' d' where r: "range_loop cond update (first_ptr (M @ C)) (h1(za X := None)) zsl1 d1 (rem + 1) = Some (h', zsl', d', rem + 1 + of_nat (length M))"
    "zsl_rep h' zsl' (A @ C)" "z_header zsl' = z_header zsl1" "zd_ok hash d'" "dict_map d' = without (dict_map d1) (ze ` set M)"
    "\<forall>x \<in> set M. h' (za x) = None" "frame_on (insert (z_header zsl1) (za ` set (A @ M @ C))) (h1(za X := None)) h'"
    using Cons.IH [OF h2(2) u1 d1(2) c1 c2] by blast
  have "range_loop cond update (first_ptr ((X # M) @ C)) h zsl d rem = Some (h', zsl', d', rem + of_nat (length (X # M)))"
    using n c l h1(1) d1(1) h2(1) r(1) by (subst range_loop.simps) (simp add: first_ptr_def ac_simps)
  moreover have "dict_map d' = without (dict_map d) (ze ` set (X # M))" unfolding r(5) d1(3) by (auto simp: without_def fun_eq_iff)
  moreover have "\<forall>x \<in> set (X # M). h' (za x) = None" using r(6,7) x by (auto simp: frame_on_def)
  moreover have "frame_on (insert (z_header zsl) (za ` set (A @ (X # M) @ C))) h h'" using r(7) h1(3,6) by (auto simp: frame_on_def)
  ultimately show ?case using r(2,3,4) h1(3) by auto
qed

section \<open>Deleting ranges\<close>

text \<open>What the three functions give, for the nodes \<open>M\<close> of the range and the others \<open>ys\<close>.\<close>

definition range_deleted :: "(byte list \<Rightarrow> ulong) \<Rightarrow> 's::linorder zheap \<Rightarrow> zskiplist \<Rightarrow> zdict \<Rightarrow> 's zn list \<Rightarrow> 's zn list \<Rightarrow>
    ('s zheap \<times> zskiplist \<times> zdict \<times> ulong) option \<Rightarrow> bool" where
  "range_deleted hash h zsl d M ys res \<longleftrightarrow> (\<exists>h' zsl' d'. res = Some (h', zsl', d', of_nat (length M)) \<and> zsl_rep h' zsl' ys \<and>
     zd_ok hash d' \<and> dict_map d' = without (dict_map d) (ze ` set M) \<and> (\<forall>x \<in> set M. h' (za x) = None) \<and>
     z_header zsl' = z_header zsl \<and> frame_on (insert (z_header zsl) (za ` set (M @ ys))) h h')"

lemma range_delete:
  assumes r: "zsl_rep h zsl (A @ M @ C)" and c: "cuts (\<lambda>t :: ulong. test t) h (hdl zsl # ahs A) (ahs (M @ C))" and d: "zd_ok hash d"
    and g: "goes cond 0 M" "stops cond (of_nat (length M)) C"
  shows "\<exists>update l. descend test h (z_level zsl) (z_header zsl) 0 = Some (pos zsl A, of_nat (length A), update) \<and>
    zlev h (pos zsl A) 0 = Some l \<and>
    range_deleted hash h zsl d M (A @ C) (range_loop cond (map fst update) (forward l) h zsl d 0)"
proof -
  obtain update where u: "descend test h (z_level zsl) (z_header zsl) 0 = Some (pos zsl A, of_nat (length A), update)" "upd_all zsl A (map fst update)"
    using search_pos [OF r c] by blast
  obtain l where l: "zlev h (pos zsl A) 0 = Some l" "forward l = first_ptr (M @ C)" using pos_level [OF r] by blast
  have "stops cond (0 + of_nat (length M)) C" using g(2) by simp
  from range_loop_deletes [OF r u(2) d g(1) this] have "range_deleted hash h zsl d M (A @ C) (range_loop cond (map fst update) (forward l) h zsl d 0)"
    unfolding range_deleted_def l(2) by (auto simp: Un_left_commute Un_commute Un_assoc)
  with u(1) l(1) show ?thesis by blast
qed

lemma goes_takeWhile:
  assumes "\<And>x n. x \<in> set B \<Longrightarrow> zn_ele n = Some (ze x) \<Longrightarrow> zn_score n = zs x \<Longrightarrow> c n \<longleftrightarrow> L x"
  shows "goes (\<lambda>_. c) 0 (takeWhile L B)" "stops (\<lambda>_. c) k (dropWhile L B)"
proof -
  show "goes (\<lambda>_. c) 0 (takeWhile L B)"
    unfolding goes_def using assms by (metis nth_mem set_takeWhileD)
  show "stops (\<lambda>_. c) k (dropWhile L B)"
    unfolding stops_def
  proof (intro allI impI)
    fix b C' and n :: "'a zskiplistNode" assume b: "dropWhile L B = b # C'" "zn_ele n = Some (ze b)" "zn_score n = zs b"
    have "b \<in> set B" using b(1) by (metis list.set_intros(1) set_dropWhileD)
    moreover have "\<not> L b" using b(1) by (simp add: dropWhile_eq_Cons_conv)
    ultimately show "\<not> c n" using assms b(2,3) by blast
  qed
qed

text \<open>Ranges between two tests: \<open>G\<close> from some node on, \<open>L\<close> up to some node.\<close>

lemma range_delete_tests:
  assumes r: "zsl_rep h zsl xs" and d: "zd_ok hash d"
    and up: "sorted_wrt (\<lambda>x y. G x \<longrightarrow> G y) xs" and down: "sorted_wrt (\<lambda>x y. L y \<longrightarrow> L x) xs"
    and g: "\<And>x n. zn_ele n = Some (ze x) \<Longrightarrow> zn_score n = zs x \<Longrightarrow> g n \<longleftrightarrow> \<not> G x"
    and l: "\<And>x n. zn_ele n = Some (ze x) \<Longrightarrow> zn_score n = zs x \<Longrightarrow> c n \<longleftrightarrow> L x"
  shows "\<exists>p t update l. descend (\<lambda>_ :: ulong. g) h (z_level zsl) (z_header zsl) 0 = Some (p, t, update) \<and> zlev h p 0 = Some l \<and>
    range_deleted hash h zsl d (filter (\<lambda>x. G x \<and> L x) xs) (filter (\<lambda>x. \<not> (G x \<and> L x)) xs)
      (range_loop (\<lambda>_. c) (map fst update) (forward l) h zsl d 0)"
proof -
  have "sorted_wrt (\<lambda>x y. \<not> G y \<longrightarrow> \<not> G x) xs" using up by (rule sorted_wrt_mono_rel [rotated]) blast
  then obtain A B where s: "xs = A @ B" "zsl_rep h zsl (A @ B)" "\<forall>x \<in> set A. \<not> G x" "\<forall>x \<in> set B. \<not> \<not> G x"
    "cuts (\<lambda>_ :: ulong. g) h (hdl zsl # ahs A) (ahs B)"
    by (rule split_down [OF r, where cond = "\<lambda>_ :: ulong. g"]) (use g in \<open>blast+\<close>)
  let ?M = "takeWhile L B" and ?C = "dropWhile L B"
  have dB: "sorted_wrt (\<lambda>x y. L y \<longrightarrow> L x) B" using down s(1) by (simp add: sorted_wrt_append)
  have M: "\<forall>x \<in> set ?M. L x" by (meson set_takeWhileD)
  have C: "\<forall>x \<in> set ?C. \<not> L x" using dropWhile_down [OF dB] by blast
  have B: "filter L B = ?M" "filter (\<lambda>x. \<not> L x) B = ?C"
  proof -
    have "filter L (?M @ ?C) = ?M" "filter (\<lambda>x. \<not> L x) (?M @ ?C) = ?C" unfolding filter_append using M C by (simp_all add: filter_empty_conv)
    then show "filter L B = ?M" "filter (\<lambda>x. \<not> L x) B = ?C" by simp_all
  qed
  have "filter (\<lambda>x. G x \<and> L x) xs = filter L B" "filter (\<lambda>x. \<not> (G x \<and> L x)) xs = A @ filter (\<lambda>x. \<not> L x) B"
    using s(1,3,4) by (auto simp: filter_empty_conv intro!: filter_cong)
  then have "filter (\<lambda>x. G x \<and> L x) xs = ?M" "filter (\<lambda>x. \<not> (G x \<and> L x)) xs = A @ ?C" unfolding B .
  moreover have "zsl_rep h zsl (A @ ?M @ ?C)" "cuts (\<lambda>_ :: ulong. g) h (hdl zsl # ahs A) (ahs (?M @ ?C))" using s(2,5) by simp_all
  from range_delete [OF this d goes_takeWhile [of B c L]] l
  obtain update l where "descend (\<lambda>_ :: ulong. g) h (z_level zsl) (z_header zsl) 0 = Some (pos zsl A, of_nat (length A), update)"
    "zlev h (pos zsl A) 0 = Some l" "range_deleted hash h zsl d ?M (A @ ?C) (range_loop (\<lambda>_. c) (map fst update) (forward l) h zsl d 0)" by blast
  ultimately show ?thesis by auto
qed

lemma zslDeleteRangeByScore_ok:
  assumes r: "zsl_rep h zsl xs" and d: "zd_ok hash d"
  shows "range_deleted hash h zsl d (filter (in_range r) xs) (filter (\<lambda>x. \<not> in_range r x) xs) (zslDeleteRangeByScore h zsl r d)"
proof -
  have 1: "(if r_minex r then zn_score n \<le> r_min r else zn_score n < r_min r) \<longleftrightarrow> \<not> zslValueGteMin (zs x) r"
    and 2: "(if r_maxex r then zn_score n < r_max r else zn_score n \<le> r_max r) \<longleftrightarrow> zslValueLteMax (zs x) r"
    if "zn_ele n = Some (ze x)" "zn_score n = zs x" for x :: "'a zn" and n
    using that by (auto simp: zslValueGteMin_def zslValueLteMax_def)
  obtain p t update l where *: "descend (\<lambda>(_ :: ulong) n. if r_minex r then zn_score n \<le> r_min r else zn_score n < r_min r) h (z_level zsl) (z_header zsl) 0 = Some (p, t, update)"
    "zlev h p 0 = Some l"
    "range_deleted hash h zsl d (filter (\<lambda>x. zslValueGteMin (zs x) r \<and> zslValueLteMax (zs x) r) xs)
      (filter (\<lambda>x. \<not> (zslValueGteMin (zs x) r \<and> zslValueLteMax (zs x) r)) xs)
      (range_loop (\<lambda>_ n. if r_maxex r then zn_score n < r_max r else zn_score n \<le> r_max r) (map fst update) (forward l) h zsl d 0)"
    using range_delete_tests [OF r d score_mono [OF r, of r],
        of "\<lambda>n. if r_minex r then zn_score n \<le> r_min r else zn_score n < r_min r"
           "\<lambda>n. if r_maxex r then zn_score n < r_max r else zn_score n \<le> r_max r", OF 1 2] by blast
  then show ?thesis by (simp add: zslDeleteRangeByScore_def in_range_def [abs_def])
qed

lemma zslDeleteRangeByLex_ok:
  assumes r: "zsl_rep h zsl xs" and d: "zd_ok hash d" and e: "\<forall>x \<in> set xs. zs x = s"
  shows "range_deleted hash h zsl d (filter (in_lex_range r) xs) (filter (\<lambda>x. \<not> in_lex_range r x) xs) (zslDeleteRangeByLex h zsl r d)"
proof -
  have 1: "ele_test (\<lambda>e. \<not> zslLexValueGteMin e r) n \<longleftrightarrow> \<not> zslLexValueGteMin (ze x) r"
    and 2: "ele_test (\<lambda>e. zslLexValueLteMax e r) n \<longleftrightarrow> zslLexValueLteMax (ze x) r"
    if "zn_ele n = Some (ze x)" "zn_score n = zs x" for x :: "'a zn" and n
    using that by (auto simp: ele_test_def)
  obtain p t update l where *: "descend (\<lambda>_ :: ulong. ele_test (\<lambda>e. \<not> zslLexValueGteMin e r)) h (z_level zsl) (z_header zsl) 0 = Some (p, t, update)"
    "zlev h p 0 = Some l"
    "range_deleted hash h zsl d (filter (\<lambda>x. zslLexValueGteMin (ze x) r \<and> zslLexValueLteMax (ze x) r) xs)
      (filter (\<lambda>x. \<not> (zslLexValueGteMin (ze x) r \<and> zslLexValueLteMax (ze x) r)) xs)
      (range_loop (\<lambda>_. ele_test (\<lambda>e. zslLexValueLteMax e r)) (map fst update) (forward l) h zsl d 0)"
    using range_delete_tests [OF r d lex_mono [OF r e, of r],
        of "ele_test (\<lambda>e. \<not> zslLexValueGteMin e r)" "ele_test (\<lambda>e. zslLexValueLteMax e r)", OF 1 2] by blast
  then show ?thesis by (simp add: zslDeleteRangeByLex_def in_lex_range_def [abs_def])
qed

lemma unat_ucast_uint: "unat (ucast w :: ulong) = unat w" for w :: uint
proof -
  have "unat w < 2 ^ 32" using unsigned_less [of w] by simp
  then show ?thesis by (simp add: unsigned_ucast_eq take_bit_nat_eq_self)
qed

lemma zslDeleteRangeByRank_ok:
  assumes r: "zsl_rep h zsl xs" and d: "zd_ok hash d" and s: "1 \<le> unat start"
  shows "range_deleted hash h zsl d (take (unat end - (unat start - 1)) (drop (unat start - 1) xs))
    (take (unat start - 1) xs @ drop (max (unat start - 1) (unat end)) xs) (zslDeleteRangeByRank h zsl start end d)"
proof -
  let ?a = "unat start - 1"
  let ?A = "take ?a xs" and ?M = "take (unat end - ?a) (drop ?a xs)" and ?C = "drop (max ?a (unat end)) xs"
  have len: "length xs < 2 ^ 63" using zsl_repD(8) [OF r] .
  have C: "?C = drop (unat end - ?a) (drop ?a xs)" by (cases "?a \<le> unat end") (simp_all add: max_def)
  have MC: "?M @ ?C = drop ?a xs" unfolding C by (rule append_take_drop_id)
  have rAB: "zsl_rep h zsl (?A @ ?M @ ?C)" unfolding MC using r by simp
  have "cuts (\<lambda>(t :: ulong) _. t < ucast start) h (hdl zsl # ahs ?A) (ahs (?M @ ?C))"
    unfolding MC using s len by (intro cuts_rank [OF r]) (auto simp: nat_word_less unat_ucast_uint)
  moreover have e: "of_nat (length ?A) + 1 + of_nat j \<le> (ucast end :: ulong) \<longleftrightarrow> length ?A + 1 + j \<le> unat end" if "j \<le> length xs" for j
  proof -
    have "length ?A + 1 + j < 2 ^ 64" using that len by simp
    from nat_word_le [OF this, of "ucast end"] show ?thesis by (simp add: unat_ucast_uint ac_simps)
  qed
  have "goes (\<lambda>removed _. of_nat (length ?A) + 1 + removed \<le> (ucast end :: ulong)) 0 ?M"
    unfolding goes_def
  proof (intro allI impI)
    fix j and n :: "'a zskiplistNode" assume j: "j < length ?M"
    then have "j \<le> length xs" "length ?A + 1 + j \<le> unat end" by auto
    with e show "of_nat (length ?A) + 1 + (0 + of_nat j) \<le> (ucast end :: ulong)" by simp
  qed
  moreover have "stops (\<lambda>removed _. of_nat (length ?A) + 1 + removed \<le> (ucast end :: ulong)) (of_nat (length ?M)) ?C"
    unfolding stops_def
  proof (intro allI impI)
    fix b C' and n :: "'a zskiplistNode" assume "?C = b # C'"
    then have "max ?a (unat end) < length xs" by (metis drop_all list.distinct(1) not_le)
    then have "length ?M \<le> length xs" "\<not> length ?A + 1 + length ?M \<le> unat end" by auto
    with e show "\<not> of_nat (length ?A) + 1 + of_nat (length ?M) \<le> (ucast end :: ulong)" by blast
  qed
  ultimately obtain update l where *: "descend (\<lambda>(t :: ulong) _. t < ucast start) h (z_level zsl) (z_header zsl) 0 = Some (pos zsl ?A, of_nat (length ?A), update)"
    "zlev h (pos zsl ?A) 0 = Some l"
    "range_deleted hash h zsl d ?M (?A @ ?C)
      (range_loop (\<lambda>removed _. of_nat (length ?A) + 1 + removed \<le> (ucast end :: ulong)) (map fst update) (forward l) h zsl d 0)"
    using range_delete [OF rAB _ d] by blast
  show ?thesis unfolding zslDeleteRangeByRank_def *(1) using *(2,3) by (simp only: bind.bind_lunit prod.case Let_def)
qed

section \<open>The random level\<close>

lemma level_loop_total: "65535 \<le> 4 * (rnd (k + j) mod 65536) \<Longrightarrow> \<exists>m \<ge> level. level_loop rnd k level = Some m"
proof (induction j arbitrary: k level)
  case 0
  then show ?case by (subst level_loop.simps) simp
next
  case (Suc j)
  from Suc.IH [of "Suc k" "level + 1"] Suc.prems obtain m where "level + 1 \<le> m" "level_loop rnd (Suc k) (level + 1) = Some m" by auto
  then show ?case by (subst level_loop.simps) auto
qed

lemma zslRandomLevel_total:
  assumes "65535 \<le> 4 * (rnd j mod 65536)"
  obtains k where "zslRandomLevel rnd = Some k" "1 \<le> k" "k \<le> ZSKIPLIST_MAXLEVEL"
proof -
  obtain m where "1 \<le> m" "level_loop rnd 0 1 = Some m" using level_loop_total [of rnd 0 j 1] assms by auto
  then show thesis by (intro that [of "min m ZSKIPLIST_MAXLEVEL"]) (auto simp: zslRandomLevel_def ZSKIPLIST_MAXLEVEL_def)
qed

section \<open>Histories\<close>

text \<open>The skip lists that the functions of the interface produce, with the keys that they hold. The caller inserts a
  key only when it is absent, and moves an element only to a score at which it is absent. Between two calls the rest
  of the program may allocate and write memory that is not the skip list's.\<close>

inductive zsl_run :: "'s::linorder zheap \<Rightarrow> zskiplist \<Rightarrow> ('s \<times> byte list) set \<Rightarrow> bool" where
  create: "zslCreate jp j zero a h0 = Some (h, zsl) \<Longrightarrow> zsl_run h zsl {}"
| insrt: "zsl_run h zsl K \<Longrightarrow> h x = None \<Longrightarrow> (s, e) \<notin> K \<Longrightarrow> card K < 2 ^ 32 - 1 \<Longrightarrow>
    zslInsert jp j rnd x h zsl s e = Some (h', zsl', a) \<Longrightarrow> zsl_run h' zsl' (insert (s, e) K)"
| delete: "zsl_run h zsl K \<Longrightarrow> zslDelete h zsl s e keep = Some (h', zsl', a) \<Longrightarrow> zsl_run h' zsl' (K - {(s, e)})"
| update: "zsl_run h zsl K \<Longrightarrow> (s, e) \<in> K \<Longrightarrow> h y = None \<Longrightarrow> t = s \<or> (t, e) \<notin> K \<Longrightarrow> card K < 2 ^ 32 - 1 \<Longrightarrow> zslRandomLevel rnd = Some k \<Longrightarrow>
    zslUpdateScore jp j rnd y h zsl s e t = Some (h', zsl', a) \<Longrightarrow> zsl_run h' zsl' (insert (t, e) (K - {(s, e)}))"
| others: "zsl_run h zsl K \<Longrightarrow> (\<forall>a. h a \<noteq> None \<longrightarrow> h' a = h a) \<Longrightarrow> zsl_run h' zsl K"

lemma zsl_rep_keys: "zsl_rep h zsl xs \<Longrightarrow> card (keyof ` set xs) = length xs"
  using distinct_card [OF zsl_rep_distinct [of h zsl xs]] by simp

lemma zslInsert_level: "zslInsert jp j rnd x h zsl s e = Some r \<Longrightarrow> \<exists>k. zslRandomLevel rnd = Some k"
  unfolding zslInsert_def by (cases "zslRandomLevel rnd") (auto simp: bind_eq_Some_conv)

lemma zsl_rep_others:
  assumes "zsl_rep h zsl xs" "\<forall>a. h a \<noteq> None \<longrightarrow> h' a = h a"
  shows "zsl_rep h' zsl xs"
proof (rule zsl_rep_frame [OF assms(1), of "{a. h a = None}"])
  show "frame_on {a. h a = None} h h'" using assms(2) by (simp add: frame_on_def)
  show "{a. h a = None} \<inter> insert (z_header zsl) (za ` set xs) = {}"
    using zsl_rep_fresh [OF assms(1)] by blast
qed

section \<open>Examples\<close>

text \<open>A skip list with two nodes, one of them of two levels.\<close>

definition draws1 :: "nat \<Rightarrow> nat" where "draws1 k = 65535"
definition draws2 :: "nat \<Rightarrow> nat" where "draws2 k = (if k = 0 then 0 else 65535)"

lemma draws: "zslRandomLevel draws1 = Some 1" "zslRandomLevel draws2 = Some 2"
  by (simp_all add: zslRandomLevel_def level_loop.simps draws1_def draws2_def ZSKIPLIST_MAXLEVEL_def)

abbreviation ex_nodes :: "int zn list" where "ex_nodes \<equiv> [Zn 1 3 [97] 1, Zn 2 5 [98] 2]"

lemma ex_empty: "\<exists>h zsl. zsl_rep h zsl ([] :: int zn list) \<and> z_header zsl = 0 \<and> frame_on {0} Map.empty h"
  using zslCreate_rep [of None "\<lparr>forward = None, span = 0\<rparr>" "0 :: int" 0 Map.empty] by blast

lemma ex_zsl: "\<exists>h zsl. zsl_rep h zsl ex_nodes \<and> h 3 = None"
proof -
  obtain h0 and z0 where 0: "zsl_rep h0 z0 ([] :: int zn list)" "z_header z0 = 0" "frame_on {0} Map.empty h0" using ex_empty by blast
  have "h0 1 = None" using 0(3) by (simp add: frame_on_def)
  from zslInsert_inserts [OF 0(1) this draws(1), of 3 "[97]" None "\<lparr>forward = None, span = 0\<rparr>"] obtain h1 z1 where
    1: "zsl_rep h1 z1 [Zn 1 (3 :: int) [97] 1]" "z_header z1 = 0" "frame_on {0, 1} h0 h1" using 0(2) by (auto simp: insert_commute)
  have "h1 2 = None" using 0(3) 1(3) by (simp add: frame_on_def)
  from zslInsert_inserts [OF 1(1) this draws(2), of 5 "[98]" None "\<lparr>forward = None, span = 0\<rparr>"] obtain h2 z2 A B where
    2: "[Zn 1 (3 :: int) [97] 1] = A @ B" "zsl_rep h2 z2 (A @ Zn 2 5 [98] 2 # B)" "frame_on {0, 1, 2} h1 h2"
    using 1(2) by (auto simp: insert_commute)
  have "A = [Zn 1 3 [97] 1]" "B = []"
    using 2(1) zsl_repD(13) [OF 2(2)] by (auto simp: append_eq_Cons_conv Cons_eq_append_conv klt_def)
  moreover have "h2 3 = None" using 0(3) 1(3) 2(3) by (simp add: frame_on_def)
  ultimately show ?thesis using 2(2) by auto
qed

section \<open>Properties\<close>

text \<open>C4. Insertion. On a well-formed skip list that represents the nodes \<open>xs\<close> in order, \<^verbatim>\<open>zslInsert\<close> of a key that
  is absent returns, for every sequence of random draws in which some draw ends the choice of the level, with the new node at its sorted position, every
  level, span and backward pointer well-formed again, and no memory touched but the node's and the list's.\<close>

theorem zslInsert_refines:
  assumes "zsl_rep h zsl xs" "h x = None" "65535 \<le> 4 * (rnd j mod 65536)" "length xs < 2 ^ 32 - 1" "(score, ele) \<notin> keyof ` set xs"
  shows "\<exists>h' zsl' A B k. zslInsert junk_ptr junk rnd x h zsl score ele = Some (h', zsl', x) \<and> xs = A @ B \<and>
    zsl_rep h' zsl' (A @ Zn x score ele k # B) \<and> z_header zsl' = z_header zsl \<and>
    frame_on (insert x (insert (z_header zsl) (za ` set xs))) h h'"
proof -
  obtain k where "zslRandomLevel rnd = Some k" using assms(3) by (rule zslRandomLevel_total)
  from zslInsert_inserts [OF assms(1,2) this assms(4,5)] show ?thesis by blast
qed

theorem zslInsert_refines_witness:
  "\<exists>h zsl. zsl_rep h zsl ex_nodes \<and> (\<exists>h' zsl' A B k.
    zslInsert None \<lparr>forward = None, span = 7\<rparr> draws1 3 h zsl 3 [98] = Some (h', zsl', 3) \<and> ex_nodes = A @ B \<and>
    zsl_rep h' zsl' (A @ Zn 3 3 [98] k # B))"
proof -
  obtain h zsl where r: "zsl_rep h zsl ex_nodes" "h 3 = None" using ex_zsl by blast
  have "65535 \<le> 4 * (draws1 0 mod 65536)" "length ex_nodes < 2 ^ 32 - 1" "(3, [98]) \<notin> keyof ` set ex_nodes" by (simp_all add: draws1_def)
  from zslInsert_refines [OF r, of draws1 0 3 "[98]" None "\<lparr>forward = None, span = 7\<rparr>", OF this] r(1) show ?thesis by blast
qed

text \<open>C7. Deletion. \<^verbatim>\<open>zslDelete\<close> takes the node with the key out of the list and frees it, or keeps it for the caller
  who asked for it, and reports that nothing was found when no node has the key, leaving everything as it was.\<close>

theorem zslDelete_refines:
  assumes "zsl_rep h zsl xs"
  shows "if (score, ele) \<in> keyof ` set xs
    then \<exists>A X B h' zsl'. xs = A @ X # B \<and> keyof X = (score, ele) \<and> zslDelete h zsl score ele keep = Some (h', zsl', Some (za X)) \<and>
      zsl_rep h' zsl' (A @ B) \<and> z_header zsl' = z_header zsl \<and> h' (za X) = (if keep then h (za X) else None) \<and>
      frame_on (insert (z_header zsl) (za ` set xs)) h h'
    else zslDelete h zsl score ele keep = Some (h, zsl, None)"
  using zslDelete_found [OF assms] zslDelete_missing [OF assms] by simp

theorem zslDelete_refines_witness:
  "\<exists>h zsl. zsl_rep h zsl ex_nodes \<and>
    (\<exists>h' zsl'. zslDelete h zsl 3 [97] False = Some (h', zsl', Some 1) \<and> zsl_rep h' zsl' [Zn 2 5 [98] 2] \<and> h' 1 = None)"
proof -
  obtain h zsl where r: "zsl_rep h zsl ex_nodes" using ex_zsl by blast
  from zslDelete_refines [OF r, of 3 "[97]" False]
  have "\<exists>h' zsl'. zslDelete h zsl 3 [97] False = Some (h', zsl', Some 1) \<and> zsl_rep h' zsl' [Zn 2 5 [98] 2] \<and> h' 1 = None"
    by (auto simp: Cons_eq_append_conv append_eq_Cons_conv)
  with r show ?thesis by blast
qed

text \<open>C15. Changing a score. \<^verbatim>\<open>zslUpdateScore\<close> returns the node that holds the element with its new score, in place or
  reinserted, in a well-formed list whose keys are those before with the one key replaced.\<close>

theorem zslUpdateScore_refines:
  assumes "zsl_rep h zsl xs" "(curscore, ele) \<in> keyof ` set xs" "h y = None" "65535 \<le> 4 * (rnd j mod 65536)"
    "length xs < 2 ^ 32 - 1" "newscore = curscore \<or> (newscore, ele) \<notin> keyof ` set xs"
  shows "\<exists>h' zsl' ys a. zslUpdateScore junk_ptr junk rnd y h zsl curscore ele newscore = Some (h', zsl', a) \<and> zsl_rep h' zsl' ys \<and>
    z_header zsl' = z_header zsl \<and> keyof ` set ys = insert (newscore, ele) (keyof ` set xs - {(curscore, ele)}) \<and>
    (\<exists>Y \<in> set ys. za Y = a \<and> keyof Y = (newscore, ele)) \<and> frame_on (insert y (insert (z_header zsl) (za ` set xs))) h h'"
proof -
  obtain k where "zslRandomLevel rnd = Some k" using assms(4) by (rule zslRandomLevel_total)
  from zslUpdateScore_updates [OF assms(1-3) this assms(5,6)] show ?thesis .
qed

theorem zslUpdateScore_refines_witness:
  "\<exists>h zsl. zsl_rep h zsl ex_nodes \<and> (\<exists>h' zsl' ys a.
    zslUpdateScore None \<lparr>forward = None, span = 7\<rparr> draws1 3 h zsl 3 [97] 9 = Some (h', zsl', a) \<and> zsl_rep h' zsl' ys \<and>
    keyof ` set ys = {(9, [97]), (5, [98])})"
proof -
  obtain h zsl where r: "zsl_rep h zsl ex_nodes" "h 3 = None" using ex_zsl by blast
  have a: "(3, [97]) \<in> keyof ` set ex_nodes" and b: "65535 \<le> 4 * (draws1 0 mod 65536)" "length ex_nodes < 2 ^ 32 - 1"
    "9 = (3 :: int) \<or> (9, [97]) \<notin> keyof ` set ex_nodes" by (simp_all add: draws1_def)
  have e: "insert (9, [97]) (keyof ` set ex_nodes - {(3, [97])}) = {(9, [97]), (5, [98])}" by (simp add: insert_Diff_if)
  obtain h' zsl' ys x where "zslUpdateScore None \<lparr>forward = None, span = 7\<rparr> draws1 3 h zsl 3 [97] 9 = Some (h', zsl', x)"
    "zsl_rep h' zsl' ys" "keyof ` set ys = {(9, [97]), (5, [98])}"
    using zslUpdateScore_refines [OF r(1) a r(2), of draws1 0 9 None "\<lparr>forward = None, span = 7\<rparr>", OF b] unfolding e by (elim exE conjE) (rule that)
  with r(1) show ?thesis by (intro exI conjI)
qed

text \<open>C21. Ranks. In a list whose elements are distinct, \<^verbatim>\<open>zslGetRank\<close> gives the one-based position of every node,
  summed from the spans on the way, and \<^verbatim>\<open>zslGetElementByRank\<close> leads back from it to the node; an element that is
  absent has rank 0 at every score, and a rank after the last leads nowhere.\<close>

theorem zsl_rank_roundtrip:
  assumes "zsl_rep h zsl xs" "distinct (map ze xs)"
  shows "(\<forall>i < length xs. zslGetRank h zsl (zs (xs ! i)) (ze (xs ! i)) = Some (of_nat (Suc i)) \<and>
      zslGetElementByRank h zsl (of_nat (Suc i)) = Some (Some (za (xs ! i)))) \<and>
    (\<forall>score ele. ele \<notin> ze ` set xs \<longrightarrow> zslGetRank h zsl score ele = Some 0) \<and>
    (\<forall>rank. length xs < unat rank \<longrightarrow> zslGetElementByRank h zsl rank = Some None)"
proof (intro conjI allI impI)
  note len = zsl_repD(8) [OF assms(1)]
  fix i assume i: "i < length xs"
  show "zslGetRank h zsl (zs (xs ! i)) (ze (xs ! i)) = Some (of_nat (Suc i))" by (rule zslGetRank_found [OF assms i])
  have u: "unat (of_nat (Suc i) :: ulong) = Suc i" by (rule unat_of_nat_64) (use i len in simp)
  show "zslGetElementByRank h zsl (of_nat (Suc i)) = Some (Some (za (xs ! i)))"
    using zslGetElementByRank_nth [OF assms(1), of "of_nat (Suc i)"] i unfolding u by simp
next
  fix score ele assume "ele \<notin> ze ` set xs"
  then show "zslGetRank h zsl score ele = Some 0" by (rule zslGetRank_absent [OF assms(1)])
next
  fix rank :: ulong assume "length xs < unat rank"
  then show "zslGetElementByRank h zsl rank = Some None" using zslGetElementByRank_nth [OF assms(1), of rank] by simp
qed

theorem zsl_rank_roundtrip_witness:
  "\<exists>h zsl. zsl_rep h zsl ex_nodes \<and> zslGetRank h zsl 5 [98] = Some 2 \<and> zslGetElementByRank h zsl 2 = Some (Some 2) \<and>
    zslGetRank h zsl 5 [99] = Some 0 \<and> zslGetElementByRank h zsl 3 = Some None"
proof -
  obtain h zsl where r: "zsl_rep h zsl ex_nodes" using ex_zsl by blast
  note t = zsl_rank_roundtrip [OF r, simplified]
  from t [THEN conjunct1, rule_format, of 1] t [THEN conjunct2, THEN conjunct1, rule_format, of "[99]" 5]
    t [THEN conjunct2, THEN conjunct2, rule_format, of 3] r show ?thesis by auto
qed

text \<open>Ranges. For a range of scores with open or closed ends, \<^verbatim>\<open>zslFirstInRange\<close> and \<^verbatim>\<open>zslLastInRange\<close> give
  the first and the last node in the range, or nothing when no node is in it, which includes every empty and reversed
  range; when all scores are equal so do \<^verbatim>\<open>zslFirstInLexRange\<close> and \<^verbatim>\<open>zslLastInLexRange\<close> for ranges of strings.\<close>

theorem zsl_range_ends:
  assumes "zsl_rep h zsl xs"
  shows "zslFirstInRange h zsl r = Some (map_option za (List.find (in_range r) xs)) \<and>
    zslLastInRange h zsl r = Some (map_option za (List.find (in_range r) (rev xs))) \<and>
    ((\<forall>x \<in> set xs. zs x = s) \<longrightarrow>
      zslFirstInLexRange h zsl l = Some (map_option za (List.find (in_lex_range l) xs)) \<and>
      zslLastInLexRange h zsl l = Some (map_option za (List.find (in_lex_range l) (rev xs))))"
  using zslFirstInRange_find [OF assms] zslLastInRange_find [OF assms] zslFirstInLexRange_find [OF assms, of s] zslLastInLexRange_find [OF assms, of s]
  by (intro conjI impI)

theorem zsl_range_ends_witness:
  "\<exists>h zsl. zsl_rep h zsl ex_nodes \<and> zslFirstInRange h zsl \<lparr>r_min = 3, r_max = 9, r_minex = True, r_maxex = False\<rparr> = Some (Some 2) \<and>
    zslLastInRange h zsl \<lparr>r_min = 3, r_max = 5, r_minex = False, r_maxex = True\<rparr> = Some (Some 1)"
proof -
  obtain h zsl where r: "zsl_rep h zsl ex_nodes" using ex_zsl by blast
  have "zslFirstInRange h zsl \<lparr>r_min = 3, r_max = 9, r_minex = True, r_maxex = False\<rparr> = Some (Some 2)"
    "zslLastInRange h zsl \<lparr>r_min = 3, r_max = 5, r_minex = False, r_maxex = True\<rparr> = Some (Some 1)"
    using zsl_range_ends [OF r, of "\<lparr>r_min = 3, r_max = 9, r_minex = True, r_maxex = False\<rparr>"]
      zsl_range_ends [OF r, of "\<lparr>r_min = 3, r_max = 5, r_minex = False, r_maxex = True\<rparr>"]
    by (simp_all add: in_range_def zslValueGteMin_def zslValueLteMax_def)
  with r show ?thesis by blast
qed

text \<open>C16. Deleting ranges. \<^verbatim>\<open>zslDeleteRangeByScore\<close>, \<^verbatim>\<open>zslDeleteRangeByRank\<close> for one-based ranks, and
  \<^verbatim>\<open>zslDeleteRangeByLex\<close> when all scores are equal, remove exactly the nodes of the range: the list stays
  well-formed with the others in order, the nodes are freed, the hash table loses exactly their elements, and the
  result is their number.\<close>

theorem zsl_range_deletes:
  assumes "zsl_rep h zsl xs" "zd_ok hash d"
  shows "range_deleted hash h zsl d (filter (in_range r) xs) (filter (\<lambda>x. \<not> in_range r x) xs) (zslDeleteRangeByScore h zsl r d) \<and>
    (1 \<le> unat start \<longrightarrow> range_deleted hash h zsl d (take (unat stop - (unat start - 1)) (drop (unat start - 1) xs))
      (take (unat start - 1) xs @ drop (max (unat start - 1) (unat stop)) xs) (zslDeleteRangeByRank h zsl start stop d)) \<and>
    ((\<forall>x \<in> set xs. zs x = s) \<longrightarrow>
      range_deleted hash h zsl d (filter (in_lex_range l) xs) (filter (\<lambda>x. \<not> in_lex_range l x) xs) (zslDeleteRangeByLex h zsl l d))"
  using zslDeleteRangeByScore_ok [OF assms] zslDeleteRangeByRank_ok [OF assms] zslDeleteRangeByLex_ok [OF assms, of s]
  by (intro conjI impI)

theorem zsl_range_deletes_witness:
  "\<exists>h zsl. zsl_rep h zsl ex_nodes \<and>
    (\<exists>h' zsl' d'. zslDeleteRangeByRank h zsl 2 2 (dictCreate (zsetDictType (\<lambda>_. 0))) = Some (h', zsl', d', 1) \<and>
      zsl_rep h' zsl' [Zn 1 3 [97] 1] \<and> h' 2 = None)"
proof -
  obtain h zsl where r: "zsl_rep h zsl ex_nodes" using ex_zsl by blast
  from zsl_range_deletes [OF r zd_ok_create [of "\<lambda>_. 0"], where start = 2 and stop = 2, THEN conjunct2, THEN conjunct1]
  obtain h' zsl' d' where "zslDeleteRangeByRank h zsl 2 2 (dictCreate (zsetDictType (\<lambda>_. 0))) = Some (h', zsl', d', 1)"
    "zsl_rep h' zsl' [Zn 1 3 [97] 1]" "h' 2 = None" by (auto simp: range_deleted_def)
  with r show ?thesis by (intro exI conjI)
qed

text \<open>C14. The lists that creation, insertion, deletion and change of score produce, in any order and with other code
  writing other memory in between, are well-formed skip lists that hold exactly the keys of the history.\<close>

theorem zsl_run_ok:
  assumes "zsl_run h zsl K"
  shows "\<exists>xs. zsl_rep h zsl xs \<and> keyof ` set xs = K"
  using assms
proof induction
  case (create jp j zero a h0 h zsl)
  then show ?case using zslCreate_rep [of jp j zero a h0] by auto
next
  case (insrt h zsl K x s e jp j rnd h' zsl' a)
  then obtain xs where xs: "zsl_rep h zsl xs" "keyof ` set xs = K" by blast
  obtain k where k: "zslRandomLevel rnd = Some k" using zslInsert_level [OF insrt.hyps(5)] by blast
  have len: "length xs < 2 ^ 32 - 1" using insrt.hyps(4) zsl_rep_keys [OF xs(1)] xs(2) by simp
  obtain A B where "xs = A @ B" "zsl_rep h' zsl' (A @ Zn x s e k # B)"
    using zslInsert_inserts [OF xs(1) insrt.hyps(2) k len, of s e jp j] insrt.hyps(3,5) xs(2) by auto
  then show ?case using xs(2) by (intro exI [of _ "A @ Zn x s e k # B"]) auto
next
  case (delete h zsl K s e keep h' zsl' a)
  then obtain xs where xs: "zsl_rep h zsl xs" "keyof ` set xs = K" by blast
  show ?case
  proof (cases "(s, e) \<in> K")
    case True
    then have "(s, e) \<in> keyof ` set xs" using xs(2) by (simp only:)
    then obtain A X B h2 z2 where X: "xs = A @ X # B" "keyof X = (s, e)" "zslDelete h zsl s e keep = Some (h2, z2, Some (za X))" "zsl_rep h2 z2 (A @ B)"
      by (rule zslDelete_found [OF xs(1), THEN exE]) (elim exE conjE, rule that)
    have "h' = h2" "zsl' = z2" using X(3) delete.hyps(2) by simp_all
    have "keyof X \<notin> keyof ` set (A @ B)" using zsl_rep_distinct [OF xs(1)] unfolding X(1) by auto
    moreover have "K = insert (keyof X) (keyof ` set (A @ B))" unfolding xs(2) [symmetric] X(1) by auto
    ultimately have "keyof ` set (A @ B) = K - {(s, e)}" unfolding X(2) by blast
    with X(4) show ?thesis unfolding \<open>h' = h2\<close> \<open>zsl' = z2\<close> by blast
  next
    case False
    then have "(s, e) \<notin> keyof ` set xs" using xs(2) by (simp only: not_False_eq_True)
    from zslDelete_missing [OF xs(1) this, of keep] have "h' = h" "zsl' = zsl" using delete.hyps(2) by simp_all
    then show ?thesis using xs False by auto
  qed
next
  case (update h zsl K s e y t rnd k jp j h' zsl' a)
  then obtain xs where xs: "zsl_rep h zsl xs" "keyof ` set xs = K" by blast
  have "length xs < 2 ^ 32 - 1" using update.hyps(5) zsl_rep_keys [OF xs(1)] xs(2) by simp
  from zslUpdateScore_updates [OF xs(1) _ update.hyps(3,6) this, of s e t jp j] update.hyps xs(2) show ?case by auto
next
  case (others h zsl K h')
  then show ?case using zsl_rep_others by blast
qed

theorem zsl_run_ok_witness:
  "\<exists>h zsl. zsl_run h zsl {(3 :: int, [97])} \<and> (\<exists>xs. zsl_rep h zsl xs \<and> keyof ` set xs = {(3, [97])})"
proof -
  obtain h zsl where c: "zslCreate None \<lparr>forward = None, span = 0\<rparr> (0 :: int) 0 Map.empty = Some (h, zsl)" "zsl_rep h zsl []" "frame_on {0} Map.empty h"
    using zslCreate_rep [of None "\<lparr>forward = None, span = 0\<rparr>" "0 :: int" 0 Map.empty] by blast
  have x: "h 1 = None" using c(3) by (simp add: frame_on_def)
  from zslInsert_inserts [OF c(2) x draws(1), of 3 "[97]" None "\<lparr>forward = None, span = 0\<rparr>"]
  obtain h' zsl' where "zslInsert None \<lparr>forward = None, span = 0\<rparr> draws1 1 h zsl 3 [97] = Some (h', zsl', 1)" by auto
  from zsl_run.insrt [OF zsl_run.create [OF c(1)] x _ _ this] have "zsl_run h' zsl' {(3, [97])}" by simp
  with zsl_run_ok [OF this] show ?thesis by blast
qed

text \<open>\<^verbatim>\<open>zslGetRank\<close> compares elements only: the last element is found at every greater score, although no node has
  that score.\<close>

theorem zslGetRank_other_score:
  assumes r: "zsl_rep h zsl (xs @ [X])" and d: "distinct (map ze (xs @ [X]))" and s: "zs X < score"
  shows "zslGetRank h zsl score (ze X) = Some (of_nat (length (xs @ [X])))" 
proof -
  obtain A B where A: "xs @ [X] = A @ B" "zsl_rep h zsl (A @ B)" "\<forall>x \<in> set B. klt (score, ze X) (keyof x)"
    "cuts (\<lambda>_ :: ulong. upto_key score (ze X)) h (hdl zsl # ahs A) (ahs B)" by (rule split_upto [OF r])
  have "B = []"
  proof (rule ccontr)
    assume "B \<noteq> []"
    then have "last B = X" using A(1) by (metis last_appendR last_snoc)
    then have "klt (score, ze X) (keyof X)" using A(3) \<open>B \<noteq> []\<close> by (metis last_in_set)
    then show False using s by (simp add: klt_def)
  qed
  then have e: "A = xs @ [X]" using A(1) by simp
  from rank_loop_found [OF A(2,4) _ e refl, of "z_level zsl" "[]" "z_header zsl" ZSKIPLIST_MAXLEVEL "ahs A"] show ?thesis
    using zsl_repD(10,11) [OF r] d e by (simp add: zslGetRank_def hdl_def)
qed

end
