(* ===== verification/Zset_Correct.thy ===== *)
theory Zset_Correct
  imports Skiplist_Correct Zset
begin

text \<open>
  The sorted set refines a finite map from elements to scores: the hash table and the skip list stay in step under
  every operation, and the ranks are those of the order by score and element.
\<close>

section \<open>Representation\<close>

definition fm :: "('s zn \<Rightarrow> 'v) \<Rightarrow> 's zn list \<Rightarrow> byte list \<Rightarrow> 'v option" where
  "fm f xs = map_of (map (\<lambda>x. (ze x, f x)) xs)"

definition zset_rep :: "(byte list \<Rightarrow> ulong) \<Rightarrow> 's::linorder zheap \<Rightarrow> zset \<Rightarrow> 's zn list \<Rightarrow> bool" where
  "zset_rep hash h z xs \<longleftrightarrow> zsl_rep h (zs_zsl z) xs \<and> distinct (map ze xs) \<and> dict_inv (zs_dict z) \<and>
     dict_type (zs_dict z) = zsetDictType hash \<and> dict_map (zs_dict z) = fm (\<lambda>x. Some (za x)) xs"

lemma fm_Some: "distinct (map ze xs) \<Longrightarrow> fm f xs e = Some v \<longleftrightarrow> (\<exists>x \<in> set xs. ze x = e \<and> f x = v)"
  unfolding fm_def by (subst map_of_eq_Some_iff) (auto simp: comp_def)

lemma fm_None: "fm f xs e = None \<longleftrightarrow> e \<notin> ze ` set xs"
  by (auto simp: fm_def map_of_eq_None_iff image_image)

lemma fm_Nil [simp]: "fm f [] = Map.empty"
  by (simp add: fm_def)

lemma fm_insert:
  assumes "distinct (map ze ys)" "distinct (map ze xs)" "set ys = insert Y (set xs)" "ze Y \<notin> ze ` set xs"
  shows "fm f ys = (fm f xs)(ze Y \<mapsto> f Y)"
proof (rule ext)
  fix e
  have "fm f ys e = Some v \<longleftrightarrow> ((fm f xs)(ze Y \<mapsto> f Y)) e = Some v" for v
    using assms(3,4) by (auto simp: fm_Some [OF assms(1)] fm_Some [OF assms(2)] image_iff)
  then show "fm f ys e = ((fm f xs)(ze Y \<mapsto> f Y)) e" by (metis not_None_eq)
qed

lemma fm_remove:
  assumes "distinct (map ze (A @ X # B))"
  shows "fm f (A @ B) = (fm f (A @ X # B))(ze X := None)"
proof -
  have d: "distinct (map ze (A @ B))" "ze X \<notin> ze ` set (A @ B)" using assms by auto
  have "fm f (A @ X # B) = (fm f (A @ B))(ze X \<mapsto> f X)" by (rule fm_insert [OF assms d(1) _ d(2)]) auto
  moreover have "fm f (A @ B) (ze X) = None" using d(2) unfolding fm_None .
  ultimately show ?thesis by (auto simp: fun_eq_iff)
qed

lemma distinct_insert:
  assumes r: "zsl_rep h zsl ys" and s: "set ys = insert Y S" and S: "inj_on ze S" "ze Y \<notin> ze ` S"
  shows "distinct (map ze ys)"
proof -
  have "distinct ys" using zsl_repD(3) [OF r] by (simp add: distinct_map)
  moreover have "inj_on ze (set ys)" unfolding s inj_on_insert using S by blast
  ultimately show ?thesis by (simp add: distinct_map)
qed

lemma zset_repD:
  assumes "zset_rep hash h z xs"
  shows "zsl_rep h (zs_zsl z) xs" "distinct (map ze xs)" "dict_inv (zs_dict z)" "dict_type (zs_dict z) = zsetDictType hash"
    "dict_map (zs_dict z) = fm (\<lambda>x. Some (za x)) xs" "inj_on ze (set xs)"
  using assms by (auto simp: zset_rep_def distinct_map)

lemma zset_small:
  assumes r: "zset_rep hash h z xs" and len: "length xs < 2 ^ 58"
  shows "dict_small (zs_dict z)"
proof -
  note R = zset_repD [OF r]
  have "{k. dict_map (zs_dict z) k \<noteq> None} = ze ` set xs" unfolding R(5) fm_None by auto
  then have "length (dict_entries (zs_dict z)) = length xs" using zd_card(1) [OF R(3,4)] distinct_card [OF R(2)] by simp
  with len show ?thesis by (simp add: dict_small_def)
qed

lemma score_at_node:
  assumes "zsl_rep h zsl xs" "x \<in> set xs"
  shows "score_at h (Some (za x)) = Some (zs x)"
proof -
  obtain A B where "xs = A @ x # B" using split_list [OF assms(2)] by blast
  with pos_node [of h zsl A x B] assms(1) show ?thesis by (auto simp: score_at_def)
qed

section \<open>Hash table\<close>

lemma zset_rep_dict:
  assumes "zset_rep hash h z xs" "dict_inv d" "same_content (zs_dict z) d"
  shows "zset_rep hash h (z\<lparr>zs_dict := d\<rparr>) xs"
  using assms same_content_map [of "zs_dict z" d] by (auto simp: zset_rep_def same_content_def)

lemma zset_find:
  assumes r: "zset_rep hash h z xs" and len: "length xs < 2 ^ 58"
  obtains (absent) d where "ele \<notin> ze ` set xs" "dictFind (zs_dict z) ele = Some (None, d)" "zset_rep hash h (z\<lparr>zs_dict := d\<rparr>) xs"
    | (found) x ref d where "x \<in> set xs" "ze x = ele" "dictFind (zs_dict z) ele = Some (Some ref, d)" "zset_rep hash h (z\<lparr>zs_dict := d\<rparr>) xs"
      "ref_ok d ref" "entry_key (deref d ref) = ele" "entry_val (deref d ref) = Some (za x)"
proof -
  note R = zset_repD [OF r]
  obtain rr d where f: "dictFind (zs_dict z) ele = Some (rr, d)" "dict_inv d" "same_content (zs_dict z) d"
    "case rr of None \<Rightarrow> dict_map (zs_dict z) ele = None
     | Some ref \<Rightarrow> ref_ok d ref \<and> keq (dict_type (zs_dict z)) ele (entry_key (deref d ref)) \<and> dict_map (zs_dict z) ele = Some (entry_val (deref d ref))"
    using dictFind_correct [OF R(3) zset_small [OF r len], of ele] by blast
  note z' = zset_rep_dict [OF r f(2,3)]
  show thesis
  proof (cases rr)
    case None
    then show ?thesis using f absent [of d] z' unfolding R(5) by (simp add: fm_None)
  next
    case (Some ref)
    then have *: "ref_ok d ref" "entry_key (deref d ref) = ele" "fm (\<lambda>x. Some (za x)) xs ele = Some (entry_val (deref d ref))"
      using f(4) unfolding R(4,5) by auto
    from *(3) obtain x where "x \<in> set xs" "ze x = ele" "entry_val (deref d ref) = Some (za x)" by (auto simp: fm_Some [OF R(2)])
    with * found [of x ref d] f(1) Some z' show ?thesis by blast
  qed
qed

lemma dup_zset [simp]: "dictDupVal (zsetDictType hash) v = v"
  by (simp add: dictDupVal_def zsetDictType_def)

lemma set_ptr_ok:
  assumes d: "dict_inv d" "dict_type d = zsetDictType hash" and ref: "ref_ok d ref" "entry_key (deref d ref) = ele"
  shows "dict_inv (set_ptr d ref a) \<and> dict_type (set_ptr d ref a) = zsetDictType hash \<and> dict_map (set_ptr d ref a) = (dict_map d)(ele \<mapsto> Some a)"
proof -
  have "set_ptr d ref a = dictSetVal d ref a"
    using d(2) by (simp add: set_ptr_def dictSetVal_def split: prod.split)
  with dictSetVal_correct [OF d(1) ref(1), of a] d(2) ref(2) show ?thesis
    by (auto simp: fun_eq_iff)
qed

section \<open>Specification\<close>

text \<open>What \<^verbatim>\<open>zsetAdd\<close> does to a map from elements to scores.\<close>

definition zadd_spec :: "('s \<Rightarrow> 's \<Rightarrow> 's option) \<Rightarrow> bool \<Rightarrow> bool \<Rightarrow> bool \<Rightarrow> (byte list \<rightharpoonup> 's) \<Rightarrow> 's option \<Rightarrow> byte list \<Rightarrow>
    bool \<times> uint \<times> 's option \<times> (byte list \<rightharpoonup> 's)" where
  "zadd_spec plus_score incr nx xx m score ele =
     (case score of
        None \<Rightarrow> (False, ZADD_NAN, None, m)
      | Some s \<Rightarrow>
          (case m ele of
             None \<Rightarrow> if xx then (True, ZADD_NOP, None, m) else (True, ZADD_ADDED, Some s, m(ele \<mapsto> s))
           | Some cur \<Rightarrow>
               if nx then (True, ZADD_NOP, None, m)
               else (case (if incr then plus_score s cur else Some s) of
                       None \<Rightarrow> (False, ZADD_NAN, None, m)
                     | Some t \<Rightarrow> (True, if t = cur then 0 else ZADD_UPDATED, if incr then Some t else None, m(ele \<mapsto> t)))))"

section \<open>Operations\<close>

lemma zset_insert:
  assumes r: "zset_rep hash h z xs" and new: "h new = None" and rnd: "zslRandomLevel rnd = Some k" and len: "length xs < 2 ^ 32 - 1"
    and ele: "ele \<notin> ze ` set xs"
  obtains h' zsl d ys where "zslInsert jp j rnd new h (zs_zsl z) s ele = Some (h', zsl, new)" "dictAdd c (zs_dict z) ele new = Some (DICT_OK, d)"
    "zset_rep hash h' \<lparr>zs_dict = d, zs_zsl = zsl\<rparr> ys" "fm zs ys = (fm zs xs)(ele \<mapsto> s)"
    "z_header zsl = z_header (zs_zsl z)" "frame_on (insert new (insert (z_header (zs_zsl z)) (za ` set xs))) h h'"
proof -
  note R = zset_repD [OF r]
  have key: "(s, ele) \<notin> keyof ` set xs" using ele by auto
  obtain h' zsl A B where i: "zslInsert jp j rnd new h (zs_zsl z) s ele = Some (h', zsl, new)" "xs = A @ B"
    "zsl_rep h' zsl (A @ Zn new s ele k # B)" "z_header zsl = z_header (zs_zsl z)"
    "frame_on (insert new (insert (z_header (zs_zsl z)) (za ` set xs))) h h'"
    using zslInsert_inserts [OF R(1) new rnd len key, of jp j] by (elim exE conjE) (rule that)
  let ?ys = "A @ Zn new s ele k # B"
  have s: "set ?ys = insert (Zn new s ele k) (set xs)" unfolding i(2) by auto
  have d: "distinct (map ze ?ys)" by (rule distinct_insert [OF i(3) s R(6)]) (use ele in simp)
  have fm: "fm f ?ys = (fm f xs)(ele \<mapsto> f (Zn new s ele k))" for f :: "'a zn \<Rightarrow> 'v"
    using fm_insert [OF d R(2) s, of f] ele by simp
  have "dict_map (zs_dict z) ele = None" using ele unfolding R(5) fm_None .
  then obtain d' where d': "dictAdd c (zs_dict z) ele new = Some (DICT_OK, d')" "dict_inv d'" "dict_type d' = zsetDictType hash"
    "dict_map d' = (dict_map (zs_dict z))(ele \<mapsto> Some new)"
    using dictAdd_correct [OF R(3) zset_small [OF r], of c ele new] R(4) len
    by (auto simp: fun_eq_iff)
  have "zset_rep hash h' \<lparr>zs_dict = d', zs_zsl = zsl\<rparr> ?ys"
    using i(3) d d'(2-4) R(5) by (simp add: zset_rep_def fm)
  then show thesis using that i(1,4,5) d'(1) fm [of zs] by simp
qed

lemma zset_update:
  assumes r: "zset_rep hash h z xs" and new: "h new = None" and rnd: "zslRandomLevel rnd = Some k" and len: "length xs < 2 ^ 32 - 1"
    and x: "x \<in> set xs" "ze x = ele" and ref: "ref_ok (zs_dict z) ref" "entry_key (deref (zs_dict z) ref) = ele" and t: "t \<noteq> zs x"
  obtains h' zsl ys a where "zslUpdateScore jp j rnd new h (zs_zsl z) (zs x) ele t = Some (h', zsl, a)"
    "zset_rep hash h' \<lparr>zs_dict = set_ptr (zs_dict z) ref a, zs_zsl = zsl\<rparr> ys" "fm zs ys = (fm zs xs)(ele \<mapsto> t)"
    "z_header zsl = z_header (zs_zsl z)" "frame_on (insert new (insert (z_header (zs_zsl z)) (za ` set xs))) h h'"
proof -
  note R = zset_repD [OF r]
  have p: "(zs x, ele) \<in> keyof ` set xs" using x by auto
  have q: "t = zs x \<or> (t, ele) \<notin> keyof ` set xs" using x inj_onD [OF R(6)] by blast
  obtain h' zsl ys A X B Y where m: "xs = A @ X # B" "keyof X = (zs x, ele)"
    "zslUpdateScore jp j rnd new h (zs_zsl z) (zs x) ele t = Some (h', zsl, za Y)" "zsl_rep h' zsl ys"
    "z_header zsl = z_header (zs_zsl z)" "set ys = insert Y (set (A @ B))" "keyof Y = (t, ele)"
    "frame_on (insert new (insert (z_header (zs_zsl z)) (za ` set xs))) h h'"
    using zslUpdateScore_moves [OF R(1) p new rnd len q, of jp j] by (elim exE conjE) (rule that)
  have AB: "distinct (map ze (A @ B))" "ele \<notin> ze ` set (A @ B)" using R(2) m(2) unfolding m(1) by auto
  have inj: "inj_on ze (set (A @ B))" using AB(1) unfolding distinct_map by blast
  have d: "distinct (map ze ys)" by (rule distinct_insert [OF m(4,6) inj]) (use AB(2) m(7) in simp)
  have fm: "fm f ys = (fm f xs)(ele \<mapsto> f Y)" for f :: "'a zn \<Rightarrow> 'v"
  proof -
    have e: "ze Y = ele" "ze X = ele" using m(2,7) by simp_all
    have "fm f ys = (fm f (A @ B))(ele \<mapsto> f Y)" using fm_insert [OF d AB(1) m(6), of f] AB(2) unfolding e by blast
    also have "fm f (A @ B) = (fm f xs)(ele := None)" using fm_remove [of A X B f] R(2) unfolding m(1) e .
    finally show ?thesis by (simp add: fun_eq_iff)
  qed
  have "zset_rep hash h' \<lparr>zs_dict = set_ptr (zs_dict z) ref (za Y), zs_zsl = zsl\<rparr> ys"
    using m(4) d set_ptr_ok [OF R(3,4) ref, of "za Y"] R(5) by (simp add: zset_rep_def fm)
  then show thesis using that m(3,5,8) fm [of zs] m(7) by simp
qed


lemma zset_resize:
  assumes r: "zset_rep hash h z xs" and len: "length xs < 2 ^ 58"
  obtains st d where "dictResize c (zs_dict z) = Some (st, d)" "zset_rep hash h (z\<lparr>zs_dict := d\<rparr>) xs"
proof (cases "\<not> c \<or> dictIsRehashing (zs_dict z)")
  case True
  then show ?thesis using that [of DICT_ERR "zs_dict z"] r by (simp add: dictResize_def)
next
  case False
  let ?d = "zs_dict z"
  note R = zset_repD [OF r]
  define m where "m = (if ht_used (ht0 ?d) < DICT_HT_INITIAL_SIZE then DICT_HT_INITIAL_SIZE else ht_used (ht0 ?d))"
  have "unat (ht_used (ht0 ?d)) \<le> length (dict_entries ?d)" using R(3) by (simp add: dict_inv_def ht_inv_def dict_entries_def)
  then have "unat m \<le> 2 ^ 60" using zset_small [OF r len] by (simp add: m_def DICT_HT_INITIAL_SIZE_def dict_small_def)
  from dictExpand_Some [OF R(3) this] obtain st d where "dictExpand ?d m = Some (st, d)" "dict_inv d" "same_content ?d d" by blast
  with False show ?thesis by (intro that [of st d]) (simp_all add: dictResize_def m_def Let_def zset_rep_dict [OF r])
qed

lemma zset_delete:
  assumes r: "zset_rep hash h z xs" and len: "length xs < 2 ^ 58" and x: "x \<in> set xs" "ze x = ele"
  obtains e d h' zsl ys where "dictUnlink (zs_dict z) ele = Some (Some e, d)" "entry_val e = Some (za x)"
    "zslDelete h (zs_zsl z) (zs x) ele False = Some (h', zsl, Some (za x))" "zset_rep hash h' \<lparr>zs_dict = d, zs_zsl = zsl\<rparr> ys"
    "length ys \<le> length xs" "fm zs ys = (fm zs xs)(ele := None)" "z_header zsl = z_header (zs_zsl z)" "h' (za x) = None"
    "frame_on (insert (z_header (zs_zsl z)) (za ` set xs)) h h'"
proof -
  note R = zset_repD [OF r]
  have p: "(zs x, ele) \<in> keyof ` set xs" using x by auto
  obtain A X B h' zsl where i: "xs = A @ X # B" "keyof X = (zs x, ele)" "zslDelete h (zs_zsl z) (zs x) ele False = Some (h', zsl, Some (za X))"
    "zsl_rep h' zsl (A @ B)" "z_header zsl = z_header (zs_zsl z)" "h' (za X) = None" "frame_on (insert (z_header (zs_zsl z)) (za ` set xs)) h h'"
    using zslDelete_found [OF R(1) p, of False] by (auto elim!: exE conjE)
  have X: "ze X = ele" "X = x" using i(1,2) x inj_onD [OF R(6), of X x] by auto
  obtain he d where g: "dictGenericDelete (zs_dict z) ele = Some (he, d)" "dict_inv d" "dict_type d = zsetDictType hash"
    "map_option entry_val he = dict_map (zs_dict z) ele" "dict_map d = (dict_map (zs_dict z))(ele := None)"
    using dictGenericDelete_correct [OF R(3) zset_small [OF r len], of ele] R(4) by (auto simp: fun_eq_iff)
  have "dict_map (zs_dict z) ele = Some (Some (za x))" unfolding R(5) fm_Some [OF R(2)] using x by blast
  then obtain e where e: "he = Some e" "entry_val e = Some (za x)" using g(4) by (cases he) auto
  have fm: "fm f (A @ B) = (fm f xs)(ele := None)" for f :: "'a zn \<Rightarrow> 'v" using fm_remove [of A X B f] R(2) unfolding i(1) X(1) .
  have "zset_rep hash h' \<lparr>zs_dict = d, zs_zsl = zsl\<rparr> (A @ B)"
    using i(4) R(2) g(2,3,5) R(5) unfolding i(1) by (auto simp: zset_rep_def fm [unfolded i(1)])
  then show thesis using i(1,3,5,6,7) e g(1) fm [of zs] unfolding X(2) by (intro that [of e d h' zsl "A @ B"]) (auto simp: dictUnlink_def)
qed


section \<open>Ranks\<close>

definition zrank_spec :: "(byte list \<rightharpoonup> 's::linorder) \<Rightarrow> byte list \<Rightarrow> bool \<Rightarrow> int" where
  "zrank_spec m ele reverse =
     (case m ele of
        None \<Rightarrow> -1
      | Some s \<Rightarrow> int (card {e. \<exists>t. m e = Some t \<and> (if reverse then klt (s, ele) (t, e) else klt (t, e) (s, ele))}))"

lemma klt_asym: "klt a b \<Longrightarrow> \<not> klt b a"
  by (auto simp: klt_def)

lemma zrank_count:
  assumes r: "zsl_rep h zsl (A @ X # B)" and d: "distinct (map ze (A @ X # B))"
  shows "card {e. \<exists>t. fm zs (A @ X # B) e = Some t \<and> klt (t, e) (keyof X)} = length A"
    "card {e. \<exists>t. fm zs (A @ X # B) e = Some t \<and> klt (keyof X) (t, e)} = length B"
proof -
  have s: "\<forall>a \<in> set A. klt (keyof a) (keyof X)" "\<forall>b \<in> set B. klt (keyof X) (keyof b)"
    using zsl_repD(13) [OF r] by (simp_all add: sorted_wrt_append)
  have X: "\<not> klt (keyof X) (keyof X)" by (simp add: klt_def)
  have m: "fm zs (A @ X # B) e = Some t \<longleftrightarrow> (\<exists>x \<in> set (A @ X # B). ze x = e \<and> zs x = t)" for e t by (rule fm_Some [OF d])
  have "{e. \<exists>t. fm zs (A @ X # B) e = Some t \<and> klt (t, e) (keyof X)} = ze ` {x \<in> set (A @ X # B). klt (keyof x) (keyof X)}"
    unfolding m by auto
  also have "{x \<in> set (A @ X # B). klt (keyof x) (keyof X)} = set A" using s X klt_asym by (auto, blast+)
  finally show "card {e. \<exists>t. fm zs (A @ X # B) e = Some t \<and> klt (t, e) (keyof X)} = length A"
    using d distinct_card [of "map ze A"] by simp
  have "{e. \<exists>t. fm zs (A @ X # B) e = Some t \<and> klt (keyof X) (t, e)} = ze ` {x \<in> set (A @ X # B). klt (keyof X) (keyof x)}"
    unfolding m by auto
  also have "{x \<in> set (A @ X # B). klt (keyof X) (keyof x)} = set B" using s X klt_asym by (auto, blast+)
  finally show "card {e. \<exists>t. fm zs (A @ X # B) e = Some t \<and> klt (keyof X) (t, e)} = length B"
    using d distinct_card [of "map ze B"] by simp
qed

lemma sint_of_nat: "k < 2 ^ 63 \<Longrightarrow> sint (of_nat k :: ulong) = int k"
  by (simp add: signed_of_nat signed_take_bit_int_eq_self_iff)

lemma zsetRank_found:
  assumes r: "zsl_rep h zsl (A @ X # B)" and d: "distinct (map ze (A @ X # B))"
  shows "\<exists>rank. zslGetRank h zsl (zs X) (ze X) = Some rank \<and> rank \<noteq> 0 \<and> sint (rank - 1) = int (length A) \<and>
    sint (z_length zsl - rank) = int (length B)"
proof -
  have len: "length (A @ X # B) < 2 ^ 63" using zsl_repD(8) [OF r] .
  have g: "zslGetRank h zsl (zs X) (ze X) = Some (of_nat (Suc (length A)))"
    using zslGetRank_found [OF r d, of "length A"] by simp
  have "unat (of_nat (Suc (length A)) :: ulong) = Suc (length A)" by (rule unat_of_nat_64) (use len in simp)
  then have nz: "(of_nat (Suc (length A)) :: ulong) \<noteq> 0" by (metis nat.distinct(2) unat_0)
  have "z_length zsl - of_nat (Suc (length A)) = of_nat (length B)" unfolding zsl_repD(7) [OF r] by simp
  moreover have "(of_nat (Suc (length A)) :: ulong) - 1 = of_nat (length A)" by simp
  ultimately show ?thesis using g nz len by (auto simp: sint_of_nat simp del: of_nat_Suc)
qed


section \<open>Adding and deleting\<close>

lemma zsetAdd_ok:
  assumes r: "zset_rep hash h z xs" and new: "h new = None" and rnd: "zslRandomLevel rnd = Some k" and len: "length xs < 2 ^ 32 - 1"
  shows "\<exists>ret fl ns h' z' ys. zsetAdd plus_score c jp j rnd new h z score ele flags = Some (ret, fl, ns, h', z') \<and> zset_rep hash h' z' ys \<and>
    (ret, fl, ns, fm zs ys) = zadd_spec plus_score (flags AND ZADD_INCR \<noteq> 0) (flags AND ZADD_NX \<noteq> 0) (flags AND ZADD_XX \<noteq> 0) (fm zs xs) score ele \<and>
    z_header (zs_zsl z') = z_header (zs_zsl z) \<and> frame_on (insert new (insert (z_header (zs_zsl z)) (za ` set xs))) h h'"
proof (cases score)
  case None
  then show ?thesis using r by (auto simp: zsetAdd_def zadd_spec_def Let_def)
next
  case (Some s)
  have len58: "length xs < 2 ^ 58" using len by simp
  from r len58 show ?thesis
  proof (cases rule: zset_find [where ele = ele])
    case (absent d)
    have m: "fm zs xs ele = None" using absent(1) unfolding fm_None .
    show ?thesis
    proof (cases "flags AND ZADD_XX = 0")
      case True
      obtain h' zsl d' ys where i: "zslInsert jp j rnd new h (zs_zsl z) s ele = Some (h', zsl, new)" "dictAdd c d ele new = Some (DICT_OK, d')"
        "zset_rep hash h' \<lparr>zs_dict = d', zs_zsl = zsl\<rparr> ys" "fm zs ys = (fm zs xs)(ele \<mapsto> s)"
        "z_header zsl = z_header (zs_zsl z)" "frame_on (insert new (insert (z_header (zs_zsl z)) (za ` set xs))) h h'"
        by (rule zset_insert [OF absent(3) new rnd len absent(1), of jp j s c, simplified])
      with True absent(2) Some m show ?thesis by (auto simp: zsetAdd_def zadd_spec_def Let_def)
    next
      case False
      with absent(2,3) Some m show ?thesis by (auto simp: zsetAdd_def zadd_spec_def Let_def)
    qed
  next
    case (found x ref d)
    have zr: "zsl_rep h (zs_zsl z) xs" using zset_repD(1) [OF r] .
    have m: "fm zs xs ele = Some (zs x)" unfolding fm_Some [OF zset_repD(2) [OF r]] using found(1,2) by blast
    have cur: "score_at h (entry_val (deref d ref)) = Some (zs x)" unfolding found(7) by (rule score_at_node [OF zr found(1)])
    let ?t = "if flags AND ZADD_INCR \<noteq> 0 then plus_score s (zs x) else Some s"
    show ?thesis
    proof (cases "flags AND ZADD_NX \<noteq> 0 \<or> ?t = None \<or> ?t = Some (zs x)")
      case True
      have "(fm zs xs)(ele \<mapsto> zs x) = fm zs xs" using m by (simp add: fun_upd_idem)
      with True found(3) Some m cur have "\<exists>ret fl ns. zsetAdd plus_score c jp j rnd new h z score ele flags = Some (ret, fl, ns, h, z\<lparr>zs_dict := d\<rparr>) \<and>
        (ret, fl, ns, fm zs xs) = zadd_spec plus_score (flags AND ZADD_INCR \<noteq> 0) (flags AND ZADD_NX \<noteq> 0) (flags AND ZADD_XX \<noteq> 0) (fm zs xs) score ele"
        by (auto simp: zsetAdd_def zadd_spec_def Let_def)
      with found(4) show ?thesis by (elim exE conjE) (intro exI conjI, assumption+, simp_all)
    next
      case False
      then obtain t where t: "flags AND ZADD_NX = 0" "?t = Some t" "t \<noteq> zs x" by auto
      obtain h' zsl ys a where i: "zslUpdateScore jp j rnd new h (zs_zsl z) (zs x) ele t = Some (h', zsl, a)"
        "zset_rep hash h' \<lparr>zs_dict = set_ptr d ref a, zs_zsl = zsl\<rparr> ys" "fm zs ys = (fm zs xs)(ele \<mapsto> t)"
        "z_header zsl = z_header (zs_zsl z)" "frame_on (insert new (insert (z_header (zs_zsl z)) (za ` set xs))) h h'"
        by (rule zset_update [OF found(4) new rnd len found(1,2) _ _ t(3), of ref jp j, simplified, OF found(5,6)])
      have "zsetAdd plus_score c jp j rnd new h z score ele flags = Some (True, ZADD_UPDATED, if flags AND ZADD_INCR \<noteq> 0 then Some t else None, h', \<lparr>zs_dict = set_ptr d ref a, zs_zsl = zsl\<rparr>)"
        using Some found(3) cur t i(1) by (simp add: zsetAdd_def Let_def)
      moreover have "zadd_spec plus_score (flags AND ZADD_INCR \<noteq> 0) (flags AND ZADD_NX \<noteq> 0) (flags AND ZADD_XX \<noteq> 0) (fm zs xs) score ele =
        (True, ZADD_UPDATED, if flags AND ZADD_INCR \<noteq> 0 then Some t else None, (fm zs xs)(ele \<mapsto> t))"
        using Some m t by (simp add: zadd_spec_def)
      ultimately show ?thesis using i(2-5) by auto
    qed
  qed
qed


lemma zsetDel_ok:
  assumes r: "zset_rep hash h z xs" and len: "length xs < 2 ^ 58"
  shows "\<exists>h' z' ys. zsetDel c h z ele = Some (fm zs xs ele \<noteq> None, h', z') \<and> zset_rep hash h' z' ys \<and> fm zs ys = (fm zs xs)(ele := None) \<and>
    length ys \<le> length xs \<and> z_header (zs_zsl z') = z_header (zs_zsl z) \<and> frame_on (insert (z_header (zs_zsl z)) (za ` set xs)) h h'"
proof (cases "ele \<in> ze ` set xs")
  case True
  then obtain x where x: "x \<in> set xs" "ze x = ele" by blast
  obtain e d h' zsl ys where i: "dictUnlink (zs_dict z) ele = Some (Some e, d)" "entry_val e = Some (za x)"
    "zslDelete h (zs_zsl z) (zs x) ele False = Some (h', zsl, Some (za x))" "zset_rep hash h' \<lparr>zs_dict = d, zs_zsl = zsl\<rparr> ys"
    "length ys \<le> length xs" "fm zs ys = (fm zs xs)(ele := None)" "z_header zsl = z_header (zs_zsl z)" "h' (za x) = None"
    "frame_on (insert (z_header (zs_zsl z)) (za ` set xs)) h h'"
    by (rule zset_delete [OF r len x])
  have m: "fm zs xs ele \<noteq> None" using True fm_None [of zs xs ele] by simp
  have sc: "score_at h (Some (za x)) = Some (zs x)" using score_at_node [OF zset_repD(1) [OF r] x(1)] .
  have "length ys < 2 ^ 58" using i(5) len by simp
  then obtain st d' where d': "dictResize c d = Some (st, d')" "zset_rep hash h' \<lparr>zs_dict = d', zs_zsl = zsl\<rparr> ys"
    using zset_resize [OF i(4), of c] by auto
  define d2 where "d2 = (if htNeedsResize d then d' else d)"
  have "zsetDel c h z ele = Some (True, h', \<lparr>zs_dict = d2, zs_zsl = zsl\<rparr>)"
    using i(1-3) sc d'(1) by (simp add: zsetDel_def d2_def)
  moreover have "zset_rep hash h' \<lparr>zs_dict = d2, zs_zsl = zsl\<rparr> ys" using i(4) d'(2) by (simp add: d2_def)
  ultimately show ?thesis using m i(5-7,9) by auto
next
  case False
  note R = zset_repD [OF r]
  have m: "fm zs xs ele = None" "dict_map (zs_dict z) ele = None" unfolding R(5) fm_None using False by simp_all
  obtain he d where g: "dictGenericDelete (zs_dict z) ele = Some (he, d)" "dict_inv d" "dict_type d = zsetDictType hash"
    "map_option entry_val he = dict_map (zs_dict z) ele" "dict_map d = (dict_map (zs_dict z))(ele := None)"
    using dictGenericDelete_correct [OF R(3) zset_small [OF r len], of ele] R(4) by (auto simp: fun_eq_iff)
  have "he = None" "dict_map d = dict_map (zs_dict z)" using g(4,5) m(2) by (simp_all add: fun_upd_idem)
  then have "zsetDel c h z ele = Some (False, h, z\<lparr>zs_dict := d\<rparr>)" "zset_rep hash h (z\<lparr>zs_dict := d\<rparr>) xs"
    using g(1-3) r by (simp_all add: zsetDel_def dictUnlink_def zset_rep_def)
  then show ?thesis using m(1) by (auto simp: fun_upd_idem)
qed

section \<open>Deleting several elements\<close>

text \<open>What the loop of \<^verbatim>\<open>zremCommand\<close> needs of a sorted set.\<close>

locale zset_store =
  fixes holds :: "'st \<Rightarrow> (byte list \<rightharpoonup> 's) \<Rightarrow> bool"
    and del :: "'st \<Rightarrow> byte list \<Rightarrow> (bool \<times> 'st) option"
    and len :: "'st \<Rightarrow> ulong"
  assumes del_ok: "holds st m \<Longrightarrow> \<exists>st'. del st e = Some (m e \<noteq> None, st') \<and> holds st' (m(e := None))"
    and len_ok: "holds st m \<Longrightarrow> finite (dom m) \<and> (len st = 0 \<longleftrightarrow> dom m = {})"
begin

lemma zrem_loop_ok:
  assumes "holds st m" "dom m \<noteq> {}"
  shows "\<exists>st'. zrem_loop del len st es n = Some (n + card (set es \<inter> dom m), dom m \<subseteq> set es, st') \<and> holds st' (m |` (- set es))"
  using assms
proof (induction es arbitrary: st m n)
  case Nil
  then show ?case by auto
next
  case (Cons e es)
  let ?m = "m(e := None)"
  obtain st' where st': "del st e = Some (m e \<noteq> None, st')" "holds st' ?m" using del_ok [OF Cons.prems(1)] by blast
  note l = len_ok [OF st'(2)]
  define n' where "n' = (if m e \<noteq> None then n + 1 else n)"
  have fin: "finite (dom m)" using len_ok [OF Cons.prems(1)] by blast
  have "set (e # es) \<inter> dom m = (if m e \<noteq> None then insert e (set es \<inter> dom ?m) else set es \<inter> dom ?m)" by auto
  then have n': "n' + card (set es \<inter> dom ?m) = n + card (set (e # es) \<inter> dom m)" using fin by (auto simp: n'_def)
  have m': "?m |` (- set es) = m |` (- set (e # es))" by (auto simp: restrict_map_def fun_eq_iff)
  show ?case
  proof (cases "dom ?m = {}")
    case True
    then have "?m = Map.empty" by (simp only: dom_eq_empty_conv)
    then have r: "m |` (- set (e # es)) = ?m" unfolding m' [symmetric] by simp
    have s: "(dom m \<subseteq> set (e # es)) = True" using True by (auto simp: dom_def split: if_splits)
    have n: "n + card (set (e # es) \<inter> dom m) = n'" using n' unfolding True by simp
    have "zrem_loop del len st (e # es) n = Some (n', True, st')" using st'(1) l True by (simp add: n'_def)
    with st'(2) show ?thesis unfolding r s n by blast
  next
    case False
    from Cons.IH [OF st'(2) this, of n'] obtain st2 where
      "zrem_loop del len st' es n' = Some (n' + card (set es \<inter> dom ?m), dom ?m \<subseteq> set es, st2)" "holds st2 (?m |` (- set es))" by blast
    moreover have "dom ?m \<subseteq> set es \<longleftrightarrow> dom m \<subseteq> set (e # es)" by auto
    ultimately show ?thesis using st'(1) l False n' m' by (auto simp: n'_def)
  qed
qed

end

definition zset_state :: "(byte list \<Rightarrow> ulong) \<Rightarrow> 's::linorder zheap \<times> zset \<Rightarrow> (byte list \<rightharpoonup> 's) \<Rightarrow> bool" where
  "zset_state hash st m \<longleftrightarrow> (\<exists>xs. zset_rep hash (fst st) (snd st) xs \<and> length xs < 2 ^ 58 \<and> m = fm zs xs)"

lemma zset_state_del:
  assumes "zset_state hash st m"
  shows "\<exists>st'. zsetDel c (fst st) (snd st) e = Some (m e \<noteq> None, st') \<and> zset_state hash st' (m(e := None))"
proof -
  obtain xs where x: "zset_rep hash (fst st) (snd st) xs" "length xs < 2 ^ 58" "m = fm zs xs" using assms by (auto simp: zset_state_def)
  from zsetDel_ok [OF x(1,2), of c e] obtain h' z' ys where
    y: "zsetDel c (fst st) (snd st) e = Some (m e \<noteq> None, h', z')" "zset_rep hash h' z' ys" "fm zs ys = m(e := None)" "length ys \<le> length xs"
    unfolding x(3) by blast
  have "zset_state hash (h', z') (m(e := None))" using y(2-4) x(2) by (auto simp: zset_state_def intro!: exI [of _ ys])
  with y(1) show ?thesis by blast
qed

lemma zset_rep_dom: "zset_rep hash h z xs \<Longrightarrow> dom (fm zs xs) = ze ` set xs \<and> unat (zsetLength z) = length xs \<and> card (ze ` set xs) = length xs"
proof -
  assume r: "zset_rep hash h z xs"
  have "dom (fm zs xs) = ze ` set xs" unfolding dom_def using fm_None [of zs xs] by auto
  moreover have "unat (zsetLength z) = length xs"
    using zsl_repD(7,8) [OF zset_repD(1) [OF r]] by (simp add: zsetLength_def unat_of_nat_64)
  moreover have "card (ze ` set xs) = length xs" using distinct_card [OF zset_repD(2) [OF r]] by simp
  ultimately show ?thesis by blast
qed

lemma zset_state_len:
  assumes "zset_state hash st m"
  shows "finite (dom m) \<and> (zsetLength (snd st) = 0 \<longleftrightarrow> dom m = {})"
proof -
  obtain xs where x: "zset_rep hash (fst st) (snd st) xs" "m = fm zs xs" using assms unfolding zset_state_def by blast
  note d = zset_rep_dom [OF x(1)]
  then have "zsetLength (snd st) = 0 \<longleftrightarrow> xs = []" by (metis length_0_conv unat_eq_zero)
  then show ?thesis using d unfolding x(2) by simp
qed

interpretation zsl_store: zset_store "zset_state hash" "\<lambda>st. zsetDel c (fst st) (snd st)" "\<lambda>st. zsetLength (snd st)" for hash :: "byte list \<Rightarrow> ulong" and c
  by unfold_locales (rule zset_state_del, assumption, rule zset_state_len, assumption)

section \<open>Examples\<close>

lemma createZset_ok:
  "\<exists>h' z. createZsetObject hash jp j zero a h = Some (h', z) \<and> zset_rep hash h' z [] \<and> z_header (zs_zsl z) = a \<and> frame_on {a} h h'"
proof -
  obtain h' zsl where c: "zslCreate jp j zero a h = Some (h', zsl)" "zsl_rep h' zsl []" "z_header zsl = a" "frame_on {a} h h'"
    using zslCreate_rep [of jp j zero a h] by blast
  have d: "zd_ok hash (dictCreate (zsetDictType hash))" by (rule zd_ok_create)
  have "dict_map (dictCreate (zsetDictType hash)) = Map.empty"
    by (simp add: dict_map_def ents_map_def entry_alist_def dictCreate_def dict_entries_def fun_eq_iff)
  with c d show ?thesis by (simp add: createZsetObject_def zset_rep_def zd_ok_def)
qed

abbreviation ex_level :: zskiplistLevel where "ex_level \<equiv> \<lparr>forward = None, span = 7\<rparr>"

abbreviation ex_plus :: "int \<Rightarrow> int \<Rightarrow> int option" where "ex_plus a b \<equiv> Some (a + b)"

lemma ex_zset: "\<exists>h z xs. zset_rep (\<lambda>_. 0) h z xs \<and> fm zs xs = [[97] \<mapsto> (3 :: int)] \<and> h 2 = None \<and> length xs = 1"
proof -
  obtain h z where c: "zset_rep (\<lambda>_. 0) h z ([] :: int zn list)" "z_header (zs_zsl z) = 0" "frame_on {0} Map.empty h"
    using createZset_ok [of "\<lambda>_. 0" None ex_level "0 :: int" 0 Map.empty] by blast
  have x: "h 1 = None" using c(3) by (simp add: frame_on_def)
  have "length ([] :: int zn list) < 2 ^ 32 - 1" by simp
  from zsetAdd_ok [OF c(1) x draws(1) this, of ex_plus True None ex_level "Some 3" "[97]" 0]
  obtain h' z' ys where a: "zset_rep (\<lambda>_. 0) h' z' ys" "fm zs ys = [[97] \<mapsto> 3]" "frame_on {1, 0} h h'"
    using c(2) by (auto simp: zadd_spec_def)
  have "h' 2 = None" using a(3) c(3) by (simp add: frame_on_def)
  moreover have "length ys = 1"
  proof -
    have "ze ` set ys = {[97]}" using zset_rep_dom [OF a(1)] unfolding a(2) by auto
    with zset_rep_dom [OF a(1)] show ?thesis by simp
  qed
  ultimately show ?thesis using a(1,2) by blast
qed

section \<open>Properties\<close>

text \<open>C5. Adding. \<^verbatim>\<open>zsetAdd\<close> on a sorted set in the skip list encoding does to the map from elements to scores what its
  flags say, for \<^verbatim>\<open>NX\<close>, \<^verbatim>\<open>XX\<close> and \<^verbatim>\<open>INCR\<close> and for scores that are not a number: the element is added, moved to its new
  place, or left alone, the result flags report it, no assertion fails, and the hash table and the skip list hold the
  same elements, every pointer of the table leading to the node of its element.\<close>

theorem zsetAdd_refines:
  assumes "zset_rep hash h z xs" "h new = None" "65535 \<le> 4 * (rnd i mod 65536)" "length xs < 2 ^ 32 - 1"
  shows "\<exists>ret fl ns h' z' ys. zsetAdd plus_score c jp j rnd new h z score ele flags = Some (ret, fl, ns, h', z') \<and> zset_rep hash h' z' ys \<and>
    (ret, fl, ns, fm zs ys) = zadd_spec plus_score (flags AND ZADD_INCR \<noteq> 0) (flags AND ZADD_NX \<noteq> 0) (flags AND ZADD_XX \<noteq> 0) (fm zs xs) score ele \<and>
    z_header (zs_zsl z') = z_header (zs_zsl z) \<and> frame_on (insert new (insert (z_header (zs_zsl z)) (za ` set xs))) h h'"
proof -
  obtain k where "zslRandomLevel rnd = Some k" using assms(3) by (rule zslRandomLevel_total)
  from zsetAdd_ok [OF assms(1,2) this assms(4)] show ?thesis .
qed

theorem zsetAdd_refines_witness:
  "\<exists>h z xs. zset_rep (\<lambda>_. 0) h z xs \<and> fm zs xs = [[97] \<mapsto> 3] \<and> (\<exists>h' z' ys.
    zsetAdd ex_plus True None ex_level draws1 2 h z (Some 4) [97] ZADD_INCR = Some (True, ZADD_UPDATED, Some 7, h', z') \<and>
    zset_rep (\<lambda>_. 0) h' z' ys \<and> fm zs ys = [[97] \<mapsto> 7])"
proof -
  obtain h z xs where r: "zset_rep (\<lambda>_. 0) h z xs" "fm zs xs = [[97] \<mapsto> (3 :: int)]" "h 2 = None" "length xs = 1" using ex_zset by blast
  have b: "65535 \<le> 4 * (draws1 0 mod 65536)" "length xs < 2 ^ 32 - 1" using r(4) by (simp_all add: draws1_def)
  from zsetAdd_refines [OF r(1,3), of draws1 0 ex_plus True None ex_level "Some 4" "[97]" ZADD_INCR, OF b]
  obtain h' z' ys where "zsetAdd ex_plus True None ex_level draws1 2 h z (Some 4) [97] ZADD_INCR = Some (True, ZADD_UPDATED, Some 7, h', z')"
    "zset_rep (\<lambda>_. 0) h' z' ys" "fm zs ys = [[97] \<mapsto> 7]"
    unfolding r(2) by (auto simp: zadd_spec_def ZADD_INCR_def ZADD_NX_def)
  with r(1,2) show ?thesis by blast
qed

text \<open>C29. Queries. \<^verbatim>\<open>zsetScore\<close> gives the score of a member, \<^verbatim>\<open>zsetLength\<close> the number of members, and \<^verbatim>\<open>zsetRank\<close> the
  number of members before it, or after it in the reverse order, by score and then by element; an element that is
  no member has no score and rank -1. The hash table may be rehashed on the way.\<close>

theorem zset_queries:
  assumes "zset_rep hash h z xs" "length xs < 2 ^ 58"
  shows "(\<exists>z'. zsetScore h z ele = Some (fm zs xs ele, z') \<and> zset_rep hash h z' xs) \<and>
    (\<exists>z'. zsetRank h z ele reverse = Some (zrank_spec (fm zs xs) ele reverse, z') \<and> zset_rep hash h z' xs) \<and>
    unat (zsetLength z) = card (dom (fm zs xs))"
proof (intro conjI)
  show "unat (zsetLength z) = card (dom (fm zs xs))" using zset_rep_dom [OF assms(1)] by simp
  note R = zset_repD [OF assms(1)]
  from assms show "\<exists>z'. zsetScore h z ele = Some (fm zs xs ele, z') \<and> zset_rep hash h z' xs"
  proof (cases rule: zset_find [where ele = ele])
    case (absent d)
    then show ?thesis using fm_None [of zs xs ele] by (simp add: zsetScore_def)
  next
    case (found x ref d)
    have "fm zs xs ele = Some (zs x)" using found(1,2) fm_Some [OF R(2), of zs ele] by blast
    with found show ?thesis using score_at_node [OF R(1) found(1)] by (auto simp: zsetScore_def)
  qed
  from assms show "\<exists>z'. zsetRank h z ele reverse = Some (zrank_spec (fm zs xs) ele reverse, z') \<and> zset_rep hash h z' xs"
  proof (cases rule: zset_find [where ele = ele])
    case (absent d)
    then show ?thesis using fm_None [of zs xs ele] by (simp add: zsetRank_def zrank_spec_def)
  next
    case (found x ref d)
    obtain A B where s: "xs = A @ x # B" using split_list [OF found(1)] by blast
    have m: "fm zs xs ele = Some (zs x)" using found(1,2) fm_Some [OF R(2), of zs ele] by blast
    have "zrank_spec (fm zs xs) ele reverse = int (if reverse then length B else length A)"
      using zrank_count [OF R(1) [unfolded s] R(2) [unfolded s]] found(2) unfolding s by (simp add: zrank_spec_def m [unfolded s])
    then show ?thesis
      using found score_at_node [OF R(1) found(1)] zsetRank_found [OF R(1) [unfolded s] R(2) [unfolded s]]
      by (auto simp: zsetRank_def zsetLength_def s)
  qed
qed

theorem zset_queries_witness:
  "\<exists>h z xs. zset_rep (\<lambda>_. 0) h z xs \<and> fm zs xs = [[97] \<mapsto> (3 :: int)] \<and>
    (\<exists>z'. zsetScore h z [97] = Some (Some 3, z')) \<and> (\<exists>z'. zsetRank h z [97] True = Some (0, z')) \<and> unat (zsetLength z) = 1"
proof -
  obtain h z xs where r: "zset_rep (\<lambda>_. 0) h z xs" "fm zs xs = [[97] \<mapsto> (3 :: int)]" "length xs = 1" using ex_zset by blast
  have len: "length xs < 2 ^ 58" using r(3) by simp
  have "{e. \<exists>t. [[97] \<mapsto> (3 :: int)] e = Some t \<and> klt (3, [97]) (t, e)} = {}" by (auto simp: klt_def split: if_splits)
  then have "zrank_spec [[97] \<mapsto> (3 :: int)] [97] True = 0" by (simp add: zrank_spec_def)
  with zset_queries [OF r(1) len, of "[97]" True] r(1,2) show ?thesis by auto
qed

text \<open>C8. Deleting. \<^verbatim>\<open>zsetDel\<close> removes the element from both structures and reports whether it was there, and the loop of
  \<^verbatim>\<open>zremCommand\<close> removes exactly the elements given, counts those that were members, and stops with the key to be
  removed exactly when none is left.\<close>

theorem zset_deletes:
  assumes "zset_state hash (h, z) m" "dom m \<noteq> {}"
  shows "(\<exists>h' z'. zsetDel c h z ele = Some (m ele \<noteq> None, h', z') \<and> zset_state hash (h', z') (m(ele := None))) \<and>
    (\<exists>st'. zrem_loop (\<lambda>st. zsetDel c (fst st) (snd st)) (\<lambda>st. zsetLength (snd st)) (h, z) es 0 = Some (card (set es \<inter> dom m), dom m \<subseteq> set es, st') \<and>
      zset_state hash st' (m |` (- set es)))"
  using zset_state_del [OF assms(1), of c ele] zsl_store.zrem_loop_ok [OF assms, of c es 0] by auto

theorem zset_deletes_witness:
  "\<exists>h z. zset_state (\<lambda>_. 0) (h, z) [[97] \<mapsto> (3 :: int)] \<and>
    (\<exists>st'. zrem_loop (\<lambda>st. zsetDel True (fst st) (snd st)) (\<lambda>st. zsetLength (snd st)) (h, z) [[98], [97], [98]] 0 = Some (1, True, st') \<and>
      zset_state (\<lambda>_. 0) st' Map.empty)"
proof -
  obtain h z xs where r: "zset_rep (\<lambda>_. 0) h z xs" "fm zs xs = [[97] \<mapsto> (3 :: int)]" "length xs = 1" using ex_zset by blast
  have st: "zset_state (\<lambda>_. 0) (h, z) [[97] \<mapsto> (3 :: int)]"
    unfolding zset_state_def using r by (intro exI [of _ xs]) simp
  have e: "[[97] \<mapsto> (3 :: int)] |` (- set [[98], [97], [98]]) = Map.empty" by (auto simp: restrict_map_def fun_eq_iff)
  have c: "card (set [[98 :: byte], [97], [98]] \<inter> dom [[97] \<mapsto> (3 :: int)]) = 1" by simp
  have s: "(dom [[97 :: byte] \<mapsto> (3 :: int)] \<subseteq> set [[98], [97], [98]]) = True" by simp
  from zset_deletes [OF st, of True "[97]" "[[98], [97], [98]]", unfolded e c s] st show ?thesis by auto
qed

end
