(* ===== verification/Crc.thy ===== *)
theory Crc
  imports Prelude
begin

text \<open>
  The checksums of \<^verbatim>\<open>redis/src/crc16.c\<close>, \<^verbatim>\<open>crc64.c\<close> and \<^verbatim>\<open>crcspeed.c\<close>, and the hash slots of \<^verbatim>\<open>cluster.c\<close>. Buffers are
  byte lists. Which routine \<^verbatim>\<open>crcspeed64native\<close> takes, and what the functions that look at a number through a pointer
  see, depend on the byte order of the host, a parameter. The address of a buffer is a parameter too: the table-driven
  loop works on single bytes until the pointer is a multiple of eight.
\<close>

unbundle bit_operations_syntax

section \<open>The bit by bit checksum\<close>

definition POLY :: ulong where "POLY = 0xad93d23594c935a9"

fun reflect_loop :: "nat \<Rightarrow> ulong \<Rightarrow> ulong \<Rightarrow> ulong" where
  "reflect_loop 0 data ret = ret"
| "reflect_loop (Suc n) data ret =
     (let data = drop_bit 1 data in reflect_loop n data (push_bit 1 ret OR (data AND 1)))"

definition crc_reflect :: "ulong \<Rightarrow> nat \<Rightarrow> ulong" where
  "crc_reflect data data_len = reflect_loop (data_len - 1) data (data AND 1)"

text \<open>The loop over the masks \<^verbatim>\<open>i = 1, 2, 4, ..., 128\<close>.\<close>

definition crc64_bit :: "byte \<Rightarrow> byte \<Rightarrow> ulong \<Rightarrow> ulong" where
  "crc64_bit c i crc =
     (let bit = (crc AND 0x8000000000000000 \<noteq> 0);
          bit = (if c AND i \<noteq> 0 then \<not> bit else bit);
          crc = push_bit 1 crc
      in if bit then crc XOR POLY else crc)"

fun crc64_bits :: "nat \<Rightarrow> byte \<Rightarrow> byte \<Rightarrow> ulong \<Rightarrow> ulong" where
  "crc64_bits 0 c i crc = crc"
| "crc64_bits (Suc n) c i crc = crc64_bits n c (push_bit 1 i) (crc64_bit c i crc)"

fun crc64_bytes :: "ulong \<Rightarrow> byte list \<Rightarrow> ulong" where
  "crc64_bytes crc [] = crc"
| "crc64_bytes crc (c # data) = crc64_bytes (crc64_bits 8 c 1 crc) data"

definition u_crc64 :: "ulong \<Rightarrow> byte list \<Rightarrow> ulong" where
  "u_crc64 crc data = crc_reflect (crc64_bytes crc data) 64"

section \<open>The tables\<close>

type_synonym crc_table = "ulong list list"

text \<open>\<^verbatim>\<open>&n\<close> of an \<^verbatim>\<open>int\<close>, read as a byte.\<close>

definition first_byte :: "bool \<Rightarrow> nat \<Rightarrow> byte" where
  "first_byte little n = of_nat (if little then n else n div 2 ^ 24)"

definition byte_table :: "bool \<Rightarrow> (ulong \<Rightarrow> byte list \<Rightarrow> ulong) \<Rightarrow> ulong list" where
  "byte_table little crcfn = map (\<lambda>n. crcfn 0 [first_byte little n]) [0..<256]"

definition at0 :: "ulong list \<Rightarrow> ulong \<Rightarrow> ulong" where
  "at0 t i = t ! unat i"

definition next_table :: "ulong list \<Rightarrow> ulong list \<Rightarrow> ulong list" where
  "next_table t0 t = map (\<lambda>crc. at0 t0 (crc AND 0xff) XOR drop_bit 8 crc) t"

definition crcspeed64little_init :: "bool \<Rightarrow> (ulong \<Rightarrow> byte list \<Rightarrow> ulong) \<Rightarrow> crc_table" where
  "crcspeed64little_init little crcfn =
     (let t0 = byte_table little crcfn
      in map (\<lambda>k. (next_table t0 ^^ k) t0) [0..<8])"

definition rev8 :: "ulong \<Rightarrow> ulong" where
  "rev8 a =
     (let m = 0xff00ff00ff00ff;
          a = (drop_bit 8 a AND m) OR push_bit 8 (a AND m);
          m = 0xffff0000ffff;
          a = (drop_bit 16 a AND m) OR push_bit 16 (a AND m)
      in drop_bit 32 a OR push_bit 32 a)"

definition crcspeed64big_init :: "bool \<Rightarrow> (ulong \<Rightarrow> byte list \<Rightarrow> ulong) \<Rightarrow> crc_table" where
  "crcspeed64big_init little fn = map (map rev8) (crcspeed64little_init little fn)"

definition crcspeed64native_init :: "bool \<Rightarrow> (ulong \<Rightarrow> byte list \<Rightarrow> ulong) \<Rightarrow> crc_table" where
  "crcspeed64native_init little fn =
     (if little then crcspeed64little_init little fn else crcspeed64big_init little fn)"

definition crc64_init :: "bool \<Rightarrow> crc_table" where
  "crc64_init little = crcspeed64native_init little u_crc64"

section \<open>Eight bytes at a time\<close>

definition little_byte :: "crc_table \<Rightarrow> ulong \<Rightarrow> byte \<Rightarrow> ulong" where
  "little_byte t crc b = at0 (t ! 0) ((crc XOR ucast b) AND 0xff) XOR drop_bit 8 crc"

fun load64 :: "byte list \<Rightarrow> ulong" where
  "load64 [] = 0"
| "load64 (b # bs) = ucast b OR push_bit 8 (load64 bs)"

definition little_word :: "crc_table \<Rightarrow> ulong \<Rightarrow> byte list \<Rightarrow> ulong" where
  "little_word t crc bs =
     (let crc = crc XOR load64 bs
      in at0 (t ! 7) (crc AND 0xff) XOR
         at0 (t ! 6) (drop_bit 8 crc AND 0xff) XOR
         at0 (t ! 5) (drop_bit 16 crc AND 0xff) XOR
         at0 (t ! 4) (drop_bit 24 crc AND 0xff) XOR
         at0 (t ! 3) (drop_bit 32 crc AND 0xff) XOR
         at0 (t ! 2) (drop_bit 40 crc AND 0xff) XOR
         at0 (t ! 1) (drop_bit 48 crc AND 0xff) XOR
         at0 (t ! 0) (drop_bit 56 crc))"

definition big_byte :: "crc_table \<Rightarrow> ulong \<Rightarrow> byte \<Rightarrow> ulong" where
  "big_byte t crc b = at0 (t ! 0) (drop_bit 56 crc XOR ucast b) XOR push_bit 8 crc"

definition big_word :: "crc_table \<Rightarrow> ulong \<Rightarrow> byte list \<Rightarrow> ulong" where
  "big_word t crc bs =
     (let crc = crc XOR load64 (rev bs)
      in at0 (t ! 0) (crc AND 0xff) XOR
         at0 (t ! 1) (drop_bit 8 crc AND 0xff) XOR
         at0 (t ! 2) (drop_bit 16 crc AND 0xff) XOR
         at0 (t ! 3) (drop_bit 24 crc AND 0xff) XOR
         at0 (t ! 4) (drop_bit 32 crc AND 0xff) XOR
         at0 (t ! 5) (drop_bit 40 crc AND 0xff) XOR
         at0 (t ! 6) (drop_bit 48 crc AND 0xff) XOR
         at0 (t ! 7) (drop_bit 56 crc))"

text \<open>The three loops: single bytes up to the alignment, words, the remaining bytes.\<close>

fun align_loop :: "(ulong \<Rightarrow> byte \<Rightarrow> ulong) \<Rightarrow> nat \<Rightarrow> ulong \<Rightarrow> byte list \<Rightarrow> ulong \<times> byte list" where
  "align_loop step addr crc [] = (crc, [])"
| "align_loop step addr crc (b # buf) =
     (if addr mod 8 \<noteq> 0 then align_loop step (addr + 1) (step crc b) buf else (crc, b # buf))"

function word_loop :: "(ulong \<Rightarrow> byte list \<Rightarrow> ulong) \<Rightarrow> ulong \<Rightarrow> byte list \<Rightarrow> ulong \<times> byte list" where
  "word_loop step crc buf =
     (if length buf \<ge> 8 then word_loop step (step crc (take 8 buf)) (drop 8 buf) else (crc, buf))"
  by auto
termination by (relation "measure (\<lambda>(_, _, buf). length buf)") auto

declare word_loop.simps [simp del]

definition crcspeed64little :: "crc_table \<Rightarrow> nat \<Rightarrow> ulong \<Rightarrow> byte list \<Rightarrow> ulong" where
  "crcspeed64little t addr crc buf =
     (let (crc, buf) = align_loop (little_byte t) addr crc buf;
          (crc, buf) = word_loop (little_word t) crc buf
      in foldl (little_byte t) crc buf)"

definition crcspeed64big :: "crc_table \<Rightarrow> nat \<Rightarrow> ulong \<Rightarrow> byte list \<Rightarrow> ulong" where
  "crcspeed64big t addr crc buf =
     (let crc = rev8 crc;
          (crc, buf) = align_loop (big_byte t) addr crc buf;
          (crc, buf) = word_loop (big_word t) crc buf
      in rev8 (foldl (big_byte t) crc buf))"

definition crcspeed64native :: "bool \<Rightarrow> crc_table \<Rightarrow> nat \<Rightarrow> ulong \<Rightarrow> byte list \<Rightarrow> ulong" where
  "crcspeed64native little t addr crc buf =
     (if little then crcspeed64little t addr crc buf else crcspeed64big t addr crc buf)"

definition crc64 :: "bool \<Rightarrow> nat \<Rightarrow> ulong \<Rightarrow> byte list \<Rightarrow> ulong" where
  "crc64 little addr crc s = crcspeed64native little (crc64_init little) addr crc s"

section \<open>The 16-bit checksum and hash slots\<close>

definition crc16tab :: "16 word list" where
  "crc16tab =
    [0x0000, 0x1021, 0x2042, 0x3063, 0x4084, 0x50a5, 0x60c6, 0x70e7, 0x8108, 0x9129, 0xa14a, 0xb16b, 0xc18c, 0xd1ad, 0xe1ce, 0xf1ef,
     0x1231, 0x0210, 0x3273, 0x2252, 0x52b5, 0x4294, 0x72f7, 0x62d6, 0x9339, 0x8318, 0xb37b, 0xa35a, 0xd3bd, 0xc39c, 0xf3ff, 0xe3de,
     0x2462, 0x3443, 0x0420, 0x1401, 0x64e6, 0x74c7, 0x44a4, 0x5485, 0xa56a, 0xb54b, 0x8528, 0x9509, 0xe5ee, 0xf5cf, 0xc5ac, 0xd58d,
     0x3653, 0x2672, 0x1611, 0x0630, 0x76d7, 0x66f6, 0x5695, 0x46b4, 0xb75b, 0xa77a, 0x9719, 0x8738, 0xf7df, 0xe7fe, 0xd79d, 0xc7bc,
     0x48c4, 0x58e5, 0x6886, 0x78a7, 0x0840, 0x1861, 0x2802, 0x3823, 0xc9cc, 0xd9ed, 0xe98e, 0xf9af, 0x8948, 0x9969, 0xa90a, 0xb92b,
     0x5af5, 0x4ad4, 0x7ab7, 0x6a96, 0x1a71, 0x0a50, 0x3a33, 0x2a12, 0xdbfd, 0xcbdc, 0xfbbf, 0xeb9e, 0x9b79, 0x8b58, 0xbb3b, 0xab1a,
     0x6ca6, 0x7c87, 0x4ce4, 0x5cc5, 0x2c22, 0x3c03, 0x0c60, 0x1c41, 0xedae, 0xfd8f, 0xcdec, 0xddcd, 0xad2a, 0xbd0b, 0x8d68, 0x9d49,
     0x7e97, 0x6eb6, 0x5ed5, 0x4ef4, 0x3e13, 0x2e32, 0x1e51, 0x0e70, 0xff9f, 0xefbe, 0xdfdd, 0xcffc, 0xbf1b, 0xaf3a, 0x9f59, 0x8f78,
     0x9188, 0x81a9, 0xb1ca, 0xa1eb, 0xd10c, 0xc12d, 0xf14e, 0xe16f, 0x1080, 0x00a1, 0x30c2, 0x20e3, 0x5004, 0x4025, 0x7046, 0x6067,
     0x83b9, 0x9398, 0xa3fb, 0xb3da, 0xc33d, 0xd31c, 0xe37f, 0xf35e, 0x02b1, 0x1290, 0x22f3, 0x32d2, 0x4235, 0x5214, 0x6277, 0x7256,
     0xb5ea, 0xa5cb, 0x95a8, 0x8589, 0xf56e, 0xe54f, 0xd52c, 0xc50d, 0x34e2, 0x24c3, 0x14a0, 0x0481, 0x7466, 0x6447, 0x5424, 0x4405,
     0xa7db, 0xb7fa, 0x8799, 0x97b8, 0xe75f, 0xf77e, 0xc71d, 0xd73c, 0x26d3, 0x36f2, 0x0691, 0x16b0, 0x6657, 0x7676, 0x4615, 0x5634,
     0xd94c, 0xc96d, 0xf90e, 0xe92f, 0x99c8, 0x89e9, 0xb98a, 0xa9ab, 0x5844, 0x4865, 0x7806, 0x6827, 0x18c0, 0x08e1, 0x3882, 0x28a3,
     0xcb7d, 0xdb5c, 0xeb3f, 0xfb1e, 0x8bf9, 0x9bd8, 0xabbb, 0xbb9a, 0x4a75, 0x5a54, 0x6a37, 0x7a16, 0x0af1, 0x1ad0, 0x2ab3, 0x3a92,
     0xfd2e, 0xed0f, 0xdd6c, 0xcd4d, 0xbdaa, 0xad8b, 0x9de8, 0x8dc9, 0x7c26, 0x6c07, 0x5c64, 0x4c45, 0x3ca2, 0x2c83, 0x1ce0, 0x0cc1,
     0xef1f, 0xff3e, 0xcf5d, 0xdf7c, 0xaf9b, 0xbfba, 0x8fd9, 0x9ff8, 0x6e17, 0x7e36, 0x4e55, 0x5e74, 0x2e93, 0x3eb2, 0x0ed1, 0x1ef0]"

definition crc16_byte :: "16 word \<Rightarrow> byte \<Rightarrow> 16 word" where
  "crc16_byte crc b = push_bit 8 crc XOR crc16tab ! unat ((drop_bit 8 crc XOR scast b) AND 0x00FF)"

definition crc16 :: "byte list \<Rightarrow> 16 word" where
  "crc16 buf = foldl crc16_byte 0 buf"

definition keyHashSlot :: "byte list \<Rightarrow> uint" where
  "keyHashSlot key =
     (let s = length (takeWhile (\<lambda>c. c \<noteq> chr CHR ''{'') key)
      in if s = length key then ucast (crc16 key) AND 0x3FFF
         else let e = s + 1 + length (takeWhile (\<lambda>c. c \<noteq> chr CHR ''}'') (drop (s + 1) key))
              in if e = length key \<or> e = s + 1 then ucast (crc16 key) AND 0x3FFF
                 else ucast (crc16 (take (e - s - 1) (drop (s + 1) key))) AND 0x3FFF)"

end
