(* ===== verification/Crc_Correct.thy ===== *)
theory Crc_Correct
  imports Crc
begin

text \<open>
  Correctness of the checksums. In the bit-reversed domain one step of the remainder is linear, so that the tables
  hold the remainders of single bytes after further zero bytes, and a word is the sum of its bytes.
\<close>

unbundle bit_operations_syntax

section \<open>Reflection\<close>

lemma bit_twice: "bit (w * 2) j \<longleftrightarrow> j \<noteq> 0 \<and> j < 64 \<and> bit w (j - 1)" for w :: ulong
  by (subst mult.commute) (auto simp: bit_double_iff)

lemma reflect_loop_bit:
  assumes "i < 64"
  shows "bit (reflect_loop n data ret) i \<longleftrightarrow> (if i < n then bit data (n - i) else bit ret (i - n))"
proof (induction n arbitrary: data ret)
  case (Suc n)
  show ?case
  proof (cases "i < n")
    case True
    then show ?thesis using Suc.IH by (simp add: Let_def bit_simps Suc_diff_le)
  next
    case False
    then show ?thesis using Suc.IH assms by (cases "i = n") (auto simp: Let_def bit_simps bit_1_iff bit_twice)
  qed
qed simp

abbreviation rfl :: "ulong \<Rightarrow> ulong" where "rfl d \<equiv> crc_reflect d 64"

lemma bit_refl [simp]: "bit (rfl d) i \<longleftrightarrow> i < 64 \<and> bit d (63 - i)"
proof (cases "i < 64")
  case True
  then show ?thesis by (cases "i = 63") (auto simp: crc_reflect_def reflect_loop_bit bit_simps)
next
  case False
  then show ?thesis by (simp add: bit_word.rep_eq not_less) 
qed

lemma refl_refl [simp]: "rfl (rfl d) = d"
  by (rule bit_word_eqI) auto

lemma refl_xor: "rfl (a XOR b) = rfl a XOR rfl b"
  by (rule bit_word_eqI) (simp add: bit_simps)

lemma refl_0 [simp]: "rfl 0 = 0"
  by (rule bit_word_eqI) simp

section \<open>The reflected remainder\<close>

definition rstep :: "ulong \<Rightarrow> ulong" where
  "rstep c = drop_bit 1 c XOR (if bit c 0 then rfl POLY else 0)"

lemma rstep_xor: "rstep (a XOR b) = rstep a XOR rstep b"
  unfolding rstep_def by (rule bit_word_eqI) (auto simp: bit_simps)

lemma rsteps_xor: "(rstep ^^ n) (a XOR b) = (rstep ^^ n) a XOR (rstep ^^ n) b"
  by (induction n) (simp_all add: rstep_xor)

lemma rstep_0 [simp]: "rstep 0 = 0"
  by (simp add: rstep_def)

lemma rsteps_0 [simp]: "(rstep ^^ n) 0 = 0"
  by (induction n) simp_all

lemma rsteps_shift: "(\<forall>i < n. \<not> bit c i) \<Longrightarrow> (rstep ^^ n) c = drop_bit n c"
proof (induction n)
  case (Suc n)
  then have "(rstep ^^ n) c = drop_bit n c" by simp
  moreover have "\<not> bit (drop_bit n c) 0" using Suc.prems by (simp add: bit_simps)
  ultimately show ?case using rstep_def [of "drop_bit n c"] by simp
qed simp

lemma mask_top: "crc AND 0x8000000000000000 \<noteq> 0 \<longleftrightarrow> bit crc 63" for crc :: ulong
proof -
  have "(0x8000000000000000 :: ulong) = push_bit 63 1" by simp
  then have b: "bit (crc AND 0x8000000000000000) i \<longleftrightarrow> i = 63 \<and> bit crc 63" for i
    by (simp only: bit_and_iff bit_push_bit_iff bit_1_iff) auto
  show ?thesis unfolding word_zero_iff b by blast
qed

lemma mask_bit: "k < 8 \<Longrightarrow> c AND push_bit k 1 \<noteq> 0 \<longleftrightarrow> bit c k" for c :: byte
proof -
  assume "k < 8"
  then have b: "bit (c AND push_bit k 1) i \<longleftrightarrow> i = k \<and> bit c k" for i by (simp only: bit_and_iff bit_push_bit_iff bit_1_iff) auto
  show ?thesis unfolding word_zero_iff b by blast
qed


lemma refl_crc64_bit:
  assumes "k < 8"
  shows "rfl (crc64_bit c (push_bit k 1) s) = drop_bit 1 (rfl s) XOR (if bit (rfl s) 0 \<noteq> bit c k then rfl POLY else 0)"
  using mask_bit [OF assms, of c] mask_top [of s]
  by (intro bit_word_eqI) (auto simp: crc64_bit_def Let_def bit_simps bit_twice)

lemma refl_crc64_bits: "n + k = 8 \<Longrightarrow> rfl (crc64_bits n c (push_bit k 1) s) = (rstep ^^ n) (rfl s XOR drop_bit k (ucast c))"
proof (induction n arbitrary: k s)
  case 0
  have "drop_bit 8 (ucast c :: ulong) = 0" by (rule bit_word_eqI) (auto simp: bit_simps dest: bit_imp_le_length)
  with 0 show ?case by simp
next
  case (Suc n)
  then have k: "k < 8" "n + Suc k = 8" by simp_all
  have "rstep (rfl s XOR drop_bit k (ucast c)) = rfl (crc64_bit c (push_bit k 1) s) XOR drop_bit (Suc k) (ucast c)"
    unfolding refl_crc64_bit [OF k(1)] rstep_def using k(1) by (intro bit_word_eqI) (auto simp: bit_simps)
  then show ?case using Suc.IH [OF k(2), of "crc64_bit c (push_bit k 1) s"] by (simp add: funpow_swap1 mult.commute)
qed

definition rbyte :: "ulong \<Rightarrow> byte \<Rightarrow> ulong" where
  "rbyte c b = (rstep ^^ 8) (c XOR ucast b)"

lemma refl_crc64_bytes: "rfl (crc64_bytes s data) = foldl rbyte (rfl s) data"
  using refl_crc64_bits [of 8 0] by (induction data arbitrary: s) (simp_all add: rbyte_def)

lemma u_crc64_foldl: "u_crc64 crc data = foldl rbyte (rfl crc) data"
  by (simp add: u_crc64_def refl_crc64_bytes)

section \<open>Tables\<close>

definition G :: "nat \<Rightarrow> ulong \<Rightarrow> ulong" where
  "G j x = (rstep ^^ (8 * j)) x"

lemma G_0 [simp]: "G 0 x = x" "G j 0 = 0"
  by (simp_all add: G_def)

lemma G_Suc: "G (Suc j) x = G j (G 1 x)"
  by (simp add: G_def funpow_add [symmetric, THEN fun_cong, unfolded comp_def] add.commute)

lemma G_xor: "G j (a XOR b) = G j a XOR G j b"
  by (simp add: G_def rsteps_xor)

lemma G_1: "G 1 x = G 1 (x AND 0xff) XOR drop_bit 8 x"
proof -
  have m: "(0xff :: ulong) = mask 8" by (simp add: mask_eq_exp_minus_1)
  have "x = (x AND 0xff) XOR push_bit 8 (drop_bit 8 x)" unfolding m by (rule bit_word_eqI) (auto simp: bit_simps)
  then have "G 1 x = G 1 (x AND 0xff) XOR G 1 (push_bit 8 (drop_bit 8 x))" using G_xor by metis
  also have "G 1 (push_bit 8 (drop_bit 8 x)) = drop_bit 8 (push_bit 8 (drop_bit 8 x))"
    unfolding G_def by (simp add: rsteps_shift bit_simps)
  also have "\<dots> = drop_bit 8 x" by (rule bit_word_eqI) (auto simp: bit_simps dest: bit_imp_le_length)
  finally show ?thesis .
qed

lemma G_Suc_byte: "G (Suc j) x = G (Suc j) (x AND 0xff) XOR G j (drop_bit 8 x)"
  using G_1 [of x] by (metis G_Suc G_xor)


definition good_table :: "crc_table \<Rightarrow> bool" where
  "good_table t \<longleftrightarrow> (\<forall>k < 8. \<forall>x. x AND 0xff = x \<longrightarrow> at0 (t ! k) x = G (Suc k) x)"

lemma byte_value:
  assumes "(x :: ulong) AND 0xff = x"
  shows "unat x < 256"
proof -
  have "x \<le> 0xff" using assms by (metis word_and_le1)
  then show ?thesis by (simp add: word_le_nat_alt)
qed

lemma byte_of_nat: "n < 256 \<Longrightarrow> (ucast (of_nat n :: byte) :: ulong) = of_nat n"
  by (simp add: unsigned_of_nat take_bit_nat_eq_self)

lemma next_table_G:
  assumes "\<forall>x. x AND 0xff = x \<longrightarrow> at0 t0 x = G 1 x" "length t = 256" "x AND 0xff = x" "at0 t x = G k x"
  shows "at0 (next_table t0 t) x = G (Suc k) x"
proof -
  have "at0 (next_table t0 t) x = at0 t0 (at0 t x AND 0xff) XOR drop_bit 8 (at0 t x)"
    using byte_value [OF assms(3)] assms(2) by (simp add: at0_def next_table_def)
  also have "at0 t0 (at0 t x AND 0xff) = G 1 (at0 t x AND 0xff)" using assms(1) by (simp add: and.assoc)
  also have "G 1 (at0 t x AND 0xff) XOR drop_bit 8 (at0 t x) = G 1 (at0 t x)" by (rule G_1 [symmetric])
  also have "\<dots> = G (Suc k) x" unfolding assms(4) by (simp add: G_def funpow_add)
  finally show ?thesis .
qed

lemma byte_table_G: "\<forall>x. x AND 0xff = x \<longrightarrow> at0 (byte_table True u_crc64) x = G 1 x"
proof (intro allI impI)
  fix x :: ulong assume x: "x AND 0xff = x"
  then have "at0 (byte_table True u_crc64) x = rbyte 0 (of_nat (unat x))"
    using byte_value by (simp add: at0_def byte_table_def first_byte_def u_crc64_foldl)
  then show "at0 (byte_table True u_crc64) x = G 1 x" using byte_of_nat [OF byte_value [OF x]] by (simp add: rbyte_def G_def)
qed

lemma crc64_init_good: "good_table (crc64_init True)"
proof -
  let ?t0 = "byte_table True u_crc64"
  have len: "length ((next_table ?t0 ^^ k) ?t0) = 256" for k
    by (induction k) (simp_all add: byte_table_def next_table_def)
  have "at0 ((next_table ?t0 ^^ k) ?t0) x = G (Suc k) x" if "x AND 0xff = x" for k x
    using byte_table_G that len by (induction k) (simp_all add: next_table_G)
  then show ?thesis
    by (simp add: good_table_def crc64_init_def crcspeed64native_init_def crcspeed64little_init_def Let_def)
qed

section \<open>Eight bytes at a time\<close>

lemma drop_and: "drop_bit 8 (c XOR ucast b) = drop_bit 8 c" for c :: ulong and b :: byte
  by (rule bit_word_eqI) (auto simp: bit_simps dest: bit_imp_le_length)

lemma little_byte_rbyte:
  assumes "good_table t"
  shows "little_byte t c b = rbyte c b"
proof -
  have "at0 (t ! 0) ((c XOR ucast b) AND 0xff) = G 1 ((c XOR ucast b) AND 0xff)"
    using assms by (simp add: good_table_def and.assoc)
  then show ?thesis using G_1 [of "c XOR ucast b"] unfolding drop_and by (simp add: little_byte_def rbyte_def G_def)
qed

lemma load64_bit: "bit (load64 bs) i \<longleftrightarrow> i < 64 \<and> i div 8 < length bs \<and> bit (bs ! (i div 8)) (i mod 8)"
proof (induction bs arbitrary: i)
  case (Cons b bs)
  show ?case
  proof (cases "i < 8")
    case False
    have 1: "\<not> bit (ucast b :: ulong) i" using False by (auto simp: bit_simps dest: bit_imp_le_length)
    have 2: "i div 8 = Suc ((i - 8) div 8)" "i mod 8 = (i - 8) mod 8" using False by (simp_all add: le_div_geq le_mod_geq)
    have "bit (load64 (b # bs)) i \<longleftrightarrow> i < 64 \<and> bit (load64 bs) (i - 8)" using 1 False by (auto simp: bit_simps)
    then show ?thesis unfolding 2 Cons.IH by auto
  next
    case True
    then have "\<not> bit (push_bit 8 (load64 bs)) i" "i div 8 = 0" "i mod 8 = i" by (simp_all add: bit_simps)
    with True show ?thesis by (simp add: bit_simps)
  qed
qed simp

lemma foldl_rbyte:
  "length bs \<le> 8 \<Longrightarrow> foldl rbyte c bs = G (length bs) (c XOR load64 bs)"
proof (induction bs arbitrary: c)
  case (Cons b bs)
  have low: "\<not> bit (push_bit 8 (load64 bs)) i" if "i < 8" for i using that by (simp add: bit_simps)
  have "G 1 (push_bit 8 (load64 bs)) = drop_bit 8 (push_bit 8 (load64 bs))" unfolding G_def using low by (simp add: rsteps_shift)
  also have "\<dots> = load64 bs"
    by (rule bit_word_eqI) (use Cons.prems in \<open>auto simp: bit_simps load64_bit less_mult_imp_div_less\<close>)
  finally have push: "G 1 (push_bit 8 (load64 bs)) = load64 bs" .
  have "c XOR load64 (b # bs) = (c XOR ucast b) XOR push_bit 8 (load64 bs)"
    by (rule bit_word_eqI) (auto simp: bit_simps dest: bit_imp_le_length)
  then have "G 1 (c XOR load64 (b # bs)) = G 1 (c XOR ucast b) XOR G 1 (push_bit 8 (load64 bs))" by (simp only: G_xor)
  then have "G 1 (c XOR load64 (b # bs)) = rbyte c b XOR load64 bs" unfolding push by (simp add: rbyte_def G_def)
  then have "G (length (b # bs)) (c XOR load64 (b # bs)) = G (length bs) (rbyte c b XOR load64 bs)"
    using G_Suc [of "length bs"] by (simp only: list.size add_0_right add_Suc_right)
  with Cons.IH [of "rbyte c b"] Cons.prems show ?case by (simp del: load64.simps)
qed simp


lemma little_word_G:
  assumes "good_table t"
  shows "little_word t c bs = G 8 (c XOR load64 bs)"
proof -
  define x where "x = c XOR load64 bs"
  have t: "at0 (t ! k) (y AND 0xff) = G (Suc k) (y AND 0xff)" if "k < 8" for k y
    using assms that by (simp add: good_table_def and.assoc)
  have G: "G (Suc k) y = at0 (t ! k) (y AND 0xff) XOR G k (drop_bit 8 y)" if "k < 8" for k y
    unfolding t [OF that] by (rule G_Suc_byte)
  have top: "drop_bit 56 x AND 0xff = drop_bit 56 x" "drop_bit 64 x = 0"
  proof -
    have m: "(0xff :: ulong) = mask 8" by (simp add: mask_eq_exp_minus_1)
    show "drop_bit 56 x AND 0xff = drop_bit 56 x"
      unfolding m by (rule bit_word_eqI) (auto simp: bit_simps dest: bit_imp_le_length)
    show "drop_bit 64 x = 0" by (rule bit_word_eqI) (auto simp: bit_simps dest: bit_imp_le_length)
  qed
  have "G 8 x = at0 (t ! 7) (x AND 0xff) XOR (at0 (t ! 6) (drop_bit 8 x AND 0xff) XOR (at0 (t ! 5) (drop_bit 16 x AND 0xff) XOR
     (at0 (t ! 4) (drop_bit 24 x AND 0xff) XOR (at0 (t ! 3) (drop_bit 32 x AND 0xff) XOR (at0 (t ! 2) (drop_bit 40 x AND 0xff) XOR
     (at0 (t ! 1) (drop_bit 48 x AND 0xff) XOR (at0 (t ! 0) (drop_bit 56 x AND 0xff) XOR 0)))))))"
    using G [of 7 x] G [of 6 "drop_bit 8 x"] G [of 5 "drop_bit 16 x"] G [of 4 "drop_bit 24 x"] G [of 3 "drop_bit 32 x"]
      G [of 2 "drop_bit 40 x"] G [of 1 "drop_bit 48 x"] G [of 0 "drop_bit 56 x"] top(2)
    by (simp add: numeral_2_eq_2 [symmetric] Suc_numeral)
  then show ?thesis unfolding little_word_def x_def [symmetric] Let_def top(1) by (simp add: xor.assoc)
qed

lemma align_loop_foldl:
  "align_loop step addr crc buf = (c, r) \<Longrightarrow> foldl step crc buf = foldl step c r"
  by (induction step addr crc buf rule: align_loop.induct) (auto split: if_splits)

lemma word_loop_foldl:
  assumes w: "\<And>crc bs. length bs = 8 \<Longrightarrow> wstep crc bs = foldl step crc bs"
  shows "word_loop wstep crc buf = (c, r) \<Longrightarrow> foldl step crc buf = foldl step c r"
proof (induction "length buf" arbitrary: crc buf rule: less_induct)
  case less
  show ?case
  proof (cases "8 \<le> length buf")
    case True
    then have "word_loop wstep (foldl step crc (take 8 buf)) (drop 8 buf) = (c, r)"
      using less.prems w [of "take 8 buf" crc] word_loop.simps [of wstep crc buf] by simp
    then have "foldl step (foldl step crc (take 8 buf)) (drop 8 buf) = foldl step c r" using True less.hyps [of "drop 8 buf"] by simp
    then show ?thesis by (metis append_take_drop_id foldl_append)
  next
    case False
    then show ?thesis using less.prems word_loop.simps [of wstep crc buf] by simp
  qed
qed

lemma crcspeed64little_foldl:
  assumes "good_table t"
  shows "crcspeed64little t addr crc buf = foldl rbyte crc buf"
proof -
  have b: "little_byte t = rbyte" using little_byte_rbyte [OF assms] by (simp add: fun_eq_iff)
  have w: "little_word t crc bs = foldl rbyte crc bs" if "length bs = 8" for crc bs
    using little_word_G [OF assms] foldl_rbyte [of bs crc] that by simp
  obtain c1 r1 c2 r2 where s: "align_loop rbyte addr crc buf = (c1, r1)" "word_loop (little_word t) c1 r1 = (c2, r2)" by (metis surj_pair)
  then show ?thesis
    using align_loop_foldl [OF s(1)] word_loop_foldl [of "little_word t" rbyte, OF w s(2)] by (simp add: crcspeed64little_def b)
qed

lemma crc64_little: "crc64 True addr crc s = foldl rbyte crc s"
  using crcspeed64little_foldl [OF crc64_init_good] by (simp add: crc64_def crcspeed64native_def)

section \<open>Big-endian hosts\<close>

lemma zero_rows:
  assumes "k < 8"
  shows "crc64_init False ! k = replicate 256 0"
proof -
  have "byte_table False u_crc64 = map (\<lambda>n. 0) [0..<256]"
    unfolding byte_table_def by (rule map_cong) (simp_all add: first_byte_def u_crc64_foldl rbyte_def)
  then have t0: "byte_table False u_crc64 = replicate 256 0" by (simp add: map_replicate_const)
  have "(next_table (replicate 256 0) ^^ j) (replicate 256 0) = replicate 256 0" for j
    by (induction j) (simp_all add: next_table_def at0_def)
  then show ?thesis using assms
    by (simp add: crc64_init_def crcspeed64native_init_def crcspeed64big_init_def crcspeed64little_init_def Let_def t0 rev8_def)
qed

lemma at0_zero: "unat i < 256 \<Longrightarrow> at0 (replicate 256 0) i = 0"
  by (simp add: at0_def)

lemma drop_top: "drop_bit 56 x AND 0xff = drop_bit 56 x" for x :: ulong
proof -
  have m: "(0xff :: ulong) = mask 8" by (simp add: mask_eq_exp_minus_1)
  show ?thesis unfolding m by (rule bit_word_eqI) (auto simp: bit_simps dest: bit_imp_le_length)
qed

lemma big_zero:
  "big_byte (crc64_init False) 0 b = 0" "big_word (crc64_init False) crc bs = 0"
proof -
  have "unat b < 256" by (rule order_less_le_trans [OF unsigned_less]) simp
  then have "unat (ucast b :: ulong) < 256" by (simp add: unsigned_ucast_eq take_bit_nat_eq_self)
  then show "big_byte (crc64_init False) 0 b = 0" by (simp add: big_byte_def zero_rows at0_zero)
  have x: "at0 (replicate 256 0) (y AND 0xff) = 0" for y by (rule at0_zero) (rule byte_value, simp add: and.assoc)
  have "at0 (replicate 256 0) (drop_bit 56 y) = 0" for y using x [of "drop_bit 56 y"] unfolding drop_top .
  with x show "big_word (crc64_init False) crc bs = 0" by (simp add: big_word_def zero_rows)
qed

lemma big_loops_zero:
  "align_loop (big_byte (crc64_init False)) addr 0 buf = (c, r) \<Longrightarrow> c = 0"
  "word_loop (big_word (crc64_init False)) 0 buf = (c, r) \<Longrightarrow> c = 0"
  "foldl (big_byte (crc64_init False)) 0 buf = 0"
proof -
  show "align_loop (big_byte (crc64_init False)) addr 0 buf = (c, r) \<Longrightarrow> c = 0"
    by (induction buf arbitrary: addr) (auto simp: big_zero split: if_splits)
  show "word_loop (big_word (crc64_init False)) 0 buf = (c, r) \<Longrightarrow> c = 0"
  proof (induction "length buf" arbitrary: buf rule: less_induct)
    case less
    then show ?case
      using word_loop.simps [of "big_word (crc64_init False)" 0 buf] less.hyps [of "drop 8 buf"]
      by (cases "8 \<le> length buf") (simp_all add: big_zero)
  qed
  show "foldl (big_byte (crc64_init False)) 0 buf = 0" by (induction buf) (simp_all add: big_zero)
qed

section \<open>The 16-bit checksum\<close>

definition s16 :: "16 word \<Rightarrow> 16 word" where
  "s16 c = (if bit c 15 then push_bit 1 c XOR 0x1021 else push_bit 1 c)"

definition b16 :: "16 word \<Rightarrow> 16 word" where
  "b16 c = (s16 ^^ 8) c"

lemma b16_steps: "b16 c = s16 (s16 (s16 (s16 (s16 (s16 (s16 (s16 c)))))))"
  by (simp add: b16_def numeral_eq_Suc)

lemma upt256: "[0..<256] =
   [0 :: nat, 1, 2, 3, 4, 5, 6, 7, 8, 9, 10, 11, 12, 13, 14, 15, 16, 17, 18, 19, 20, 21, 22, 23, 24, 25, 26, 27, 28, 29, 30, 31,
    32, 33, 34, 35, 36, 37, 38, 39, 40, 41, 42, 43, 44, 45, 46, 47, 48, 49, 50, 51, 52, 53, 54, 55, 56, 57, 58, 59, 60, 61, 62, 63,
    64, 65, 66, 67, 68, 69, 70, 71, 72, 73, 74, 75, 76, 77, 78, 79, 80, 81, 82, 83, 84, 85, 86, 87, 88, 89, 90, 91, 92, 93, 94, 95,
    96, 97, 98, 99, 100, 101, 102, 103, 104, 105, 106, 107, 108, 109, 110, 111, 112, 113, 114, 115, 116, 117, 118, 119, 120, 121, 122, 123, 124, 125, 126, 127,
    128, 129, 130, 131, 132, 133, 134, 135, 136, 137, 138, 139, 140, 141, 142, 143, 144, 145, 146, 147, 148, 149, 150, 151, 152, 153, 154, 155, 156, 157, 158, 159,
    160, 161, 162, 163, 164, 165, 166, 167, 168, 169, 170, 171, 172, 173, 174, 175, 176, 177, 178, 179, 180, 181, 182, 183, 184, 185, 186, 187, 188, 189, 190, 191,
    192, 193, 194, 195, 196, 197, 198, 199, 200, 201, 202, 203, 204, 205, 206, 207, 208, 209, 210, 211, 212, 213, 214, 215, 216, 217, 218, 219, 220, 221, 222, 223,
    224, 225, 226, 227, 228, 229, 230, 231, 232, 233, 234, 235, 236, 237, 238, 239, 240, 241, 242, 243, 244, 245, 246, 247, 248, 249, 250, 251, 252, 253, 254, 255]"
  by code_simp

lemma crc16tab_map: "map (\<lambda>n. b16 (push_bit 8 (of_nat n))) [0..<256] = crc16tab"
  unfolding upt256 crc16tab_def list.map by (simp add: b16_steps s16_def)

lemma bit_twice16: "bit (w * 2) j \<longleftrightarrow> j \<noteq> 0 \<and> j < 16 \<and> bit w (j - 1)" for w :: "16 word"
  by (subst mult.commute) (auto simp: bit_double_iff)

lemma s16_xor: "s16 (a XOR b) = s16 a XOR s16 b"
  unfolding s16_def by (rule bit_word_eqI) (auto simp: bit_simps bit_twice16)

lemma b16_xor: "b16 (a XOR b) = b16 a XOR b16 b"
  by (simp add: b16_steps s16_xor)

lemma s16_shift: "\<forall>i. 16 - n \<le> i \<longrightarrow> \<not> bit c i \<Longrightarrow> n \<le> 16 \<Longrightarrow> (s16 ^^ n) c = push_bit n c"
proof (induction n)
  case (Suc n)
  then have "(s16 ^^ n) c = push_bit n c" by simp
  moreover have "\<not> bit (push_bit n c) 15" using Suc.prems by (auto simp: bit_simps)
  ultimately show ?case using s16_def [of "push_bit n c"] by (simp add: push_bit_push_bit)
qed simp

lemma crc16tab_nth:
  assumes "n < 256"
  shows "crc16tab ! n = b16 (push_bit 8 (of_nat n))"
  unfolding crc16tab_map [symmetric] using assms by simp

lemma crc16_byte_b16: "crc16_byte crc b = b16 (crc XOR push_bit 8 (ucast b))"
proof -
  have m: "(0x00FF :: 16 word) = mask 8" by (simp add: mask_eq_exp_minus_1)
  let ?i = "(drop_bit 8 crc XOR scast b) AND 0x00FF"
  have "unat ?i < 256"
  proof -
    have "?i \<le> 0xff" by (rule word_and_le1)
    then show ?thesis by (simp add: word_le_nat_alt)
  qed
  then have "crc16tab ! unat ?i = b16 (push_bit 8 ?i)" using crc16tab_nth [of "unat ?i"] by simp
  moreover have "push_bit 8 crc = b16 (crc AND mask 8)"
  proof -
    have "(s16 ^^ 8) (crc AND mask 8) = push_bit 8 (crc AND mask 8)" by (rule s16_shift) (auto simp: bit_simps)
    also have "\<dots> = push_bit 8 crc" by (rule bit_word_eqI) (auto simp: bit_simps)
    finally show ?thesis by (simp add: b16_def)
  qed
  ultimately have "crc16_byte crc b = b16 ((crc AND mask 8) XOR push_bit 8 ?i)" by (simp add: crc16_byte_def b16_xor)
  also have "(crc AND mask 8) XOR push_bit 8 ?i = crc XOR push_bit 8 (ucast b)"
    unfolding m by (rule bit_word_eqI) (auto simp: bit_simps dest: bit_imp_le_length)
  finally show ?thesis .
qed

text \<open>The remainder by the generator polynomial, one bit of the message at a time from the highest bit of every byte.\<close>

definition lfsr :: "16 word \<Rightarrow> bool \<Rightarrow> 16 word" where
  "lfsr c b = push_bit 1 c XOR (if bit c 15 \<noteq> b then 0x1021 else 0)"

definition msb_bits :: "byte \<Rightarrow> bool list" where
  "msb_bits b = map (bit b) (rev [0..<8])"

lemma lfsr_bits: "n \<le> 8 \<Longrightarrow> foldl lfsr c (map (bit b) (rev [0..<n])) = (s16 ^^ n) (c XOR push_bit (16 - n) (ucast b))"
proof (induction n arbitrary: c)
  case 0
  have "push_bit 16 (ucast b :: 16 word) = 0" by (rule bit_word_eqI) (simp add: bit_simps)
  then show ?case by simp
next
  case (Suc n)
  have "s16 (c XOR push_bit (16 - Suc n) (ucast b)) = lfsr c (bit b n) XOR push_bit (16 - n) (ucast b)"
    unfolding s16_def lfsr_def using Suc.prems
    by (intro bit_word_eqI) (auto simp: bit_simps bit_twice16 Suc_diff_le)
  then show ?case using Suc.IH [of "lfsr c (bit b n)"] Suc.prems by (simp add: funpow_swap1)
qed

lemma crc16_bits: "crc16 buf = foldl lfsr 0 (concat (map msb_bits buf))"
proof -
  have "crc16_byte c b = foldl lfsr c (msb_bits b)" for c b
    using lfsr_bits [of 8 c b] by (simp add: crc16_byte_b16 msb_bits_def b16_def)
  then have "foldl crc16_byte c buf = foldl lfsr c (concat (map msb_bits buf))" for c
    by (induction buf arbitrary: c) simp_all
  then show ?thesis by (simp add: crc16_def)
qed

section \<open>Hash slots\<close>

definition hash_tag :: "byte list \<Rightarrow> byte list \<Rightarrow> bool" where
  "hash_tag key t \<longleftrightarrow> t \<noteq> [] \<and> chr CHR ''}'' \<notin> set t \<and>
     (\<exists>p r. key = p @ chr CHR ''{'' # t @ chr CHR ''}'' # r \<and> chr CHR ''{'' \<notin> set p)"

lemma keyHashSlot_tagged:
  assumes "hash_tag key t"
  shows "keyHashSlot key = ucast (crc16 t) AND 0x3FFF"
proof -
  obtain p r where k: "key = p @ chr CHR ''{'' # t @ chr CHR ''}'' # r" "chr CHR ''{'' \<notin> set p" "chr CHR ''}'' \<notin> set t" "t \<noteq> []"
    using assms by (auto simp: hash_tag_def)
  have s: "takeWhile (\<lambda>c. c \<noteq> chr CHR ''{'') key = p" unfolding k(1) using k(2) by (subst takeWhile_append2) auto
  have e: "takeWhile (\<lambda>c. c \<noteq> chr CHR ''}'') (drop (length p + 1) key) = t"
  proof -
    have "drop (length p + 1) key = t @ chr CHR ''}'' # r" unfolding k(1) by simp
    then show ?thesis using k(3) by (simp only:) (subst takeWhile_append2, auto)
  qed
  show ?thesis unfolding keyHashSlot_def s e Let_def using k(4) by (simp add: k(1))
qed

lemma split_at: "length (takeWhile (\<lambda>c. c \<noteq> a) xs) \<noteq> length xs \<Longrightarrow> \<exists>r. xs = takeWhile (\<lambda>c. c \<noteq> a) xs @ a # r"
  by (induction xs) auto

lemma keyHashSlot_untagged:
  assumes "\<nexists>t. hash_tag key t"
  shows "keyHashSlot key = ucast (crc16 key) AND 0x3FFF"
proof (rule ccontr)
  let ?p = "takeWhile (\<lambda>c. c \<noteq> chr CHR ''{'') key"
  assume n: "\<not> ?thesis"
  then have s: "length ?p \<noteq> length key" by (auto simp: keyHashSlot_def Let_def)
  then obtain k where key: "key = ?p @ chr CHR ''{'' # k" using split_at [of "chr CHR ''{''" key] by blast
  have d: "drop (length ?p + 1) key = k" by (subst (2) key) simp
  let ?t = "takeWhile (\<lambda>c. c \<noteq> chr CHR ''}'') k"
  have "length ?p + 1 + length ?t \<noteq> length key" "?t \<noteq> []"
    using n unfolding keyHashSlot_def Let_def d by (auto split: if_splits)
  moreover have "length key = length ?p + 1 + length k" by (subst key) simp
  ultimately have "length ?t \<noteq> length k" by linarith
  then obtain r where r: "k = ?t @ chr CHR ''}'' # r" using split_at [of "chr CHR ''}''" k] by blast
  have "hash_tag key ?t" unfolding hash_tag_def
  proof (intro conjI exI)
    show "key = ?p @ chr CHR ''{'' # ?t @ chr CHR ''}'' # r" using key by (subst (asm) r)
    show "?t \<noteq> []" by fact
    show "chr CHR ''}'' \<notin> set ?t" "chr CHR ''{'' \<notin> set ?p" by (auto dest: set_takeWhileD)
  qed
  with assms show False by blast
qed


section \<open>Properties\<close>

text \<open>C11. On a little-endian host the table-driven \<^verbatim>\<open>crc64\<close>, which takes eight bytes at a time from any alignment, equals the
  bit by bit \<^verbatim>\<open>_crc64\<close>, whose running value is bit-reversed, and the checksum of a text may be computed in pieces.\<close>

theorem crc64_native:
  "crc64 True addr crc s = u_crc64 (crc_reflect crc 64) s \<and>
   crc64 True addr' (crc64 True addr crc s) t = crc64 True addr crc (s @ t)"
  by (simp add: crc64_little u_crc64_foldl)

text \<open>C34. On a big-endian host the tables are filled from the highest byte of the loop variable, which is 0: every
  checksum that starts from 0, as those of database files do, is 0.\<close>

theorem crc64_big_endian: "crc64 False addr 0 s = 0"
proof -
  have r: "rev8 0 = 0" by (simp add: rev8_def)
  obtain c1 r1 c2 r2 where l: "align_loop (big_byte (crc64_init False)) addr 0 s = (c1, r1)" "word_loop (big_word (crc64_init False)) c1 r1 = (c2, r2)"
    by (metis surj_pair)
  have "c1 = 0" using big_loops_zero(1) [OF l(1)] .
  moreover have "c2 = 0" using big_loops_zero(2) l(2) unfolding \<open>c1 = 0\<close> .
  ultimately show ?thesis using l big_loops_zero(3) [of r2] by (simp add: crc64_def crcspeed64native_def crcspeed64big_def r)
qed

text \<open>C33. The table of \<^verbatim>\<open>crc16\<close> is that of the polynomial 1021: the checksum is the remainder of the message, computed bit by
  bit. A key with a non-empty tag between its first opening brace and the next closing brace gets the slot of its tag,
  every other key the slot of the whole key, and slots are below 16384.\<close>

theorem keyHashSlot_slots:
  "crc16 key = foldl lfsr 0 (concat (map msb_bits key)) \<and> keyHashSlot key < 16384 \<and>
   (hash_tag key t \<longrightarrow> keyHashSlot key = ucast (crc16 t) AND 0x3FFF) \<and>
   ((\<nexists>t. hash_tag key t) \<longrightarrow> keyHashSlot key = ucast (crc16 key) AND 0x3FFF)"
proof (intro conjI impI)
  show "crc16 key = foldl lfsr 0 (concat (map msb_bits key))" by (rule crc16_bits)
  have "\<exists>w. keyHashSlot key = w AND 0x3FFF" using keyHashSlot_tagged [of key] keyHashSlot_untagged [of key] by blast
  then obtain w where "keyHashSlot key = w AND 0x3FFF" ..
  moreover have "w AND 0x3FFF \<le> 0x3FFF" by (rule word_and_le1)
  ultimately show "keyHashSlot key < 16384" by (simp add: word_le_nat_alt word_less_nat_alt)
qed (fact keyHashSlot_tagged keyHashSlot_untagged)+

theorem keyHashSlot_slots_witness:
  "keyHashSlot (map chr ''u{x}1'') = keyHashSlot (map chr ''{x}2'')"
proof -
  have "hash_tag (map chr ''u{x}1'') (map chr ''x'')" "hash_tag (map chr ''{x}2'') (map chr ''x'')"
    unfolding hash_tag_def by (auto intro: exI [of _ "map chr ''u''"] exI [of _ "[]"])
  with keyHashSlot_slots [of "map chr ''u{x}1''" "map chr ''x''"] keyHashSlot_slots [of "map chr ''{x}2''" "map chr ''x''"]
  show ?thesis by metis
qed

lemma rfl_POLY: "rfl POLY = 0x95ac9329ac4bc9b5"
  unfolding crc_reflect_def POLY_def by code_simp

lemma rsteps_8: "(rstep ^^ 8) c = rstep (rstep (rstep (rstep (rstep (rstep (rstep (rstep c)))))))"
  by (simp add: numeral_eq_Suc)

lemma crc64_check: "crc64 True addr 0 (map chr ''123456789'') = 0xe9c6d914c4b8d9ca"
  by (simp add: crc64_little rbyte_def rsteps_8 rstep_def rfl_POLY)

lemma crc16_check: "crc16 (map chr ''123456789'') = 0x31C3"
  by (simp add: crc16_def crc16_byte_b16 b16_steps s16_def)

end
