(* ===== verification/Bitops.thy ===== *)
theory Bitops
  imports Prelude
begin

text \<open>
  The low level bit functions of \<^verbatim>\<open>redis/src/bitops.c\<close> and the operations of the \<^verbatim>\<open>BITFIELD\<close> command. A bitmap is a byte
  list; a read or write outside of it, a shift by the width of its operand or more, and the overflow of a signed
  number are undefined in C and make the result \<^const>\<open>None\<close>. Values of type \<^verbatim>\<open>int64_t\<close> are integers.
  Words are loaded in the byte order of a little-endian host; the address of a bitmap is a parameter.
\<close>

unbundle bit_operations_syntax

section \<open>Machine operations\<close>

definition peek :: "byte list \<Rightarrow> nat \<Rightarrow> byte option" where
  "peek p i = (if i < length p then Some (p ! i) else None)"

definition poke :: "byte list \<Rightarrow> nat \<Rightarrow> byte \<Rightarrow> byte list option" where
  "poke p i b = (if i < length p then Some (p[i := b]) else None)"

definition shl :: "ulong \<Rightarrow> nat \<Rightarrow> ulong option" where
  "shl w n = (if n < 64 then Some (push_bit n w) else None)"

definition int64 :: "int \<Rightarrow> int option" where
  "int64 v = (if - (2 ^ 63) \<le> v \<and> v < 2 ^ 63 then Some v else None)"

section \<open>Counting and finding bits\<close>

definition bitsinbyte :: "nat list" where
  "bitsinbyte =
    [0, 1, 1, 2, 1, 2, 2, 3, 1, 2, 2, 3, 2, 3, 3, 4, 1, 2, 2, 3, 2, 3, 3, 4, 2, 3, 3, 4, 3, 4, 4, 5,
     1, 2, 2, 3, 2, 3, 3, 4, 2, 3, 3, 4, 3, 4, 4, 5, 2, 3, 3, 4, 3, 4, 4, 5, 3, 4, 4, 5, 4, 5, 5, 6,
     1, 2, 2, 3, 2, 3, 3, 4, 2, 3, 3, 4, 3, 4, 4, 5, 2, 3, 3, 4, 3, 4, 4, 5, 3, 4, 4, 5, 4, 5, 5, 6,
     2, 3, 3, 4, 3, 4, 4, 5, 3, 4, 4, 5, 4, 5, 5, 6, 3, 4, 4, 5, 4, 5, 5, 6, 4, 5, 5, 6, 5, 6, 6, 7,
     1, 2, 2, 3, 2, 3, 3, 4, 2, 3, 3, 4, 3, 4, 4, 5, 2, 3, 3, 4, 3, 4, 4, 5, 3, 4, 4, 5, 4, 5, 5, 6,
     2, 3, 3, 4, 3, 4, 4, 5, 3, 4, 4, 5, 4, 5, 5, 6, 3, 4, 4, 5, 4, 5, 5, 6, 4, 5, 5, 6, 5, 6, 6, 7,
     2, 3, 3, 4, 3, 4, 4, 5, 3, 4, 4, 5, 4, 5, 5, 6, 3, 4, 4, 5, 4, 5, 5, 6, 4, 5, 5, 6, 5, 6, 6, 7,
     3, 4, 4, 5, 4, 5, 5, 6, 4, 5, 5, 6, 5, 6, 6, 7, 4, 5, 5, 6, 5, 6, 6, 7, 5, 6, 6, 7, 6, 7, 7, 8]"

fun pop_bytes :: "byte list \<Rightarrow> ulong \<Rightarrow> ulong" where
  "pop_bytes [] bits = bits"
| "pop_bytes (b # p) bits = pop_bytes p (bits + of_nat (bitsinbyte ! unat b))"

fun pop_align :: "nat \<Rightarrow> byte list \<Rightarrow> ulong \<Rightarrow> byte list \<times> ulong" where
  "pop_align addr [] bits = ([], bits)"
| "pop_align addr (b # p) bits =
     (if addr mod 4 \<noteq> 0 then pop_align (addr + 1) p (bits + of_nat (bitsinbyte ! unat b)) else (b # p, bits))"

fun load32 :: "byte list \<Rightarrow> uint" where
  "load32 [] = 0"
| "load32 (b # bs) = ucast b OR push_bit 8 (load32 bs)"

text \<open>The sums of four bits of a word, and of eight.\<close>

definition fold4 :: "uint \<Rightarrow> uint" where
  "fold4 aux =
     (let aux = aux - (drop_bit 1 aux AND 0x55555555)
      in (aux AND 0x33333333) + (drop_bit 2 aux AND 0x33333333))"

definition fold8 :: "uint \<Rightarrow> uint" where
  "fold8 aux = (aux + drop_bit 4 aux) AND 0x0F0F0F0F"

definition pop28 :: "byte list \<Rightarrow> uint" where
  "pop28 p =
     (let aux1 = fold4 (load32 (take 4 p));
          aux2 = fold4 (load32 (take 4 (drop 4 p)));
          aux3 = fold4 (load32 (take 4 (drop 8 p)));
          aux4 = fold4 (load32 (take 4 (drop 12 p)));
          aux5 = fold4 (load32 (take 4 (drop 16 p)));
          aux6 = fold4 (load32 (take 4 (drop 20 p)));
          aux7 = fold4 (load32 (take 4 (drop 24 p)))
      in drop_bit 24 ((fold8 aux1 + fold8 aux2 + fold8 aux3 + fold8 aux4 + fold8 aux5 + fold8 aux6 + fold8 aux7) * 0x01010101))"

function pop_words :: "byte list \<Rightarrow> ulong \<Rightarrow> byte list \<times> ulong" where
  "pop_words p bits = (if length p \<ge> 28 then pop_words (drop 28 p) (bits + ucast (pop28 p)) else (p, bits))"
  by auto
termination by (relation "measure (\<lambda>(p, _). length p)") auto

declare pop_words.simps [simp del]

definition redisPopcount :: "nat \<Rightarrow> byte list \<Rightarrow> ulong" where
  "redisPopcount addr s =
     (let (p, bits) = pop_align addr s 0;
          (p, bits) = pop_words p bits
      in pop_bytes p bits)"

text \<open>Skipping bytes up to the alignment: the rest, the position, and whether another byte was found.\<close>

fun skip_bytes :: "nat \<Rightarrow> byte \<Rightarrow> byte list \<Rightarrow> int \<Rightarrow> byte list \<times> int \<times> bool" where
  "skip_bytes addr skipval [] pos = ([], pos, False)"
| "skip_bytes addr skipval (c # p) pos =
     (if addr mod 8 \<noteq> 0 then
        if c \<noteq> skipval then (c # p, pos, True) else skip_bytes (addr + 1) skipval p (pos + 8)
      else (c # p, pos, False))"

fun load_le :: "byte list \<Rightarrow> ulong" where
  "load_le [] = 0"
| "load_le (b # bs) = ucast b OR push_bit 8 (load_le bs)"

function skip_words :: "ulong \<Rightarrow> byte list \<Rightarrow> int \<Rightarrow> byte list \<times> int" where
  "skip_words skipval p pos =
     (if length p \<ge> 8 then
        if load_le (take 8 p) \<noteq> skipval then (p, pos) else skip_words skipval (drop 8 p) (pos + 64)
      else (p, pos))"
  by auto
termination by (relation "measure (\<lambda>(_, p, _). length p)") auto

declare skip_words.simps [simp del]

fun load_word :: "nat \<Rightarrow> byte list \<Rightarrow> ulong \<Rightarrow> ulong" where
  "load_word 0 p word = word"
| "load_word (Suc n) p word =
     (case p of
        [] \<Rightarrow> load_word n [] (push_bit 8 word)
      | c # p \<Rightarrow> load_word n p (push_bit 8 word OR ucast c))"

fun scan_word :: "nat \<Rightarrow> ulong \<Rightarrow> ulong \<Rightarrow> bool \<Rightarrow> int \<Rightarrow> int option" where
  "scan_word 0 one word bt pos = None"
| "scan_word (Suc n) one word bt pos =
     (if one = 0 then None
      else if (one AND word \<noteq> 0) = bt then Some pos
      else scan_word n (drop_bit 1 one) word bt (pos + 1))"

text \<open>The last loop shifts \<^verbatim>\<open>one\<close> until it is 0, which takes 64 rounds; passing its end is the panic.\<close>

definition redisBitpos :: "nat \<Rightarrow> byte list \<Rightarrow> bool \<Rightarrow> int option" where
  "redisBitpos addr s bt =
     (let (p, pos, found) = skip_bytes addr (if bt then 0 else 0xff) s 0;
          (p, pos) = (if found then (p, pos) else skip_words (if bt then 0 else NOT 0) p pos);
          word = load_word 8 p 0
      in if bt \<and> word = 0 then Some (-1)
         else scan_word 64 (NOT (drop_bit 1 (NOT 0))) word bt pos)"

section \<open>Bit fields\<close>

definition set_one :: "byte list \<Rightarrow> ulong \<Rightarrow> ulong \<Rightarrow> byte list option" where
  "set_one p offset bitval = do {
     let byte = drop_bit 3 offset;
     let bit = 7 - (offset AND 0x7);
     byteval \<leftarrow> peek p (unat byte);
     let byteval = ucast byteval AND NOT (push_bit (unat bit) 1);
     let byteval = byteval OR push_bit (unat bit) bitval;
     poke p (unat byte) (ucast (byteval AND 0xff))
   }"

fun set_loop :: "nat \<Rightarrow> byte list \<Rightarrow> ulong \<Rightarrow> ulong \<Rightarrow> byte list option" where
  "set_loop 0 p offset value = Some p"
| "set_loop (Suc n) p offset value = do {
     mask \<leftarrow> shl 1 n;
     p \<leftarrow> set_one p offset (if value AND mask \<noteq> 0 then 1 else 0);
     set_loop n p (offset + 1) value
   }"

definition setUnsignedBitfield :: "byte list \<Rightarrow> ulong \<Rightarrow> nat \<Rightarrow> ulong \<Rightarrow> byte list option" where
  "setUnsignedBitfield p offset bits value = set_loop bits p offset value"

definition setSignedBitfield :: "byte list \<Rightarrow> ulong \<Rightarrow> nat \<Rightarrow> int \<Rightarrow> byte list option" where
  "setSignedBitfield p offset bits value = setUnsignedBitfield p offset bits (word_of_int value)"

fun get_loop :: "nat \<Rightarrow> byte list \<Rightarrow> ulong \<Rightarrow> ulong \<Rightarrow> ulong option" where
  "get_loop 0 p offset value = Some value"
| "get_loop (Suc n) p offset value = do {
     let byte = drop_bit 3 offset;
     let bit = 7 - (offset AND 0x7);
     byteval \<leftarrow> peek p (unat byte);
     let bitval = drop_bit (unat bit) (ucast byteval) AND 1;
     get_loop n p (offset + 1) (push_bit 1 value OR bitval)
   }"

definition getUnsignedBitfield :: "byte list \<Rightarrow> ulong \<Rightarrow> nat \<Rightarrow> ulong option" where
  "getUnsignedBitfield p offset bits = get_loop bits p offset 0"

definition getSignedBitfield :: "byte list \<Rightarrow> ulong \<Rightarrow> nat \<Rightarrow> int option" where
  "getSignedBitfield p offset bits = do {
     u \<leftarrow> getUnsignedBitfield p offset bits;
     top \<leftarrow> shl 1 (bits - 1);
     if u AND top \<noteq> 0 then do {
       high \<leftarrow> shl (-1) bits;
       Some (sint (u OR high))
     }
     else Some (sint u)
   }"

section \<open>Overflow\<close>

datatype owtype = BFOVERFLOW_WRAP | BFOVERFLOW_SAT | BFOVERFLOW_FAIL

text \<open>The result and the value written to \<^verbatim>\<open>*limit\<close>, for a \<^verbatim>\<open>limit\<close> that is not \<^verbatim>\<open>NULL\<close>.\<close>

definition checkUnsignedBitfieldOverflow :: "ulong \<Rightarrow> int \<Rightarrow> nat \<Rightarrow> owtype \<Rightarrow> (int \<times> ulong option) option" where
  "checkUnsignedBitfieldOverflow value incr bits owtype = do {
     max \<leftarrow> (if bits = 64 then Some (-1) else do { m \<leftarrow> shl 1 bits; Some (m - 1) });
     let maxincr = sint (max - value);
     let minincr = sint (- value);
     let handle_wrap = do {
       mask \<leftarrow> shl (-1) bits;
       let res = value + word_of_int incr;
       Some (1, Some (res AND NOT mask))
     };
     if value > max \<or> incr > 0 \<and> incr > maxincr then
       (case owtype of BFOVERFLOW_WRAP \<Rightarrow> handle_wrap | BFOVERFLOW_SAT \<Rightarrow> Some (1, Some max) | BFOVERFLOW_FAIL \<Rightarrow> Some (1, None))
     else if incr < 0 \<and> incr < minincr then
       (case owtype of BFOVERFLOW_WRAP \<Rightarrow> handle_wrap | BFOVERFLOW_SAT \<Rightarrow> Some (-1, Some 0) | BFOVERFLOW_FAIL \<Rightarrow> Some (-1, None))
     else Some (0, None)
   }"

definition checkSignedBitfieldOverflow :: "int \<Rightarrow> int \<Rightarrow> nat \<Rightarrow> owtype \<Rightarrow> (int \<times> int option) option" where
  "checkSignedBitfieldOverflow value incr bits owtype = do {
     max \<leftarrow> (if bits = 64 then Some (2 ^ 63 - 1) else if bits - 1 < 63 then Some (2 ^ (bits - 1) - 1) else None);
     min \<leftarrow> int64 (- max - 1);
     maxincr \<leftarrow> int64 (max - value);
     minincr \<leftarrow> int64 (min - value);
     let handle_wrap = do {
       mask \<leftarrow> shl (-1) bits;
       msb \<leftarrow> shl 1 (bits - 1);
       let c = word_of_int value + word_of_int incr;
       Some (1, Some (sint (if c AND msb \<noteq> 0 then c OR mask else c AND NOT mask)))
     };
     if value > max \<or> bits \<noteq> 64 \<and> incr > maxincr \<or> value \<ge> 0 \<and> incr > 0 \<and> incr > maxincr then
       (case owtype of BFOVERFLOW_WRAP \<Rightarrow> handle_wrap | BFOVERFLOW_SAT \<Rightarrow> Some (1, Some max) | BFOVERFLOW_FAIL \<Rightarrow> Some (1, None))
     else if value < min \<or> bits \<noteq> 64 \<and> incr < minincr \<or> value < 0 \<and> incr < 0 \<and> incr < minincr then
       (case owtype of BFOVERFLOW_WRAP \<Rightarrow> handle_wrap | BFOVERFLOW_SAT \<Rightarrow> Some (-1, Some min) | BFOVERFLOW_FAIL \<Rightarrow> Some (-1, None))
     else Some (0, None)
   }"

section \<open>The operations of BITFIELD\<close>

datatype opcode = BITFIELDOP_GET | BITFIELDOP_SET | BITFIELDOP_INCRBY

record bitfieldOp =
  bf_offset :: ulong
  bf_i64 :: int
  bf_opcode :: opcode
  bf_owtype :: owtype
  bf_bits :: nat
  bf_sign :: bool

text \<open>The reply is an integer or null. On an overflow of type \<^verbatim>\<open>FAIL\<close> the variable \<^verbatim>\<open>wrapped\<close> is copied before it is
  set; its value is a parameter, and it is not used afterwards.\<close>

definition signed_op :: "int \<Rightarrow> bitfieldOp \<Rightarrow> byte list \<Rightarrow> (int option \<times> byte list) option" where
  "signed_op junk thisop p = do {
     oldval \<leftarrow> getSignedBitfield p (bf_offset thisop) (bf_bits thisop);
     (overflow, newval, retval) \<leftarrow>
       (if bf_opcode thisop = BITFIELDOP_INCRBY then do {
          newval \<leftarrow> int64 (oldval + bf_i64 thisop);
          (overflow, wrapped) \<leftarrow> checkSignedBitfieldOverflow oldval (bf_i64 thisop) (bf_bits thisop) (bf_owtype thisop);
          let newval = (if overflow \<noteq> 0 then case_option junk id wrapped else newval);
          Some (overflow, newval, newval)
        }
        else do {
          let newval = bf_i64 thisop;
          (overflow, wrapped) \<leftarrow> checkSignedBitfieldOverflow newval 0 (bf_bits thisop) (bf_owtype thisop);
          let newval = (if overflow \<noteq> 0 then case_option junk id wrapped else newval);
          Some (overflow, newval, oldval)
        });
     if \<not> (overflow \<noteq> 0 \<and> bf_owtype thisop = BFOVERFLOW_FAIL) then do {
       p \<leftarrow> setSignedBitfield p (bf_offset thisop) (bf_bits thisop) newval;
       Some (Some retval, p)
     }
     else Some (None, p)
   }"

definition unsigned_op :: "ulong \<Rightarrow> bitfieldOp \<Rightarrow> byte list \<Rightarrow> (int option \<times> byte list) option" where
  "unsigned_op junk thisop p = do {
     oldval \<leftarrow> getUnsignedBitfield p (bf_offset thisop) (bf_bits thisop);
     (overflow, newval, retval) \<leftarrow>
       (if bf_opcode thisop = BITFIELDOP_INCRBY then do {
          let newval = oldval + word_of_int (bf_i64 thisop);
          (overflow, wrapped) \<leftarrow> checkUnsignedBitfieldOverflow oldval (bf_i64 thisop) (bf_bits thisop) (bf_owtype thisop);
          let newval = (if overflow \<noteq> 0 then case_option junk id wrapped else newval);
          Some (overflow, newval, newval)
        }
        else do {
          let newval = word_of_int (bf_i64 thisop);
          (overflow, wrapped) \<leftarrow> checkUnsignedBitfieldOverflow newval 0 (bf_bits thisop) (bf_owtype thisop);
          let newval = (if overflow \<noteq> 0 then case_option junk id wrapped else newval);
          Some (overflow, newval, oldval)
        });
     if \<not> (overflow \<noteq> 0 \<and> bf_owtype thisop = BFOVERFLOW_FAIL) then do {
       p \<leftarrow> setUnsignedBitfield p (bf_offset thisop) (bf_bits thisop) newval;
       Some (Some (sint retval), p)
     }
     else Some (None, p)
   }"

text \<open>\<^verbatim>\<open>GET\<close> copies up to nine bytes to a buffer of zeroes. A missing key has no bytes.\<close>

definition get_buf :: "byte list \<Rightarrow> nat \<Rightarrow> byte list" where
  "get_buf src byte = take 9 (take 9 (drop byte src) @ replicate 9 0)"

definition get_op :: "bitfieldOp \<Rightarrow> byte list \<Rightarrow> int option" where
  "get_op thisop src = do {
     let byte = drop_bit 3 (bf_offset thisop);
     let buf = get_buf src (unat byte);
     if bf_sign thisop then getSignedBitfield buf (bf_offset thisop - byte * 8) (bf_bits thisop)
     else do {
       val \<leftarrow> getUnsignedBitfield buf (bf_offset thisop - byte * 8) (bf_bits thisop);
       Some (sint val)
     }
   }"

definition bitfield_op :: "int \<Rightarrow> ulong \<Rightarrow> bitfieldOp \<Rightarrow> byte list \<Rightarrow> (int option \<times> byte list) option" where
  "bitfield_op junk ujunk thisop p =
     (if bf_opcode thisop = BITFIELDOP_SET \<or> bf_opcode thisop = BITFIELDOP_INCRBY then
        if bf_sign thisop then signed_op junk thisop p else unsigned_op ujunk thisop p
      else do { val \<leftarrow> get_op thisop p; Some (Some val, p) })"

end
