(* ===== verification/Bitops_Fields.thy ===== *)
theory Bitops_Fields
  imports Bitops
begin

text \<open>
  Correctness of the bit fields. A bitmap is a sequence of bits, the highest bit of the first byte first. Bit fields
  are numbers in that sequence, and the operations of \<^verbatim>\<open>BITFIELD\<close> are arithmetic on them with the three ways to
  treat an overflow.
\<close>

unbundle bit_operations_syntax

section \<open>Bitmaps\<close>

definition bm :: "byte list \<Rightarrow> nat \<Rightarrow> bool" where
  "bm p k = bit (p ! (k div 8)) (7 - k mod 8)"

lemma offset_byte: "unat (drop_bit 3 offset) = unat offset div 8" for offset :: ulong
  by (simp add: drop_bit_eq_div unat_div_distrib)

lemma offset_bit: "unat (7 - (offset AND 0x7)) = 7 - unat offset mod 8" for offset :: ulong
proof -
  have m: "(0x7 :: ulong) = mask 3" by (simp add: mask_eq_exp_minus_1)
  have "unat (offset AND 0x7) = unat offset mod 8" unfolding m
    by (simp add: take_bit_eq_mask [symmetric] take_bit_eq_mod unat_mod_distrib)
  moreover have "unat (7 - w) = 7 - unat w" if "unat w < 8" for w :: ulong
    using that unat_sub [of w 7] by (simp add: word_le_nat_alt)
  ultimately show ?thesis by simp
qed

lemma set_one_ok:
  assumes o: "unat offset < 8 * length p" and v: "v = (if b then 1 else 0)"
  shows "\<exists>p'. set_one p offset v = Some p' \<and> length p' = length p \<and>
    (\<forall>k < 8 * length p. bm p' k = (if k = unat offset then b else bm p k))"
proof -
  let ?o = "unat offset"
  let ?i = "?o div 8" and ?j = "7 - ?o mod 8"
  have i: "?i < length p" using o by (simp add: less_mult_imp_div_less)
  define w where "w = (ucast ((ucast (p ! ?i) AND NOT (push_bit ?j 1) OR push_bit ?j v) AND 0xff) :: byte)"
  have s: "set_one p offset v = Some (p[?i := w])"
    using i by (simp add: set_one_def peek_def poke_def offset_byte offset_bit w_def Let_def)
  have m: "(0xff :: ulong) = mask 8" by (simp add: mask_eq_exp_minus_1)
  have w: "bit w n = (if n = ?j then b else bit (p ! ?i) n)" if "n < 8" for n
    unfolding w_def m v using that by (auto simp: bit_simps bit_1_iff simp del: push_bit_of_1)
  have "bm (p[?i := w]) k = (if k = ?o then b else bm p k)" if "k < 8 * length p" for k
  proof (cases "k div 8 = ?i")
    case True
    have "7 - k mod 8 = ?j \<longleftrightarrow> k = ?o"
    proof
      assume "7 - k mod 8 = ?j"
      moreover have "k mod 8 \<le> 7" "?o mod 8 \<le> 7" by simp_all
      ultimately have "k mod 8 = ?o mod 8" by linarith
      with True show "k = ?o" by (metis div_mult_mod_eq)
    qed simp
    then show ?thesis using True i w [of "7 - k mod 8"] by (simp add: bm_def)
  next
    case False
    then show ?thesis by (auto simp: bm_def)
  qed
  with s show ?thesis by (intro exI [of _ "p[?i := w]"]) simp
qed


section \<open>Fields\<close>

lemma mask_one: "n < 64 \<Longrightarrow> v AND push_bit n 1 \<noteq> 0 \<longleftrightarrow> bit v n" for v :: ulong
proof -
  assume "n < 64"
  then have b: "bit (v AND push_bit n 1) i \<longleftrightarrow> i = n \<and> bit v n" for i by (simp only: bit_and_iff bit_push_bit_iff bit_1_iff) auto
  show ?thesis unfolding word_zero_iff b by blast
qed

lemma set_loop_ok:
  assumes "n \<le> 64" "unat offset + n \<le> 8 * length p" "unat offset + n < 2 ^ 64"
  shows "\<exists>p'. set_loop n p offset x = Some p' \<and> length p' = length p \<and>
    (\<forall>k < 8 * length p. bm p' k = (if unat offset \<le> k \<and> k < unat offset + n then bit x (unat offset + n - 1 - k) else bm p k))"
  using assms
proof (induction n arbitrary: p offset)
  case 0
  then show ?case by auto
next
  case (Suc n)
  let ?v = "if x AND push_bit n 1 \<noteq> 0 then 1 else 0"
  have v: "?v = (if bit x n then 1 else 0)" using mask_one [of n x] Suc.prems(1) by simp
  have "unat offset < 8 * length p" using Suc.prems(2) by simp
  from set_one_ok [OF this v] obtain p1 where p1: "set_one p offset ?v = Some p1" "length p1 = length p"
    "\<forall>k < 8 * length p. bm p1 k = (if k = unat offset then bit x n else bm p k)" by blast
  have u: "unat (offset + 1) = unat offset + 1" using Suc.prems(3) by (simp add: unat_plus_1)
  obtain p' where p': "set_loop n p1 (offset + 1) x = Some p'" "length p' = length p1"
    "\<forall>k < 8 * length p1. bm p' k = (if unat offset + 1 \<le> k \<and> k < unat offset + 1 + n then bit x (unat offset + 1 + n - 1 - k) else bm p1 k)"
    using Suc.IH [of "offset + 1" p1] Suc.prems p1(2) unfolding u by auto
  have "set_loop (Suc n) p offset x = Some p'" using p1(1) p'(1) Suc.prems(1) by (simp add: shl_def)
  moreover have "bm p' k = (if unat offset \<le> k \<and> k < unat offset + Suc n then bit x (unat offset + Suc n - 1 - k) else bm p k)"
    if "k < 8 * length p" for k
    using p'(3) p1(2,3) that by (cases "k = unat offset") auto
  ultimately show ?case using p'(2) p1(2) by auto
qed

lemma setUnsigned_ok:
  assumes "bits \<le> 64" "unat offset + bits \<le> 8 * length p" "unat offset + bits < 2 ^ 64"
  obtains p' where "setUnsignedBitfield p offset bits x = Some p'" "length p' = length p"
    "\<And>k. k < 8 * length p \<Longrightarrow> bm p' k = (if unat offset \<le> k \<and> k < unat offset + bits then bit x (unat offset + bits - 1 - k) else bm p k)"
  using set_loop_ok [OF assms, of x] unfolding setUnsignedBitfield_def by blast

definition field :: "byte list \<Rightarrow> nat \<Rightarrow> nat \<Rightarrow> ulong" where
  "field p k n = horner_sum of_bool 2 (map (bm p) (rev [k..<k + n]))"

lemma bit_field: "bit (field p k n) i \<longleftrightarrow> i < n \<and> i < 64 \<and> bm p (k + n - 1 - i)"
  by (auto simp: field_def bit_horner_sum_bit_iff rev_nth)

lemma get_loop_ok:
  assumes "n \<le> 64" "unat offset + n \<le> 8 * length p" "unat offset + n < 2 ^ 64"
  shows "get_loop n p offset v = Some (push_bit n v OR field p (unat offset) n)"
  using assms
proof (induction n arbitrary: offset v)
  case 0
  then show ?case by (simp add: field_def)
next
  case (Suc n)
  let ?o = "unat offset"
  have i: "?o div 8 < length p" using Suc.prems(2) by (simp add: less_mult_imp_div_less)
  define b where "b = (drop_bit (7 - ?o mod 8) (ucast (p ! (?o div 8))) AND 1 :: ulong)"
  have b: "bit b i \<longleftrightarrow> i = 0 \<and> bm p ?o" for i
    unfolding b_def bm_def by (auto simp: bit_simps bit_1_iff)
  have u: "unat (offset + 1) = ?o + 1" using Suc.prems(3) by (simp add: unat_plus_1)
  have "get_loop (Suc n) p offset v = get_loop n p (offset + 1) (push_bit 1 v OR b)"
    using i by (simp add: peek_def offset_byte offset_bit b_def Let_def)
  also have "\<dots> = Some (push_bit n (push_bit 1 v OR b) OR field p (?o + 1) n)" using Suc.IH [of "offset + 1"] Suc.prems unfolding u by simp
  also have "push_bit n (push_bit 1 v OR b) OR field p (?o + 1) n = push_bit (Suc n) v OR field p ?o (Suc n)"
  proof (rule bit_word_eqI)
    fix i assume i: "i < LENGTH(64)"
    then have [simp]: "n < 64" "i < 64" using Suc.prems(1) by simp_all
    show "bit (push_bit n (push_bit 1 v OR b) OR field p (?o + 1) n) i \<longleftrightarrow> bit (push_bit (Suc n) v OR field p ?o (Suc n)) i"
    proof (cases "i = n")
      case True
      then show ?thesis by (simp add: bit_or_iff bit_push_bit_iff bit_field b)
    next
      case False
      then show ?thesis by (auto simp: bit_or_iff bit_push_bit_iff bit_field b)
    qed
  qed
  finally show ?case .
qed


lemma getUnsigned_ok:
  assumes "n \<le> 64" "unat offset + n \<le> 8 * length p" "unat offset + n < 2 ^ 64"
  shows "getUnsignedBitfield p offset n = Some (field p (unat offset) n)"
  using get_loop_ok [OF assms] by (simp add: getUnsignedBitfield_def)

text \<open>The number that the last \<^term>\<open>n\<close> bits of an integer denote, with or without a sign, and the number in a field.\<close>

definition narrow :: "bool \<Rightarrow> nat \<Rightarrow> int \<Rightarrow> int" where
  "narrow s n x = (if s then signed_take_bit (n - 1) x else take_bit n x)"

definition fval :: "bool \<Rightarrow> byte list \<Rightarrow> nat \<Rightarrow> nat \<Rightarrow> int" where
  "fval s p k n = narrow s n (uint (field p k n))"

lemma field_take: "take_bit n (field p k n) = field p k n"
  by (rule bit_word_eqI) (auto simp: bit_take_bit_iff bit_field)

lemma fval_unsigned: "fval False p k n = uint (field p k n)"
  unfolding fval_def narrow_def by (subst (2) field_take [symmetric]) (simp add: unsigned_take_bit_eq)

lemma getSigned_ok:
  assumes "0 < n" "n < 64" "unat offset + n \<le> 8 * length p" "unat offset + n < 2 ^ 64"
  shows "getSignedBitfield p offset n = Some (fval True p (unat offset) n)"
proof -
  let ?u = "field p (unat offset) n"
  have g: "getUnsignedBitfield p offset n = Some ?u" using assms by (intro getUnsigned_ok) simp_all
  have t: "?u AND push_bit (n - 1) 1 \<noteq> 0 \<longleftrightarrow> bit ?u (n - 1)" using assms by (intro mask_one) simp
  have hi: "sint w = signed_take_bit (n - 1) (uint ?u)"
    if "\<And>i. i < 64 \<Longrightarrow> bit w i = bit ?u (min i (n - 1))" for w :: ulong
  proof (rule bit_eqI)
    fix j
    have "bit (sint w) j = bit w (min j 63)" by (auto simp: bit_sint_iff min_def dest: bit_imp_le_length)
    also have "\<dots> = bit ?u (min (min j 63) (n - 1))" by (rule that) simp
    also have "min (min j 63) (n - 1) = min j (n - 1)" using assms(2) by simp
    finally show "bit (sint w) j = bit (signed_take_bit (n - 1) (uint ?u)) j"
      using assms(2) by (auto simp: bit_signed_take_bit_iff bit_uint_iff min.commute dest: bit_imp_le_length)
  qed
  have h: "sint (?u OR push_bit n (-1)) = signed_take_bit (n - 1) (uint ?u)" if "bit ?u (n - 1)"
  proof (rule hi)
    fix i :: nat assume "i < 64"
    then show "bit (?u OR push_bit n (-1)) i = bit ?u (min i (n - 1))"
      using that assms(1) by (cases "i < n - 1"; cases "i = n - 1")
        (auto simp: bit_or_iff bit_not_iff bit_mask_iff min_def)
  qed
  have l: "sint ?u = signed_take_bit (n - 1) (uint ?u)" if "\<not> bit ?u (n - 1)"
  proof (rule hi)
    fix i :: nat assume "i < 64"
    then show "bit ?u i = bit ?u (min i (n - 1))"
      using that assms(1) by (cases "i < n - 1"; cases "i = n - 1") (auto simp: bit_field min_def)
  qed
  show ?thesis using assms(1,2) h l t unfolding getSignedBitfield_def g fval_def narrow_def by (auto simp: shl_def)
qed

lemma field_cong: "(\<And>j. k \<le> j \<Longrightarrow> j < k + n \<Longrightarrow> bm p j = bm q j) \<Longrightarrow> field p k n = field q k n"
  unfolding field_def by (intro arg_cong [where f = "horner_sum of_bool 2"] map_cong) auto

text \<open>A write of a field: the bits of the field are the last bits of the number, all others stay.\<close>

definition written :: "byte list \<Rightarrow> nat \<Rightarrow> nat \<Rightarrow> byte list \<Rightarrow> bool" where
  "written p k n q \<longleftrightarrow> length q = length p \<and> (\<forall>j < 8 * length p. j < k \<or> k + n \<le> j \<longrightarrow> bm q j = bm p j)"

lemma setUnsigned_written:
  assumes "n \<le> 64" "unat offset + n \<le> 8 * length p" "unat offset + n < 2 ^ 64"
  obtains q where "setUnsignedBitfield p offset n x = Some q" "written p (unat offset) n q"
    "field q (unat offset) n = take_bit n x"
proof (rule setUnsigned_ok [OF assms, of x])
  fix q assume q: "setUnsignedBitfield p offset n x = Some q" "length q = length p"
    "\<And>k. k < 8 * length p \<Longrightarrow> bm q k = (if unat offset \<le> k \<and> k < unat offset + n then bit x (unat offset + n - 1 - k) else bm p k)"
  have "written p (unat offset) n q" using q(2,3) by (auto simp: written_def)
  moreover have "field q (unat offset) n = take_bit n x"
  proof (rule bit_word_eqI)
    fix i assume "i < LENGTH(64)"
    moreover have "bm q (unat offset + n - 1 - i) = bit x i" if "i < n"
      using q(3) [of "unat offset + n - 1 - i"] assms(2) that by auto
    ultimately show "bit (field q (unat offset) n) i = bit (take_bit n x) i" by (auto simp: bit_field bit_take_bit_iff)
  qed
  ultimately show ?thesis using q(1) that by blast
qed

lemma narrow_take: "0 < n \<Longrightarrow> narrow s n (take_bit n x) = narrow s n x"
  by (auto simp: narrow_def intro!: bit_eqI) (auto simp: bit_signed_take_bit_iff bit_take_bit_iff min_def)

lemma fval_set:
  assumes "0 < n" "n \<le> 64" "field q k n = take_bit n (word_of_int x)"
  shows "fval s q k n = narrow s n x"
proof -
  have "uint (take_bit n (word_of_int x :: ulong)) = take_bit n x"
    using assms(2) by (simp only: unsigned_take_bit_eq uint_word_of_int_eq take_bit_take_bit) (simp add: min_def)
  then show ?thesis unfolding fval_def assms(3) by (simp add: narrow_take assms(1))
qed


section \<open>Overflow\<close>

definition bf_min :: "bool \<Rightarrow> nat \<Rightarrow> int" where
  "bf_min s n = (if s then - (2 ^ (n - 1)) else 0)"

definition bf_max :: "bool \<Rightarrow> nat \<Rightarrow> int" where
  "bf_max s n = (if s then 2 ^ (n - 1) - 1 else 2 ^ n - 1)"

abbreviation fits :: "bool \<Rightarrow> nat \<Rightarrow> int \<Rightarrow> bool" where
  "fits s n x \<equiv> bf_min s n \<le> x \<and> x \<le> bf_max s n"

text \<open>What a number becomes in a field: itself when it fits, and otherwise what the overflow type says.\<close>

fun fit :: "bool \<Rightarrow> nat \<Rightarrow> owtype \<Rightarrow> int \<Rightarrow> int option" where
  "fit s n BFOVERFLOW_WRAP x = Some (narrow s n x)"
| "fit s n BFOVERFLOW_SAT x = Some (max (bf_min s n) (min (bf_max s n) x))"
| "fit s n BFOVERFLOW_FAIL x = (if fits s n x then Some x else None)"

lemma narrow_fits: "0 < n \<Longrightarrow> fits s n (narrow s n x)"
  by (auto simp: narrow_def bf_min_def bf_max_def signed_take_bit_int_greater_eq_minus_exp signed_take_bit_int_less_exp
      take_bit_int_less_exp zle_diff1_eq)

lemma narrow_same: "0 < n \<Longrightarrow> fits s n x \<Longrightarrow> narrow s n x = x"
  by (auto simp: narrow_def bf_min_def bf_max_def signed_take_bit_int_eq_self_iff take_bit_int_eq_self_iff)

lemma fit_same: "0 < n \<Longrightarrow> fits s n x \<Longrightarrow> fit s n ow x = Some x"
  by (cases ow) (auto simp: narrow_same)

lemma bf_min_max: "bf_min s n \<le> bf_max s n"
  by (simp add: bf_min_def bf_max_def)

lemma fit_fits: "0 < n \<Longrightarrow> fit s n ow x = Some y \<Longrightarrow> fits s n y"
  by (cases ow) (auto simp: narrow_fits bf_min_max split: if_splits)

lemma checkUnsigned_limits:
  assumes n: "n < 64" and v: "uint v < 2 ^ n"
  shows "sint ((push_bit n 1 - 1) - v) = 2 ^ n - 1 - uint v" and "sint (- v) = - uint (v :: ulong)"
proof -
  have p: "(2 :: int) ^ n \<le> 2 ^ 63" using n by (intro power_increasing) auto
  have v0: "0 \<le> uint v" by simp
  have "push_bit n 1 - 1 - v = word_of_int (2 ^ n - 1 - uint v)" by (simp add: push_bit_eq_mult word_of_int_2p)
  then show "sint ((push_bit n 1 - 1) - v) = 2 ^ n - 1 - uint v" using v v0 p by (simp only: ) (intro sint_word_of_int_64; linarith)
  have "- v = word_of_int (- uint v)" by simp
  then show "sint (- v) = - uint v" using v v0 p by (simp only: ) (intro sint_word_of_int_64; linarith)
qed

lemma uint_mask64: "n < 64 \<Longrightarrow> uint (push_bit n 1 - 1 :: ulong) = 2 ^ n - 1"
proof -
  assume n: "n < 64"
  then have p: "(2 :: int) ^ n < 2 ^ 64" by (intro power_strict_increasing) auto
  have "push_bit n 1 - 1 = (word_of_int (2 ^ n - 1) :: ulong)" by (simp add: push_bit_eq_mult word_of_int_2p)
  then show ?thesis using p by (simp only: uint_word_of_int_eq) (simp add: take_bit_int_eq_self_iff)
qed

lemma wrap_mask: "x AND NOT (push_bit n (-1)) = take_bit n x" for x :: ulong
  by (rule bit_word_eqI) (auto simp: bit_simps)

lemma checkUnsigned_ok:
  assumes n: "0 < n" "n < 64" and v: "uint v < 2 ^ n \<or> incr = 0"
  shows "checkUnsignedBitfieldOverflow v incr n ow =
    Some (if fits False n (uint v + incr) then (0, None)
      else (if uint v + incr < 0 \<and> ow \<noteq> BFOVERFLOW_WRAP then -1 else 1, map_option word_of_int (fit False n ow (uint v + incr))))"
proof -
  let ?m = "push_bit n 1 - 1 :: ulong"
  let ?r = "if fits False n (uint v + incr) then (0, None)
      else (if uint v + incr < 0 \<and> ow \<noteq> BFOVERFLOW_WRAP then -1 else 1, map_option word_of_int (fit False n ow (uint v + incr)))"
  have w: "(v + word_of_int incr) AND NOT (push_bit n (-1)) = word_of_int (narrow False n (uint v + incr))"
    unfolding wrap_mask narrow_def by (simp add: take_bit_of_int [symmetric])
  have m: "?m = word_of_int (bf_max False n)" by (simp add: bf_max_def push_bit_eq_mult word_of_int_2p)
  have over: "v > ?m \<or> incr > 0 \<and> incr > sint (?m - v) \<longleftrightarrow> uint v + incr > bf_max False n"
  proof (cases "uint v < 2 ^ n")
    case True
    then have "\<not> v > ?m" "sint (?m - v) = 2 ^ n - 1 - uint v"
      using n uint_mask64 checkUnsigned_limits(1) by (auto simp: word_less_def)
    then show ?thesis using True by (auto simp: bf_max_def)
  next
    case False
    then have "v > ?m" "incr = 0" using n v uint_mask64 by (auto simp: word_less_def)
    then show ?thesis using False by (simp add: bf_max_def)
  qed
  have under: "incr < 0 \<and> incr < sint (- v) \<longleftrightarrow> uint v + incr < 0"
  proof (cases "uint v < 2 ^ n")
    case True
    then have "sint (- v) = - uint v" using n by (intro checkUnsigned_limits(2))
    moreover have "0 \<le> uint v" by simp
    ultimately show ?thesis by linarith
  next
    case False
    then show ?thesis using v by (simp add: not_less)
  qed
  have lo: "bf_min False n = 0" "0 \<le> bf_max False n" by (simp_all add: bf_min_def bf_max_def)
  let ?w = "Some (1, Some ((v + word_of_int incr) AND NOT (push_bit n (-1)))) :: (int \<times> ulong option) option"
  have e: "checkUnsignedBitfieldOverflow v incr n ow =
    (if v > ?m \<or> incr > 0 \<and> incr > sint (?m - v) then
       (case ow of BFOVERFLOW_WRAP \<Rightarrow> ?w | BFOVERFLOW_SAT \<Rightarrow> Some (1, Some ?m) | BFOVERFLOW_FAIL \<Rightarrow> Some (1, None))
     else if incr < 0 \<and> incr < sint (- v) then
       (case ow of BFOVERFLOW_WRAP \<Rightarrow> ?w | BFOVERFLOW_SAT \<Rightarrow> Some (-1, Some 0) | BFOVERFLOW_FAIL \<Rightarrow> Some (-1, None))
     else Some (0, None))"
    using n by (cases ow) (simp_all add: checkUnsignedBitfieldOverflow_def Let_def shl_def)
  show ?thesis unfolding e over under w unfolding m using lo by (cases ow) auto
qed


lemma sign_wrap:
  assumes "0 < n" "n < 64"
  shows "sint (if c AND push_bit (n - 1) 1 \<noteq> 0 then c OR push_bit n (-1) else c AND NOT (push_bit n (-1))) =
    signed_take_bit (n - 1) (uint (c :: ulong))" (is "sint ?w = _")
proof (rule bit_eqI)
  fix j
  have m: "c AND push_bit (n - 1) 1 \<noteq> 0 \<longleftrightarrow> bit c (n - 1)" using assms by (intro mask_one) simp
  have b: "bit ?w i = bit c (min i (n - 1))" if "i < 64" for i
    using that assms unfolding m wrap_mask
    by (cases "i < n - 1"; cases "i = n - 1") (auto simp: bit_or_iff bit_not_iff bit_mask_iff bit_take_bit_iff min_def)
  have "bit (sint ?w) j = bit ?w (min j 63)" by (auto simp: bit_sint_iff min_def dest: bit_imp_le_length)
  also have "\<dots> = bit c (min (min j 63) (n - 1))" by (rule b) simp
  also have "min (min j 63) (n - 1) = min j (n - 1)" using assms(2) by simp
  finally show "bit (sint ?w) j = bit (signed_take_bit (n - 1) (uint c)) j"
    using assms(2) by (auto simp: bit_signed_take_bit_iff bit_uint_iff min.commute dest: bit_imp_le_length)
qed

lemma int64_limits:
  assumes "1 \<le> e" "e \<le> 2 ^ 62" "e - 2 ^ 63 \<le> v" "v \<le> 2 ^ 63 - e"
  shows "int64 (- (e - 1) - 1) = Some (- e)" "int64 (e - 1 - v) = Some (e - 1 - v)" "int64 (- e - v) = Some (- e - v)"
  using assms by (auto simp: int64_def)

lemma checkSigned_ok:
  assumes n: "0 < n" "n < 64" and v: "fits True n v \<or> incr = 0"
    and i: "2 ^ (n - 1) - 2 ^ 63 \<le> v" "v \<le> 2 ^ 63 - 2 ^ (n - 1)"
  shows "checkSignedBitfieldOverflow v incr n ow =
    Some (if fits True n (v + incr) then (0, None)
      else (if v + incr < bf_min True n \<and> ow \<noteq> BFOVERFLOW_WRAP then -1 else 1, fit True n ow (v + incr)))"
proof -
  have p: "(2 :: int) ^ (n - 1) \<le> 2 ^ 62" "(1 :: int) \<le> 2 ^ (n - 1)" using n by (intro power_increasing; simp) simp
  let ?M = "bf_max True n"
  let ?L = "bf_min True n"
  have lims: "?M = 2 ^ (n - 1) - 1" "?L = - (2 ^ (n - 1))" by (simp_all add: bf_max_def bf_min_def)
  let ?c = "word_of_int v + word_of_int incr :: ulong"
  let ?w = "Some (1, Some (sint (if ?c AND push_bit (n - 1) 1 \<noteq> 0 then ?c OR push_bit n (-1) else ?c AND NOT (push_bit n (-1)))))
    :: (int \<times> int option) option"
  have "uint ?c = take_bit 64 (v + incr)" by (simp only: of_int_add [symmetric] uint_word_of_int_eq) simp
  then have w: "?w = Some (1, Some (narrow True n (v + incr)))"
    unfolding sign_wrap [OF n] using n by (auto simp: narrow_def signed_take_bit_take_bit)
  have mx: "(if n = 64 then Some (2 ^ 63 - 1) else if n - 1 < 63 then Some (2 ^ (n - 1) - 1) else None) = Some ?M"
    using n by (auto simp: lims)
  have sh: "n \<noteq> 64" "shl (-1) n = Some (push_bit n (-1))" "shl 1 (n - 1) = Some (push_bit (n - 1) 1)"
    using n by (auto simp: shl_def)
  have "int64 (- ?M - 1) = Some ?L" "int64 (?M - v) = Some (?M - v)" "int64 (?L - v) = Some (?L - v)"
    using int64_limits [OF p(2,1) i] unfolding lims by simp_all
  then have e: "checkSignedBitfieldOverflow v incr n ow =
    (if v > ?M \<or> n \<noteq> 64 \<and> incr > ?M - v \<or> v \<ge> 0 \<and> incr > 0 \<and> incr > ?M - v then
       (case ow of BFOVERFLOW_WRAP \<Rightarrow> ?w | BFOVERFLOW_SAT \<Rightarrow> Some (1, Some ?M) | BFOVERFLOW_FAIL \<Rightarrow> Some (1, None))
     else if v < ?L \<or> n \<noteq> 64 \<and> incr < ?L - v \<or> v < 0 \<and> incr < 0 \<and> incr < ?L - v then
       (case ow of BFOVERFLOW_WRAP \<Rightarrow> ?w | BFOVERFLOW_SAT \<Rightarrow> Some (-1, Some ?L) | BFOVERFLOW_FAIL \<Rightarrow> Some (-1, None))
     else Some (0, None))"
    using sh unfolding checkSignedBitfieldOverflow_def Let_def mx by (cases ow) simp_all
  have over: "v > ?M \<or> n \<noteq> 64 \<and> incr > ?M - v \<or> v \<ge> 0 \<and> incr > 0 \<and> incr > ?M - v \<longleftrightarrow> v + incr > ?M"
    using n v by auto
  have under: "v < ?L \<or> n \<noteq> 64 \<and> incr < ?L - v \<or> v < 0 \<and> incr < 0 \<and> incr < ?L - v \<longleftrightarrow> v + incr < ?L"
    using n v by auto
  have "?L \<le> ?M" by (rule bf_min_max)
  then show ?thesis unfolding e over under w by (cases ow) auto
qed


section \<open>BITFIELD\<close>

lemma fval_fits: "0 < n \<Longrightarrow> fits s n (fval s p k n)"
  unfolding fval_def by (rule narrow_fits)

lemma fit_None: "0 < n \<Longrightarrow> fit s n ow x = None \<longleftrightarrow> \<not> fits s n x \<and> ow = BFOVERFLOW_FAIL"
  by (cases ow) auto

lemma setUnsigned_fit:
  assumes "0 < n" "n \<le> 64" "unat offset + n \<le> 8 * length p" "unat offset + n < 2 ^ 64" "fit s n ow x = Some y"
  obtains q where "setUnsignedBitfield p offset n (word_of_int y) = Some q" "written p (unat offset) n q"
    "fval s q (unat offset) n = y"
proof (rule setUnsigned_written [OF assms(2-4), of "word_of_int y"])
  fix q assume q: "setUnsignedBitfield p offset n (word_of_int y) = Some q" "written p (unat offset) n q"
    "field q (unat offset) n = take_bit n (word_of_int y)"
  have "fval s q (unat offset) n = narrow s n y" using assms(1,2) q(3) by (rule fval_set)
  also have "\<dots> = y" using assms(1,5) by (intro narrow_same fit_fits)
  finally show ?thesis using q that by blast
qed

text \<open>The number that an operation computes before the overflow check: \<^verbatim>\<open>SET\<close> on an unsigned field converts its argument to
  \<^verbatim>\<open>uint64_t\<close> first.\<close>

definition bf_wanted :: "bitfieldOp \<Rightarrow> byte list \<Rightarrow> int" where
  "bf_wanted thisop p =
     (if bf_opcode thisop = BITFIELDOP_INCRBY then fval (bf_sign thisop) p (unat (bf_offset thisop)) (bf_bits thisop) + bf_i64 thisop
      else if bf_sign thisop then bf_i64 thisop else uint (word_of_int (bf_i64 thisop) :: ulong))"

text \<open>An operation that puts the number \<open>w\<close> into the field by its overflow type: the reply and the bytes after it.\<close>

definition bf_meets :: "bitfieldOp \<Rightarrow> byte list \<Rightarrow> int \<Rightarrow> (int option \<times> byte list) option \<Rightarrow> bool" where
  "bf_meets thisop p w r =
     (let k = unat (bf_offset thisop); n = bf_bits thisop; s = bf_sign thisop in
      case fit s n (bf_owtype thisop) w of
        None \<Rightarrow> r = Some (None, p)
      | Some x \<Rightarrow> (\<exists>q. r = Some (Some (if bf_opcode thisop = BITFIELDOP_INCRBY then x else fval s p k n), q) \<and>
          written p k n q \<and> fval s q k n = x))"

abbreviation bf_done :: "bitfieldOp \<Rightarrow> byte list \<Rightarrow> (int option \<times> byte list) option \<Rightarrow> bool" where
  "bf_done thisop p r \<equiv> bf_meets thisop p (bf_wanted thisop p) r"

lemma signed_op_run:
  assumes "getSignedBitfield p (bf_offset op) (bf_bits op) = Some old"
    and "bf_opcode op = BITFIELDOP_INCRBY \<Longrightarrow> int64 (old + bf_i64 op) = Some x"
    and "bf_opcode op \<noteq> BITFIELDOP_INCRBY \<Longrightarrow> bf_i64 op = x"
    and "checkSignedBitfieldOverflow (if bf_opcode op = BITFIELDOP_INCRBY then old else bf_i64 op)
      (if bf_opcode op = BITFIELDOP_INCRBY then bf_i64 op else 0) (bf_bits op) (bf_owtype op) = Some r"
  shows "signed_op junk op p =
    (let y = (if fst r \<noteq> 0 then case_option junk id (snd r) else x) in
     if fst r \<noteq> 0 \<and> bf_owtype op = BFOVERFLOW_FAIL then Some (None, p)
     else map_option (Pair (Some (if bf_opcode op = BITFIELDOP_INCRBY then y else old)))
       (setSignedBitfield p (bf_offset op) (bf_bits op) y))"
  using assms by (cases "bf_opcode op = BITFIELDOP_INCRBY"; cases r)
    (simp_all add: signed_op_def Let_def map_option_case split: option.splits)

lemma signed_op_ok:
  assumes n: "0 < bf_bits op" "bf_bits op < 64" and s: "bf_sign op"
    and room: "unat (bf_offset op) + bf_bits op \<le> 8 * length p" "unat (bf_offset op) + bf_bits op < 2 ^ 64"
    and incr: "bf_opcode op = BITFIELDOP_INCRBY \<Longrightarrow> - (2 ^ 63) \<le> bf_wanted op p \<and> bf_wanted op p < 2 ^ 63"
    and set: "bf_opcode op \<noteq> BITFIELDOP_INCRBY \<Longrightarrow>
      2 ^ (bf_bits op - 1) - 2 ^ 63 \<le> bf_i64 op \<and> bf_i64 op \<le> 2 ^ 63 - 2 ^ (bf_bits op - 1)"
  shows "bf_done op p (signed_op junk op p)"
proof -
  let ?n = "bf_bits op"
  let ?k = "unat (bf_offset op)"
  let ?ow = "bf_owtype op"
  let ?old = "fval True p ?k ?n"
  let ?x = "bf_wanted op p"
  have g: "getSignedBitfield p (bf_offset op) ?n = Some ?old" using n room by (rule getSigned_ok)
  have f: "fits True ?n ?old" using n by (intro fval_fits)
  define v where "v = (if bf_opcode op = BITFIELDOP_INCRBY then ?old else bf_i64 op)"
  define i where "i = (if bf_opcode op = BITFIELDOP_INCRBY then bf_i64 op else 0)"
  have vi: "v + i = ?x" using s by (simp add: v_def i_def bf_wanted_def)
  have p62: "(2 :: int) ^ (?n - 1) \<le> 2 ^ 62" using n by (intro power_increasing) auto
  have b: "2 ^ (?n - 1) - 2 ^ 63 \<le> v" "v \<le> 2 ^ 63 - 2 ^ (?n - 1)"
    using f set p62 by (auto simp: v_def bf_min_def bf_max_def)
  have c: "checkSignedBitfieldOverflow v i ?n ?ow = Some (if fits True ?n ?x then (0, None)
      else (if ?x < bf_min True ?n \<and> ?ow \<noteq> BFOVERFLOW_WRAP then -1 else 1, fit True ?n ?ow ?x))"
    unfolding vi [symmetric] using n f b by (intro checkSigned_ok) (auto simp: v_def i_def)
  have x: "int64 (?old + bf_i64 op) = Some ?x" if "bf_opcode op = BITFIELDOP_INCRBY"
    using incr [OF that] that s by (simp add: int64_def bf_wanted_def)
  have x': "bf_i64 op = ?x" if "bf_opcode op \<noteq> BITFIELDOP_INCRBY" using that s by (simp add: bf_wanted_def)
  have o: "signed_op junk op p = (case fit True ?n ?ow ?x of None \<Rightarrow> Some (None, p)
    | Some y \<Rightarrow> map_option (Pair (Some (if bf_opcode op = BITFIELDOP_INCRBY then y else ?old)))
        (setSignedBitfield p (bf_offset op) ?n y))"
  proof (cases "fits True ?n ?x")
    case True
    then show ?thesis using signed_op_run [OF g x x' c [unfolded v_def i_def]] n(1) by (simp add: fit_same Let_def)
  next
    case False
    have "fit True ?n BFOVERFLOW_FAIL ?x = None" unfolding fit.simps if_not_P [OF False] by (rule refl)
    then show ?thesis using signed_op_run [OF g x x' c [unfolded v_def i_def if_not_P [OF False]]] n(1)
      by (cases ?ow) (simp_all add: Let_def del: fit.simps(3))
  qed
  show ?thesis
  proof (cases "fit True ?n ?ow ?x")
    case None
    then show ?thesis using s unfolding bf_meets_def o by simp
  next
    case (Some y)
    then obtain q where "setSignedBitfield p (bf_offset op) ?n y = Some q" "written p ?k ?n q" "fval True q ?k ?n = y"
      using setUnsigned_fit n room unfolding setSignedBitfield_def by (metis less_imp_le)
    then show ?thesis using s Some unfolding bf_meets_def o by simp
  qed
qed


lemma unsigned_op_run:
  assumes "getUnsignedBitfield p (bf_offset op) (bf_bits op) = Some old"
    and "x = (if bf_opcode op = BITFIELDOP_INCRBY then old else 0) + word_of_int (bf_i64 op)"
    and "checkUnsignedBitfieldOverflow (if bf_opcode op = BITFIELDOP_INCRBY then old else word_of_int (bf_i64 op))
      (if bf_opcode op = BITFIELDOP_INCRBY then bf_i64 op else 0) (bf_bits op) (bf_owtype op) = Some r"
  shows "unsigned_op junk op p =
    (let y = (if fst r \<noteq> 0 then case_option junk id (snd r) else x) in
     if fst r \<noteq> 0 \<and> bf_owtype op = BFOVERFLOW_FAIL then Some (None, p)
     else map_option (Pair (Some (sint (if bf_opcode op = BITFIELDOP_INCRBY then y else old))))
       (setUnsignedBitfield p (bf_offset op) (bf_bits op) y))"
  using assms by (cases "bf_opcode op = BITFIELDOP_INCRBY"; cases r)
    (simp_all add: unsigned_op_def Let_def map_option_case split: option.splits)

lemma sint_fits:
  assumes "0 < n" "n < 64" "fits False n x"
  shows "sint (word_of_int x :: ulong) = x"
proof -
  have "(2 :: int) ^ n \<le> 2 ^ 63" using assms(2) by (intro power_increasing) auto
  then show ?thesis using assms(3) unfolding bf_min_def bf_max_def by (intro sint_word_of_int_64) simp_all
qed

lemma unsigned_op_ok:
  assumes n: "0 < bf_bits op" "bf_bits op < 64" and s: "\<not> bf_sign op"
    and room: "unat (bf_offset op) + bf_bits op \<le> 8 * length p" "unat (bf_offset op) + bf_bits op < 2 ^ 64"
  shows "bf_done op p (unsigned_op junk op p)"
proof -
  let ?n = "bf_bits op"
  let ?k = "unat (bf_offset op)"
  let ?ow = "bf_owtype op"
  let ?w = "field p ?k ?n"
  let ?old = "fval False p ?k ?n"
  let ?x = "bf_wanted op p"
  have g: "getUnsignedBitfield p (bf_offset op) ?n = Some ?w" using n room by (intro getUnsigned_ok) simp_all
  have f: "fits False ?n ?old" using n by (intro fval_fits)
  have old: "sint ?w = ?old" using sint_fits [OF n f] by (simp add: fval_unsigned)
  define v where "v = (if bf_opcode op = BITFIELDOP_INCRBY then ?w else word_of_int (bf_i64 op))"
  define i where "i = (if bf_opcode op = BITFIELDOP_INCRBY then bf_i64 op else 0)"
  have vi: "uint v + i = ?x" using s by (simp add: v_def i_def bf_wanted_def fval_unsigned)
  have c: "checkUnsignedBitfieldOverflow v i ?n ?ow = Some (if fits False ?n ?x then (0, None)
      else (if ?x < 0 \<and> ?ow \<noteq> BFOVERFLOW_WRAP then -1 else 1, map_option word_of_int (fit False ?n ?ow ?x)))"
    unfolding vi [symmetric] using n f by (intro checkUnsigned_ok) (auto simp: v_def i_def fval_unsigned bf_max_def)
  have x: "word_of_int ?x = (if bf_opcode op = BITFIELDOP_INCRBY then ?w else 0) + word_of_int (bf_i64 op)"
    using s by (simp add: bf_wanted_def fval_unsigned)
  have run: "unsigned_op junk op p = (case fit False ?n ?ow ?x of None \<Rightarrow> Some (None, p)
    | Some y \<Rightarrow> map_option (Pair (Some (if bf_opcode op = BITFIELDOP_INCRBY then sint (word_of_int y :: ulong) else ?old)))
        (setUnsignedBitfield p (bf_offset op) ?n (word_of_int y)))"
  proof (cases "fits False ?n ?x")
    case True
    then show ?thesis using unsigned_op_run [OF g x c [unfolded v_def i_def]] n(1) by (simp add: fit_same Let_def old)
  next
    case False
    have "fit False ?n BFOVERFLOW_FAIL ?x = None" unfolding fit.simps if_not_P [OF False] by (rule refl)
    then show ?thesis using unsigned_op_run [OF g x c [unfolded v_def i_def if_not_P [OF False]]] n(1)
      by (cases ?ow) (simp_all add: Let_def old del: fit.simps(3))
  qed
  show ?thesis
  proof (cases "fit False ?n ?ow ?x")
    case None
    then show ?thesis using s unfolding bf_meets_def run by simp
  next
    case (Some y)
    then obtain q where "setUnsignedBitfield p (bf_offset op) ?n (word_of_int y) = Some q" "written p ?k ?n q"
      "fval False q ?k ?n = y"
      using setUnsigned_fit n room by (metis less_imp_le)
    then show ?thesis using s Some sint_fits [OF n fit_fits [OF n(1) Some]] unfolding bf_meets_def run by simp
  qed
qed


lemma get_buf_nth: "i < 9 \<Longrightarrow> get_buf src b ! i = (if b + i < length src then src ! (b + i) else 0)"
  by (auto simp: get_buf_def nth_append)

lemma get_buf_bm:
  assumes "j < 72" "8 * b + j < 8 * (length src + m)"
  shows "bm (get_buf src b) j = bm (src @ replicate m 0) (8 * b + j)"
proof -
  have "j div 8 < 9" "b + j div 8 < length src + m" using assms by (auto simp: less_mult_imp_div_less)
  then show ?thesis by (simp add: bm_def get_buf_nth nth_append)
qed

lemma low_offset: "unat (offset - drop_bit 3 offset * 8) = unat offset mod 8" for offset :: ulong
proof -
  have "offset - drop_bit 3 offset * 8 = take_bit 3 offset"
    using div_mult_mod_eq [of offset 8] by (simp add: drop_bit_eq_div take_bit_eq_mod) (metis add_diff_cancel_left')
  then show ?thesis by (simp add: take_bit_eq_mod unat_mod_distrib)
qed

lemma get_buf_field:
  assumes n: "n \<le> 64" and m: "k + n \<le> 8 * (length src + m)"
  shows "field (get_buf src (k div 8)) (k mod 8) n = field (src @ replicate m 0) k n"
proof (rule bit_word_eqI)
  fix i assume "i < LENGTH(64)"
  have "bm (get_buf src (k div 8)) (k mod 8 + n - 1 - i) = bm (src @ replicate m 0) (k + n - 1 - i)" if "i < n"
  proof -
    have "8 * (k div 8) + (k mod 8 + n - 1 - i) = k + n - 1 - i" using that mult_div_mod_eq [of 8 k] by linarith
    moreover have "k mod 8 + n - 1 - i < 72" using n that mod_less_divisor [of 8 k] by linarith
    ultimately show ?thesis using m that get_buf_bm [of "k mod 8 + n - 1 - i" "k div 8" src m] by simp
  qed
  then show "bit (field (get_buf src (k div 8)) (k mod 8) n) i = bit (field (src @ replicate m 0) k n) i"
    by (auto simp: bit_field)
qed

lemma get_op_ok:
  assumes n: "0 < bf_bits op" "bf_bits op < 64" and m: "unat (bf_offset op) + bf_bits op \<le> 8 * (length src + m)"
  shows "get_op op src = Some (fval (bf_sign op) (src @ replicate m 0) (unat (bf_offset op)) (bf_bits op))"
proof -
  let ?n = "bf_bits op"
  let ?k = "unat (bf_offset op)"
  let ?b = "get_buf src (?k div 8)"
  let ?o = "bf_offset op - drop_bit 3 (bf_offset op) * 8"
  have len: "length ?b = 9" by (simp add: get_buf_def)
  have "?k mod 8 + ?n < 72" using n mod_less_divisor [of 8 ?k] by linarith
  then have k: "unat ?o + ?n \<le> 8 * length ?b" "unat ?o + ?n < 2 ^ 64" unfolding low_offset len by simp_all
  have f: "fval s ?b (unat ?o) ?n = fval s (src @ replicate m 0) ?k ?n" for s
    unfolding low_offset fval_def using n m by (simp add: get_buf_field)
  have "getSignedBitfield ?b ?o ?n = Some (fval True ?b (unat ?o) ?n)" using n k by (rule getSigned_ok)
  moreover have "getUnsignedBitfield ?b ?o ?n = Some (field ?b (unat ?o) ?n)" using n k by (intro getUnsigned_ok) simp_all
  moreover have "sint (field ?b (unat ?o) ?n) = fval False ?b (unat ?o) ?n"
    using sint_fits [OF n fval_fits [OF n(1), of False ?b "unat ?o"]] by (simp add: fval_unsigned)
  ultimately show ?thesis unfolding get_op_def offset_byte Let_def f by simp
qed

end
