(* ===== verification/Bitops_Search.thy ===== *)
theory Bitops_Search
  imports Bitops_Fields
begin

text \<open>
  Correctness of \<^verbatim>\<open>redisBitpos\<close>: the loops over bytes and words find the bit that reading the bitmap bit by
  bit finds.
\<close>

unbundle bit_operations_syntax

section \<open>Finding a bit\<close>

text \<open>The bits of a bitmap with zeroes after its end.\<close>

definition bmz :: "byte list \<Rightarrow> nat \<Rightarrow> bool" where
  "bmz s k \<longleftrightarrow> k < 8 * length s \<and> bm s k"

lemma bmz_Nil [simp]: "\<not> bmz [] k"
  by (simp add: bmz_def)

lemma bmz_Cons: "bmz (c # p) k = (if k < 8 then bit c (7 - k) else bmz p (k - 8))"
proof (cases "k < 8")
  case False
  then obtain j where "k = j + 8" by (metis add.commute le_Suc_ex not_less)
  moreover have "(j + 8) div 8 = Suc (j div 8)" by simp
  ultimately show ?thesis by (simp add: bmz_def bm_def del: div_add_self2)
qed (simp add: bmz_def bm_def)

lemma bmz_append: "bmz (xs @ p) k = (if k < 8 * length xs then bmz xs k else bmz p (k - 8 * length xs))"
proof (induction xs arbitrary: k)
  case (Cons x xs)
  have "bmz ((x # xs) @ p) k = (if k < 8 then bit x (7 - k) else bmz (xs @ p) (k - 8))" by (simp add: bmz_Cons)
  then show ?case unfolding Cons.IH by (auto simp: bmz_Cons)
qed simp

lemma bit_load_word: "i < 64 \<Longrightarrow> bit (load_word n p w) i = (if i < 8 * n then bmz p (8 * n - 1 - i) else bit w (i - 8 * n))"
proof (induction n arbitrary: p w)
  case (Suc n)
  show ?case
  proof (cases p)
    case Nil
    then show ?thesis using Suc by (auto simp: bit_push_bit_iff add.commute)
  next
    case (Cons c p')
    have c: "bit (push_bit 8 w OR ucast c) j = (if j < 8 then bit c j else bit w (j - 8))" if "j < 64" for j
      using that by (auto simp: bit_or_iff bit_push_bit_iff bit_unsigned_iff dest: bit_imp_le_length)
    show ?thesis
      using Suc.prems Cons by (cases "i < 8 * n"; cases "i < 8 * Suc n") (auto simp: Suc.IH c bmz_Cons add.commute)
  qed
qed simp

lemma scan_word_first:
  assumes "n \<le> 64" "j < n" "bit word (n - 1 - j) = bt" "\<And>i. i < j \<Longrightarrow> bit word (n - 1 - i) \<noteq> bt"
  shows "scan_word n (push_bit (n - 1) 1) word bt pos = Some (pos + int j)"
  using assms
proof (induction n arbitrary: j pos)
  case (Suc n)
  have nz: "push_bit n 1 \<noteq> (0 :: ulong)" using Suc.prems(1) mask_one [of n "-1"] by auto
  have m: "push_bit n 1 AND word \<noteq> 0 \<longleftrightarrow> bit word n" using Suc.prems(1) mask_one [of n word] by (simp add: and.commute)
  show ?case
  proof (cases j)
    case 0
    then show ?thesis using Suc.prems(3) nz m by simp
  next
    case (Suc j')
    have "bit word n \<noteq> bt" using Suc.prems(4) [of 0] Suc by simp
    moreover have "drop_bit 1 (push_bit n 1) = (push_bit (n - 1) 1 :: ulong)"
      using Suc.prems(1,2) Suc by (intro bit_word_eqI) (auto simp: bit_simps bit_1_iff simp del: push_bit_of_1)
    moreover have "scan_word n (push_bit (n - 1) 1) word bt (pos + 1) = Some (pos + 1 + int j')"
    proof (rule Suc.IH)
      show "bit word (n - 1 - j') = bt" using Suc.prems(3) Suc by simp
      show "\<And>i. i < j' \<Longrightarrow> bit word (n - 1 - i) \<noteq> bt" using Suc.prems(4) Suc by (metis Suc_mono diff_Suc_Suc diff_Suc_1 diff_diff_left plus_1_eq_Suc)
    qed (use Suc.prems Suc in simp_all)
    ultimately show ?thesis using nz m Suc by simp
  qed
qed simp


definition lacks :: "bool \<Rightarrow> byte list \<Rightarrow> bool" where
  "lacks bt p \<longleftrightarrow> (\<forall>k < 8 * length p. bmz p k \<noteq> bt)"

lemma lacks_byte: "c = (if bt then 0 else 0xff) \<longleftrightarrow> (\<forall>i < 8. bit c i \<noteq> bt)" for c :: byte
proof -
  have m: "(0xff :: byte) = mask 8" by (simp add: mask_eq_exp_minus_1)
  have "c = w \<longleftrightarrow> (\<forall>i < 8. bit c i = bit w i)" for w
    by (rule iffI) (simp, rule bit_word_eqI, simp)
  then show ?thesis unfolding m by (simp add: bit_mask_iff)
qed

lemma lacks_Nil [simp]: "lacks bt []"
  by (simp add: lacks_def)

lemma all_less_8: "(\<forall>k < 8 + n. P k) \<longleftrightarrow> (\<forall>k < 8. P k) \<and> (\<forall>k < n. P (8 + k))" for n :: nat
proof (intro iffI conjI allI impI)
  fix k assume *: "(\<forall>k < 8. P k) \<and> (\<forall>k < n. P (8 + k))" and "k < 8 + n"
  then show "P k" using * [THEN conjunct2, rule_format, of "k - 8"] by (cases "k < 8") auto
qed auto

lemma lacks_Cons: "lacks bt (c # p) \<longleftrightarrow> c = (if bt then 0 else 0xff) \<and> lacks bt p"
proof -
  have "(\<forall>k < 8. bit c (7 - k) \<noteq> bt) \<longleftrightarrow> (\<forall>i < 8. bit c i \<noteq> bt)"
  proof
    assume *: "\<forall>k < 8. bit c (7 - k) \<noteq> bt"
    show "\<forall>i < 8. bit c i \<noteq> bt"
    proof (intro allI impI)
      fix i :: nat assume "i < 8"
      then show "bit c i \<noteq> bt" using * [rule_format, of "7 - i"] by simp
    qed
  qed simp
  then show ?thesis unfolding lacks_byte by (simp add: lacks_def bmz_Cons all_less_8)
qed

lemma lacks_append: "lacks bt (xs @ p) \<longleftrightarrow> lacks bt xs \<and> lacks bt p"
  by (induction xs) (auto simp: lacks_Cons)

lemma skip_bytes_ok:
  "skip_bytes addr (if bt then 0 else 0xff) p pos = (q, pos', found) \<Longrightarrow>
   \<exists>pre. p = pre @ q \<and> lacks bt pre \<and> pos' = pos + 8 * int (length pre) \<and> (found \<longrightarrow> (\<exists>c q'. q = c # q' \<and> \<not> lacks bt [c]))"
proof (induction addr "if bt then 0 else 0xff :: byte" p pos rule: skip_bytes.induct)
  case (2 addr c p pos)
  show ?case
  proof (cases "addr mod 8 \<noteq> 0 \<and> c = (if bt then 0 else 0xff)")
    case True
    then have "skip_bytes (addr + 1) (if bt then 0 else 0xff) p (pos + 8) = (q, pos', found)" using "2.prems" by auto
    then obtain pre where "p = pre @ q" "lacks bt pre" "pos' = pos + 8 + 8 * int (length pre)"
      "found \<longrightarrow> (\<exists>c q'. q = c # q' \<and> \<not> lacks bt [c])" using 2(1) True by blast
    then show ?thesis using True by (intro exI [of _ "c # pre"]) (simp add: lacks_Cons)
  next
    case False
    then show ?thesis using "2.prems" by (intro exI [of _ "[]"]) (auto simp: lacks_Cons split: if_splits)
  qed
qed simp

lemma full_word:
  assumes "m \<le> 64" "\<And>i. m \<le> i \<Longrightarrow> \<not> bit w i"
  shows "w = (if bt then 0 else mask m :: ulong) \<longleftrightarrow> (\<forall>i < m. bit w i \<noteq> bt)"
proof -
  have "w = v \<longleftrightarrow> (\<forall>i. bit w i = bit v i)" for v by (rule iffI) (simp, rule bit_word_eqI, simp)
  moreover have "(\<forall>i. bit w i = bit (if bt then 0 else mask m :: ulong) i) \<longleftrightarrow> (\<forall>i < m. bit w i \<noteq> bt)"
    using assms by (cases bt) (auto simp: bit_mask_iff not_less [symmetric] dest: bit_imp_le_length)
  ultimately show ?thesis by blast
qed

lemma load_le_byte:
  assumes "n < 8" "\<And>i. 8 * n \<le> i \<Longrightarrow> \<not> bit w i"
  shows "ucast (c :: byte) OR push_bit 8 w = (if bt then 0 else mask (8 * Suc n) :: ulong) \<longleftrightarrow>
    c = (if bt then 0 else 0xff) \<and> w = (if bt then 0 else mask (8 * n))"
proof -
  have l: "bit (ucast c OR push_bit 8 w) i = (if i < 8 then bit c i else i < 64 \<and> bit w (i - 8))" for i
    by (auto simp: bit_or_iff bit_push_bit_iff bit_unsigned_iff dest: bit_imp_le_length)
  have "ucast c OR push_bit 8 w = (if bt then 0 else mask (8 * Suc n) :: ulong) \<longleftrightarrow>
    (\<forall>i < 8 + 8 * n. bit (ucast c OR push_bit 8 w) i \<noteq> bt)"
    using assms full_word [of "8 * Suc n" "ucast c OR push_bit 8 w" bt] by (auto simp: l)
  then show ?thesis unfolding all_less_8 lacks_byte using assms full_word [of "8 * n" w bt] by (auto simp: l)
qed

lemma load_le_lacks:
  "length p \<le> 8 \<Longrightarrow> (load_le p = (if bt then 0 else mask (8 * length p)) \<longleftrightarrow> lacks bt p) \<and> (\<forall>i \<ge> 8 * length p. \<not> bit (load_le p) i)"
proof (induction p)
  case (Cons c p)
  have "\<not> bit (ucast c OR push_bit 8 (load_le p)) i" if "8 * length (c # p) \<le> i" for i
    using Cons that by (auto simp: bit_or_iff bit_push_bit_iff bit_unsigned_iff dest: bit_imp_le_length)
  then show ?case using Cons load_le_byte [of "length p" "load_le p" c bt] by (cases bt) (simp_all add: lacks_Cons)
qed simp

lemma load_le_8:
  assumes "length p = 8"
  shows "load_le p = (if bt then 0 else NOT 0) \<longleftrightarrow> lacks bt p"
proof -
  have m: "NOT 0 = (mask (8 * 8) :: ulong)" by (rule bit_word_eqI) (simp add: bit_simps)
  show ?thesis unfolding m using load_le_lacks [of p bt, unfolded assms] by (simp only: le_refl simp_thms)
qed

lemma skip_words_go: "8 \<le> length p \<and> load_le (take 8 p) = w \<Longrightarrow> skip_words w p pos = skip_words w (drop 8 p) (pos + 64)"
  by (subst skip_words.simps) simp

lemma skip_words_stop: "\<not> (8 \<le> length p \<and> load_le (take 8 p) = w) \<Longrightarrow> skip_words w p pos = (p, pos)"
  by (subst skip_words.simps) simp

lemma skip_words_ok:
  "skip_words (if bt then 0 else NOT 0) p pos = (q, pos') \<Longrightarrow>
   \<exists>pre. p = pre @ q \<and> lacks bt pre \<and> pos' = pos + 8 * int (length pre) \<and> (length q \<ge> 8 \<longrightarrow> \<not> lacks bt (take 8 q))"
proof (induction "if bt then 0 else NOT 0 :: ulong" p pos rule: skip_words.induct)
  case (1 p pos)
  let ?go = "8 \<le> length p \<and> load_le (take 8 p) = (if bt then 0 else NOT 0)"
  show ?case
  proof (cases ?go)
    case True
    then have "skip_words (if bt then 0 else NOT 0) (drop 8 p) (pos + 64) = (q, pos')"
      using "1.prems" by (simp only: skip_words_go)
    then obtain pre where pre: "drop 8 p = pre @ q" "lacks bt pre" "pos' = pos + 64 + 8 * int (length pre)"
      "length q \<ge> 8 \<longrightarrow> \<not> lacks bt (take 8 q)" using 1(1) True by blast
    have "lacks bt (take 8 p)" using True load_le_8 [of "take 8 p" bt] by simp
    then have "lacks bt (take 8 p @ pre)" using pre(2) by (simp only: lacks_append simp_thms)
    moreover have "p = (take 8 p @ pre) @ q" unfolding append_assoc pre(1) [symmetric] by simp
    moreover have "pos' = pos + 8 * int (length (take 8 p @ pre))" using True pre(3) by (simp add: min_def)
    ultimately show ?thesis using pre(4) by (intro exI conjI)
  next
    case False
    have "(q, pos') = (p, pos)" by (rule trans [OF "1.prems" [symmetric] skip_words_stop [OF False]])
    moreover have "\<not> lacks bt (take 8 p)" if "8 \<le> length p"
      using False that load_le_8 [of "take 8 p" bt] by simp
    ultimately show ?thesis by (intro exI [of _ "[]"]) simp
  qed
qed


text \<open>The position of the first bit equal to \<^term>\<open>bt\<close>, counting the zero after the end; \<open>-1\<close> when no bit is one.\<close>

definition bitpos_spec :: "bool \<Rightarrow> byte list \<Rightarrow> int" where
  "bitpos_spec bt s =
     (if bt \<and> (\<forall>k < 8 * length s. \<not> bmz s k) then -1
      else int (length (takeWhile (\<lambda>k. bmz s k \<noteq> bt) [0..<8 * length s])))"

lemma takeWhile_upt:
  assumes "m \<le> N" "\<And>k. k < m \<Longrightarrow> P k" "m = N \<or> \<not> P m"
  shows "length (takeWhile P [0..<N]) = m"
proof -
  have "[0..<N] = [0..<m] @ [m..<N]" using assms(1) by (metis le0 le_add_diff_inverse upt_add_eq_append)
  moreover have "takeWhile P [m..<N] = []" using assms(3) by (cases "m < N") (auto simp: upt_conv_Cons)
  moreover have "takeWhile P ([0..<m] @ [m..<N]) = [0..<m] @ takeWhile P [m..<N]"
    by (rule takeWhile_append2) (simp add: assms(2))
  ultimately show ?thesis by simp
qed

lemma bmz_take: "k < 8 * n \<Longrightarrow> bmz (take n q) k = bmz q k"
  by (auto simp: bmz_def bm_def less_mult_imp_div_less)

lemma skip_ok:
  assumes "skip_bytes addr (if bt then 0 else 0xff) s 0 = (p, pos, found)"
    and "(q, pos') = (if found then (p, pos) else skip_words (if bt then 0 else NOT 0) p pos)"
  obtains pre where "s = pre @ q" "lacks bt pre" "pos' = 8 * int (length pre)"
    "lacks bt (take 8 q) \<longrightarrow> length q < 8"
proof -
  obtain pre where pre: "s = pre @ p" "lacks bt pre" "pos = 8 * int (length pre)"
    "found \<longrightarrow> (\<exists>c q'. p = c # q' \<and> \<not> lacks bt [c])" using skip_bytes_ok [OF assms(1)] by auto
  show ?thesis
  proof (cases found)
    case True
    then show ?thesis using pre assms(2) by (intro that [of pre]) (auto simp: lacks_Cons)
  next
    case False
    then have "skip_words (if bt then 0 else NOT 0) p pos = (q, pos')" using assms(2) by simp
    from skip_words_ok [OF this] obtain pre' where pre': "p = pre' @ q" "lacks bt pre'" "pos' = pos + 8 * int (length pre')"
      "length q \<ge> 8 \<longrightarrow> \<not> lacks bt (take 8 q)" by auto
    have "lacks bt (pre @ pre')" using pre(2) pre'(2) by (simp only: lacks_append simp_thms)
    moreover have "s = (pre @ pre') @ q" unfolding pre(1) pre'(1) by simp
    ultimately show ?thesis using pre(3) pre'(3,4) by (intro that [of "pre @ pre'"]) auto
  qed
qed

lemma word_first:
  assumes "j < 64" "bmz q j = bt" "\<And>i. i < j \<Longrightarrow> bmz q i \<noteq> bt"
  shows "(bt \<longrightarrow> load_word 8 q 0 \<noteq> 0) \<and> scan_word 64 (NOT (drop_bit 1 (NOT 0))) (load_word 8 q 0) bt pos = Some (pos + int j)"
proof -
  have b: "bit (load_word 8 q 0) (63 - i) = bmz q i" if "i < 64" for i using that bit_load_word [of "63 - i" 8 q 0] by simp
  have o: "NOT (drop_bit 1 (NOT 0)) = (push_bit (64 - 1) 1 :: ulong)"
    by (rule bit_word_eqI) (auto simp: bit_simps bit_1_iff simp del: push_bit_of_1)
  have "load_word 8 q 0 \<noteq> 0" if bt using b [OF assms(1)] assms(2) that by auto
  moreover have "scan_word 64 (push_bit (64 - 1) 1) (load_word 8 q 0) bt pos = Some (pos + int j)"
    using assms b by (intro scan_word_first) auto
  ultimately show ?thesis unfolding o by blast
qed


lemma lacks_word: "lacks True q \<Longrightarrow> load_word 8 q 0 = 0"
  by (rule bit_word_eqI) (auto simp: bit_load_word lacks_def bmz_def)

lemma first_in_word:
  assumes "lacks bt (take 8 q) \<Longrightarrow> length q < 8" "\<not> (bt \<and> lacks bt q)"
  obtains j where "j < 64" "j \<le> 8 * length q" "bmz q j = bt" "\<And>i. i < j \<Longrightarrow> bmz q i \<noteq> bt"
proof -
  have "\<exists>k. k < 64 \<and> k \<le> 8 * length q \<and> bmz q k = bt"
  proof (cases "lacks bt (take 8 q)")
    case True
    then have "length q < 8" "lacks bt q" using assms(1) by auto
    then show ?thesis using assms(2) by (intro exI [of _ "8 * length q"]) (simp add: bmz_def)
  next
    case False
    then obtain k where "k < 8 * length (take 8 q)" "bmz (take 8 q) k = bt" by (auto simp: lacks_def)
    then show ?thesis using bmz_take [of k 8 q] by (intro exI [of _ k]) auto
  qed
  then obtain k where k: "k < 64" "k \<le> 8 * length q" "bmz q k = bt" by blast
  let ?j = "LEAST j. bmz q j = bt"
  have "?j \<le> k" "bmz q ?j = bt" using k(3) by (rule Least_le, rule LeastI)
  moreover have "bmz q i \<noteq> bt" if "i < ?j" for i using not_less_Least [OF that] .
  ultimately show ?thesis using k(1,2) by (intro that [of ?j]) (simp_all only: order.strict_trans1 order_trans not_False_eq_True)
qed

lemma redisBitpos_ok: "redisBitpos addr s bt = Some (bitpos_spec bt s)"
proof -
  obtain p pos found where sb: "skip_bytes addr (if bt then 0 else 0xff) s 0 = (p, pos, found)" by (metis prod_cases3)
  obtain q pos' where sw: "(q, pos') = (if found then (p, pos) else skip_words (if bt then 0 else NOT 0) p pos)"
    by (metis surj_pair)
  have r: "redisBitpos addr s bt = (if bt \<and> load_word 8 q 0 = 0 then Some (-1)
    else scan_word 64 (NOT (drop_bit 1 (NOT 0))) (load_word 8 q 0) bt pos')"
    unfolding redisBitpos_def sb Let_def prod.case sw [symmetric] by (rule refl)
  obtain pre where pre: "s = pre @ q" "lacks bt pre" "pos' = 8 * int (length pre)" "lacks bt (take 8 q) \<longrightarrow> length q < 8"
    by (rule skip_ok [OF sb sw])
  have all: "bt \<and> (\<forall>k < 8 * length s. \<not> bmz s k) \<longleftrightarrow> bt \<and> lacks bt q"
    using pre(2) lacks_append [of True pre q] unfolding pre(1) [symmetric] by (auto simp: lacks_def)
  show ?thesis
  proof (cases "bt \<and> lacks bt q")
    case True
    then show ?thesis using lacks_word [of q] unfolding r bitpos_spec_def all by auto
  next
    case False
    then obtain j where j: "j < 64" "j \<le> 8 * length q" "bmz q j = bt" "\<And>i. i < j \<Longrightarrow> bmz q i \<noteq> bt"
      using first_in_word [OF pre(4) [rule_format]] by metis
    have "length (takeWhile (\<lambda>k. bmz s k \<noteq> bt) [0..<8 * length s]) = 8 * length pre + j"
    proof (rule takeWhile_upt)
      show "bmz s k \<noteq> bt" if "k < 8 * length pre + j" for k
        using that pre(2) j(4) [of "k - 8 * length pre"] unfolding pre(1) bmz_append lacks_def by auto
    qed (use j in \<open>auto simp: pre(1) bmz_append\<close>)
    then show ?thesis using False word_first [OF j(1,3,4), of pos'] unfolding r bitpos_spec_def all pre(3) by auto
  qed
qed

end
