(* ===== verification/Bitops_Correct.thy ===== *)
theory Bitops_Correct
  imports Bitops_Search
begin

text \<open>
  Correctness of \<^verbatim>\<open>redisPopcount\<close>, whose folds of words are computed on their hexadecimal digits, and the properties of the bit
  functions: counting, finding, and the operations of \<^verbatim>\<open>BITFIELD\<close>.
\<close>

unbundle bit_operations_syntax

section \<open>Counting bits\<close>

lemma small_bits: "a < 16 \<Longrightarrow> bit a i \<Longrightarrow> i < 4" for a :: uint
proof -
  assume "a < 16" "bit a i"
  then have "unat (take_bit 4 a) = unat a"
    by (simp add: unsigned_take_bit_eq take_bit_nat_eq_self_iff word_less_nat_alt)
  then have "take_bit 4 a = a" by (simp only: word_unat_eq_iff)
  then show "i < 4" using \<open>bit a i\<close> by (metis bit_take_bit_iff)
qed

lemma add_nibble: "a < 16 \<Longrightarrow> a + push_bit 4 b = a OR push_bit 4 b" for a b :: uint
  by (rule disjunctive_add) (auto simp: bit_push_bit_iff dest: small_bits)

lemma and_nibble:
  fixes a b m :: uint
  assumes "a < 16" "\<And>i. i < 28 \<Longrightarrow> bit m (i + 4) = bit m i"
  shows "(a + push_bit 4 b) AND m = (a AND m) + push_bit 4 (b AND m)"
proof -
  have "a AND m < 16" using assms(1) word_and_le2 [of a m] by (rule order.strict_trans1 [rotated])
  moreover have "(a OR push_bit 4 b) AND m = (a AND m) OR push_bit 4 (b AND m)"
  proof (rule bit_word_eqI)
    fix i assume "i < LENGTH(32)"
    then show "bit ((a OR push_bit 4 b) AND m) i = bit ((a AND m) OR push_bit 4 (b AND m)) i"
      using assms(2) [of "i - 4"] by (auto simp: bit_and_iff bit_or_iff bit_push_bit_iff)
  qed
  ultimately show ?thesis using assms(1) by (simp only: add_nibble)
qed

lemma shift_nibble:
  fixes a b m :: uint
  assumes "a < 16" "\<And>i. i < 28 \<Longrightarrow> bit m (i + 4) = bit m i" "k \<le> 4" "\<And>i. bit m i \<Longrightarrow> i mod 4 < 4 - k"
  shows "drop_bit k (a + push_bit 4 b) AND m = (drop_bit k a AND m) + push_bit 4 (drop_bit k b AND m)"
proof -
  have "drop_bit k (a + push_bit 4 b) AND m = (drop_bit k a AND m) OR push_bit 4 (drop_bit k b AND m)"
    unfolding add_nibble [OF assms(1)]
  proof (rule bit_word_eqI)
    fix i assume i: "i < LENGTH(32)"
    have "i + k < 4" if "bit m i" "i < 4" using assms(4) [OF that(1)] that(2) assms(3) by simp
    moreover have "bit m (i - 4) = bit m i" if "4 \<le> i" using assms(2) [of "i - 4"] that i by simp
    moreover have "i + k < 32" if "bit m i"
      using assms(4) [OF that] i assms(3) by simp presburger
    ultimately show "bit (drop_bit k (a OR push_bit 4 b) AND m) i = bit ((drop_bit k a AND m) OR push_bit 4 (drop_bit k b AND m)) i"
      using small_bits [OF assms(1), of "i + k"]
      by (cases "i < 4") (auto simp: bit_and_iff bit_or_iff bit_push_bit_iff bit_drop_bit_eq algebra_simps)
  qed
  moreover have "drop_bit k a \<le> a" by (simp add: word_le_nat_alt drop_bit_eq_div unat_div_distrib)
  then have "drop_bit k a AND m < 16" using assms(1) word_and_le2 [of "drop_bit k a" m] by (meson order.strict_trans1)
  ultimately show ?thesis by (simp only: add_nibble)
qed


lemma bits_5555: "bit (0x55555555 :: uint) i \<longleftrightarrow> i < 32 \<and> i mod 4 \<in> {0, 2}"
proof -
  have "\<forall>i < 32. bit (0x55555555 :: uint) i \<longleftrightarrow> i mod 4 \<in> {0, 2}" by code_simp
  then show ?thesis by (auto dest: bit_imp_le_length)
qed

lemma bits_3333: "bit (0x33333333 :: uint) i \<longleftrightarrow> i < 32 \<and> i mod 4 < 2"
proof -
  have "\<forall>i < 32. bit (0x33333333 :: uint) i \<longleftrightarrow> i mod 4 < 2" by code_simp
  then show ?thesis by (auto dest: bit_imp_le_length)
qed

lemma bits_0F0F: "bit (0x0F0F0F0F :: uint) i \<longleftrightarrow> i < 32 \<and> i mod 8 < 4"
proof -
  have "\<forall>i < 32. bit (0x0F0F0F0F :: uint) i \<longleftrightarrow> i mod 8 < 4" by code_simp
  then show ?thesis by (auto dest: bit_imp_le_length)
qed

definition nib :: "nat list" where
  "nib = [0, 1, 1, 2, 1, 2, 2, 3, 1, 2, 2, 3, 2, 3, 3, 4]"

lemma fold4_nibble: "n < 16 \<Longrightarrow> fold4 (of_nat n) = of_nat (nib ! n)"
proof -
  have "\<forall>n < 16. fold4 (of_nat n) = of_nat (nib ! n)" by code_simp
  then show "n < 16 \<Longrightarrow> fold4 (of_nat n) = of_nat (nib ! n)" by blast
qed

lemma fold4_half: "n < 16 \<Longrightarrow> of_nat n - (drop_bit 1 (of_nat n) AND 0x55555555) < (16 :: uint)"
proof -
  have "\<forall>n < 16. of_nat n - (drop_bit 1 (of_nat n) AND 0x55555555) < (16 :: uint)" by code_simp
  then show "n < 16 \<Longrightarrow> of_nat n - (drop_bit 1 (of_nat n) AND 0x55555555) < (16 :: uint)" by blast
qed

lemma fold4_step: "n < 16 \<Longrightarrow> fold4 (of_nat n + push_bit 4 b) = of_nat (nib ! n) + push_bit 4 (fold4 b)"
proof -
  assume n: "n < 16"
  let ?a = "of_nat n :: uint"
  have a: "?a < 16" using n by (simp add: word_less_nat_alt unat_of_nat)
  have 5: "drop_bit 1 (?a + push_bit 4 b) AND 0x55555555 = (drop_bit 1 ?a AND 0x55555555) + push_bit 4 (drop_bit 1 b AND 0x55555555)"
    using a by (rule shift_nibble) (unfold bits_5555, auto)
  let ?a' = "?a - (drop_bit 1 ?a AND 0x55555555)"
  let ?b' = "b - (drop_bit 1 b AND 0x55555555)"
  have h: "?a + push_bit 4 b - (drop_bit 1 (?a + push_bit 4 b) AND 0x55555555) = ?a' + push_bit 4 ?b'"
    unfolding 5 by (simp add: push_bit_eq_mult algebra_simps)
  have a': "?a' < 16" using n by (rule fold4_half)
  have 2: "drop_bit 2 (?a' + push_bit 4 ?b') AND 0x33333333 = (drop_bit 2 ?a' AND 0x33333333) + push_bit 4 (drop_bit 2 ?b' AND 0x33333333)"
    using a' by (rule shift_nibble) (unfold bits_3333, auto)
  have 3: "(?a' + push_bit 4 ?b') AND 0x33333333 = (?a' AND 0x33333333) + push_bit 4 (?b' AND 0x33333333)"
    using a' by (rule and_nibble) (unfold bits_3333, auto)
  show ?thesis unfolding fold4_nibble [OF n, symmetric] unfolding fold4_def Let_def h 2 3
    by (simp only: push_bit_add add_ac)
qed


text \<open>A word from its hexadecimal digits, the lowest first.\<close>

fun digits :: "nat list \<Rightarrow> uint" where
  "digits [] = 0"
| "digits (d # ds) = of_nat d + push_bit 4 (digits ds)"

lemma fold4_digits: "\<forall>d \<in> set ds. d < 16 \<Longrightarrow> fold4 (digits ds) = digits (map (\<lambda>d. nib ! d) ds)"
proof (induction ds)
  case Nil
  show ?case by (simp add: fold4_def)
qed (simp add: fold4_step)

lemma of_nat_nibble: "d < 16 \<Longrightarrow> (of_nat d :: uint) < 16"
  by (simp add: word_less_nat_alt unat_of_nat)

lemma digits_bits: "\<forall>d \<in> set ds. d < 16 \<Longrightarrow> bit (digits ds) i \<Longrightarrow> i < 4 * length ds"
proof (induction ds arbitrary: i)
  case (Cons d ds)
  then have "bit (of_nat d :: uint) i \<or> 4 \<le> i \<and> bit (digits ds) (i - 4)"
    by (auto simp: add_nibble of_nat_nibble bit_or_iff bit_push_bit_iff)
  then show ?case
  proof
    assume "bit (of_nat d :: uint) i"
    then have "i < 4" using Cons.prems(1) of_nat_nibble [of d] by (intro small_bits) simp_all
    then show ?thesis by simp
  next
    assume "4 \<le> i \<and> bit (digits ds) (i - 4)"
    then show ?thesis using Cons.IH [of "i - 4"] Cons.prems(1) by simp
  qed
qed simp

lemma digits_shift:
  assumes "\<forall>d \<in> set (d # ds). d < 16" "length ds < 8"
  shows "drop_bit 4 (digits (d # ds)) = digits ds"
proof (rule bit_word_eqI)
  fix i assume "i < LENGTH(32)"
  have a: "(of_nat d :: uint) < 16" using assms(1) by (intro of_nat_nibble) simp
  have "\<not> bit (of_nat d :: uint) (4 + i)" using small_bits [OF a, of "4 + i"] by auto
  moreover have "i < 28" if "bit (digits ds) i" using digits_bits [of ds i] that assms by simp
  ultimately show "bit (drop_bit 4 (digits (d # ds))) i = bit (digits ds) i"
    by (auto simp: add_nibble [OF a] bit_drop_bit_eq bit_or_iff bit_push_bit_iff)
qed

lemma mask_byte:
  fixes a b w :: uint
  assumes "a < 16" "b < 16"
  shows "(a + push_bit 4 (b + push_bit 4 w)) AND 0x0F0F0F0F = a + push_bit 8 (w AND 0x0F0F0F0F)"
proof -
  have "a + push_bit 8 v = a OR push_bit 8 v" for v
    using assms(1) by (intro disjunctive_add) (auto simp: bit_push_bit_iff dest: small_bits)
  moreover have "(a OR push_bit 4 (b OR push_bit 4 w)) AND 0x0F0F0F0F = a OR push_bit 8 (w AND 0x0F0F0F0F)"
  proof (rule bit_word_eqI)
    fix i assume i: "i < LENGTH(32)"
    have a: "\<not> bit a i" if "4 \<le> i" using small_bits [OF assms(1), of i] that by auto
    have b: "\<not> bit b (i - 4)" if "8 \<le> i" using small_bits [OF assms(2), of "i - 4"] that by auto
    have "i mod 8 = (i - 8) mod 8" if "8 \<le> i" using that by (simp add: mod_if)
    then show "bit ((a OR push_bit 4 (b OR push_bit 4 w)) AND 0x0F0F0F0F) i = bit (a OR push_bit 8 (w AND 0x0F0F0F0F)) i"
      using i a b unfolding bit_and_iff bit_or_iff bit_push_bit_iff bits_0F0F
      by (cases "i < 4"; cases "i < 8") auto
  qed
  ultimately show ?thesis using assms by (simp only: add_nibble)
qed

lemma nat_load: "ucast b OR push_bit 8 w = of_nat (unat b mod 16) + push_bit 4 (of_nat (unat b div 16) + push_bit 4 w)"
  for b :: byte and w :: uint
proof -
  have "ucast b OR push_bit 8 w = (ucast b :: uint) + push_bit 8 w"
    by (rule disjunctive_add [symmetric]) (auto simp: bit_unsigned_iff bit_push_bit_iff dest: bit_imp_le_length)
  also have "\<dots> = of_nat (unat b mod 16 + 16 * (unat b div 16)) + push_bit 8 w" by (simp only: mod_mult_div_eq) simp
  finally show ?thesis by (simp only: of_nat_add of_nat_mult push_bit_add push_bit_push_bit) (simp add: push_bit_eq_mult)
qed

fun nibs :: "byte list \<Rightarrow> nat list" where
  "nibs [] = []"
| "nibs (b # bs) = unat b mod 16 # unat b div 16 # nibs bs"

lemma load32_digits: "load32 bs = digits (nibs bs)"
  by (induction bs) (simp_all add: nat_load)


lemma add_ne_shift: "digits (d # ds) + digits ds = digits (map2 (+) (d # ds) (ds @ [0]))"
proof (induction ds arbitrary: d)
  case (Cons e ds)
  have "digits (d # e # ds) + digits (e # ds) = of_nat (d + e) + push_bit 4 (digits (e # ds) + digits ds)"
    by (simp only: digits.simps of_nat_add push_bit_add add_ac)
  then show ?case unfolding Cons.IH by simp
qed simp

definition pc :: "byte \<Rightarrow> nat" where
  "pc b = bitsinbyte ! unat b"

lemma byte_less: "unat (b :: byte) < 256"
  using unsigned_less [of b] by simp

lemma byte_high: "unat (b :: byte) div 16 < 16"
  using byte_less [of b] by (simp add: less_mult_imp_div_less)

lemma pc_nib: "pc b = nib ! (unat b mod 16) + nib ! (unat b div 16)"
proof -
  have "\<forall>n < 256. bitsinbyte ! n = nib ! (n mod 16) + nib ! (n div 16)" by code_simp
  then show ?thesis using byte_less [of b] by (simp add: pc_def)
qed

lemma nib_le: "n < 16 \<Longrightarrow> nib ! n \<le> 4"
proof -
  have "\<forall>n < 16. nib ! n \<le> 4" by code_simp
  then show "n < 16 \<Longrightarrow> nib ! n \<le> 4" by blast
qed

lemma pc_le: "pc b \<le> 8"
  using nib_le [of "unat b mod 16"] nib_le [OF byte_high, of b] by (simp add: pc_nib)

lemma fold8_digits:
  assumes "\<forall>e \<in> {e0, e1, e2, e3, e4, e5, e6, e7}. e \<le> 4"
  shows "fold8 (digits [e0, e1, e2, e3, e4, e5, e6, e7]) =
    of_nat ((e0 + e1) + 256 * (e2 + e3) + 65536 * (e4 + e5) + 16777216 * (e6 + e7))"
proof -
  have s: "drop_bit 4 (digits [e0, e1, e2, e3, e4, e5, e6, e7]) = digits [e1, e2, e3, e4, e5, e6, e7]"
    using assms by (intro digits_shift) auto
  have d: "digits [e0, e1, e2, e3, e4, e5, e6, e7] + drop_bit 4 (digits [e0, e1, e2, e3, e4, e5, e6, e7]) =
    digits [e0 + e1, e1 + e2, e2 + e3, e3 + e4, e4 + e5, e5 + e6, e6 + e7, e7]"
    unfolding s add_ne_shift by simp
  have m: "digits (a # b # ds) AND 0x0F0F0F0F = of_nat a + push_bit 8 (digits ds AND 0x0F0F0F0F)" if "a < 16" "b < 16" for a b ds
    using that by (simp only: digits.simps) (intro mask_byte of_nat_nibble)
  show ?thesis unfolding fold8_def d using assms by (simp add: m push_bit_eq_mult algebra_simps del: digits.simps(2))
qed


text \<open>Four bytes of a word hold the counts of its bytes after the folds.\<close>

definition counts :: "byte list \<Rightarrow> nat" where
  "counts q = pc (q ! 0) + 256 * pc (q ! 1) + 65536 * pc (q ! 2) + 16777216 * pc (q ! 3)"

lemma fold_counts: "length q = 4 \<Longrightarrow> fold8 (fold4 (load32 q)) = of_nat (counts q)"
proof -
  assume "length q = 4"
  then obtain a b c d where q: "q = [a, b, c, d]" by (auto simp: numeral_eq_Suc length_Suc_conv)
  have n: "\<forall>x \<in> set (nibs q). x < 16" by (auto simp: q byte_high)
  show ?thesis unfolding load32_digits fold4_digits [OF n] unfolding q
    by (simp only: nibs.simps list.map) (subst fold8_digits; simp add: nib_le byte_high counts_def pc_nib)
qed

lemma mod_low: "r < m \<Longrightarrow> (r + m * u) mod m = r" for m :: nat
  by simp

lemma div_high: "r < m \<Longrightarrow> (r + m * u) div m = u" for m :: nat
  by simp

lemma top_byte:
  assumes "a \<le> 56" "b \<le> 56" "c \<le> 56" "d \<le> 56"
  shows "unat (drop_bit 24 (of_nat (a + 256 * b + 65536 * c + 16777216 * d) * 0x01010101 :: uint)) = a + b + c + d"
proof -
  let ?x = "a + 256 * b + 65536 * c + 16777216 * d"
  let ?r = "a + 256 * (a + b) + 65536 * (a + b + c)"
  let ?u = "(b + c + d) + 256 * (c + d) + 65536 * d"
  have "of_nat ?x * (0x01010101 :: uint) = of_nat (?x * 0x01010101)" by simp
  moreover have "?x * 0x01010101 = ?r + 16777216 * (a + b + c + d) + 4294967296 * ?u" by simp
  ultimately have "unat (of_nat ?x * 0x01010101 :: uint) = (?r + 16777216 * (a + b + c + d) + 4294967296 * ?u) mod 2 ^ LENGTH(32)"
    by (simp only: unat_of_nat)
  also have "\<dots> = ?r + 16777216 * (a + b + c + d)"
    using mod_low [of "?r + 16777216 * (a + b + c + d)" 4294967296 ?u] assms by simp
  finally have "unat (drop_bit 24 (of_nat ?x * 0x01010101 :: uint)) = (?r + 16777216 * (a + b + c + d)) div 16777216"
    by (simp only: drop_bit_eq_div unat_div_distrib) simp
  also have "\<dots> = a + b + c + d" using div_high [of ?r 16777216 "a + b + c + d"] assms by simp
  finally show ?thesis .
qed

definition total :: "byte list \<Rightarrow> nat" where
  "total q = sum_list (map pc q)"

definition column :: "byte list list \<Rightarrow> nat \<Rightarrow> nat" where
  "column qs k = sum_list (map (\<lambda>q. pc (q ! k)) qs)"

lemma column_le: "column qs k \<le> 8 * length qs"
  unfolding column_def by (induction qs) (auto intro: add_mono [OF pc_le, simplified])

lemma counts_columns:
  "sum_list (map counts qs) = column qs 0 + 256 * column qs 1 + 65536 * column qs 2 + 16777216 * column qs 3"
  by (induction qs) (simp_all add: column_def counts_def)

lemma total_columns:
  "\<forall>q \<in> set qs. length q = 4 \<Longrightarrow> total (concat qs) = column qs 0 + column qs 1 + column qs 2 + column qs 3"
proof (induction qs)
  case (Cons q qs)
  then obtain a b c d where "q = [a, b, c, d]" by (auto simp: numeral_eq_Suc length_Suc_conv)
  with Cons show ?case by (simp add: total_def column_def)
qed (simp add: total_def column_def)

lemma take_parts: "take 28 p = concat (map (\<lambda>i. take 4 (drop i p)) [0, 4, 8, 12, 16, 20, 24])"
proof -
  have "take (4 + n) xs = take 4 xs @ take n (drop 4 xs)" for n and xs :: "'a list" by (rule take_add)
  note t = this [of 24 p] this [of 20 "drop 4 p"] this [of 16 "drop 8 p"] this [of 12 "drop 12 p"] this [of 8 "drop 16 p"]
    this [of 4 "drop 20 p"]
  show ?thesis using t by simp
qed

lemma pop28_total: "28 \<le> length p \<Longrightarrow> unat (pop28 p) = total (take 28 p)"
proof -
  assume p: "28 \<le> length p"
  let ?q = "\<lambda>i. take 4 (drop i p)"
  let ?qs = "map ?q [0, 4, 8, 12, 16, 20, 24]"
  have f: "fold8 (fold4 (load32 (?q i))) = of_nat (counts (?q i))" if "i \<le> 24" for i using p that by (intro fold_counts) simp
  have "pop28 p = drop_bit 24 (of_nat (sum_list (map counts ?qs)) * 0x01010101)"
    unfolding pop28_def Let_def using f [of 0] f [of 4] f [of 8] f [of 12] f [of 16] f [of 20] f [of 24] by (simp add: add_ac)
  then have "unat (pop28 p) = column ?qs 0 + column ?qs 1 + column ?qs 2 + column ?qs 3"
    unfolding counts_columns using column_le [of ?qs] by (simp only:) (rule top_byte; simp)
  also have "\<dots> = total (concat ?qs)" using p by (intro total_columns [symmetric]) auto
  finally show ?thesis unfolding take_parts .
qed


text \<open>The number of ones of a bitmap.\<close>

definition ones :: "byte list \<Rightarrow> nat" where
  "ones s = length (filter (bmz s) [0..<8 * length s])"

lemma pc_bits: "pc c = length (filter (\<lambda>k. bit c (7 - k)) [0..<8])"
proof -
  have nb: "\<forall>n < 16. nib ! n = length (filter (bit n) [0, 1, 2, 3])" by code_simp
  have lo: "bit (unat c mod 16) k = bit c k" if "k < 4" for k
  proof -
    have "unat c mod 16 = take_bit 4 (unat c)" by (simp add: take_bit_eq_mod)
    then show ?thesis using that by (simp add: bit_take_bit_iff bit_unsigned_iff)
  qed
  have hi: "bit (unat c div 16) k = bit c (4 + k)" if "k < 4" for k
  proof -
    have "unat c div 16 = drop_bit 4 (unat c)" by (simp add: drop_bit_eq_div)
    then show ?thesis using that by (simp add: bit_drop_bit_eq bit_unsigned_iff)
  qed
  have "[0..<8] = [0, 1, 2, 3, 4, 5, 6, 7 :: nat]" by (simp add: upt_rec)
  then show ?thesis unfolding pc_nib using nb byte_high [of c] lo hi by simp
qed

lemma ones_total: "ones s = total s"
proof (induction s)
  case (Cons c p)
  have u: "[0..<8 * length (c # p)] = [0..<8] @ map (\<lambda>i. i + 8) [0..<8 * length p]"
    using upt_add_eq_append [of 0 8 "8 * length p"] unfolding map_add_upt by (simp add: add.commute del: upt_conv_Cons upt_Suc)
  have "length (filter (bmz (c # p)) [0..<8]) = pc c"
    unfolding pc_bits by (intro arg_cong [where f = length] filter_cong) (auto simp: bmz_Cons)
  moreover have "length (filter (bmz (c # p)) (map (\<lambda>i. i + 8) [0..<8 * length p])) = ones p"
    by (simp add: filter_map o_def bmz_Cons ones_def)
  ultimately show ?case using Cons unfolding ones_def u filter_append length_append by (simp add: total_def)
qed (simp add: ones_def total_def)

lemma pop_bytes_total: "pop_bytes p bits = bits + of_nat (total p)"
  by (induction p bits rule: pop_bytes.induct) (simp_all add: total_def pc_def)

lemma pop_align_total: "pop_align addr p bits = (q, bits') \<Longrightarrow> bits + of_nat (total p) = bits' + of_nat (total q)"
  by (induction addr p bits rule: pop_align.induct) (auto simp: total_def pc_def add.assoc split: if_splits)

lemma pop_words_total: "pop_words p bits = (q, bits') \<Longrightarrow> bits + of_nat (total p) = bits' + of_nat (total q)"
proof (induction p bits rule: pop_words.induct)
  case (1 p bits)
  show ?case
  proof (cases "28 \<le> length p")
    case True
    have "ucast (pop28 p) = (of_nat (total (take 28 p)) :: ulong)" unfolding pop28_total [OF True, symmetric] by simp
    moreover have "total p = total (take 28 p) + total (drop 28 p)"
      unfolding total_def by (metis append_take_drop_id map_append sum_list_append)
    moreover have "pop_words (drop 28 p) (bits + ucast (pop28 p)) = (q, bits')" using "1.prems" True by (subst (asm) pop_words.simps) simp
    ultimately show ?thesis using "1.IH" [OF True] by (simp add: add.assoc)
  next
    case False
    then show ?thesis using "1.prems" by (subst (asm) pop_words.simps) simp
  qed
qed

lemma redisPopcount_ones: "redisPopcount addr s = of_nat (ones s)"
proof -
  obtain p b where a: "pop_align addr s 0 = (p, b)" by (metis surj_pair)
  obtain q b' where w: "pop_words p b = (q, b')" by (metis surj_pair)
  show ?thesis using pop_align_total [OF a] pop_words_total [OF w]
    by (simp add: redisPopcount_def a w pop_bytes_total ones_total)
qed


lemma written_pad:
  assumes "written p k n q" "j < k \<or> k + n \<le> j"
  shows "bm (q @ replicate m 0) j = bm (p @ replicate m 0) j"
proof -
  have "length q = length p" and b: "j < 8 * length p \<Longrightarrow> bm q j = bm p j" using assms by (auto simp: written_def)
  then show ?thesis by (cases "j < 8 * length p") (simp_all add: bm_def nth_append less_mult_imp_div_less mult.commute, linarith)
qed

text \<open>A field of 1 to 63 bits inside the string, and arithmetic on signed numbers that stays inside 64 bits: the sum for
  \<^verbatim>\<open>INCRBY\<close>, and the distances from the argument of \<^verbatim>\<open>SET\<close> to both ends of the range of the field.\<close>

definition bf_room :: "bitfieldOp \<Rightarrow> byte list \<Rightarrow> bool" where
  "bf_room op p \<longleftrightarrow>
     0 < bf_bits op \<and> bf_bits op < 64 \<and> unat (bf_offset op) + bf_bits op \<le> 8 * length p \<and> unat (bf_offset op) + bf_bits op < 2 ^ 64"

definition bf_inside :: "bitfieldOp \<Rightarrow> byte list \<Rightarrow> bool" where
  "bf_inside op p \<longleftrightarrow>
     (bf_sign op \<longrightarrow>
       (if bf_opcode op = BITFIELDOP_INCRBY then - (2 ^ 63) \<le> bf_wanted op p \<and> bf_wanted op p < 2 ^ 63
        else 2 ^ (bf_bits op - 1) - 2 ^ 63 \<le> bf_i64 op \<and> bf_i64 op \<le> 2 ^ 63 - 2 ^ (bf_bits op - 1)))"

definition bf_defined :: "bitfieldOp \<Rightarrow> byte list \<Rightarrow> bool" where
  "bf_defined op p \<longleftrightarrow> bf_room op p \<and> bf_inside op p"

lemmas bf_defined_simps = bf_defined_def bf_room_def bf_inside_def

lemma bitfield_op_done:
  assumes d: "bf_defined op p" and o: "bf_opcode op \<noteq> BITFIELDOP_GET"
  shows "bf_done op p (bitfield_op junk ujunk op p)"
proof (cases "bf_sign op")
  case True
  then have "bf_done op p (signed_op junk op p)" using d by (intro signed_op_ok) (simp_all add: bf_defined_simps)
  then show ?thesis using o True by (cases "bf_opcode op") (simp_all add: bitfield_op_def)
next
  case False
  then have "bf_done op p (unsigned_op ujunk op p)" using d by (intro unsigned_op_ok) (simp_all add: bf_defined_simps)
  then show ?thesis using o False by (cases "bf_opcode op") (simp_all add: bitfield_op_def)
qed

lemma checkSigned_outside:
  assumes "0 < n" "n < 64" "v < 2 ^ (n - 1) - 2 ^ 63 \<or> 2 ^ 63 - 2 ^ (n - 1) < v"
  shows "checkSignedBitfieldOverflow v incr n ow = None"
proof -
  have mx: "(if n = 64 then Some (2 ^ 63 - 1) else if n - 1 < 63 then Some (2 ^ (n - 1) - 1) else None) = Some (2 ^ (n - 1) - 1 :: int)"
    using assms(1,2) by auto
  have p: "(2 :: int) ^ (n - 1) \<le> 2 ^ 62" "(1 :: int) \<le> 2 ^ (n - 1)" using assms(1,2) by (intro power_increasing; simp) simp
  have lim: "int64 (- (e - 1) - 1) = Some (- e)" "int64 (e - 1 - v) = None \<or> int64 (- e - v) = None"
    if "e \<le> 2 ^ 62" "1 \<le> e" "v < e - 2 ^ 63 \<or> 2 ^ 63 - e < v" for e using that by (auto simp: int64_def)
  have "int64 (- (2 ^ (n - 1) - 1) - 1) = Some (- (2 ^ (n - 1)))" using p assms(3) by (rule lim(1))
  moreover have "int64 (2 ^ (n - 1) - 1 - v) = None \<or> int64 (- (2 ^ (n - 1)) - v) = None" using p assms(3) by (rule lim(2))
  ultimately show ?thesis unfolding checkSignedBitfieldOverflow_def Let_def mx
    by (cases "int64 (2 ^ (n - 1) - 1 - v)") simp_all
qed

text \<open>What is asked for, as a number: nothing is converted.\<close>

definition bf_asked :: "bitfieldOp \<Rightarrow> byte list \<Rightarrow> int" where
  "bf_asked op p =
     (if bf_opcode op = BITFIELDOP_INCRBY then fval (bf_sign op) p (unat (bf_offset op)) (bf_bits op) + bf_i64 op else bf_i64 op)"

text \<open>\<^verbatim>\<open>SET\<close> of a negative number on an unsigned field that is to saturate.\<close>

definition sat_below :: "bitfieldOp \<Rightarrow> bool" where
  "sat_below op \<longleftrightarrow> \<not> bf_sign op \<and> bf_opcode op = BITFIELDOP_SET \<and> bf_owtype op = BFOVERFLOW_SAT \<and> bf_i64 op < 0"

lemma uint_negative:
  assumes "- (2 ^ 63) \<le> x" "x < 0"
  shows "uint (word_of_int x :: ulong) = 2 ^ 64 + x"
proof -
  have "uint (word_of_int x :: ulong) = x mod 2 ^ 64" by (simp add: uint_word_of_int)
  also have "\<dots> = (2 ^ 64 + x) mod 2 ^ 64" by simp
  also have "\<dots> = 2 ^ 64 + x" using assms by (intro mod_pos_pos_trivial) simp_all
  finally show ?thesis .
qed

lemma fit_negative:
  assumes "0 < n" "n < 64" "- (2 ^ 63) \<le> x" "x < 0"
  shows "fit False n ow (2 ^ 64 + x) = fit False n ow (if ow = BFOVERFLOW_SAT then bf_max False n else x)"
proof -
  have p: "(2 :: int) ^ n \<le> 2 ^ 63" using assms(2) by (intro power_increasing) auto
  have "(2 :: int) ^ n dvd 2 ^ 64" using assms(2) by (intro le_imp_power_dvd) simp
  then have "narrow False n (2 ^ 64 + x) = narrow False n x" by (simp add: narrow_def take_bit_eq_mod mod_add_left_eq [symmetric] del: mod_add_left_eq)
  moreover have "bf_max False n < 2 ^ 64 + x" "bf_min False n \<le> bf_max False n" "x < bf_min False n"
    using p assms(3,4) by (simp_all add: bf_max_def bf_min_def)
  ultimately show ?thesis by (cases ow) simp_all
qed

lemma bf_meets_asked:
  assumes "bf_room op p" "bf_opcode op \<noteq> BITFIELDOP_GET" "- (2 ^ 63) \<le> bf_i64 op" "bf_i64 op < 2 ^ 63"
  shows "bf_meets op p (bf_wanted op p) r = bf_meets op p (if sat_below op then bf_max False (bf_bits op) else bf_asked op p) r"
proof (cases "bf_sign op \<or> bf_opcode op = BITFIELDOP_INCRBY \<or> 0 \<le> bf_i64 op")
  case True
  then have "bf_wanted op p = bf_asked op p" "\<not> sat_below op"
    using assms(2,4) by (auto simp: bf_wanted_def bf_asked_def sat_below_def uint_word_of_int_eq take_bit_int_eq_self_iff)
  then show ?thesis by simp
next
  case False
  then have op: "bf_opcode op = BITFIELDOP_SET" "\<not> bf_sign op" "bf_i64 op < 0" using assms(2) by (cases "bf_opcode op"; simp)+
  have "fit False (bf_bits op) (bf_owtype op) (bf_wanted op p) =
      fit False (bf_bits op) (bf_owtype op) (if sat_below op then bf_max False (bf_bits op) else bf_asked op p)"
    using fit_negative [of "bf_bits op" "bf_i64 op" "bf_owtype op"] uint_negative [of "bf_i64 op"] assms(1,3) op
    by (simp add: bf_room_def bf_wanted_def bf_asked_def sat_below_def)
  then show ?thesis using op(2) by (simp add: bf_meets_def)
qed

text \<open>Outside of these bounds the C code is undefined.\<close>

lemma bitfield_op_outside:
  assumes "bf_room op p" "bf_opcode op \<noteq> BITFIELDOP_GET" "\<not> bf_inside op p"
  shows "bitfield_op junk ujunk op p = None"
proof -
  let ?old = "fval True p (unat (bf_offset op)) (bf_bits op)"
  have s: "bf_sign op" using assms(3) by (auto simp: bf_inside_def)
  have n: "0 < bf_bits op" "bf_bits op < 64" using assms(1) by (simp_all add: bf_room_def)
  have g: "getSignedBitfield p (bf_offset op) (bf_bits op) = Some ?old" using assms(1) by (intro getSigned_ok) (simp_all add: bf_room_def)
  have "signed_op junk op p = None"
  proof (cases "bf_opcode op = BITFIELDOP_INCRBY")
    case True
    then have "int64 (?old + bf_i64 op) = None" using assms(3) s by (auto simp: bf_inside_def bf_wanted_def int64_def)
    then show ?thesis using g True by (simp add: signed_op_def)
  next
    case False
    then have "checkSignedBitfieldOverflow (bf_i64 op) 0 (bf_bits op) (bf_owtype op) = None"
      using checkSigned_outside [OF n] assms(3) s by (auto simp: bf_inside_def)
    then show ?thesis using g False by (simp add: signed_op_def)
  qed
  then show ?thesis using assms(2) s by (cases "bf_opcode op") (simp_all add: bitfield_op_def)
qed

lemma getSigned_64:
  assumes "unat offset + 64 \<le> 8 * length p" "unat offset + 64 < 2 ^ 64"
  shows "getSignedBitfield p offset 64 = (if bm p (unat offset) then None else Some (sint (field p (unat offset) 64)))"
proof -
  let ?u = "field p (unat offset) 64"
  have "getUnsignedBitfield p offset 64 = Some ?u" using assms by (intro getUnsigned_ok) simp_all
  moreover have "?u AND push_bit 63 1 \<noteq> 0 \<longleftrightarrow> bm p (unat offset)" using mask_one [of 63 ?u] by (simp add: bit_field)
  ultimately show ?thesis by (simp add: getSignedBitfield_def shl_def)
qed

lemma checkSigned_64:
  assumes "- (2 ^ 63) \<le> v" "v < 2 ^ 63" "- (2 ^ 63) \<le> incr" "incr < 2 ^ 63"
  shows "checkSignedBitfieldOverflow v incr 64 ow = (if v = 0 then Some (0, None) else None)"
  using assms by (auto simp: checkSignedBitfieldOverflow_def int64_def Let_def)

lemma signed_op_64:
  assumes "bf_bits op = 64" "unat (bf_offset op) + 64 \<le> 8 * length p" "unat (bf_offset op) + 64 < 2 ^ 64"
    and "- (2 ^ 63) \<le> bf_i64 op" "bf_i64 op < 2 ^ 63"
  shows "signed_op junk op p \<noteq> None \<longleftrightarrow>
    \<not> bm p (unat (bf_offset op)) \<and> (if bf_opcode op = BITFIELDOP_INCRBY then field p (unat (bf_offset op)) 64 = 0 else bf_i64 op = 0)"
proof (cases "bm p (unat (bf_offset op))")
  case True
  then show ?thesis using getSigned_64 [OF assms(2,3)] assms(1) by (simp add: signed_op_def)
next
  case False
  let ?old = "sint (field p (unat (bf_offset op)) 64)"
  have g: "getSignedBitfield p (bf_offset op) 64 = Some ?old" using getSigned_64 [OF assms(2,3)] False by simp
  have old: "- (2 ^ 63) \<le> ?old" "?old < 2 ^ 63" using sint_greater_eq [of "field p (unat (bf_offset op)) 64"] sint_less [of "field p (unat (bf_offset op)) 64"] by simp_all
  have z: "?old = 0 \<longleftrightarrow> field p (unat (bf_offset op)) 64 = 0" by (simp add: signed_eq_0_iff)
  obtain q where s: "setSignedBitfield p (bf_offset op) 64 (bf_i64 op) = Some q"
    unfolding setSignedBitfield_def using setUnsigned_ok [of 64 "bf_offset op" p "word_of_int (bf_i64 op)"] assms(2,3) by auto
  have i: "int64 (bf_i64 op) = Some (bf_i64 op)" using assms(4,5) by (simp add: int64_def)
  show ?thesis
  proof (cases "bf_opcode op = BITFIELDOP_INCRBY")
    case True
    then show ?thesis using False g assms(1) checkSigned_64 [OF old assms(4,5), of "bf_owtype op"] z i s
      by (cases "?old = 0"; cases "int64 (?old + bf_i64 op)") (auto simp: signed_op_def)
  next
    case Set: False
    then show ?thesis using False g assms(1) checkSigned_64 [OF assms(4,5), of 0 "bf_owtype op"] s
      by (cases "bf_i64 op = 0") (auto simp: signed_op_def)
  qed
qed

section \<open>Properties\<close>

text \<open>C13. Counting. \<^verbatim>\<open>redisPopcount\<close>, with its table for single bytes and its folds of seven 32-bit words at a time, gives the
  number of ones of the bitmap, wherever the bitmap is in memory.\<close>

theorem redisPopcount_counts: "redisPopcount addr s = of_nat (ones s)"
  by (rule redisPopcount_ones)

text \<open>C17. Finding. \<^verbatim>\<open>redisBitpos\<close> never reaches its panic. It gives the position of the first bit of the given value, where a
  zero after the end counts, and \<open>-1\<close> when a one is looked for in a bitmap of zeroes.\<close>

theorem redisBitpos_first: "redisBitpos addr s bt = Some (bitpos_spec bt s)"
  by (rule redisBitpos_ok)

text \<open>C12. Operations on fields. For a field of 1 to 63 bits inside the string and a 64-bit argument, \<^verbatim>\<open>SET\<close> and \<^verbatim>\<open>INCRBY\<close> of
  \<^verbatim>\<open>BITFIELD\<close> are defined in C exactly when the signed arithmetic stays inside 64 bits: always on unsigned fields, on signed ones
  when the sum of \<^verbatim>\<open>INCRBY\<close> does, and for \<^verbatim>\<open>SET\<close> when the argument is between \<open>2 ^ (n - 1) - 2 ^ 63\<close> and \<open>2 ^ 63 - 2 ^ (n - 1)\<close>.
  Then they write the number asked for as the overflow type says: modulo the size of the field, at the nearest end of
  its range, or not at all with a null reply. The exception is a negative number that an unsigned field is set to with saturation: it
  becomes the largest number of the field, not 0. The reply is the old number of the field for \<^verbatim>\<open>SET\<close> and the new one for \<^verbatim>\<open>INCRBY\<close>, and no
  other bit changes.\<close>

theorem bitfield_op_refines:
  assumes "bf_room op p" "bf_opcode op \<noteq> BITFIELDOP_GET" "- (2 ^ 63) \<le> bf_i64 op" "bf_i64 op < 2 ^ 63"
  shows "(bitfield_op junk ujunk op p \<noteq> None \<longleftrightarrow> bf_inside op p) \<and>
    (bf_inside op p \<longrightarrow>
      bf_meets op p (if sat_below op then bf_max False (bf_bits op) else bf_asked op p) (bitfield_op junk ujunk op p))"
proof (cases "bf_inside op p")
  case True
  then have "bf_done op p (bitfield_op junk ujunk op p)"
    using assms(1,2) by (intro bitfield_op_done) (simp_all add: bf_defined_def)
  then show ?thesis using True bf_meets_asked [OF assms] by (auto simp: bf_meets_def Let_def split: option.splits)
next
  case False
  then show ?thesis using bitfield_op_outside [OF assms(1,2)] by simp
qed

text \<open>An increment of the four bits after the first two, which hold 9, by 10 as an unsigned and a saturated number; and the same field
  set to a negative number.\<close>

definition sat_op :: bitfieldOp where
  "sat_op = \<lparr>bf_offset = 2, bf_i64 = 10, bf_opcode = BITFIELDOP_INCRBY, bf_owtype = BFOVERFLOW_SAT, bf_bits = 4, bf_sign = False\<rparr>"

theorem bitfield_op_refines_witness:
  "bf_meets sat_op [0xa7] 19 (bitfield_op 0 0 sat_op [0xa7]) \<and> bitfield_op 0 0 sat_op [0xa7] = Some (Some 15, [0xbf]) \<and>
   bf_meets (sat_op\<lparr>bf_opcode := BITFIELDOP_SET, bf_i64 := -1\<rparr>) [0xa7] 15
     (bitfield_op 0 0 (sat_op\<lparr>bf_opcode := BITFIELDOP_SET, bf_i64 := -1\<rparr>) [0xa7])"
proof (intro conjI)
  have "bf_asked sat_op [0xa7] = 19" by code_simp
  then show "bf_meets sat_op [0xa7] 19 (bitfield_op 0 0 sat_op [0xa7])"
    using bitfield_op_refines [of sat_op "[0xa7]" 0 0] by (simp add: sat_op_def bf_room_def bf_inside_def sat_below_def)
  show "bitfield_op 0 0 sat_op [0xa7] = Some (Some 15, [0xbf])" by code_simp
  show "bf_meets (sat_op\<lparr>bf_opcode := BITFIELDOP_SET, bf_i64 := -1\<rparr>) [0xa7] 15
     (bitfield_op 0 0 (sat_op\<lparr>bf_opcode := BITFIELDOP_SET, bf_i64 := -1\<rparr>) [0xa7])"
    using bitfield_op_refines [of "sat_op\<lparr>bf_opcode := BITFIELDOP_SET, bf_i64 := -1\<rparr>" "[0xa7]" 0 0]
    by (simp add: sat_op_def bf_room_def bf_inside_def sat_below_def bf_max_def)
qed

text \<open>C22. Reading back. After a \<^verbatim>\<open>SET\<close> or an \<^verbatim>\<open>INCRBY\<close> that replied with a number, \<^verbatim>\<open>GET\<close> of the field gives the number written, and
  \<^verbatim>\<open>GET\<close> of a field that has no bit in common with it, also past the end of the string, gives what it gave before.\<close>

theorem bitfield_get_after_set:
  assumes "bf_defined op p" "bf_opcode op \<noteq> BITFIELDOP_GET" "bitfield_op junk ujunk op p = Some (Some reply, q)"
    and "0 < bf_bits g" "bf_bits g < 64" "bf_opcode g = BITFIELDOP_GET"
  shows "(bf_offset g = bf_offset op \<and> bf_bits g = bf_bits op \<and> bf_sign g = bf_sign op \<longrightarrow>
      (\<exists>x. fit (bf_sign op) (bf_bits op) (bf_owtype op) (bf_wanted op p) = Some x \<and>
        bitfield_op junk ujunk g q = Some (Some x, q))) \<and>
    (unat (bf_offset g) + bf_bits g \<le> unat (bf_offset op) \<or> unat (bf_offset op) + bf_bits op \<le> unat (bf_offset g) \<longrightarrow>
      (\<exists>v. bitfield_op junk ujunk g p = Some (Some v, p) \<and> bitfield_op junk ujunk g q = Some (Some v, q)))"
proof -
  obtain x where x: "fit (bf_sign op) (bf_bits op) (bf_owtype op) (bf_wanted op p) = Some x"
    "written p (unat (bf_offset op)) (bf_bits op) q" "fval (bf_sign op) q (unat (bf_offset op)) (bf_bits op) = x"
    using bitfield_op_done [OF assms(1,2), of junk ujunk] assms(3) by (auto simp: bf_meets_def Let_def split: option.splits)
  have get: "bitfield_op junk ujunk g s = Some (Some v, s)" if "get_op g s = Some v" for s v
    using assms(6) that by (simp add: bitfield_op_def)
  have same: "bitfield_op junk ujunk g q = Some (Some x, q)"
    if "bf_offset g = bf_offset op" "bf_bits g = bf_bits op" "bf_sign g = bf_sign op"
    using that assms(1) x(2,3) get_op_ok [OF assms(4,5), of q 0] by (intro get) (simp add: written_def bf_defined_simps)
  let ?m = "unat (bf_offset g) + bf_bits g"
  have o: "get_op g s = Some (fval (bf_sign g) (s @ replicate ?m 0) (unat (bf_offset g)) (bf_bits g))" for s
    by (rule get_op_ok [OF assms(4,5)]) simp
  have other: "fval (bf_sign g) (q @ replicate ?m 0) (unat (bf_offset g)) (bf_bits g) =
      fval (bf_sign g) (p @ replicate ?m 0) (unat (bf_offset g)) (bf_bits g)"
    if "?m \<le> unat (bf_offset op) \<or> unat (bf_offset op) + bf_bits op \<le> unat (bf_offset g)"
    using that written_pad [OF x(2), of _ ?m] unfolding fval_def
    by (intro arg_cong [where f = "\<lambda>w. narrow _ _ (uint w)"] field_cong) auto
  show ?thesis using x(1) same get [OF o] other by auto
qed

definition get_op_of :: "ulong \<Rightarrow> nat \<Rightarrow> bitfieldOp" where
  "get_op_of offset bits =
     \<lparr>bf_offset = offset, bf_i64 = 0, bf_opcode = BITFIELDOP_GET, bf_owtype = BFOVERFLOW_WRAP, bf_bits = bits, bf_sign = False\<rparr>"

theorem bitfield_get_after_set_witness:
  "bitfield_op 0 0 sat_op [0xa7] = Some (Some 15, [0xbf]) \<and> bitfield_op 0 0 (get_op_of 2 4) [0xbf] = Some (Some 15, [0xbf]) \<and>
   (\<exists>v. bitfield_op 0 0 (get_op_of 6 8) [0xa7] = Some (Some v, [0xa7]) \<and> bitfield_op 0 0 (get_op_of 6 8) [0xbf] = Some (Some v, [0xbf]))"
proof -
  have d: "bf_defined sat_op [0xa7]" "bf_opcode sat_op \<noteq> BITFIELDOP_GET" by (simp_all add: sat_op_def bf_defined_simps)
  have r: "bitfield_op 0 0 sat_op [0xa7] = Some (Some 15, [0xbf])" by code_simp
  have "fit (bf_sign sat_op) (bf_bits sat_op) (bf_owtype sat_op) (bf_wanted sat_op [0xa7]) = Some 15" by code_simp
  then show ?thesis
    using r bitfield_get_after_set [OF d r, of "get_op_of 2 4"] bitfield_get_after_set [OF d r, of "get_op_of 6 8"]
    by (simp add: sat_op_def get_op_of_def)
qed

text \<open>C35. Fields of 64 signed bits. On such a field the operations are undefined in C for all but one number: reading one whose
  first bit is set shifts by 64, and the overflow check of any number but 0 leaves the range of \<^verbatim>\<open>int64_t\<close>. \<^verbatim>\<open>SET\<close> is defined only
  for 0 and \<^verbatim>\<open>INCRBY\<close> only on a field that holds 0.\<close>

theorem bitfield_i64_undefined:
  assumes "bf_sign op" "bf_bits op = 64" "bf_opcode op \<noteq> BITFIELDOP_GET"
    and "unat (bf_offset op) + 64 \<le> 8 * length p" "unat (bf_offset op) + 64 < 2 ^ 64"
    and "- (2 ^ 63) \<le> bf_i64 op" "bf_i64 op < 2 ^ 63"
  shows "bitfield_op junk ujunk op p \<noteq> None \<longleftrightarrow>
    \<not> bm p (unat (bf_offset op)) \<and> (if bf_opcode op = BITFIELDOP_INCRBY then field p (unat (bf_offset op)) 64 = 0 else bf_i64 op = 0)"
proof -
  have "bitfield_op junk ujunk op p = signed_op junk op p" using assms(1,3) by (cases "bf_opcode op") (simp_all add: bitfield_op_def)
  then show ?thesis using signed_op_64 [OF assms(2,4-7)] by simp
qed

definition set_i64 :: "int \<Rightarrow> bitfieldOp" where
  "set_i64 x = \<lparr>bf_offset = 0, bf_i64 = x, bf_opcode = BITFIELDOP_SET, bf_owtype = BFOVERFLOW_WRAP, bf_bits = 64, bf_sign = True\<rparr>"

theorem bitfield_i64_undefined_witness:
  "bitfield_op 0 0 (set_i64 1) (replicate 8 0) = None \<and> bitfield_op 0 0 (set_i64 0) (replicate 8 0) \<noteq> None"
  using bitfield_i64_undefined [of "set_i64 1" "replicate 8 0" 0 0] bitfield_i64_undefined [of "set_i64 0" "replicate 8 0" 0 0]
  by (simp add: set_i64_def bm_def del: not_None_eq)

end
