(* ===== verification/Spec2Isabelle.thy ===== *)
theory Spec2Isabelle
  imports Dict_Correct Dict_Scan Dict_Iter Intset_Correct Numstr_Correct Glob_Correct Bloom_Correct
    Set_Commands_Correct Slowlog Max_Heap Search_Tree LRU_Cache
    Zset_Correct Crc_Correct Bitops_Correct
begin

text \<open>
  Verification of the core data structures of the sources in this repository: those of the Redis server under
  \<^verbatim>\<open>redis/src\<close>, and the data structures and sorting programs of the author under \<^verbatim>\<open>code\<close> and \<^verbatim>\<open>DS&Algo/src\<close>.

  \<^bold>\<open>The program.\<close> A Redis server keeps values in hash tables (\<^verbatim>\<open>dict.c\<close>). A set value is an array of integers (\<^verbatim>\<open>intset.c\<close>) or
  a hash table, and the commands of \<^verbatim>\<open>t_set.c\<close> work on a keyspace of such values. A sorted set is a hash table together
  with a skip list (\<^verbatim>\<open>t_zset.c\<close>). Numbers travel as text (\<^verbatim>\<open>util.c\<close>, \<^verbatim>\<open>sds.c\<close>), patterns are matched by \<^verbatim>\<open>stringmatchlen\<close>,
  slow commands are kept in a linked list (\<^verbatim>\<open>slowlog.c\<close> over \<^verbatim>\<open>adlist.c\<close>), keys are spread over hash slots by \<^verbatim>\<open>crc16.c\<close>,
  files carry the checksum of \<^verbatim>\<open>crc64.c\<close>, and bit fields live in strings (\<^verbatim>\<open>bitops.c\<close>). The author's own collection has sorting
  programs, a search tree, a heap, a Bloom filter and a cache.

  \<^bold>\<open>Conventions.\<close> Machine integers are words of their width (\<open>byte\<close>, \<open>uint\<close>, \<open>ulong\<close>) or integers with explicit range
  checks. An operation that may leave an object, fail an assertion, overflow a signed number or run forever returns an
  option, and \<^const>\<open>None\<close> is that event; a theorem that gives its value \<^term>\<open>Some r\<close> is therefore also a theorem of safety
  and termination. Loops are recursions of their own, structural, with a measure, or as partial functions into
  \<^typ>\<open>'a option\<close>. Pointer structures are modelled over an explicit store. Callbacks, random numbers, clocks, fresh
  addresses and the contents of uninitialised memory are parameters.

  \<^bold>\<open>Theories.\<close> A theory X holds a model, X_Correct its lemmas and properties.

  \<^item> Prelude, Bytes: types, the convention for failure, memory as byte lists, little-endian numbers.
  \<^item> Dict, Dict_Correct: the two tables of \<^verbatim>\<open>dict.c\<close> with incremental rehashing. \<open>dict_inv\<close> is the invariant and \<open>dict_map\<close> the map
    from classes of equal keys to values; lookup, addition, replacement, deletion, clearing and rehashing are shown to
    refine the operations on that map. Dict_Scan: the cursor of \<^verbatim>\<open>dictScan\<close> reports every element present throughout, under
    any resizing between the calls. Dict_Iter: iterators, safe and unsafe.
  \<^item> Intset, Intset_Correct: \<^verbatim>\<open>intset.c\<close> on the bytes of its allocation; \<open>is_inv\<close> says that they are a strictly sorted array,
    \<open>is_set\<close> is the set; search, insertion with and without an upgrade of the encoding, and removal.
  \<^item> Set_Type, Set_Spec, Set_Correct: the \<^verbatim>\<open>setType*\<close> functions over both encodings meet the interface \<open>set_impl\<close>.
    Set_Commands, Set_Commands_Correct: the commands of \<^verbatim>\<open>t_set.c\<close> over a keyspace refine operations on abstract sets.
  \<^item> Skiplist: the skip list of \<^verbatim>\<open>t_zset.c\<close> over a store. Skiplist_Levels: a list of addresses and heights determines the links and
    spans of every level. Skiplist_Insert, Skiplist_Delete, Skiplist_Search: the representation \<open>zsl_rep\<close> of a sorted list of nodes, and every
    operation on it. Skiplist_Correct: deletion of ranges together with the hash table, histories, and the properties.
  \<^item> Zset, Zset_Correct: a sorted set in its skip list encoding. \<open>zset_rep\<close> ties the hash table to the nodes of the skip list; \<^verbatim>\<open>zsetAdd\<close>, \<^verbatim>\<open>zsetDel\<close>,
    \<^verbatim>\<open>zsetScore\<close> and \<^verbatim>\<open>zsetRank\<close> refine a finite map from elements to scores with its order by score and element. The loop of
    \<^verbatim>\<open>zremCommand\<close> is verified against the interface \<open>zset_store\<close>.
  \<^item> Adlist, Adlist_Correct: the doubly linked lists of \<^verbatim>\<open>adlist.c\<close> over a store, as segments of nodes. Slowlog: a client of them.
  \<^item> Numstr, Numstr_Correct: conversions between integers and text write the canonical decimal text and accept nothing else.
  \<^item> Glob, Glob_Correct: \<^verbatim>\<open>stringmatchlen\<close> decides the language of a pattern, read as tokens, on non-empty strings.
  \<^item> Crc, Crc_Correct: the table-driven checksum of eight bytes at a time equals the one computed bit by bit; hash slots.
  \<^item> Bitops: \<^verbatim>\<open>redisPopcount\<close>, \<^verbatim>\<open>redisBitpos\<close>, the bit fields, overflow checks and operations of \<^verbatim>\<open>BITFIELD\<close> in \<^verbatim>\<open>bitops.c\<close>. Bitops_Fields: fields
    as numbers in a bitmap (\<open>fval\<close>) and what an operation does to them (\<open>bf_done\<close>). Bitops_Search: \<^verbatim>\<open>redisBitpos\<close> finds the first bit.
    Bitops_Correct: \<^verbatim>\<open>redisPopcount\<close> by hexadecimal digits, and the properties.
  \<^item> Bloom, Bloom_Correct: \<^verbatim>\<open>DS&Algo/src/Bloom_filter/bloom_filter.hpp\<close> has no false negatives through unions, intersections
    and compressions; the virtual method \<^verbatim>\<open>compute_indices\<close> is the interface \<open>bloom_indexing\<close>.
  \<^item> Sorts, Sorts_Correct: six sorting programs meet the contract \<open>sorting\<close> and hence agree; bubble sort changes nothing. Search_Tree, Max_Heap, LRU_Cache: the
    data structures of \<^verbatim>\<open>DS&Algo/src\<close> against sets, multisets and a list in order of use.

  \<^bold>\<open>Bounds.\<close> Hash tables have fewer than \<open>2 ^ 58\<close> entries (\<open>dict_small\<close>), which no address space exceeds, so that no size computation
    wraps. Sets have at most \<open>2 ^ 28 - 2\<close> elements (\<open>set_cap\<close>), the most an intset of 64-bit numbers holds in 32-bit sizes. A skip
    list has fewer than \<open>2 ^ 32 - 1\<close> nodes when one is inserted, since \<^verbatim>\<open>zslInsert\<close> keeps ranks in 32 bits; the choice of
    a level ends when some draw ends it, which is a hypothesis. Arrays to be sorted have at most \<open>2 ^ 30\<close> elements,
    beyond which the index computations of heap sort and quick sort can overflow. \<^verbatim>\<open>dictRehash\<close> is called with a number of steps whose
    tenfold is an \<^verbatim>\<open>int\<close>. Patterns and strings of \<^verbatim>\<open>stringmatchlen\<close> have lengths that fit an \<^verbatim>\<open>int\<close>; when it ignores case, the classes are those
    of \<open>plain_token\<close>, where folding the case of both ends of a range is right.
    The smallest 64-bit integer is excluded where \<^verbatim>\<open>sdsfromlonglong\<close> overflows on it. Scores are a linear order: doubles
    that are not NaN, with equal doubles identified. Bit fields have at
    most 63 bits, since signed ones of 64 are undefined. Keys of the keyspace have no time to live.

  \<^bold>\<open>Not modelled.\<close> Ziplists, listpacks, quicklists, radix trees and streams, and with them the ziplist encoding of sorted sets and
    hashes; random sampling of sets and hash tables; floating point (parsing and printing of doubles, HyperLogLog
    estimates, geohashes); SHA, SipHash and compression, of which the hash function is a parameter; the event loop,
    networking, replication, persistence, cluster messages, sentinel, scripting, modules and the command line tools,
    which are input and output, threads and system calls; the excerpts of MySQL and MariaDB, fragments of servers whose
    other files are not here; and the thread pool and channels, which rest on threads and condition variables.
\<close>

end
